(* ===== verification/Prelude.thy ===== *)
theory Prelude
  imports Main "HOL-Library.Word"
begin

text \<open>
  Shared vocabulary of the development: the machine integer types of the kernel, the
  counted search loop of C as a recursive function, the outcome of a system call that may
  give up the processor, and the list of the occupied slots of a ring buffer with the
  lemmas that the PCB queue, the pipe buffer and the semaphore waiting list share.
\<close>

unbundle bit_operations_syntax

section \<open>Machine integers\<close>

type_synonym u8 = "8 word"
type_synonym u16 = "16 word"
type_synonym u32 = "32 word"
type_synonym u64 = "64 word"

text \<open>Clearing the low bits is rounding down.\<close>

lemma and_not_mask_eq: "(w :: 'a::len word) AND NOT (mask n) = w - take_bit n w"
proof -
  have "w = (w AND NOT (mask n)) OR take_bit n w"
    by (rule bit_word_eqI) (auto simp: bit_simps)
  also have "\<dots> = (w AND NOT (mask n)) + take_bit n w"
    by (rule disjunctive_add [symmetric]) (auto simp: bit_simps)
  finally show ?thesis by (metis add_diff_cancel_right')
qed

lemma unat_and_not_mask: "unat ((w :: 'a::len word) AND NOT (mask n)) = unat w - unat w mod 2 ^ n"
proof -
  have "unat (take_bit n w) = unat w mod 2 ^ n"
    by (simp add: unsigned_take_bit_eq flip: take_bit_eq_mod)
  moreover have "take_bit n w \<le> w"
    using calculation by (simp add: word_le_nat_alt)
  ultimately show ?thesis by (simp add: and_not_mask_eq unat_sub)
qed

text \<open>Collections the component theories add to.\<close>

named_theorems kernel_defs \<open>definitions of one-step kernel operations\<close>
named_theorems ring_simps \<open>ring buffer rewriting\<close>

section \<open>Counted search loops\<close>

text \<open>
  The loop \<open>for (i = lo; i < n; i++) if (p(i)) return i;\<close>, with \<open>None\<close> when it falls
  through.
\<close>

function find_from :: "(nat \<Rightarrow> bool) \<Rightarrow> nat \<Rightarrow> nat \<Rightarrow> nat option" where
  "find_from p i n = (if i < n then if p i then Some i else find_from p (Suc i) n else None)"
  by pat_completeness auto
termination
  by (relation "measure (\<lambda>(p, i, n). n - i)") auto

declare find_from.simps [simp del]

lemma find_from_SomeD:
  "find_from p i n = Some j \<Longrightarrow> i \<le> j \<and> j < n \<and> p j \<and> (\<forall>m. i \<le> m \<longrightarrow> m < j \<longrightarrow> \<not> p m)"
proof (induction p i n rule: find_from.induct)
  case (1 p i n)
  from "1.prems" have lt: "i < n"
    by (simp add: find_from.simps [of p i n] split: if_splits)
  show ?case
  proof (cases "p i")
    case True
    with "1.prems" lt show ?thesis by (simp add: find_from.simps [of p i n])
  next
    case False
    with "1.prems" lt have "find_from p (Suc i) n = Some j"
      by (simp add: find_from.simps [of p i n])
    then have "Suc i \<le> j \<and> j < n \<and> p j \<and> (\<forall>m. Suc i \<le> m \<longrightarrow> m < j \<longrightarrow> \<not> p m)"
      using "1.IH" lt False by blast
    with False show ?thesis by (metis Suc_leD not_less_eq_eq le_antisym)
  qed
qed

lemma find_from_NoneD: "find_from p i n = None \<Longrightarrow> i \<le> m \<Longrightarrow> m < n \<Longrightarrow> \<not> p m"
proof (induction p i n rule: find_from.induct)
  case (1 p i n)
  from "1.prems" have lt: "i < n" by simp
  with "1.prems"(1) have np: "\<not> p i" and rest: "find_from p (Suc i) n = None"
    by (simp_all add: find_from.simps [of p i n] split: if_splits)
  show ?case
  proof (cases "m = i")
    case False
    with "1.prems" have "Suc i \<le> m" by simp
    with "1.IH" lt np rest "1.prems"(3) show ?thesis by blast
  qed (use np in simp)
qed

lemma find_from_SomeI:
  assumes "i \<le> j" "j < n" "p j" "\<And>m. i \<le> m \<Longrightarrow> m < j \<Longrightarrow> \<not> p m"
  shows "find_from p i n = Some j"
proof (cases "find_from p i n")
  case None
  with assms show ?thesis using find_from_NoneD by blast
next
  case (Some k)
  then have k: "i \<le> k" "k < n" "p k" "\<forall>m. i \<le> m \<longrightarrow> m < k \<longrightarrow> \<not> p m"
    using find_from_SomeD by blast+
  with assms have "k = j" by (metis nat_neq_iff)
  with Some show ?thesis by simp
qed

lemma find_from_NoneI: "(\<And>m. i \<le> m \<Longrightarrow> m < n \<Longrightarrow> \<not> p m) \<Longrightarrow> find_from p i n = None"
  by (cases "find_from p i n") (auto dest: find_from_SomeD)

lemma find_from_cong:
  "(\<And>m. i \<le> m \<Longrightarrow> m < n \<Longrightarrow> p m = q m) \<Longrightarrow> find_from p i n = find_from q i n"
proof (induction p i n rule: find_from.induct)
  case (1 p i n)
  then show ?case
    by (simp add: find_from.simps [of p i n] find_from.simps [of q i n])
qed

section \<open>Calls that may give up the processor\<close>

text \<open>
  A kernel call either runs to its end or stops inside \<open>call_int_20\<close>, which lets the
  scheduler run another process. \<open>Suspended\<close> carries the state at that point and what
  the call still has to do when its process is scheduled again.
\<close>

datatype ('s, 'c, 'r) outcome = Returned 's 'r | Suspended 's 'c

section \<open>Rings\<close>

text \<open>
  The \<open>n\<close> occupied slots of a ring of \<open>N\<close> slots, oldest first, when the oldest is at
  \<open>t\<close>.
\<close>

definition ring_list :: "(nat \<Rightarrow> 'a) \<Rightarrow> nat \<Rightarrow> nat \<Rightarrow> nat \<Rightarrow> 'a list" where
  "ring_list f N t n = map (\<lambda>j. f ((t + j) mod N)) [0..<n]"

lemma length_ring_list [simp]: "length (ring_list f N t n) = n"
  by (simp add: ring_list_def)

lemma ring_list_0 [simp]: "ring_list f N t 0 = []"
  by (simp add: ring_list_def)

lemma ring_list_eq_Nil [simp]: "ring_list f N t n = [] \<longleftrightarrow> n = 0"
  by (simp add: ring_list_def)

lemma ring_list_nth: "j < n \<Longrightarrow> ring_list f N t n ! j = f ((t + j) mod N)"
  by (simp add: ring_list_def)

lemma ring_list_Suc:
  "ring_list f N t (Suc n) = ring_list f N t n @ [f ((t + n) mod N)]"
  by (simp add: ring_list_def)

lemma ring_list_Cons:
  assumes "t < N"
  shows "ring_list f N t (Suc n) = f t # ring_list f N (Suc t mod N) n"
proof -
  have "map (\<lambda>j. f ((t + j) mod N)) [1..<Suc n]
      = map (\<lambda>j. f ((Suc t mod N + j) mod N)) [0..<n]"
    by (rule nth_equalityI) (auto simp: mod_add_left_eq simp del: upt_Suc)
  moreover have "[0..<Suc n] = 0 # [1..<Suc n]"
    by (simp add: upt_conv_Cons del: upt_Suc)
  ultimately show ?thesis using assms by (simp add: ring_list_def del: upt_Suc)
qed

text \<open>Writing a slot outside the occupied ones changes nothing that is read.\<close>

lemma ring_index_inj:
  assumes "j < N" "k < N" "(t + j) mod N = (t + k) mod (N::nat)"
  shows "j = k"
proof -
  have "\<And>a b. a < N \<Longrightarrow> b < N \<Longrightarrow> a \<le> b \<Longrightarrow> (t + a) mod N = (t + b) mod N \<Longrightarrow> a = b"
  proof -
    fix a b assume h: "a < N" "b < N" "a \<le> b" "(t + a) mod N = (t + b) mod N"
    then have "N dvd (t + b) - (t + a)"
      by (metis add_le_cancel_left mod_eq_dvd_iff_nat)
    then have "N dvd b - a" by simp
    with h show "a = b" by (metis diff_is_0_eq dual_order.antisym less_imp_diff_less nat_dvd_not_less neq0_conv)
  qed
  with assms show ?thesis by (metis nat_le_linear)
qed

lemma ring_list_upd_free:
  assumes "n \<le> k" "k < N"
  shows "ring_list (f((t + k) mod N := x)) N t n = ring_list f N t n"
  using assms by (auto simp: ring_list_def dest: ring_index_inj [rotated 2])

lemma ring_list_push:
  assumes "n < N"
  shows "ring_list (f((t + n) mod N := x)) N t (Suc n) = ring_list f N t n @ [x]"
  using assms by (simp add: ring_list_Suc ring_list_upd_free)

lemma set_ring_list: "set (ring_list f N t n) = (\<lambda>j. f ((t + j) mod N)) ` {..<n}"
  by (simp add: ring_list_def lessThan_atLeast0)

text \<open>The ring arithmetic, for any number of slots.\<close>

lemma ring_count_push:
  assumes "c < N" "l < N" "(l + N - c) mod N < N - 1"
  shows "(Suc l mod N + N - c) mod N = Suc ((l + N - c) mod (N::nat))"
  using assms by (auto simp: mod_if split: if_splits)

lemma ring_count_pop:
  assumes "c < N" "l < N" "(l + N - c) mod N \<noteq> 0"
  shows "Suc ((l + N - Suc c mod N) mod N) = (l + N - c) mod (N::nat)"
  using assms by (auto simp: mod_if split: if_splits)

lemma ring_count_last:
  assumes "c < N" "l < N"
  shows "(c + (l + N - c) mod N) mod N = (l::nat)"
  using assms by (auto simp: mod_if split: if_splits)

lemmas ring_lemmas = ring_list_push ring_list_Cons ring_list_nth

end
