(* ===== verification/Allocator.thy ===== *)
theory Allocator
  imports Prelude
begin

text \<open>
  The interface of the kernel heap. Kernel/memory-manager holds two implementations of
  memory-manager.h, chosen when the kernel is built; both serve the same clients.
\<close>

definition blocks_disjoint :: "nat \<times> nat \<Rightarrow> nat \<times> nat \<Rightarrow> bool" where
  "blocks_disjoint b c \<longleftrightarrow> fst b + snd b \<le> fst c \<or> fst c + snd c \<le> fst b"

section \<open>The allocator interface\<close>

text \<open>
  What the kernel expects of \<open>memory_alloc\<close> and \<open>memory_free\<close>: the null pointer and an
  unchanged set of live blocks, or a new block that is large enough and overlaps no live
  block; freeing a live block takes exactly that block away.
\<close>

locale block_allocator =
  fixes wf :: "'m \<Rightarrow> bool"
    and blocks :: "'m \<Rightarrow> (nat \<times> nat) set"
    and alloc :: "'m \<Rightarrow> u64 \<Rightarrow> (u64 \<times> 'm) option"
    and release :: "'m \<Rightarrow> u64 \<Rightarrow> (int \<times> 'm) option"
    and admissible :: "u64 \<Rightarrow> bool"
  assumes alloc_returns: "wf m \<Longrightarrow> admissible n \<Longrightarrow> \<exists>r. alloc m n = Some r"
    and alloc_null: "wf m \<Longrightarrow> admissible n \<Longrightarrow> alloc m n = Some (0, m') \<Longrightarrow>
      wf m' \<and> blocks m' = blocks m"
    and alloc_block: "wf m \<Longrightarrow> admissible n \<Longrightarrow> alloc m n = Some (p, m') \<Longrightarrow> p \<noteq> 0 \<Longrightarrow>
      wf m' \<and> (\<exists>s. unat n \<le> s \<and> blocks m' = insert (unat p, s) (blocks m) \<and>
        (\<forall>b\<in>blocks m. blocks_disjoint (unat p, s) b))"
    and release_live: "wf m \<Longrightarrow> (unat p, s) \<in> blocks m \<Longrightarrow>
      \<exists>m'. release m p = Some (0, m') \<and> wf m' \<and> blocks m' = blocks m - {(unat p, s)}"
begin

text \<open>Any client that frees only blocks it holds keeps its blocks apart.\<close>

definition apart :: "'m \<Rightarrow> bool" where
  "apart m \<longleftrightarrow> (\<forall>b\<in>blocks m. \<forall>c\<in>blocks m. b \<noteq> c \<longrightarrow> blocks_disjoint b c)"

lemma alloc_apart:
  assumes "wf m" "admissible n" "apart m" "alloc m n = Some (p, m')"
  shows "wf m' \<and> apart m'"
proof (cases "p = 0")
  case True
  with assms alloc_null show ?thesis by (fastforce simp: apart_def)
next
  case False
  then obtain s where "wf m'" "blocks m' = insert (unat p, s) (blocks m)"
    "\<forall>b\<in>blocks m. blocks_disjoint (unat p, s) b"
    using alloc_block [OF assms(1,2,4)] by blast
  with assms(3) show ?thesis by (auto simp: apart_def blocks_disjoint_def)
qed

lemma release_apart:
  assumes "wf m" "apart m" "(unat p, s) \<in> blocks m" "release m p = Some (r, m')"
  shows "wf m' \<and> apart m'"
  using release_live [OF assms(1,3)] assms(2,4) by (auto simp: apart_def)

end

text \<open>Blocks that a client can address byte by byte: none starts at null or runs past the last address.\<close>

locale bounded_allocator = block_allocator +
  assumes block_bounded: "wf m \<Longrightarrow> b \<in> blocks m \<Longrightarrow> 0 < fst b \<and> fst b + snd b < 2 ^ 64"

end
