(* ===== verification/Page_Frames.thy ===== *)
theory Page_Frames
  imports Allocator
begin

text \<open>
  The default kernel allocator, Kernel/memory-manager/memory-manager.c: a growing array of
  fragments, searched first fit. Fragment sizes and addresses are 64 bit words, so the sum
  \<open>size + 7\<close> and the running total wrap as in C. The array index and the number of
  fragments are natural numbers. The allocation loop is a partial function: \<open>None\<close> means
  that the call never returns.
\<close>

section \<open>State\<close>

abbreviation MEMORY_START :: u64 where "MEMORY_START \<equiv> 0x600000"
abbreviation MEMORY_END :: u64 where "MEMORY_END \<equiv> 0x800000"
abbreviation MEMORY_SIZE :: u64 where "MEMORY_SIZE \<equiv> MEMORY_END - MEMORY_START"

record heap_state =
  total_memory :: u64
  used_memory :: u64
  free_memory :: u64
  mm_type :: string

record memory_fragment =
  fr_start :: u64
  fr_size :: u64
  fr_used :: u8

record memory_manager =
  start_of_memory :: u64
  page_frames :: "nat \<Rightarrow> memory_fragment"
  page_frames_dim :: nat
  mm_info :: heap_state

section \<open>Operations\<close>

text \<open>Rounding up to a multiple of eight: \<open>(x + 7) & ~7\<close>, where \<open>x + 7\<close> may wrap.\<close>

definition align8 :: "u64 \<Rightarrow> u64" where
  "align8 x = (x + 7) AND NOT 7"

text \<open>
  \<open>raw\<close> is what the memory at \<open>manager_memory\<close> held before: the call only writes the
  fields named here.
\<close>

definition memory_manager_init :: "memory_manager \<Rightarrow> u64 \<Rightarrow> memory_manager" where
  "memory_manager_init raw managed_memory =
     (let aligned_addr = align8 managed_memory
      in raw\<lparr>start_of_memory := aligned_addr,
             page_frames := (page_frames raw)(0 := (page_frames raw 0)\<lparr>fr_start := aligned_addr\<rparr>),
             page_frames_dim := 0,
             mm_info := (mm_info raw)\<lparr>total_memory := MEMORY_END - MEMORY_START,
                                      used_memory := 0, mm_type := ''gnamem''\<rparr>\<rparr>)"

text \<open>The inner loop: skip the fragments in use.\<close>

function skip_used :: "memory_manager \<Rightarrow> nat \<Rightarrow> nat" where
  "skip_used self i =
     (if i < page_frames_dim self \<and> fr_used (page_frames self i) = 1
      then skip_used self (Suc i) else i)"
  by pat_completeness auto
termination
  by (relation "measure (\<lambda>(self, i). page_frames_dim self - i)") auto

declare skip_used.simps [simp del]

text \<open>The fragment past the last one is carved out of the untouched part of the heap.\<close>

definition grow_frame :: "u64 \<Rightarrow> nat \<Rightarrow> memory_manager \<Rightarrow> memory_manager" where
  "grow_frame aligned_size i self =
     (if i = page_frames_dim self
      then (let aligned_start = align8 (fr_start (page_frames self i));
                fr = (page_frames self)
                  (i := (page_frames self i)\<lparr>fr_start := aligned_start, fr_size := aligned_size\<rparr>,
                   Suc i := (page_frames self (Suc i))\<lparr>fr_start := aligned_start + aligned_size\<rparr>)
            in self\<lparr>page_frames := fr, page_frames_dim := Suc (page_frames_dim self)\<rparr>)
      else self)"

text \<open>A misaligned fragment gives up its first bytes.\<close>

definition realign_frame :: "nat \<Rightarrow> memory_manager \<Rightarrow> memory_manager" where
  "realign_frame i self =
     (let addr = fr_start (page_frames self i);
          aligned_addr = align8 addr
      in if aligned_addr \<noteq> addr
         then self\<lparr>page_frames := (page_frames self)(i := (page_frames self i)
                     \<lparr>fr_start := aligned_addr,
                      fr_size := fr_size (page_frames self i) - (aligned_addr - addr)\<rparr>)\<rparr>
         else self)"

definition use_frame :: "nat \<Rightarrow> memory_manager \<Rightarrow> memory_manager" where
  "use_frame i self =
     self\<lparr>page_frames := (page_frames self)(i := (page_frames self i)\<lparr>fr_used := 1\<rparr>),
          mm_info := (mm_info self)
            \<lparr>used_memory := used_memory (mm_info self) + fr_size (page_frames self i)\<rparr>\<rparr>"

definition take_frame :: "u64 \<Rightarrow> nat \<Rightarrow> memory_manager \<Rightarrow> u64 \<times> memory_manager" where
  "take_frame aligned_size i self =
     (let self' = realign_frame i (grow_frame aligned_size i self)
      in (fr_start (page_frames self' i), use_frame i self'))"

text \<open>
  The outer loop runs while no address was found. A fragment that starts at address 0 is
  taken and the loop goes on, as \<open>toReturn\<close> is still \<open>NULL\<close>.
\<close>

partial_function (option) alloc_loop ::
  "u64 \<Rightarrow> nat \<Rightarrow> memory_manager \<Rightarrow> (u64 \<times> memory_manager) option" where
  "alloc_loop aligned_size i0 self =
     (let i = skip_used self i0
      in if fr_start (page_frames self i) > MEMORY_END then Some (0, self)
         else if i = page_frames_dim self \<or> fr_size (page_frames self i) \<ge> aligned_size
         then (let r = take_frame aligned_size i self
               in if fst r \<noteq> 0 then Some r else alloc_loop aligned_size i (snd r))
         else alloc_loop aligned_size (Suc i) self)"

definition memory_alloc :: "memory_manager \<Rightarrow> u64 \<Rightarrow> (u64 \<times> memory_manager) option" where
  "memory_alloc self sz =
     (if sz = 0 then Some (0, self) else alloc_loop (align8 sz) 0 self)"

definition memory_free :: "memory_manager \<Rightarrow> u64 \<Rightarrow> int \<times> memory_manager" where
  "memory_free self ptr =
     (if ptr = 0 then (-1, self)
      else case find_from (\<lambda>i. fr_start (page_frames self i) = ptr) 0 (page_frames_dim self) of
             Some i \<Rightarrow>
               (0, self\<lparr>page_frames := (page_frames self)(i := (page_frames self i)\<lparr>fr_used := 0\<rparr>),
                        mm_info := (mm_info self)\<lparr>used_memory :=
                          used_memory (mm_info self) - fr_size (page_frames self i)\<rparr>\<rparr>)
           | None \<Rightarrow> (-1, self))"

text \<open>The caller's structure is written unless the pointer to it is \<open>NULL\<close>.\<close>

definition memory_state_get :: "memory_manager \<Rightarrow> heap_state option \<Rightarrow> heap_state option" where
  "memory_state_get self state =
     (case state of
        None \<Rightarrow> None
      | Some st \<Rightarrow> Some (st\<lparr>total_memory := total_memory (mm_info self),
                           used_memory := used_memory (mm_info self),
                           free_memory := total_memory (mm_info self) - used_memory (mm_info self),
                           mm_type := mm_type (mm_info self)\<rparr>))"

section \<open>Rounding\<close>

lemma unat_align8:
  assumes "unat x \<le> 2 ^ 64 - 8"
  shows "unat (align8 x) = (unat x + 7) div 8 * 8"
proof -
  have "(x + 7) AND NOT 7 = (x + 7) AND NOT (mask 3)" by (simp add: mask_eq_exp_minus_1)
  then have "unat (align8 x) = unat (x + 7) - unat (x + 7) mod 8"
    unfolding align8_def using unat_and_not_mask [of "x + 7" 3] by simp
  moreover have "unat (x + 7) = unat x + 7"
    using assms by (subst unat_add_lem [THEN iffD1]) simp_all
  ultimately show ?thesis by (simp add: minus_mod_eq_div_mult)
qed

lemma align8_id: "unat x mod 8 = 0 \<Longrightarrow> align8 x = x"
proof -
  assume a: "unat x mod 8 = 0"
  have "unat x < 2 ^ 64" using unsigned_less [of x] by simp
  then have "unat x < 18446744073709551616" by simp
  with a have "unat x \<le> 18446744073709551608" by presburger
  then have "unat x \<le> 2 ^ 64 - 8" by simp
  with a have "unat (align8 x) = unat x"
    by (simp add: unat_align8) presburger
  then show ?thesis by (simp add: word_unat_eq_iff)
qed

section \<open>The search is first fit\<close>

lemma skip_used_le: "i \<le> page_frames_dim self \<Longrightarrow> i \<le> skip_used self i \<and> skip_used self i \<le> page_frames_dim self"
proof (induction self i rule: skip_used.induct)
  case (1 self i)
  then show ?case
    by (cases "i < page_frames_dim self \<and> fr_used (page_frames self i) = 1")
      (auto simp: skip_used.simps [of self i])
qed

lemma skip_used_skips:
  "i \<le> m \<Longrightarrow> m < skip_used self i \<Longrightarrow> m < page_frames_dim self \<and> fr_used (page_frames self m) = 1"
proof (induction self i rule: skip_used.induct)
  case (1 self i)
  show ?case
  proof (cases "i < page_frames_dim self \<and> fr_used (page_frames self i) = 1")
    case True
    with 1 show ?thesis by (cases "m = i") (auto simp: skip_used.simps [of self i])
  next
    case False
    with "1.prems" show ?thesis by (simp add: skip_used.simps [of self i])
  qed
qed

lemma skip_used_stops:
  "skip_used self i < page_frames_dim self \<Longrightarrow> fr_used (page_frames self (skip_used self i)) \<noteq> 1"
proof (induction self i rule: skip_used.induct)
  case (1 self i)
  show ?case
  proof (cases "i < page_frames_dim self \<and> fr_used (page_frames self i) = 1")
    case True
    with 1 show ?thesis by (simp add: skip_used.simps [of self i])
  next
    case False
    with "1.prems" show ?thesis by (auto simp: skip_used.simps [of self i])
  qed
qed

text \<open>The fragment the search settles on, and what the call then does with it.\<close>

definition fits :: "memory_manager \<Rightarrow> u64 \<Rightarrow> nat \<Rightarrow> bool" where
  "fits self aligned_size j \<longleftrightarrow>
     j = page_frames_dim self \<or>
     fr_used (page_frames self j) \<noteq> 1 \<and>
       (fr_start (page_frames self j) > MEMORY_END \<or> fr_size (page_frames self j) \<ge> aligned_size)"

definition alloc_at :: "memory_manager \<Rightarrow> u64 \<Rightarrow> nat \<Rightarrow> u64 \<times> memory_manager" where
  "alloc_at self aligned_size j =
     (if fr_start (page_frames self j) > MEMORY_END then (0, self)
      else take_frame aligned_size j self)"

lemma alloc_loop_first_fit:
  assumes nz: "\<And>j. j \<le> page_frames_dim self \<Longrightarrow> fst (take_frame sz j self) \<noteq> 0"
  shows "i \<le> page_frames_dim self \<Longrightarrow> find_from (fits self sz) i (Suc (page_frames_dim self)) = Some j
    \<Longrightarrow> alloc_loop sz i self = Some (alloc_at self sz j)"
proof (induction "page_frames_dim self - i" arbitrary: i rule: less_induct)
  case less
  let ?i = "skip_used self i"
  have i: "i \<le> ?i" "?i \<le> page_frames_dim self" using skip_used_le less.prems(1) by auto
  have j: "i \<le> j" "j < Suc (page_frames_dim self)" "fits self sz j"
    "\<forall>m. i \<le> m \<longrightarrow> m < j \<longrightarrow> \<not> fits self sz m"
    using find_from_SomeD [OF less.prems(2)] by auto
  have used: "\<And>m. i \<le> m \<Longrightarrow> m < ?i \<Longrightarrow> \<not> fits self sz m"
    using skip_used_skips by (fastforce simp: fits_def)
  have ij: "?i \<le> j" using used j by (meson linorder_not_less)
  have stops: "?i \<noteq> page_frames_dim self \<Longrightarrow> fr_used (page_frames self ?i) \<noteq> 1"
    using skip_used_stops i by (simp add: order_le_less)
  show ?case
  proof (cases "fits self sz ?i")
    case True
    with j(4) ij i(1) have j_eq: "j = ?i" using nat_less_le by blast
    with True nz [OF i(2)] stops show ?thesis
      by (subst alloc_loop.simps) (auto simp: Let_def alloc_at_def fits_def)
  next
    case False
    then have "?i < page_frames_dim self" "Suc ?i \<le> j" using i ij j(3) by (auto simp: fits_def Suc_le_eq order_le_less)
    moreover have "find_from (fits self sz) (Suc ?i) (Suc (page_frames_dim self)) = Some j"
      by (rule find_from_SomeI) (use j i calculation in auto)
    ultimately have "alloc_loop sz (Suc ?i) self = Some (alloc_at self sz j)"
      using less.hyps [of "Suc ?i"] i by simp
    with False stops show ?thesis
      by (subst alloc_loop.simps) (auto simp: Let_def fits_def)
  qed
qed

section \<open>The fragment invariant\<close>

text \<open>
  The fragments tile the heap from the first address on, every boundary is a multiple of
  eight, and the running total is the sum of the fragments in use. The bound on the last
  boundary excludes wrap-around.
\<close>

abbreviation frame_addr :: "memory_manager \<Rightarrow> nat \<Rightarrow> nat" where
  "frame_addr self i \<equiv> unat (fr_start (page_frames self i))"

abbreviation frame_size :: "memory_manager \<Rightarrow> nat \<Rightarrow> nat" where
  "frame_size self i \<equiv> unat (fr_size (page_frames self i))"

definition used_bytes :: "memory_manager \<Rightarrow> nat" where
  "used_bytes self = (\<Sum>i<page_frames_dim self.
     if fr_used (page_frames self i) = 1 then frame_size self i else 0)"

definition frames_ok :: "memory_manager \<Rightarrow> bool" where
  "frames_ok self \<longleftrightarrow>
     (\<forall>i\<le>page_frames_dim self. frame_addr self i mod 8 = 0) \<and>
     (\<forall>i<page_frames_dim self. frame_addr self (Suc i) = frame_addr self i + frame_size self i \<and>
        0 < frame_size self i \<and> fr_used (page_frames self i) \<in> {0, 1}) \<and>
     0 < frame_addr self 0 \<and> frame_addr self (page_frames_dim self) < 2 ^ 63 \<and>
     unat (used_memory (mm_info self)) = used_bytes self"

lemma frames_okD:
  assumes "frames_ok self"
  shows "i \<le> page_frames_dim self \<Longrightarrow> frame_addr self i mod 8 = 0"
    and "i < page_frames_dim self \<Longrightarrow> frame_addr self (Suc i) = frame_addr self i + frame_size self i"
    and "i < page_frames_dim self \<Longrightarrow> 0 < frame_size self i"
    and "i < page_frames_dim self \<Longrightarrow> fr_used (page_frames self i) = 0 \<or> fr_used (page_frames self i) = 1"
    and "0 < frame_addr self 0"
    and "frame_addr self (page_frames_dim self) < 2 ^ 63"
    and "unat (used_memory (mm_info self)) = used_bytes self"
  using assms by (auto simp: frames_ok_def)

lemma frame_addr_mono:
  assumes ok: "frames_ok self"
  shows "i \<le> j \<Longrightarrow> j \<le> page_frames_dim self \<Longrightarrow> frame_addr self i \<le> frame_addr self j"
proof (induction j)
  case (Suc j)
  then show ?case using frames_okD(2) [OF ok, of j] by (cases "i = Suc j") auto
qed simp

lemma frame_end_le:
  assumes ok: "frames_ok self" and "i < j" "j \<le> page_frames_dim self"
  shows "frame_addr self i + frame_size self i \<le> frame_addr self j"
  using frame_addr_mono [OF ok, of "Suc i" j] frames_okD(2) [OF ok, of i] assms by auto

lemma frame_addr_less:
  assumes ok: "frames_ok self" and "i < j" "j \<le> page_frames_dim self"
  shows "frame_addr self i < frame_addr self j"
  using frame_end_le [OF assms] frames_okD(3) [OF ok, of i] assms by simp

lemma frame_addr_pos:
  assumes "frames_ok self" "i \<le> page_frames_dim self"
  shows "0 < frame_addr self i"
  using frame_addr_mono [OF assms(1) _ assms(2), of 0] frames_okD(5) [OF assms(1)] by simp

lemma frame_start_inj:
  assumes "frames_ok self" "i < page_frames_dim self" "j < page_frames_dim self"
    and "fr_start (page_frames self i) = fr_start (page_frames self j)"
  shows "i = j"
  using frame_addr_less [OF assms(1), of i j] frame_addr_less [OF assms(1), of j i] assms
  by (metis less_imp_le_nat less_irrefl linorder_neqE_nat)

lemma used_sum_le:
  assumes ok: "frames_ok self"
  shows "n \<le> page_frames_dim self \<Longrightarrow>
    (\<Sum>i<n. if fr_used (page_frames self i) = 1 then frame_size self i else 0) + frame_addr self 0
      \<le> frame_addr self n"
proof (induction n)
  case (Suc n)
  then show ?case using frames_okD(2) [OF ok, of n] by auto
qed simp

lemma used_bytes_bound: "frames_ok self \<Longrightarrow> used_bytes self < 2 ^ 63"
  using used_sum_le [of self "page_frames_dim self"] frames_okD(6) [of self]
  by (simp add: used_bytes_def)

section \<open>Taking a fragment keeps the invariant\<close>

lemma realign_frame_id:
  assumes "frame_addr self i mod 8 = 0"
  shows "realign_frame i self = self"
  using align8_id [OF assms] by (simp add: realign_frame_def Let_def)

lemma take_frame_old:
  assumes "frames_ok self" "i < page_frames_dim self"
  shows "take_frame sz i self = (fr_start (page_frames self i), use_frame i self)"
  using frames_okD(1) [OF assms(1), of i] assms(2)
  by (simp add: take_frame_def grow_frame_def realign_frame_id Let_def)

definition grown :: "u64 \<Rightarrow> memory_manager \<Rightarrow> memory_manager" where
  "grown sz self = self\<lparr>page_frames := (page_frames self)
       (page_frames_dim self := (page_frames self (page_frames_dim self))\<lparr>fr_size := sz, fr_used := 0\<rparr>,
        Suc (page_frames_dim self) := (page_frames self (Suc (page_frames_dim self)))
          \<lparr>fr_start := fr_start (page_frames self (page_frames_dim self)) + sz\<rparr>),
     page_frames_dim := Suc (page_frames_dim self)\<rparr>"

lemma take_frame_new:
  assumes "frames_ok self"
  shows "take_frame sz (page_frames_dim self) self =
    (fr_start (page_frames self (page_frames_dim self)), use_frame (page_frames_dim self) (grown sz self))"
proof -
  let ?n = "page_frames_dim self"
  have al: "align8 (fr_start (page_frames self ?n)) = fr_start (page_frames self ?n)"
    using frames_okD(1) [OF assms, of ?n] by (simp add: align8_id)
  then have "realign_frame ?n (grow_frame sz ?n self) = grow_frame sz ?n self"
    by (simp add: realign_frame_def grow_frame_def Let_def)
  moreover have "fr_start (page_frames (grow_frame sz ?n self) ?n) = fr_start (page_frames self ?n)"
    using al by (simp add: grow_frame_def Let_def)
  moreover have "use_frame ?n (grow_frame sz ?n self) = use_frame ?n (grown sz self)"
    using al by (simp add: grow_frame_def grown_def use_frame_def Let_def fun_eq_iff)
  ultimately show ?thesis by (simp add: take_frame_def Let_def)
qed

lemma use_frame_simps [simp]:
  "page_frames_dim (use_frame i self) = page_frames_dim self"
  "fr_start (page_frames (use_frame i self) j) = fr_start (page_frames self j)"
  "fr_size (page_frames (use_frame i self) j) = fr_size (page_frames self j)"
  "fr_used (page_frames (use_frame i self) j) = (if j = i then 1 else fr_used (page_frames self j))"
  "used_memory (mm_info (use_frame i self))
     = used_memory (mm_info self) + fr_size (page_frames self i)"
  by (simp_all add: use_frame_def)

lemma used_bytes_use:
  assumes "i < page_frames_dim self" "fr_used (page_frames self i) \<noteq> 1"
  shows "used_bytes (use_frame i self) = used_bytes self + frame_size self i"
proof -
  let ?A = "{..<page_frames_dim self} - {i}"
  have "(\<Sum>j\<in>?A. if fr_used (page_frames (use_frame i self) j) = 1 then frame_size (use_frame i self) j else 0)
      = (\<Sum>j\<in>?A. if fr_used (page_frames self j) = 1 then frame_size self j else 0)"
    by (rule sum.cong) auto
  then show ?thesis using assms by (simp add: used_bytes_def sum.remove [of _ i])
qed

lemma frames_ok_use:
  assumes ok: "frames_ok self" and i: "i < page_frames_dim self" "fr_used (page_frames self i) \<noteq> 1"
  shows "frames_ok (use_frame i self)"
proof -
  have "frame_size self i < 2 ^ 63"
    using frame_end_le [OF ok i(1) order_refl] frames_okD(6) [OF ok] by linarith
  then have "unat (used_memory (mm_info self) + fr_size (page_frames self i))
      = used_bytes (use_frame i self)"
    using used_bytes_bound [OF ok] frames_okD(7) [OF ok] used_bytes_use [OF i]
    by (subst unat_add_lem [THEN iffD1]) simp_all
  then show ?thesis
    using frames_okD [OF ok] by (simp add: frames_ok_def)
qed

lemma grown_simps [simp]:
  "page_frames_dim (grown sz self) = Suc (page_frames_dim self)"
  "j \<le> page_frames_dim self \<Longrightarrow> fr_start (page_frames (grown sz self) j) = fr_start (page_frames self j)"
  "fr_start (page_frames (grown sz self) (Suc (page_frames_dim self)))
     = fr_start (page_frames self (page_frames_dim self)) + sz"
  "j < page_frames_dim self \<Longrightarrow> fr_size (page_frames (grown sz self) j) = fr_size (page_frames self j)"
  "fr_size (page_frames (grown sz self) (page_frames_dim self)) = sz"
  "j < page_frames_dim self \<Longrightarrow> fr_used (page_frames (grown sz self) j) = fr_used (page_frames self j)"
  "fr_used (page_frames (grown sz self) (page_frames_dim self)) = 0"
  "mm_info (grown sz self) = mm_info self"
  by (simp_all add: grown_def)

lemma used_bytes_grown [simp]: "used_bytes (grown sz self) = used_bytes self"
  by (auto simp: used_bytes_def intro!: sum.cong)

lemma frames_ok_grown:
  assumes ok: "frames_ok self" and sz: "unat sz mod 8 = 0" "0 < unat sz"
    and fit: "frame_addr self (page_frames_dim self) + unat sz < 2 ^ 63"
  shows "frames_ok (grown sz self)"
proof -
  have add: "unat (fr_start (page_frames self (page_frames_dim self)) + sz)
      = frame_addr self (page_frames_dim self) + unat sz"
    using fit by (subst unat_add_lem [THEN iffD1]) simp_all
  moreover have "(frame_addr self (page_frames_dim self) + unat sz) mod 8 = 0"
    using frames_okD(1) [OF ok order_refl] sz(1) by presburger
  ultimately show ?thesis
    using frames_okD [OF ok] sz fit
    by (auto simp: frames_ok_def less_Suc_eq le_Suc_eq)
qed

section \<open>Live blocks\<close>

definition live :: "memory_manager \<Rightarrow> (nat \<times> nat) set" where
  "live self = (\<lambda>i. (frame_addr self i, frame_size self i)) `
     {i. i < page_frames_dim self \<and> fr_used (page_frames self i) = 1}"

lemma live_use_frame:
  assumes "i < page_frames_dim self"
  shows "live (use_frame i self) = insert (frame_addr self i, frame_size self i) (live self)"
  using assms by (auto simp: live_def)

lemma live_grown [simp]: "live (grown sz self) = live self"
proof -
  have "{i. i < page_frames_dim (grown sz self) \<and> fr_used (page_frames (grown sz self) i) = 1}
      = {i. i < page_frames_dim self \<and> fr_used (page_frames self i) = 1}"
    by (auto simp: less_Suc_eq)
  then show ?thesis by (auto simp: live_def intro!: image_cong)
qed

lemma frames_disjoint:
  assumes "frames_ok self" "i < page_frames_dim self" "j < page_frames_dim self" "i \<noteq> j"
  shows "blocks_disjoint (frame_addr self i, frame_size self i) (frame_addr self j, frame_size self j)"
  using frame_end_le [OF assms(1), of i j] frame_end_le [OF assms(1), of j i] assms
  by (auto simp: blocks_disjoint_def neq_iff)

text \<open>What one successful allocation does.\<close>

lemma take_frame_ok:
  assumes ok: "frames_ok self" and sz: "unat sz mod 8 = 0" "0 < unat sz" "unat sz \<le> 2 ^ 62"
    and j: "j \<le> page_frames_dim self" "fits self sz j" "\<not> fr_start (page_frames self j) > MEMORY_END"
    and t: "take_frame sz j self = (p, self')"
  shows "frames_ok self' \<and> unat p = frame_addr self j \<and> unat p mod 8 = 0 \<and> unat p \<noteq> 0 \<and>
    (\<exists>s\<ge>unat sz. live self' = insert (unat p, s) (live self) \<and>
       (\<forall>b\<in>live self. blocks_disjoint (unat p, s) b))"
proof (cases "j = page_frames_dim self")
  case True
  let ?g = "grown sz self"
  have "frame_addr self j \<le> 2 ^ 23" using j(3) by (simp add: word_less_nat_alt)
  then have fit: "frame_addr self (page_frames_dim self) + unat sz < 2 ^ 63"
    using sz(3) True by simp
  have okg: "frames_ok ?g" using frames_ok_grown [OF ok sz(1,2) fit] .
  have res: "p = fr_start (page_frames self j)" "self' = use_frame j ?g"
    using t take_frame_new [OF ok, of sz] True by auto
  have ok': "frames_ok self'"
    unfolding res(2) by (rule frames_ok_use [OF okg]) (simp_all add: True)
  have lv: "live self' = insert (unat p, unat sz) (live self)"
    unfolding res(2) by (subst live_use_frame) (simp_all add: True res)
  have "blocks_disjoint (unat p, unat sz) b" if "b \<in> live self" for b
    using that frame_end_le [OF ok _ order_refl] True res
    by (fastforce simp: live_def blocks_disjoint_def)
  then show ?thesis
    using ok' lv res(1) frames_okD(1) [OF ok, of j] frame_addr_pos [OF ok j(1)] True by auto
next
  case False
  then have lt: "j < page_frames_dim self" using j(1) by simp
  have fit: "fr_used (page_frames self j) \<noteq> 1" "unat sz \<le> frame_size self j"
    using j(2,3) False by (auto simp: fits_def word_le_nat_alt)
  have res: "p = fr_start (page_frames self j)" "self' = use_frame j self"
    using t take_frame_old [OF ok lt] by auto
  have "frames_ok self'" unfolding res(2) by (rule frames_ok_use [OF ok lt fit(1)])
  moreover have "live self' = insert (unat p, frame_size self j) (live self)"
    unfolding res by (rule live_use_frame [OF lt])
  moreover have "blocks_disjoint (unat p, frame_size self j) b" if b: "b \<in> live self" for b
  proof -
    obtain i where i: "b = (frame_addr self i, frame_size self i)" "i < page_frames_dim self"
      "fr_used (page_frames self i) = 1" using b by (auto simp: live_def)
    then have "i \<noteq> j" using fit(1) by auto
    then show ?thesis using frames_disjoint [OF ok lt i(2)] i(1) res(1) by auto
  qed
  ultimately show ?thesis
    using fit(2) res(1) frames_okD(1) [OF ok j(1)] frame_addr_pos [OF ok j(1)] by auto
qed

lemma align8_request:
  assumes "0 < unat n" "unat n \<le> 2 ^ 61"
  shows "unat (align8 n) mod 8 = 0" "unat n \<le> unat (align8 n)" "0 < unat (align8 n)"
    "unat (align8 n) \<le> 2 ^ 62"
proof -
  have e: "unat (align8 n) = (unat n + 7) div 8 * 8" using assms by (simp add: unat_align8)
  show "unat (align8 n) mod 8 = 0" by (simp add: e)
  show "unat n \<le> unat (align8 n)" unfolding e by presburger
  then show "0 < unat (align8 n)" using assms by simp
  show "unat (align8 n) \<le> 2 ^ 62" unfolding e using assms by simp
qed

text \<open>
  The functional behaviour of the whole call on a well formed heap: the index it settles on
  is the first fragment that fits, and it always returns.
\<close>

definition first_fit :: "memory_manager \<Rightarrow> u64 \<Rightarrow> nat" where
  "first_fit self aligned_size =
     the (find_from (fits self aligned_size) 0 (Suc (page_frames_dim self)))"

lemma first_fit_props:
  shows "find_from (fits self sz) 0 (Suc (page_frames_dim self)) = Some (first_fit self sz)"
    and "first_fit self sz \<le> page_frames_dim self" and "fits self sz (first_fit self sz)"
    and "m < first_fit self sz \<Longrightarrow> \<not> fits self sz m"
proof -
  have "find_from (fits self sz) 0 (Suc (page_frames_dim self)) \<noteq> None"
    using find_from_NoneD [of "fits self sz" 0 "Suc (page_frames_dim self)" "page_frames_dim self"]
    by (auto simp: fits_def)
  then show f: "find_from (fits self sz) 0 (Suc (page_frames_dim self)) = Some (first_fit self sz)"
    by (auto simp: first_fit_def)
  show "first_fit self sz \<le> page_frames_dim self" "fits self sz (first_fit self sz)"
    "m < first_fit self sz \<Longrightarrow> \<not> fits self sz m"
    using find_from_SomeD [OF f] by auto
qed

lemma memory_alloc_eq:
  assumes ok: "frames_ok self" and n: "n \<noteq> 0"
  shows "memory_alloc self n = Some (alloc_at self (align8 n) (first_fit self (align8 n)))"
proof -
  have "fst (take_frame (align8 n) j self) \<noteq> 0" if "j \<le> page_frames_dim self" for j
  proof -
    have "fst (take_frame (align8 n) j self) = fr_start (page_frames self j)"
      using that take_frame_old [OF ok, of j] take_frame_new [OF ok, of "align8 n"]
      by (cases "j = page_frames_dim self") auto
    then show ?thesis using frame_addr_pos [OF ok that] by (auto simp: unat_gt_0)
  qed
  then show ?thesis
    using n first_fit_props(1) by (simp add: memory_alloc_def alloc_loop_first_fit)
qed

section \<open>The default allocator implements it\<close>

abbreviation small_request :: "u64 \<Rightarrow> bool" where
  "small_request n \<equiv> unat n \<le> 2 ^ 61"

lemma memory_alloc_ok:
  assumes ok: "frames_ok self" and n: "small_request n"
    and a: "memory_alloc self n = Some (p, self')" and p: "p \<noteq> 0"
  shows "frames_ok self' \<and> unat p mod 8 = 0 \<and>
    (\<exists>s\<ge>unat n. live self' = insert (unat p, s) (live self) \<and>
       (\<forall>b\<in>live self. blocks_disjoint (unat p, s) b))"
proof -
  have nz: "n \<noteq> 0" using a p by (auto simp: memory_alloc_def)
  then have n': "0 < unat n" by (simp add: unat_gt_0)
  let ?j = "first_fit self (align8 n)"
  from a memory_alloc_eq [OF ok nz] have at: "alloc_at self (align8 n) ?j = (p, self')" by simp
  with p have le: "\<not> fr_start (page_frames self ?j) > MEMORY_END"
    by (auto simp: alloc_at_def split: if_splits)
  with at have t: "take_frame (align8 n) ?j self = (p, self')"
    by (simp add: alloc_at_def)
  note r = align8_request [OF n' n]
  from take_frame_ok [OF ok r(1,3,4) first_fit_props(2,3) le t] r(2)
  show ?thesis by (meson order_trans)
qed

lemma memory_alloc_null:
  assumes ok: "frames_ok self" and a: "memory_alloc self n = Some (0, self')"
  shows "self' = self"
proof (cases "n = 0")
  case True
  with a show ?thesis by (simp add: memory_alloc_def)
next
  case False
  let ?j = "first_fit self (align8 n)"
  from a memory_alloc_eq [OF ok False] have at: "alloc_at self (align8 n) ?j = (0, self')" by simp
  have j: "?j \<le> page_frames_dim self" by (rule first_fit_props)
  have "fst (take_frame (align8 n) ?j self) = fr_start (page_frames self ?j)"
    using j take_frame_old [OF ok, of ?j] take_frame_new [OF ok, of "align8 n"]
    by (cases "?j = page_frames_dim self") auto
  with at frame_addr_pos [OF ok j] show ?thesis
    by (auto simp: alloc_at_def split: if_splits)
qed

definition unuse_frame :: "nat \<Rightarrow> memory_manager \<Rightarrow> memory_manager" where
  "unuse_frame i self =
     self\<lparr>page_frames := (page_frames self)(i := (page_frames self i)\<lparr>fr_used := 0\<rparr>),
          mm_info := (mm_info self)\<lparr>used_memory :=
            used_memory (mm_info self) - fr_size (page_frames self i)\<rparr>\<rparr>"

lemma unuse_frame_simps [simp]:
  "page_frames_dim (unuse_frame i self) = page_frames_dim self"
  "fr_start (page_frames (unuse_frame i self) j) = fr_start (page_frames self j)"
  "fr_size (page_frames (unuse_frame i self) j) = fr_size (page_frames self j)"
  "fr_used (page_frames (unuse_frame i self) j) = (if j = i then 0 else fr_used (page_frames self j))"
  "used_memory (mm_info (unuse_frame i self))
     = used_memory (mm_info self) - fr_size (page_frames self i)"
  by (simp_all add: unuse_frame_def)

lemma memory_free_frame:
  assumes ok: "frames_ok self" and i: "i < page_frames_dim self"
  shows "memory_free self (fr_start (page_frames self i)) = (0, unuse_frame i self)"
proof -
  have "find_from (\<lambda>j. fr_start (page_frames self j) = fr_start (page_frames self i)) 0
      (page_frames_dim self) = Some i"
    using frame_start_inj [OF ok _ i] i by (intro find_from_SomeI) (auto dest: less_trans)
  moreover have "fr_start (page_frames self i) \<noteq> 0"
    using frame_addr_pos [OF ok, of i] i by auto
  ultimately show ?thesis by (simp add: memory_free_def unuse_frame_def)
qed

lemma used_bytes_unuse:
  assumes "i < page_frames_dim self" "fr_used (page_frames self i) = 1"
  shows "used_bytes self = used_bytes (unuse_frame i self) + frame_size self i"
proof -
  let ?A = "{..<page_frames_dim self} - {i}"
  have "(\<Sum>j\<in>?A. if fr_used (page_frames (unuse_frame i self) j) = 1 then frame_size (unuse_frame i self) j else 0)
      = (\<Sum>j\<in>?A. if fr_used (page_frames self j) = 1 then frame_size self j else 0)"
    by (rule sum.cong) auto
  then show ?thesis using assms by (simp add: used_bytes_def sum.remove [of _ i])
qed

lemma frames_ok_unuse:
  assumes ok: "frames_ok self" and i: "i < page_frames_dim self" "fr_used (page_frames self i) = 1"
  shows "frames_ok (unuse_frame i self)"
proof -
  have "fr_size (page_frames self i) \<le> used_memory (mm_info self)"
    using used_bytes_unuse [OF i] frames_okD(7) [OF ok] by (simp add: word_le_nat_alt)
  then have "unat (used_memory (mm_info self) - fr_size (page_frames self i))
      = used_bytes (unuse_frame i self)"
    using used_bytes_unuse [OF i] frames_okD(7) [OF ok] by (simp add: unat_sub)
  then show ?thesis using frames_okD [OF ok] by (simp add: frames_ok_def)
qed

lemma memory_free_live:
  assumes ok: "frames_ok self" and b: "(unat p, s) \<in> live self"
  shows "\<exists>m'. memory_free self p = (0, m') \<and> frames_ok m' \<and> live m' = live self - {(unat p, s)}"
proof -
  obtain i where i: "i < page_frames_dim self" "fr_used (page_frames self i) = 1"
    "p = fr_start (page_frames self i)" "s = frame_size self i"
    using b by (auto simp: live_def word_unat_eq_iff)
  have f: "memory_free self p = (0, unuse_frame i self)"
    using memory_free_frame [OF ok i(1)] i(3) by simp
  have "live (unuse_frame i self) = live self - {(unat p, s)}"
    using i frame_start_inj [OF ok _ i(1)] by (auto simp: live_def word_unat_eq_iff)
  with f frames_ok_unuse [OF ok i(1,2)] show ?thesis by simp
qed

lemma live_bounded:
  assumes ok: "frames_ok m" and b: "b \<in> live m"
  shows "0 < fst b \<and> fst b + snd b < 2 ^ 64"
proof -
  obtain i where i: "i < page_frames_dim m" "b = (frame_addr m i, frame_size m i)" using b by (auto simp: live_def)
  have "frame_addr m 0 \<le> frame_addr m i" "frame_addr m (Suc i) \<le> frame_addr m (page_frames_dim m)"
    using frame_addr_mono [OF ok, of 0 i] frame_addr_mono [OF ok, of "Suc i" "page_frames_dim m"] i(1) by simp_all
  then show ?thesis using frames_okD(2) [OF ok i(1)] frames_okD(5,6) [OF ok] i(2) by simp
qed

interpretation pf: bounded_allocator frames_ok live memory_alloc "\<lambda>m p. Some (memory_free m p)" small_request
proof unfold_locales
  fix m n assume "frames_ok m" "small_request n"
  then show "\<exists>r. memory_alloc m n = Some r"
    by (cases "n = 0") (auto simp: memory_alloc_def [of m 0] memory_alloc_eq)
next
  fix m n m' assume "frames_ok m" "memory_alloc m n = Some (0, m')"
  then show "frames_ok m' \<and> live m' = live m" using memory_alloc_null by blast
next
  fix m n p m'
  assume "frames_ok m" "small_request n" "memory_alloc m n = Some (p, m')" "p \<noteq> 0"
  then show "frames_ok m' \<and> (\<exists>s. unat n \<le> s \<and> live m' = insert (unat p, s) (live m) \<and>
      (\<forall>b\<in>live m. blocks_disjoint (unat p, s) b))"
    using memory_alloc_ok by blast
next
  fix m b assume "frames_ok m" "b \<in> live m"
  then show "0 < fst b \<and> fst b + snd b < 2 ^ 64" by (rule live_bounded)
qed (use memory_free_live in blast)

section \<open>Runs of the default allocator\<close>

lemma memory_manager_init_ok:
  assumes "0 < unat managed" "unat managed \<le> 2 ^ 62"
  shows "frames_ok (memory_manager_init raw managed) \<and> live (memory_manager_init raw managed) = {}"
proof -
  have e: "unat (align8 managed) = (unat managed + 7) div 8 * 8"
    using assms by (simp add: unat_align8)
  have "0 < unat (align8 managed)" using assms unfolding e by presburger
  moreover have "unat (align8 managed) < 2 ^ 63" using assms unfolding e by simp
  moreover have "unat (align8 managed) mod 8 = 0" by (simp add: e)
  ultimately show ?thesis
    by (simp add: memory_manager_init_def Let_def frames_ok_def live_def used_bytes_def)
qed

text \<open>The heaps a client reaches that requests at most \<open>2 ^ 61\<close> bytes and frees live blocks.\<close>

inductive heap_run :: "memory_manager \<Rightarrow> memory_manager \<Rightarrow> bool" for m0 where
  heap_start: "heap_run m0 m0"
| heap_alloc: "heap_run m0 m \<Longrightarrow> small_request n \<Longrightarrow> memory_alloc m n = Some (p, m') \<Longrightarrow> heap_run m0 m'"
| heap_free: "heap_run m0 m \<Longrightarrow> (unat p, s) \<in> live m \<Longrightarrow> memory_free m p = (r, m') \<Longrightarrow> heap_run m0 m'"

lemma heap_run_ok:
  assumes "heap_run m0 m" and "frames_ok m0" and "pf.apart m0"
  shows "frames_ok m \<and> pf.apart m"
  using assms
proof (induction rule: heap_run.induct)
  case (heap_alloc m n p m')
  then show ?case using pf.alloc_apart by blast
next
  case (heap_free m p s r m')
  then show ?case using pf.release_apart [of m p s r m'] by simp
qed simp

lemma live_aligned:
  assumes "frames_ok m" "b \<in> live m"
  shows "fst b mod 8 = 0 \<and> 0 < snd b"
  using frames_okD(1,3) [OF assms(1)] assms(2) by (auto simp: live_def)

text \<open>A request is never left spinning, whatever the state of the fragment array.\<close>

lemma take_frame_dim:
  assumes "fst (take_frame sz (page_frames_dim self) self) = 0"
  defines "self' \<equiv> snd (take_frame sz (page_frames_dim self) self)"
  shows "page_frames_dim self' = Suc (page_frames_dim self)"
    and "fr_used (page_frames self' (page_frames_dim self)) = 1"
    and "fr_start (page_frames self' (Suc (page_frames_dim self))) = sz"
proof -
  let ?n = "page_frames_dim self"
  let ?a = "align8 (fr_start (page_frames self ?n))"
  have al: "align8 ?a = ?a"
  proof (rule align8_id)
    have "(fr_start (page_frames self ?n) + 7) AND NOT 7
        = (fr_start (page_frames self ?n) + 7) AND NOT (mask 3)" by (simp add: mask_eq_exp_minus_1)
    then have "unat ?a = unat (fr_start (page_frames self ?n) + 7)
        - unat (fr_start (page_frames self ?n) + 7) mod 8"
      unfolding align8_def using unat_and_not_mask [of "fr_start (page_frames self ?n) + 7" 3] by simp
    then show "unat ?a mod 8 = 0" by (simp add: minus_mod_eq_div_mult)
  qed
  have r: "realign_frame ?n (grow_frame sz ?n self) = grow_frame sz ?n self"
    using al by (simp add: realign_frame_def grow_frame_def Let_def)
  have s': "self' = use_frame ?n (grow_frame sz ?n self)"
    by (simp add: self'_def take_frame_def r Let_def)
  have "?a = 0" using assms(1) r by (simp add: take_frame_def grow_frame_def Let_def)
  then show "page_frames_dim self' = Suc ?n" "fr_used (page_frames self' ?n) = 1"
    "fr_start (page_frames self' (Suc ?n)) = sz"
    by (simp_all add: s' grow_frame_def Let_def)
qed

lemma take_frame_dim_old:
  "j < page_frames_dim self \<Longrightarrow> page_frames_dim (snd (take_frame sz j self)) = page_frames_dim self"
  "j < page_frames_dim self \<Longrightarrow> fr_used (page_frames (snd (take_frame sz j self)) j) = 1"
  by (simp_all add: take_frame_def grow_frame_def realign_frame_def Let_def)

lemma skip_used_from_used:
  assumes "j < page_frames_dim m" "fr_used (page_frames m j) = 1"
  shows "Suc j \<le> skip_used m j \<and> skip_used m j \<le> page_frames_dim m"
  using skip_used_le [of "Suc j" m] assms by (simp add: skip_used.simps [of m j])

lemma alloc_loop_at_end:
  assumes i: "i \<le> page_frames_dim m" "skip_used m i = page_frames_dim m"
    and s: "fr_start (page_frames m (page_frames_dim m)) = sz" and sz: "sz \<noteq> 0" "align8 sz = sz"
  shows "\<exists>r. alloc_loop sz i m = Some r"
proof -
  let ?n = "page_frames_dim m"
  have "fst (take_frame sz ?n m) = sz"
    using s sz by (simp add: take_frame_def grow_frame_def realign_frame_def Let_def)
  with i s sz show ?thesis by (subst alloc_loop.simps) (simp add: Let_def)
qed

lemma alloc_loop_returns:
  assumes sz: "sz \<noteq> 0" "align8 sz = sz"
  shows "i \<le> page_frames_dim self \<Longrightarrow> \<exists>r. alloc_loop sz i self = Some r"
proof (induction "page_frames_dim self - skip_used self i" arbitrary: i self rule: less_induct)
  case less
  let ?i = "skip_used self i"
  have i: "?i \<le> page_frames_dim self" using skip_used_le less.prems by blast
  let ?t = "take_frame sz ?i self"
  have again: "\<exists>r. alloc_loop sz ?i (snd ?t) = Some r" if z: "fst ?t = 0"
  proof (cases "?i = page_frames_dim self")
    case True
    note d = take_frame_dim [of sz self, folded True, OF z]
    have "skip_used (snd ?t) ?i = page_frames_dim (snd ?t)"
      using skip_used_from_used [of ?i "snd ?t"] d(1,2) by simp
    then show ?thesis using d(1,3) sz by (intro alloc_loop_at_end) simp_all
  next
    case False
    with i have lt: "?i < page_frames_dim self" by simp
    note d = take_frame_dim_old [OF lt, of sz]
    have "Suc ?i \<le> skip_used (snd ?t) ?i" using skip_used_from_used [of ?i "snd ?t"] d lt by simp
    then show ?thesis using less.hyps [of "snd ?t" ?i] d(1) lt by simp
  qed
  have further: "\<exists>r. alloc_loop sz (Suc ?i) self = Some r" if "?i \<noteq> page_frames_dim self"
  proof -
    from that i have lt: "?i < page_frames_dim self" by simp
    then have "Suc ?i \<le> skip_used self (Suc ?i)" using skip_used_le [of "Suc ?i" self] by simp
    then show ?thesis using less.hyps [of self "Suc ?i"] lt by simp
  qed
  show ?case using again further by (subst alloc_loop.simps) (auto simp: Let_def)
qed

lemma align8_nonzero:
  assumes "sz \<noteq> 0" "unat sz \<le> 2 ^ 64 - 8"
  shows "align8 sz \<noteq> 0" "align8 (align8 sz) = align8 sz"
proof -
  have e: "unat (align8 sz) = (unat sz + 7) div 8 * 8" using assms by (simp add: unat_align8)
  have "0 < unat sz" using assms by (simp add: unat_gt_0)
  then have "0 < unat (align8 sz)" unfolding e by presburger
  then show "align8 sz \<noteq> 0" by auto
  show "align8 (align8 sz) = align8 sz" by (rule align8_id) (simp add: e)
qed

lemma fits_unuse:
  assumes "i < page_frames_dim self" "\<not> fr_start (page_frames self i) > MEMORY_END"
    and "align8 n \<le> fr_size (page_frames self i)"
  shows "first_fit (unuse_frame i self) (align8 n) \<le> i"
proof (rule ccontr)
  assume "\<not> ?thesis"
  then have "\<not> fits (unuse_frame i self) (align8 n) i" using first_fit_props(4) by (meson not_le)
  with assms show False by (simp add: fits_def)
qed

lemma alloc_at_nonnull:
  assumes ok: "frames_ok self" and j: "j \<le> page_frames_dim self"
    and le: "\<not> fr_start (page_frames self j) > MEMORY_END"
  shows "fst (alloc_at self sz j) = fr_start (page_frames self j)" "fst (alloc_at self sz j) \<noteq> 0"
proof -
  show e: "fst (alloc_at self sz j) = fr_start (page_frames self j)"
    using j le take_frame_old [OF ok, of j] take_frame_new [OF ok, of sz]
    by (cases "j = page_frames_dim self") (auto simp: alloc_at_def)
  show "fst (alloc_at self sz j) \<noteq> 0"
    using frame_addr_pos [OF ok j] unfolding e by auto
qed

section \<open>Properties\<close>

definition raw_heap :: memory_manager where
  "raw_heap = \<lparr>start_of_memory = 0, page_frames = (\<lambda>_. \<lparr>fr_start = 0, fr_size = 0, fr_used = 0\<rparr>),
     page_frames_dim = 0, mm_info = \<lparr>total_memory = 0, used_memory = 0, free_memory = 0, mm_type = []\<rparr>\<rparr>"

lemmas heap_eval = memory_manager_init_def memory_alloc_def alloc_loop.simps skip_used.simps
  take_frame_def grow_frame_def realign_frame_def use_frame_def align8_def raw_heap_def

lemma fresh_heap:
  fixes raw :: memory_manager
  defines "h \<equiv> memory_manager_init raw MEMORY_START"
  shows "frames_ok h" "live h = {}" "page_frames_dim h = 0" "fr_start (page_frames h 0) = MEMORY_START"
  using memory_manager_init_ok [of MEMORY_START raw]
  by (simp_all add: h_def memory_manager_init_def Let_def align8_def)

lemma fresh_alloc:
  fixes raw :: memory_manager
  defines "h \<equiv> memory_manager_init raw MEMORY_START"
  assumes "n \<noteq> 0"
  shows "memory_alloc h n = Some (MEMORY_START, use_frame 0 (grown (align8 n) h))"
proof -
  note f = fresh_heap [of raw, folded h_def]
  have "first_fit h (align8 n) = 0" using first_fit_props(2) [of h "align8 n"] f(3) by simp
  then show ?thesis
    using memory_alloc_eq [OF f(1) assms(2)] take_frame_new [OF f(1), of "align8 n"] f(3,4)
    by (simp add: alloc_at_def)
qed



text \<open>
  \<open>memory_alloc\<close> returns for every request of at most \<open>2 ^ 64 - 8\<close> bytes, whatever the
  fragment array holds.
\<close>

theorem memory_alloc_returns:
  assumes "unat n \<le> 2 ^ 64 - 8"
  shows "\<exists>p m'. memory_alloc m n = Some (p, m')"
  using alloc_loop_returns [OF align8_nonzero, of n 0 m] assms
  by (cases "n = 0") (auto simp: memory_alloc_def)

theorem memory_alloc_returns_witness:
  "unat (0x1000 :: u64) \<le> 2 ^ 64 - 8 \<and> (\<exists>p m'. memory_alloc raw_heap 0x1000 = Some (p, m'))"
  using memory_alloc_returns [of "0x1000" raw_heap] by simp

text \<open>
  On a well formed heap the call is first fit: it settles on the first fragment that is
  not in use and is large enough (or lies past the end of memory), and on the boundary past
  the last fragment when there is none; every other fragment keeps its address and size.
\<close>

theorem memory_alloc_first_fit:
  assumes "frames_ok self" and "n \<noteq> 0"
    and "find_from (fits self (align8 n)) 0 (Suc (page_frames_dim self)) = Some j"
  shows "memory_alloc self n =
    Some (if fr_start (page_frames self j) > MEMORY_END then (0, self)
          else (fr_start (page_frames self j),
                use_frame j (if j = page_frames_dim self then grown (align8 n) self else self)))"
proof -
  have j: "j = first_fit self (align8 n)" using assms(3) by (simp add: first_fit_def)
  then have "j \<le> page_frames_dim self" by (simp add: first_fit_props)
  then show ?thesis
    using memory_alloc_eq [OF assms(1,2)] take_frame_old [OF assms(1), of j]
      take_frame_new [OF assms(1), of "align8 n"]
    by (auto simp: alloc_at_def j [symmetric])
qed

theorem memory_alloc_first_fit_witness:
  "memory_alloc (memory_manager_init raw_heap MEMORY_START) 20 =
     Some (MEMORY_START, use_frame 0 (grown (align8 20) (memory_manager_init raw_heap MEMORY_START)))"
proof -
  let ?h = "memory_manager_init raw_heap MEMORY_START"
  note f = fresh_heap [of raw_heap]
  have "find_from (fits ?h (align8 20)) 0 (Suc (page_frames_dim ?h)) = Some 0"
    by (rule find_from_SomeI) (simp_all add: fits_def f(3))
  from memory_alloc_first_fit [OF f(1) _ this] show ?thesis by (simp add: f(3,4))
qed

text \<open>
  A released block is reused: after \<open>memory_free\<close> of a live block below the end of
  memory, a request that fits in it succeeds and gets an address not above it.
\<close>

theorem memory_free_reuse:
  assumes "frames_ok self" and "i < page_frames_dim self" and "fr_used (page_frames self i) = 1"
    and "fr_start (page_frames self i) \<le> MEMORY_END"
    and "n \<noteq> 0" and "align8 n \<le> fr_size (page_frames self i)"
  defines "self' \<equiv> snd (memory_free self (fr_start (page_frames self i)))"
  shows "\<exists>p m'. memory_alloc self' n = Some (p, m') \<and> p \<noteq> 0 \<and> p \<le> fr_start (page_frames self i)"
proof -
  let ?m = "unuse_frame i self"
  have self': "self' = ?m" using memory_free_frame [OF assms(1,2)] by (simp add: self'_def)
  have ok: "frames_ok ?m" by (rule frames_ok_unuse [OF assms(1-3)])
  let ?j = "first_fit ?m (align8 n)"
  have j: "?j \<le> i" using fits_unuse [OF assms(2)] assms(4,6) by simp
  have "frame_addr self ?j \<le> frame_addr self i"
    using frame_addr_mono [OF assms(1) j] assms(2) by simp
  then have le: "fr_start (page_frames self ?j) \<le> fr_start (page_frames self i)"
    by (simp add: word_le_nat_alt)
  with assms(4) have "\<not> fr_start (page_frames ?m ?j) > MEMORY_END" by simp
  with alloc_at_nonnull [OF ok, of ?j "align8 n"] j assms(2) memory_alloc_eq [OF ok assms(5)] le
  show ?thesis unfolding self' by (cases "alloc_at ?m (align8 n) ?j") auto
qed

theorem memory_free_reuse_witness:
  "\<exists>p m'. memory_alloc (unuse_frame 0 (use_frame 0 (grown 24 (memory_manager_init raw_heap MEMORY_START)))) 8
      = Some (p, m') \<and> p \<noteq> 0 \<and> p \<le> MEMORY_START"
proof -
  let ?h = "memory_manager_init raw_heap MEMORY_START"
  let ?m = "use_frame 0 (grown 24 ?h)"
  note f = fresh_heap [of raw_heap]
  have ok: "frames_ok ?m"
    by (rule frames_ok_use, rule frames_ok_grown [OF f(1)]) (simp_all add: f(3,4) grown_def)
  have i: "0 < page_frames_dim ?m" "fr_used (page_frames ?m 0) = 1"
    "fr_start (page_frames ?m 0) = MEMORY_START" "align8 8 \<le> fr_size (page_frames ?m 0)"
    using f(3,4) by (simp_all add: grown_def align8_def)
  from memory_free_reuse [OF ok i(1,2) _ _ i(4)] memory_free_frame [OF ok i(1)] i(3)
  show ?thesis by simp
qed

text \<open>
  The request is only checked against the start of the fragment: on a fresh heap of
  2 MiB a request for any number of bytes up to \<open>2 ^ 61\<close> succeeds, and the block returned
  for a request larger than the heap runs past the end of memory.
\<close>

theorem memory_alloc_past_end:
  assumes "n \<noteq> 0" and "small_request n"
  shows "\<exists>m' s. memory_alloc (memory_manager_init raw MEMORY_START) n = Some (MEMORY_START, m') \<and>
    (unat MEMORY_START, s) \<in> live m' \<and> unat n \<le> s"
  using fresh_alloc [OF assms(1), of raw]
    memory_alloc_ok [OF fresh_heap(1) [of raw] assms(2) fresh_alloc [OF assms(1), of raw]] by fastforce

theorem memory_alloc_past_end_witness:
  "\<exists>m' s. memory_alloc (memory_manager_init raw_heap MEMORY_START) 0x1000000 = Some (MEMORY_START, m') \<and>
    (unat MEMORY_START, s) \<in> live m' \<and> unat MEMORY_END < unat MEMORY_START + s"
  using memory_alloc_past_end [of "0x1000000" raw_heap] by fastforce

text \<open>
  Releasing a live block twice reports success both times and takes its size off the
  usage counter twice, so the counter no longer is the sum of the live blocks.
\<close>

theorem memory_free_twice:
  assumes "frames_ok self" and "i < page_frames_dim self" and "fr_used (page_frames self i) = 1"
  defines "self1 \<equiv> snd (memory_free self (fr_start (page_frames self i)))"
  defines "self2 \<equiv> snd (memory_free self1 (fr_start (page_frames self i)))"
  shows "fst (memory_free self1 (fr_start (page_frames self i))) = 0 \<and> live self2 = live self1 \<and>
    used_memory (mm_info self2) = used_memory (mm_info self1) - fr_size (page_frames self i) \<and>
    unat (used_memory (mm_info self2)) \<noteq> used_bytes self2"
proof -
  have s1: "self1 = unuse_frame i self" using memory_free_frame [OF assms(1,2)] by (simp add: self1_def)
  have ok: "frames_ok self1" unfolding s1 by (rule frames_ok_unuse [OF assms(1-3)])
  have f: "memory_free self1 (fr_start (page_frames self i)) = (0, unuse_frame i self1)"
    using memory_free_frame [OF ok, of i] assms(2) by (simp add: s1)
  then have s2: "self2 = unuse_frame i self1" by (simp add: self2_def)
  have "used_bytes self2 = used_bytes self1" by (auto simp: s2 s1 used_bytes_def intro!: sum.cong)
  moreover have "used_memory (mm_info self2) \<noteq> used_memory (mm_info self1)"
    using frames_okD(3) [OF assms(1,2)] by (auto simp: s2 s1)
  ultimately have "unat (used_memory (mm_info self2)) \<noteq> used_bytes self2"
    using frames_okD(7) [OF ok] by (metis word_unat_eq_iff)
  then show ?thesis using f by (auto simp: s2 s1 live_def)
qed

theorem memory_free_twice_witness:
  "fst (memory_free (unuse_frame 0 (use_frame 0 (grown 24 (memory_manager_init raw_heap MEMORY_START))))
     MEMORY_START) = 0"
proof -
  let ?h = "memory_manager_init raw_heap MEMORY_START"
  let ?m = "use_frame 0 (grown 24 ?h)"
  note f = fresh_heap [of raw_heap]
  have ok: "frames_ok ?m"
    by (rule frames_ok_use, rule frames_ok_grown [OF f(1)]) (simp_all add: f(3,4) grown_def)
  have i: "0 < page_frames_dim ?m" "fr_used (page_frames ?m 0) = 1"
    "fr_start (page_frames ?m 0) = MEMORY_START"
    using f(3,4) by (simp_all add: grown_def)
  from memory_free_twice [OF ok i(1,2)] memory_free_frame [OF ok i(1)] i(3) show ?thesis by simp
qed

end
