(* ===== verification/Buddy.thy ===== *)
theory Buddy
  imports Page_Frames
begin

text \<open>
  The other kernel allocator, Kernel/memory-manager/buddymm.c, compiled with \<open>buddy\<close> defined.
  Every block starts with a header of 16 bytes; the model keeps the headers as a map from
  addresses, which reads whatever is stored at an address as a header. Orders are natural
  numbers; they stay below 25, so \<open>int8_t\<close> never wraps. A pointer is a 64 bit address and
  the null pointer is 0.
\<close>

section \<open>State\<close>

abbreviation MIN_LEVEL :: nat where "MIN_LEVEL \<equiv> 5"
abbreviation MAX_ORDER :: nat where "MAX_ORDER \<equiv> 25"
abbreviation FREE :: u8 where "FREE \<equiv> 1"
abbreviation OCCUPIED :: u8 where "OCCUPIED \<equiv> 0"
abbreviation sizeof_block :: u64 where "sizeof_block \<equiv> 16"

record block =
  b_order :: nat
  b_status :: u8
  b_next :: u64

record buddy_manager =
  max_order :: nat
  free_blocks :: "nat \<Rightarrow> u64"
  bd_info :: heap_state
  bd_mem :: "u64 \<Rightarrow> block"

definition upd_block :: "u64 \<Rightarrow> (block \<Rightarrow> block) \<Rightarrow> buddy_manager \<Rightarrow> buddy_manager" where
  "upd_block a f self = self\<lparr>bd_mem := (bd_mem self)(a := f (bd_mem self a))\<rparr>"

section \<open>Operations\<close>

definition create_block :: "u64 \<Rightarrow> nat \<Rightarrow> buddy_manager \<Rightarrow> buddy_manager" where
  "create_block address order self =
     self\<lparr>bd_mem := (bd_mem self)(address := \<lparr>b_order = order, b_status = FREE, b_next = free_blocks self order\<rparr>),
          free_blocks := (free_blocks self)(order := address)\<rparr>"

text \<open>The walk to the predecessor of a block; a cyclic list would not end.\<close>

partial_function (option) predecessor :: "(u64 \<Rightarrow> block) \<Rightarrow> u64 \<Rightarrow> u64 \<Rightarrow> u64 option" where
  "predecessor mem block cb =
     (if b_next (mem cb) \<noteq> 0 \<and> b_next (mem cb) \<noteq> block
      then predecessor mem block (b_next (mem cb)) else Some cb)"

definition unlink_after :: "u64 \<Rightarrow> buddy_manager \<Rightarrow> buddy_manager" where
  "unlink_after cb self =
     (if b_next (bd_mem self cb) = 0 then self
      else upd_block cb (\<lambda>b. b\<lparr>b_next := b_next (bd_mem self (b_next b)), b_status := OCCUPIED\<rparr>) self)"

definition remove_block :: "u64 \<Rightarrow> buddy_manager \<Rightarrow> buddy_manager option" where
  "remove_block block self =
     (if block = 0 then Some self
      else let order = b_order (bd_mem self block); cb = free_blocks self order
           in if cb = 0 then Some self
              else if cb = block
              then Some ((upd_block block (\<lambda>b. b\<lparr>b_status := OCCUPIED\<rparr>) self)
                     \<lparr>free_blocks := (free_blocks self)(order := b_next (bd_mem self block))\<rparr>)
              else map_option (\<lambda>p. unlink_after p self) (predecessor (bd_mem self) block cb))"

definition split_block :: "nat \<Rightarrow> buddy_manager \<Rightarrow> buddy_manager option" where
  "split_block order self =
     (let block = free_blocks self order
      in map_option (\<lambda>m. create_block block (order - 1) (create_block (block + 2 ^ (order - 1)) (order - 1) m))
           (remove_block block self))"

text \<open>The merged block, not in any list yet; \<open>left\<close> is the lower of the two addresses.\<close>

definition merge_blocks :: "u64 \<Rightarrow> u64 \<Rightarrow> buddy_manager \<Rightarrow> (u64 \<times> buddy_manager) option" where
  "merge_blocks block buddy_block self =
     (if block = 0 \<or> buddy_block = 0 then Some (0, self)
      else let left = (if block < buddy_block then block else buddy_block)
           in map_option (\<lambda>m. (left, upd_block left (\<lambda>b. b\<lparr>b_order := Suc (b_order b), b_status := FREE\<rparr>) m))
                (remove_block buddy_block self))"

text \<open>The level of the whole memory: \<open>current_size\<close> is \<open>2 ^ level\<close> throughout.\<close>

function level_loop :: "nat \<Rightarrow> nat \<Rightarrow> nat" where
  "level_loop level n = (if 2 ^ level < n then level_loop (Suc level) n else level)"
  by pat_completeness auto
termination
  by (relation "measure (\<lambda>(l, n). n - 2 ^ l)") (auto intro!: diff_less_mono2)

declare level_loop.simps [simp del]

definition buddy_init :: "buddy_manager \<Rightarrow> buddy_manager" where
  "buddy_init raw =
     (let level = level_loop 1 (unat MEMORY_SIZE);
          mm = raw\<lparr>max_order := level, free_blocks := (\<lambda>i. if i < MAX_ORDER then 0 else free_blocks raw i),
                   bd_info := (bd_info raw)\<lparr>total_memory := MEMORY_SIZE, used_memory := 0, mm_type := ''buddy''\<rparr>\<rparr>
      in create_block MEMORY_START level mm)"

text \<open>Splitting from the order found down to the order wanted.\<close>

fun split_down :: "nat \<Rightarrow> nat \<Rightarrow> buddy_manager \<Rightarrow> buddy_manager option" where
  "split_down order 0 self = Some self"
| "split_down order (Suc n) self =
     (case split_block (order + Suc n) self of None \<Rightarrow> None | Some m \<Rightarrow> split_down order n m)"

definition take_block :: "nat \<Rightarrow> buddy_manager \<Rightarrow> (u64 \<times> buddy_manager) option" where
  "take_block order self =
     (let block = free_blocks self order
      in map_option (\<lambda>m. (block + sizeof_block, upd_block block (\<lambda>b. b\<lparr>b_status := OCCUPIED\<rparr>) m))
           (remove_block block self))"

definition buddy_alloc :: "buddy_manager \<Rightarrow> u64 \<Rightarrow> (u64 \<times> buddy_manager) option" where
  "buddy_alloc self sz =
     (if sz = 0 \<or> sz > MEMORY_SIZE then Some (0, self)
      else let order = max MIN_LEVEL (level_loop 1 (unat (sz + sizeof_block)))
           in if free_blocks self order \<noteq> 0 then take_block order self
              else case find_from (\<lambda>i. free_blocks self i \<noteq> 0) (Suc order) (Suc (max_order self)) of
                     None \<Rightarrow> Some (0, self)
                   | Some order_approx \<Rightarrow>
                       (case split_down order (order_approx - order) self of
                          None \<Rightarrow> None | Some m \<Rightarrow> take_block order m))"

definition buddy_of :: "u64 \<Rightarrow> nat \<Rightarrow> u64" where
  "buddy_of block order = MEMORY_START + ((block - MEMORY_START) XOR 2 ^ order)"

partial_function (option) merge_loop :: "u64 \<Rightarrow> buddy_manager \<Rightarrow> (u64 \<times> buddy_manager) option" where
  "merge_loop block self =
     (let buddy_block = buddy_of block (b_order (bd_mem self block))
      in if block \<noteq> 0 \<and> buddy_block \<noteq> 0 \<and> b_order (bd_mem self block) < max_order self \<and>
            b_status (bd_mem self buddy_block) = FREE \<and>
            b_order (bd_mem self buddy_block) = b_order (bd_mem self block)
         then (case merge_blocks block buddy_block self of
                 None \<Rightarrow> None
               | Some (left, m) \<Rightarrow>
                   if left = 0 then Some (0, m)
                   else merge_loop left (upd_block left (\<lambda>b. b\<lparr>b_status := FREE\<rparr>) m))
         else Some (block, self))"

text \<open>The result of the loop is null only where the C code returns -1 too.\<close>

definition buddy_free :: "buddy_manager \<Rightarrow> u64 \<Rightarrow> (int \<times> buddy_manager) option" where
  "buddy_free self ptr =
     (if ptr = 0 then Some (-1, self)
      else let block = ptr - sizeof_block
           in if block = 0 \<or> b_status (bd_mem self block) = FREE then Some (-1, self)
              else let m = upd_block block (\<lambda>b. b\<lparr>b_status := FREE\<rparr>) self
                   in if buddy_of block (b_order (bd_mem m block)) = 0 then Some (-1, m)
                      else map_option (\<lambda>(b, m'). if b = 0 then (-1, m')
                             else (0, create_block b (b_order (bd_mem m' b)) m')) (merge_loop block m))"

text \<open>One order's free list, added up; the outer loop leaves out \<open>max_order\<close>.\<close>

partial_function (option) free_sum :: "(u64 \<Rightarrow> block) \<Rightarrow> nat \<Rightarrow> u64 \<Rightarrow> u64 \<Rightarrow> u64 option" where
  "free_sum mem i current_block acc =
     (if current_block = 0 then Some acc
      else free_sum mem i (b_next (mem current_block)) (acc + 2 ^ i))"

fun free_orders :: "buddy_manager \<Rightarrow> nat list \<Rightarrow> u64 \<Rightarrow> u64 option" where
  "free_orders self [] acc = Some acc"
| "free_orders self (i # is) acc =
     (case free_sum (bd_mem self) i (free_blocks self i) acc of
        None \<Rightarrow> None | Some t \<Rightarrow> free_orders self is t)"

text \<open>The caller's structure and the manager, whose \<open>free_memory\<close> is refreshed.\<close>

definition buddy_state_get :: "buddy_manager \<Rightarrow> heap_state \<Rightarrow> (heap_state \<times> buddy_manager) option" where
  "buddy_state_get self state =
     map_option (\<lambda>f. let self' = self\<lparr>bd_info := (bd_info self)\<lparr>free_memory := f\<rparr>\<rparr>
        in (state\<lparr>total_memory := total_memory (bd_info self'),
                  used_memory := total_memory (bd_info self') - free_memory (bd_info self'),
                  free_memory := free_memory (bd_info self'), mm_type := mm_type (bd_info self')\<rparr>, self'))
       (free_orders self [MIN_LEVEL..<max_order self] 0)"

section \<open>Tiles\<close>

text \<open>A block seen from outside: its address and its order. All blocks are aligned to their size.\<close>

type_synonym tile = "u64 \<times> nat"

definition tile_ok :: "tile \<Rightarrow> bool" where
  "tile_ok t \<longleftrightarrow> MIN_LEVEL \<le> snd t \<and> snd t \<le> 21 \<and> 2 ^ snd t dvd unat (fst t) \<and>
     unat MEMORY_START \<le> unat (fst t) \<and> unat (fst t) + 2 ^ snd t \<le> unat MEMORY_END"

definition span :: "tile \<Rightarrow> nat set" where
  "span t = {unat (fst t)..<unat (fst t) + 2 ^ snd t}"

definition tiling :: "tile set \<Rightarrow> bool" where
  "tiling T \<longleftrightarrow> (\<forall>t\<in>T. tile_ok t) \<and> (\<forall>t\<in>T. \<forall>t'\<in>T. t \<noteq> t' \<longrightarrow> span t \<inter> span t' = {}) \<and>
     {unat MEMORY_START..<unat MEMORY_END} \<subseteq> \<Union> (span ` T)"

lemma dvd_ceiling:
  assumes "(d :: nat) dvd a" "x < a" "d dvd b" "b \<le> x"
  shows "b + d \<le> a"
proof -
  have "d dvd a - b" "0 < a - b" using assms by auto
  then have "d \<le> a - b" by (rule dvd_imp_le)
  then show ?thesis using assms(2,4) by simp
qed

lemma dvd_floor:
  assumes "(d :: nat) dvd a" "a \<le> x" "d dvd b" "x < b + d"
  shows "a \<le> b"
proof (rule ccontr)
  assume "\<not> a \<le> b"
  then have "b + d \<le> a" using dvd_ceiling [OF assms(1) _ assms(3), of b] by simp
  then show False using assms(2,4) by simp
qed

text \<open>Two tiles that meet are nested.\<close>

lemma tiles_nested:
  assumes "tile_ok (a, k)" "tile_ok (b, j)" "j \<le> k" "x \<in> span (a, k)" "x \<in> span (b, j)"
  shows "unat a \<le> unat b \<and> unat b + 2 ^ j \<le> unat a + 2 ^ k"
proof -
  have d: "2 ^ j dvd unat a" "2 ^ j dvd unat a + 2 ^ k" "2 ^ j dvd unat b"
  proof -
    have "(2 :: nat) ^ j dvd 2 ^ k" by (rule le_imp_power_dvd [OF assms(3)])
    moreover have "2 ^ k dvd unat a" "2 ^ j dvd unat b" using assms(1,2) by (simp_all add: tile_ok_def)
    ultimately show "2 ^ j dvd unat a" "2 ^ j dvd unat a + 2 ^ k" "2 ^ j dvd unat b"
      by (blast intro: dvd_trans dvd_add)+
  qed
  show ?thesis
    using dvd_floor [OF d(1) _ d(3)] dvd_ceiling [OF d(2) _ d(3)] assms(4,5) by (auto simp: span_def)
qed

lemma unat_add_pow:
  assumes "unat (a :: u64) + 2 ^ k \<le> unat MEMORY_END"
  shows "unat (a + 2 ^ k) = unat a + 2 ^ k"
proof -
  have lt: "(2 :: nat) ^ k < 2 ^ 64" using assms by simp
  have "unat (of_nat (2 ^ k) :: u64) = 2 ^ k mod 2 ^ 64"
    by (simp only: unat_of_nat) simp
  then have u: "unat ((2 :: u64) ^ k) = 2 ^ k" using lt by simp
  have "unat a + unat ((2 :: u64) ^ k) < 2 ^ 64" unfolding u using assms by simp
  then show ?thesis using unat_add_lem [of a "2 ^ k"] u by simp
qed

lemma tile_split:
  assumes "tile_ok (a, Suc k)" "MIN_LEVEL \<le> k"
  shows "tile_ok (a, k)" "tile_ok (a + 2 ^ k, k)" "unat (a + 2 ^ k) = unat a + 2 ^ k"
    "span (a, Suc k) = span (a, k) \<union> span (a + 2 ^ k, k)" "span (a, k) \<inter> span (a + 2 ^ k, k) = {}"
proof -
  show u: "unat (a + 2 ^ k) = unat a + 2 ^ k"
    by (rule unat_add_pow) (use assms in \<open>simp add: tile_ok_def\<close>)
  have "2 ^ Suc k dvd unat a" using assms(1) by (simp add: tile_ok_def)
  then have d: "2 ^ k dvd unat a" by (rule dvd_trans [rotated]) simp
  show "tile_ok (a, k)" "tile_ok (a + 2 ^ k, k)"
    using assms d u by (auto simp: tile_ok_def)
  show "span (a, Suc k) = span (a, k) \<union> span (a + 2 ^ k, k)" "span (a, k) \<inter> span (a + 2 ^ k, k) = {}"
    by (auto simp: span_def u)
qed

lemma xor_pow:
  assumes "k < 64"
  shows "(x :: u64) XOR 2 ^ k = (if bit x k then x - 2 ^ k else x + 2 ^ k)"
proof -
  have "x XOR 2 ^ k = flip_bit k x" by (simp add: flip_bit_eq_xor push_bit_eq_mult)
  also have "\<dots> = (if bit x k then x - 2 ^ k else x + 2 ^ k)"
    using assms by (simp add: flip_bit_eq_if unset_bit_eq set_bit_eq)
  finally show ?thesis .
qed

lemma start_dvd: "k \<le> 21 \<Longrightarrow> 2 ^ k dvd unat MEMORY_START"
proof -
  assume "k \<le> 21"
  then have "(2 :: nat) ^ k dvd 2 ^ 21 * 3" by (intro dvd_mult2 le_imp_power_dvd)
  then show ?thesis by simp
qed

lemma buddy_of_cases:
  assumes "tile_ok (a, k)" "k < 21"
  shows "2 ^ Suc k dvd unat a \<Longrightarrow> buddy_of a k = a + 2 ^ k"
    and "\<not> 2 ^ Suc k dvd unat a \<Longrightarrow> buddy_of a k = a - 2 ^ k"
proof -
  let ?s = "unat MEMORY_START"
  have s: "2 ^ Suc k dvd ?s" "2 ^ k dvd ?s" using start_dvd [of "Suc k"] start_dvd [of k] assms(2) by auto
  have le: "MEMORY_START \<le> a" "?s \<le> unat a" using assms(1) by (simp_all add: tile_ok_def word_le_nat_alt)
  have u: "unat (a - MEMORY_START) = unat a - ?s" by (rule unat_sub [OF le(1)])
  have "2 ^ k dvd unat a - ?s" using assms(1) s(2) by (intro dvd_diff_nat) (simp_all add: tile_ok_def)
  then obtain q where q: "unat a - ?s = 2 ^ k * q" by (elim dvdE)
  have "bit (a - MEMORY_START) k = bit (unat (a - MEMORY_START)) k"
    using assms(2) by (simp add: bit_unsigned_iff)
  also have "\<dots> \<longleftrightarrow> odd q" unfolding u q by (simp add: bit_iff_odd)
  also have "\<dots> \<longleftrightarrow> \<not> 2 ^ Suc k dvd unat a - ?s" unfolding q by simp
  also have "\<dots> \<longleftrightarrow> \<not> 2 ^ Suc k dvd unat a"
    using dvd_add_left_iff [OF s(1), of "unat a - ?s"] le(2) by simp
  finally have b: "bit (a - MEMORY_START) k \<longleftrightarrow> \<not> 2 ^ Suc k dvd unat a" .
  show "2 ^ Suc k dvd unat a \<Longrightarrow> buddy_of a k = a + 2 ^ k" "\<not> 2 ^ Suc k dvd unat a \<Longrightarrow> buddy_of a k = a - 2 ^ k"
    using b assms(2) by (simp_all add: buddy_of_def xor_pow)
qed

text \<open>A block and its buddy are the two halves of a tile.\<close>

lemma buddy_halves:
  assumes "tile_ok (a, k)" "k < 21"
  defines "b \<equiv> buddy_of a k" and "p \<equiv> (if a < buddy_of a k then a else buddy_of a k)"
  shows "tile_ok (p, Suc k)" "{a, b} = {p, p + 2 ^ k}" "a \<noteq> b" "tile_ok (b, k)" "p \<noteq> 0"
proof -
  have t: "MIN_LEVEL \<le> k" "2 ^ k dvd unat a" "unat MEMORY_START \<le> unat a" "unat a + 2 ^ k \<le> unat MEMORY_END"
    using assms(1) by (simp_all add: tile_ok_def)
  have "\<exists>q. tile_ok (q, Suc k) \<and> (a = q \<and> b = q + 2 ^ k \<or> a = q + 2 ^ k \<and> b = q)"
  proof (cases "2 ^ Suc k dvd unat a")
    case True
    have "(2 :: nat) ^ Suc k dvd 2 ^ 21 * 4" using assms(2) by (intro dvd_mult2 le_imp_power_dvd) simp
    then have "2 ^ Suc k dvd unat MEMORY_END" by simp
    from dvd_ceiling [OF this _ True, of "unat a"] t(4) have "unat a + 2 ^ Suc k \<le> unat MEMORY_END"
      by (metis add.commute le_refl less_add_same_cancel2 order_less_le_trans zero_less_numeral zero_less_power)
    then show ?thesis
      using True t assms(2) buddy_of_cases(1) [OF assms(1,2) True] by (intro exI [of _ a]) (simp add: tile_ok_def b_def)
  next
    case False
    let ?q = "a - 2 ^ k"
    have sd: "2 ^ k dvd unat MEMORY_START" "2 ^ Suc k dvd unat MEMORY_START"
      using start_dvd [of k] start_dvd [of "Suc k"] assms(2) by auto
    have "unat MEMORY_START < unat a" using False sd(2) t(3) by (metis le_neq_implies_less)
    then have le: "unat MEMORY_START + 2 ^ k \<le> unat a" using dvd_ceiling [OF t(2) _ sd(1)] by simp
    have lt: "(2 :: nat) ^ k < 2 ^ 64" using t(4) by simp
    have "unat (of_nat (2 ^ k) :: u64) = 2 ^ k mod 2 ^ 64" by (simp only: unat_of_nat) simp
    then have u: "unat ((2 :: u64) ^ k) = 2 ^ k" using lt by simp
    have "2 ^ k \<le> a" unfolding word_le_nat_alt u using le by simp
    then have uq: "unat ?q = unat a - 2 ^ k" using u by (simp add: unat_sub)
    obtain m where m: "unat a = 2 ^ k * m" using t(2) by (elim dvdE)
    have "odd m" using False m by auto
    then have "even (m - 1)" by simp
    then have "2 ^ k * 2 dvd 2 ^ k * (m - 1)" by (intro mult_dvd_mono dvd_refl)
    then have "2 ^ Suc k dvd 2 ^ k * (m - 1)" by (simp only: power_Suc2)
    moreover have "2 ^ k * (m - 1) = unat a - 2 ^ k" unfolding m by (simp only: diff_mult_distrib2 mult_1_right)
    ultimately have "2 ^ Suc k dvd unat ?q" unfolding uq by (simp only:)
    then show ?thesis
      using t le uq assms(2) buddy_of_cases(2) [OF assms(1,2) False]
      by (intro exI [of _ ?q]) (simp add: tile_ok_def b_def)
  qed
  then obtain q where q: "tile_ok (q, Suc k)" "a = q \<and> b = q + 2 ^ k \<or> a = q + 2 ^ k \<and> b = q" by blast
  note s = tile_split [OF q(1) t(1)]
  have "unat q < unat (q + 2 ^ k)" using s(3) by simp
  then have lt: "q < q + 2 ^ k" by (simp add: word_less_nat_alt)
  have p: "p = q" using q(2) lt unfolding p_def b_def [symmetric] by auto
  show "tile_ok (p, Suc k)" "{a, b} = {p, p + 2 ^ k}" "a \<noteq> b" "tile_ok (b, k)"
    using q lt s p by auto
  show "p \<noteq> 0" using q(1) p by (auto simp: tile_ok_def)
qed

lemma buddy_in_tiling:
  assumes "tiling T" "(a, k) \<in> T" "k < 21"
  shows "\<exists>j\<le>k. (buddy_of a k, j) \<in> T"
proof -
  let ?b = "buddy_of a k"
  define p where "p = (if a < ?b then a else ?b)"
  have ok: "tile_ok (a, k)" using assms(1,2) by (auto simp: tiling_def)
  note h = buddy_halves [OF ok assms(3), folded p_def]
  note s = tile_split [OF h(1)]
  have ml: "MIN_LEVEL \<le> k" using ok by (simp add: tile_ok_def)
  have hb: "unat MEMORY_START \<le> unat ?b" "unat ?b + 2 ^ k \<le> unat MEMORY_END" using h(4) by (simp_all only: tile_ok_def fst_conv snd_conv)
  have "unat ?b < unat ?b + 2 ^ k" by simp
  from hb(1) order_less_le_trans [OF this hb(2)]
  have "unat ?b \<in> {unat MEMORY_START..<unat MEMORY_END}" by (simp only: atLeastLessThan_iff simp_thms)
  with assms(1) have "unat ?b \<in> \<Union> (span ` T)" unfolding tiling_def by (elim conjE) (rule subsetD)
  then obtain c j where cj: "(c, j) \<in> T" "unat ?b \<in> span (c, j)" by (elim UN_E) (metis surj_pair)
  have okc: "tile_ok (c, j)" using assms(1) cj(1) by (auto simp: tiling_def)
  have bb: "unat ?b \<in> span (?b, k)" "unat a \<in> span (a, k)" by (simp_all add: span_def)
  have ab: "span (a, k) \<union> span (?b, k) = span (p, Suc k)" using s(4) [OF ml] h(2) by (metis (no_types, lifting) Un_commute doubleton_eq_iff)
  have "j \<le> k"
  proof (rule ccontr)
    assume "\<not> j \<le> k"
    then have j: "Suc k \<le> j" by simp
    have "unat ?b \<in> span (p, Suc k)" using ab bb by blast
    from tiles_nested [OF okc h(1) j cj(2) this] have "span (p, Suc k) \<subseteq> span (c, j)" by (auto simp: span_def)
    then have "unat a \<in> span (c, j)" using ab bb by blast
    moreover have "(a, k) \<noteq> (c, j)" using j by auto
    ultimately show False using assms(1,2) cj(1) bb unfolding tiling_def by blast
  qed
  from tiles_nested [OF h(4) okc this bb(1) cj(2)] cj(2) have "unat ?b = unat c" by (simp add: span_def)
  then have "?b = c" by (simp add: word_unat_eq_iff)
  then show ?thesis using cj(1) \<open>j \<le> k\<close> by blast
qed

lemma span_start: "unat a \<in> span (a, k)"
  by (simp add: span_def)

lemma tiling_start_unique:
  assumes "tiling T" "(a, k) \<in> T" "(a, j) \<in> T"
  shows "k = j"
proof (rule ccontr)
  assume "k \<noteq> j"
  then have "span (a, k) \<inter> span (a, j) = {}" using assms unfolding tiling_def by auto
  then show False using span_start [of a k] span_start [of a j] by blast
qed

text \<open>Some tiles give way to others that cover the same addresses.\<close>

lemma tiling_replace:
  assumes "tiling (A \<union> T)" "A \<inter> T = {}" "\<Union> (span ` A) = \<Union> (span ` B)"
    and "\<forall>t\<in>B. tile_ok t" "\<forall>t\<in>B. \<forall>t'\<in>B. t \<noteq> t' \<longrightarrow> span t \<inter> span t' = {}"
  shows "tiling (B \<union> T) \<and> B \<inter> T = {}"
proof -
  have dj: "t \<in> A \<union> T \<Longrightarrow> t' \<in> A \<union> T \<Longrightarrow> t \<noteq> t' \<Longrightarrow> span t \<inter> span t' = {}" for t t'
    using assms(1) by (simp add: tiling_def)
  have bt: "span t \<inter> span t' = {}" if "t \<in> B" "t' \<in> T" for t t'
  proof (rule ccontr)
    assume "span t \<inter> span t' \<noteq> {}"
    then obtain x where x: "x \<in> span t" "x \<in> span t'" by blast
    then have "x \<in> \<Union> (span ` A)" unfolding assms(3) using that(1) by blast
    then obtain a where a: "a \<in> A" "x \<in> span a" by (elim UN_E)
    then have "a \<noteq> t'" using assms(2) that(2) by blast
    with dj [of a t'] a x(2) that(2) show False by blast
  qed
  have ne: "span t \<noteq> {}" for t by (cases t) (use span_start in blast)
  have "B \<inter> T = {}" using bt ne by blast
  moreover have "\<Union> (span ` (B \<union> T)) = \<Union> (span ` (A \<union> T))" using assms(3) by (simp add: image_Un)
  moreover have "\<forall>t\<in>B \<union> T. \<forall>t'\<in>B \<union> T. t \<noteq> t' \<longrightarrow> span t \<inter> span t' = {}"
    using bt dj assms(5) by blast
  moreover have "\<forall>t\<in>B \<union> T. tile_ok t" using assms(1,4) unfolding tiling_def by (elim conjE) blast
  moreover have "{unat MEMORY_START..<unat MEMORY_END} \<subseteq> \<Union> (span ` (A \<union> T))"
    using assms(1) unfolding tiling_def by (elim conjE)
  ultimately show ?thesis unfolding tiling_def by (simp only: simp_thms)
qed

lemma tiling_split:
  assumes "tiling (insert (a, Suc k) T)" "(a, Suc k) \<notin> T" "MIN_LEVEL \<le> k"
  shows "tiling (insert (a, k) (insert (a + 2 ^ k, k) T))" "(a, k) \<notin> T" "(a + 2 ^ k, k) \<notin> T" "a + 2 ^ k \<noteq> a"
proof -
  have "tile_ok (a, Suc k)" using assms(1) by (simp add: tiling_def)
  note s = tile_split [OF this assms(3)]
  have "tiling ({(a, k), (a + 2 ^ k, k)} \<union> T) \<and> {(a, k), (a + 2 ^ k, k)} \<inter> T = {}"
    by (rule tiling_replace [of "{(a, Suc k)}"]) (use assms(1,2) s in auto)
  then show "tiling (insert (a, k) (insert (a + 2 ^ k, k) T))" "(a, k) \<notin> T" "(a + 2 ^ k, k) \<notin> T"
    by simp_all
  have "unat (a + 2 ^ k) \<noteq> unat a" unfolding s(3) by simp
  then show "a + 2 ^ k \<noteq> a" by metis
qed

lemma tiling_merge:
  assumes "tiling (insert (p, k) (insert (p + 2 ^ k, k) T))" "(p, k) \<notin> T" "(p + 2 ^ k, k) \<notin> T"
    and "tile_ok (p, Suc k)" "MIN_LEVEL \<le> k"
  shows "tiling (insert (p, Suc k) T)" "(p, Suc k) \<notin> T"
proof -
  note s = tile_split [OF assms(4,5)]
  have "tiling ({(p, Suc k)} \<union> T) \<and> {(p, Suc k)} \<inter> T = {}"
    by (rule tiling_replace [of "{(p, k), (p + 2 ^ k, k)}"]) (use assms s in auto)
  then show "tiling (insert (p, Suc k) T)" "(p, Suc k) \<notin> T" by simp_all
qed

section \<open>Free lists\<close>

primrec chain :: "(u64 \<Rightarrow> block) \<Rightarrow> u64 \<Rightarrow> u64 list \<Rightarrow> bool" where
  "chain mem p [] \<longleftrightarrow> p = 0"
| "chain mem p (x # xs) \<longleftrightarrow> p = x \<and> x \<noteq> 0 \<and> chain mem (b_next (mem x)) xs"

lemma chain_cong:
  "(\<And>x. x \<in> set xs \<Longrightarrow> b_next (mem' x) = b_next (mem x)) \<Longrightarrow> chain mem' p xs = chain mem p xs"
  by (induction xs arbitrary: p) simp_all

lemma chain_nonzero: "chain mem p xs \<Longrightarrow> x \<in> set xs \<Longrightarrow> x \<noteq> 0"
  by (induction xs arbitrary: p) auto

lemma chain_null: "chain mem p xs \<Longrightarrow> p = 0 \<longleftrightarrow> xs = []"
  by (cases xs) auto

lemma predecessor_spec:
  "chain mem p (xs @ y # b # zs) \<Longrightarrow> distinct (xs @ y # b # zs) \<Longrightarrow> predecessor mem b p = Some y"
proof (induction xs arbitrary: p)
  case Nil
  then show ?case by (subst predecessor.simps) simp
next
  case (Cons x xs)
  then obtain q rest where q: "xs @ y # b # zs = q # rest" by (cases xs) auto
  then have n: "b_next (mem x) = q" "q \<noteq> 0" using Cons.prems(1) by auto
  have "q \<noteq> b" using q Cons.prems(2) by (cases xs) auto
  have "predecessor mem b (b_next (mem x)) = Some y" using Cons by simp
  moreover have "p = x" using Cons.prems(1) by simp
  ultimately show ?case using n \<open>q \<noteq> b\<close> by (subst predecessor.simps) simp
qed

lemma chain_unlink:
  assumes "chain mem p (xs @ y # b # zs)" "distinct (xs @ y # b # zs)" "b_next z = b_next (mem b)"
  shows "chain (mem(y := z)) p (xs @ y # zs)"
  using assms
proof (induction xs arbitrary: p)
  case Nil
  then have c: "chain mem (b_next (mem b)) zs" "y \<notin> set zs" by auto
  then have "chain (mem(y := z)) (b_next (mem b)) zs"
    by (subst chain_cong [of zs _ mem]) auto
  with Nil show ?case by (simp add: fun_upd_def)
qed auto

section \<open>The invariant\<close>

text \<open>
  \<open>F\<close> holds the free lists, \<open>L\<close> the live blocks, \<open>D\<close> the blocks that an operation in progress
  has taken out and not yet put anywhere. Together they tile the managed memory. The status of
  a free block is not fixed: unlinking a block marks its predecessor as occupied.
\<close>

definition ftiles :: "(nat \<Rightarrow> u64 list) \<Rightarrow> tile set" where
  "ftiles F = {(a, k). a \<in> set (F k)}"

definition bd_ok :: "buddy_manager \<Rightarrow> (nat \<Rightarrow> u64 list) \<Rightarrow> tile set \<Rightarrow> tile set \<Rightarrow> bool" where
  "bd_ok m F L D \<longleftrightarrow> max_order m = 21 \<and> total_memory (bd_info m) = MEMORY_SIZE \<and> (\<forall>k<MAX_ORDER. chain (bd_mem m) (free_blocks m k) (F k)) \<and>
     (\<forall>k. distinct (F k)) \<and> tiling (ftiles F \<union> (L \<union> D)) \<and> ftiles F \<inter> (L \<union> D) = {} \<and> L \<inter> D = {} \<and>
     (\<forall>k. \<forall>a\<in>set (F k). b_order (bd_mem m a) = k) \<and>
     (\<forall>a k. (a, k) \<in> L \<longrightarrow> b_order (bd_mem m a) = k \<and> b_status (bd_mem m a) \<noteq> FREE)"

lemma bd_okD:
  assumes "bd_ok m F L D"
  shows "max_order m = 21" "k < MAX_ORDER \<Longrightarrow> chain (bd_mem m) (free_blocks m k) (F k)" "distinct (F k)"
    "tiling (ftiles F \<union> (L \<union> D))" "ftiles F \<inter> (L \<union> D) = {}" "L \<inter> D = {}"
    "a \<in> set (F k) \<Longrightarrow> b_order (bd_mem m a) = k" "(a, k) \<in> L \<Longrightarrow> b_order (bd_mem m a) = k"
    "(a, k) \<in> L \<Longrightarrow> b_status (bd_mem m a) \<noteq> FREE" "total_memory (bd_info m) = MEMORY_SIZE"
  using assms by (simp_all add: bd_ok_def)

lemma bd_tile_ok:
  assumes "bd_ok m F L D" "a \<in> set (F k) \<or> (a, k) \<in> L \<or> (a, k) \<in> D"
  shows "tile_ok (a, k)"
  using bd_okD(4) [OF assms(1)] assms(2) by (auto simp: tiling_def ftiles_def)

lemma bd_start_unique:
  assumes "bd_ok m F L D" "a \<in> set (F k) \<or> (a, k) \<in> L \<or> (a, k) \<in> D" "a \<in> set (F j) \<or> (a, j) \<in> L \<or> (a, j) \<in> D"
  shows "k = j"
  by (rule tiling_start_unique [OF bd_okD(4) [OF assms(1)]]) (use assms(2,3) in \<open>auto simp: ftiles_def\<close>)

lemma tile_nonzero: "tile_ok (a, k) \<Longrightarrow> a \<noteq> 0"
  by (auto simp: tile_ok_def)

text \<open>Headers that belong to no free and no live block do not matter.\<close>

lemma bd_ok_write:
  assumes "bd_ok m F L D" "\<And>a k. a \<in> set (F k) \<or> (a, k) \<in> L \<Longrightarrow> bd_mem m' a = bd_mem m a"
    and "max_order m' = max_order m" "free_blocks m' = free_blocks m" "bd_info m' = bd_info m"
  shows "bd_ok m' F L D"
proof -
  have "chain (bd_mem m') p (F k) = chain (bd_mem m) p (F k)" for p k
  proof (rule chain_cong)
    fix x assume "x \<in> set (F k)"
    then show "b_next (bd_mem m' x) = b_next (bd_mem m x)" using assms(2) [of x k] by simp
  qed
  then show ?thesis using assms unfolding bd_ok_def by (simp; metis)
qed

lemma bd_ok_write_detached:
  assumes "bd_ok m F L D" "(a, k) \<in> D"
  shows "bd_ok (upd_block a f m) F L D"
proof (rule bd_ok_write [OF assms(1)])
  fix b j assume b: "b \<in> set (F j) \<or> (b, j) \<in> L"
  have "b \<noteq> a"
  proof
    assume e: "b = a"
    then have "j = k" using bd_start_unique [OF assms(1)] b assms(2) by blast
    then show False using b e assms(2) bd_okD(5,6) [OF assms(1)] by (auto simp: ftiles_def)
  qed
  then show "bd_mem (upd_block a f m) b = bd_mem m b" by (simp add: upd_block_def)
qed (simp_all add: upd_block_def)

text \<open>The detached tiles can be exchanged for others that cover the same.\<close>

lemma bd_ok_detached:
  assumes "bd_ok m F L D" "tiling (D' \<union> (ftiles F \<union> L))" "D' \<inter> (ftiles F \<union> L) = {}"
  shows "bd_ok m F L D'"
  using assms unfolding bd_ok_def by (simp add: Un_ac) blast

text \<open>A new free block.\<close>

lemma bd_ok_create:
  assumes "bd_ok m F L (insert (a, k) D)" "(a, k) \<notin> D"
  shows "bd_ok (create_block a k m) (F(k := a # F k)) L D"
proof -
  note d = bd_okD [OF assms(1)]
  have t: "tile_ok (a, k)" by (rule bd_tile_ok [OF assms(1)]) simp
  have k: "k < MAX_ORDER" using t by (simp add: tile_ok_def)
  have new: "a \<notin> set (F j)" "(a, j) \<notin> L" for j
  proof -
    have "a \<in> set (F j) \<or> (a, j) \<in> L \<Longrightarrow> k = j" using bd_start_unique [OF assms(1), of a k j] by blast
    then show "a \<notin> set (F j)" "(a, j) \<notin> L" using d(5,6) by (auto simp: ftiles_def)
  qed
  have ch: "chain (bd_mem (create_block a k m)) p (F j) = chain (bd_mem m) p (F j)" for p j
    by (rule chain_cong) (use new in \<open>auto simp: create_block_def\<close>)
  have f: "ftiles (F(k := a # F k)) = insert (a, k) (ftiles F)" by (auto simp: ftiles_def split: if_splits)
  have "chain (bd_mem (create_block a k m)) (free_blocks (create_block a k m) j) ((F(k := a # F k)) j)" if "j < MAX_ORDER" for j
    using d(2) [OF that] ch [of _ j] tile_nonzero [OF t] by (auto simp: create_block_def)
  moreover have "distinct ((F(k := a # F k)) j)" for j using d(3) new by simp
  moreover have "tiling (insert (a, k) (ftiles F) \<union> (L \<union> D))" using d(4) by simp
  moreover have "insert (a, k) (ftiles F) \<inter> (L \<union> D) = {}" "L \<inter> D = {}" using d(5,6) assms(2) by auto
  moreover have "b_order (bd_mem (create_block a k m) b) = j" if "b \<in> set ((F(k := a # F k)) j)" for b j
    using that d(7) new by (auto simp: create_block_def split: if_splits)
  moreover have "b_order (bd_mem (create_block a k m) b) = j \<and> b_status (bd_mem (create_block a k m) b) \<noteq> FREE"
    if "(b, j) \<in> L" for b j
    using that d(8,9) [OF that] new by (auto simp: create_block_def)
  moreover have "max_order (create_block a k m) = 21" "total_memory (bd_info (create_block a k m)) = MEMORY_SIZE"
    using d(1,10) by (simp_all add: create_block_def)
  ultimately show ?thesis unfolding bd_ok_def f by blast
qed

lemma bd_ok_unlinked:
  assumes "bd_ok m F L D" "b \<in> set (F k)" "c \<in> set (F k)"
    and "\<And>x. x \<noteq> c \<Longrightarrow> bd_mem m' x = bd_mem m x" "b_order (bd_mem m' c) = k"
    and "\<And>j. j \<noteq> k \<Longrightarrow> free_blocks m' j = free_blocks m j" "max_order m' = max_order m" "bd_info m' = bd_info m"
    and "chain (bd_mem m') (free_blocks m' k) (remove1 b (F k))"
  shows "bd_ok m' (F(k := remove1 b (F k))) L (insert (b, k) D) \<and> (b, k) \<notin> D"
proof -
  note d = bd_okD [OF assms(1)]
  have only: "c \<notin> set (F j)" if "j \<noteq> k" for j
    using bd_start_unique [OF assms(1), of c k j] assms(3) that by blast
  have notL: "(c, j) \<notin> L" for j
  proof
    assume l: "(c, j) \<in> L"
    then have "k = j" using bd_start_unique [OF assms(1), of c k j] assms(3) by blast
    then show False using l assms(3) d(5) by (auto simp: ftiles_def)
  qed
  have nD: "(b, k) \<notin> L \<union> D" using assms(2) d(5) by (auto simp: ftiles_def)
  have ft: "ftiles (F(k := remove1 b (F k))) = ftiles F - {(b, k)}"
    using d(3) [of k] by (auto simp: ftiles_def split: if_splits)
  have sub: "(b, k) \<in> ftiles F" using assms(2) by (simp add: ftiles_def)
  have "chain (bd_mem m') (free_blocks m' j) ((F(k := remove1 b (F k))) j)" if "j < MAX_ORDER" for j
  proof (cases "j = k")
    case False
    have "chain (bd_mem m') (free_blocks m j) (F j) = chain (bd_mem m) (free_blocks m j) (F j)"
    proof (rule chain_cong)
      fix x assume "x \<in> set (F j)"
      then have "x \<noteq> c" using only [OF False] by auto
      then show "b_next (bd_mem m' x) = b_next (bd_mem m x)" using assms(4) by simp
    qed
    then show ?thesis using False d(2) [OF that] assms(6) by simp
  qed (use assms(9) in simp)
  moreover have "distinct ((F(k := remove1 b (F k))) j)" for j using d(3) by simp
  moreover have "ftiles F - {(b, k)} \<union> (L \<union> insert (b, k) D) = ftiles F \<union> (L \<union> D)" using sub by blast
  then have "tiling (ftiles F - {(b, k)} \<union> (L \<union> insert (b, k) D))" using d(4) by simp
  moreover have "(ftiles F - {(b, k)}) \<inter> (L \<union> insert (b, k) D) = {}" "L \<inter> insert (b, k) D = {}"
    using d(5,6) nD by blast+
  moreover have "b_order (bd_mem m' a) = j" if "a \<in> set ((F(k := remove1 b (F k))) j)" for a j
    using that d(7) assms(4,5) notin_set_remove1 [of a "F k" b] by (cases "a = c"; cases "j = k") (auto simp: only dest: set_remove1_subset [THEN subsetD])
  moreover have "b_order (bd_mem m' a) = j \<and> b_status (bd_mem m' a) \<noteq> FREE" if "(a, j) \<in> L" for a j
    using that notL [of j] d(8,9) [OF that] assms(4) [of a] by (cases "a = c") auto
  moreover have "max_order m' = 21" "total_memory (bd_info m') = MEMORY_SIZE" using d(1,10) assms(7,8) by simp_all
  ultimately show ?thesis using nD unfolding bd_ok_def ft by blast
qed

lemma bd_ok_remove:
  assumes "bd_ok m F L D" "b \<in> set (F k)" "k < MAX_ORDER"
  shows "\<exists>m'. remove_block b m = Some m' \<and> bd_ok m' (F(k := remove1 b (F k))) L (insert (b, k) D) \<and>
    (b, k) \<notin> D \<and> (\<forall>x. x \<notin> set (F k) \<longrightarrow> bd_mem m' x = bd_mem m x) \<and> b_order (bd_mem m' b) = k"
proof -
  note d = bd_okD [OF assms(1)]
  have ch: "chain (bd_mem m) (free_blocks m k) (F k)" by (rule d(2) [OF assms(3)])
  have ok: "b_order (bd_mem m b) = k" by (rule d(7) [OF assms(2)])
  have nz: "b \<noteq> 0" by (rule chain_nonzero [OF ch assms(2)])
  have fz: "free_blocks m k \<noteq> 0" using chain_null [OF ch] assms(2) by auto
  obtain xs zs where F: "F k = xs @ b # zs" "b \<notin> set xs" using assms(2) split_list_first by fast
  then have r: "remove1 b (F k) = xs @ zs" by (simp add: remove1_append)
  show ?thesis
  proof (cases xs rule: rev_exhaust)
    case Nil
    define m' where "m' = (upd_block b (\<lambda>x. x\<lparr>b_status := OCCUPIED\<rparr>) m)\<lparr>free_blocks := (free_blocks m)(k := b_next (bd_mem m b))\<rparr>"
    have c: "free_blocks m k = b" "chain (bd_mem m) (b_next (bd_mem m b)) zs" using ch F Nil by auto
    have "remove_block b m = Some m'" using nz fz ok c(1) by (simp add: remove_block_def m'_def)
    moreover have "chain (bd_mem m') (b_next (bd_mem m b)) zs"
      by (subst chain_cong [of zs _ "bd_mem m"]) (use c(2) in \<open>auto simp: m'_def upd_block_def\<close>)
    then have "bd_ok m' (F(k := remove1 b (F k))) L (insert (b, k) D) \<and> (b, k) \<notin> D"
      by (intro bd_ok_unlinked [OF assms(1,2,2)]) (use ok r Nil in \<open>auto simp: m'_def upd_block_def\<close>)
    moreover have "\<forall>x. x \<notin> set (F k) \<longrightarrow> bd_mem m' x = bd_mem m x" "b_order (bd_mem m' b) = k"
      using assms(2) ok by (auto simp: m'_def upd_block_def)
    ultimately show ?thesis by blast
  next
    case (snoc ys y)
    define m' where "m' = upd_block y (\<lambda>x. x\<lparr>b_next := b_next (bd_mem m b), b_status := OCCUPIED\<rparr>) m"
    have F2: "F k = ys @ y # b # zs" using F snoc by simp
    have dist: "distinct (ys @ y # b # zs)" using d(3) [of k] F2 by simp
    have hd: "free_blocks m k \<noteq> b"
    proof -
      obtain q rest where q: "ys @ y # b # zs = q # rest" by (cases ys) auto
      then have "free_blocks m k = q" using ch F2 by simp
      moreover have "q \<noteq> b" using q dist by (cases ys) auto
      ultimately show ?thesis by simp
    qed
    have pr: "predecessor (bd_mem m) b (free_blocks m k) = Some y"
      by (rule predecessor_spec) (use ch F2 dist in auto)
    have yn: "b_next (bd_mem m y) = b"
    proof -
      have "chain mem p (ys @ y # b # zs) \<Longrightarrow> b_next (mem y) = b" for mem p by (induction ys arbitrary: p) auto
      then show ?thesis using ch F2 by simp
    qed
    have "remove_block b m = Some m'"
      using nz fz ok hd pr yn by (simp add: remove_block_def unlink_after_def m'_def upd_block_def Let_def)
    moreover have "bd_mem m' = (bd_mem m)(y := (bd_mem m y)\<lparr>b_next := b_next (bd_mem m b), b_status := OCCUPIED\<rparr>)"
      by (simp add: m'_def upd_block_def)
    then have "chain (bd_mem m') (free_blocks m k) (ys @ y # zs)"
      using chain_unlink [of "bd_mem m" "free_blocks m k" ys y b zs] ch F2 dist by simp
    then have "bd_ok m' (F(k := remove1 b (F k))) L (insert (b, k) D) \<and> (b, k) \<notin> D"
      by (intro bd_ok_unlinked [OF assms(1,2), of y]) (use d(7) [of y k] F2 r snoc in \<open>auto simp: m'_def upd_block_def\<close>)
    moreover have "\<forall>x. x \<notin> set (F k) \<longrightarrow> bd_mem m' x = bd_mem m x" "b_order (bd_mem m' b) = k"
      using F2 ok by (auto simp: m'_def upd_block_def)
    ultimately show ?thesis by blast
  qed
qed

section \<open>Allocation\<close>

lemma bd_ok_live:
  assumes "bd_ok m F L (insert (a, k) D)" "(a, k) \<notin> D" "b_order (bd_mem m a) = k" "b_status (bd_mem m a) \<noteq> FREE"
  shows "bd_ok m F (insert (a, k) L) D \<and> (a, k) \<notin> L"
  using assms unfolding bd_ok_def by (simp add: insert_commute)

lemma bd_ok_release:
  assumes "bd_ok m F L D" "(a, k) \<in> L"
  shows "bd_ok m F (L - {(a, k)}) (insert (a, k) D)"
proof -
  have "L - {(a, k)} \<union> insert (a, k) D = L \<union> D" using assms(2) by blast
  then show ?thesis using assms unfolding bd_ok_def by (simp only:) blast
qed

lemma bd_free_nonempty:
  assumes "bd_ok m F L D" "k < MAX_ORDER"
  shows "free_blocks m k \<noteq> 0 \<longleftrightarrow> F k \<noteq> []"
  using chain_null [OF bd_okD(2) [OF assms]] by simp

lemma bd_free_head:
  assumes "bd_ok m F L D" "k < MAX_ORDER" "F k \<noteq> []"
  shows "free_blocks m k \<in> set (F k)"
  using bd_okD(2) [OF assms(1,2)] assms(3) by (cases "F k") auto

lemma bd_free_order: "bd_ok m F L D \<Longrightarrow> F k \<noteq> [] \<Longrightarrow> MIN_LEVEL \<le> k \<and> k \<le> 21"
  using bd_tile_ok [of m F L D "hd (F k)" k] by (simp add: tile_ok_def)

lemma split_block_ok:
  assumes "bd_ok m F L {}" "F (Suc k) \<noteq> []" "MIN_LEVEL \<le> k"
  shows "\<exists>m' F'. split_block (Suc k) m = Some m' \<and> bd_ok m' F' L {} \<and> F' k \<noteq> []"
proof -
  have k: "Suc k < MAX_ORDER" using bd_free_order [OF assms(1,2)] by simp
  let ?a = "free_blocks m (Suc k)"
  let ?F = "F(Suc k := remove1 ?a (F (Suc k)))"
  obtain m1 where m1: "remove_block ?a m = Some m1" "bd_ok m1 ?F L {(?a, Suc k)}"
    using bd_ok_remove [OF assms(1) bd_free_head [OF assms(1) k assms(2)] k] by auto
  let ?T = "ftiles ?F \<union> L"
  have "tiling (insert (?a, Suc k) ?T)" "(?a, Suc k) \<notin> ?T" using bd_okD(4-6) [OF m1(2)] by auto
  note s = tiling_split [OF this assms(3)]
  have "bd_ok m1 ?F L {(?a + 2 ^ k, k), (?a, k)}"
    by (rule bd_ok_detached [OF m1(2)]) (use s in \<open>auto simp: insert_commute\<close>)
  from bd_ok_create [OF this]
  have "bd_ok (create_block (?a + 2 ^ k) k m1) (?F(k := (?a + 2 ^ k) # ?F k)) L {(?a, k)}"
    using s(4) by simp
  from bd_ok_create [OF this] show ?thesis using m1(1)
    by (auto simp: split_block_def Let_def intro!: exI)
qed

lemma split_down_ok:
  assumes "bd_ok m F L {}" "F (k + n) \<noteq> []" "MIN_LEVEL \<le> k"
  shows "\<exists>m' F'. split_down k n m = Some m' \<and> bd_ok m' F' L {} \<and> F' k \<noteq> []"
  using assms
proof (induction n arbitrary: m F)
  case (Suc n)
  obtain m1 F1 where s: "split_block (k + Suc n) m = Some m1" "bd_ok m1 F1 L {}" "F1 (k + n) \<noteq> []"
    using split_block_ok [of m F L "k + n"] Suc.prems by auto
  from Suc.IH [OF s(2,3) Suc.prems(3)] s(1) show ?case by simp
qed auto

lemma take_block_ok:
  assumes "bd_ok m F L {}" "F k \<noteq> []"
  shows "\<exists>a m' F'. take_block k m = Some (a + sizeof_block, m') \<and> (a, k) \<notin> L \<and> bd_ok m' F' (insert (a, k) L) {}"
proof -
  have k: "k < MAX_ORDER" using bd_free_order [OF assms] by simp
  let ?a = "free_blocks m k"
  obtain m1 where m1: "remove_block ?a m = Some m1" "bd_ok m1 (F(k := remove1 ?a (F k))) L {(?a, k)}"
      "b_order (bd_mem m1 ?a) = k"
    using bd_ok_remove [OF assms(1) bd_free_head [OF assms(1) k assms(2)] k] by auto
  let ?m = "upd_block ?a (\<lambda>b. b\<lparr>b_status := OCCUPIED\<rparr>) m1"
  have "bd_ok ?m (F(k := remove1 ?a (F k))) L {(?a, k)}" by (rule bd_ok_write_detached [OF m1(2)]) simp
  from bd_ok_live [OF this] m1(1,3) show ?thesis
    by (intro exI [of _ ?a] exI [of _ ?m] exI [of _ "F(k := remove1 ?a (F k))"]) (simp add: take_block_def Let_def upd_block_def)
qed

lemma level_loop_spec: "n \<le> 2 ^ level_loop l n"
proof (induction l n rule: level_loop.induct)
  case (1 l n)
  then show ?case by (subst level_loop.simps) auto
qed

lemma level_loop_least: "n \<le> 2 ^ j \<Longrightarrow> l \<le> j \<Longrightarrow> level_loop l n \<le> j"
proof (induction l n rule: level_loop.induct)
  case (1 l n)
  show ?case
  proof (cases "2 ^ l < n")
    case True
    then have "l \<noteq> j" using 1(2) by auto
    then show ?thesis using 1 True by (subst level_loop.simps) simp
  next
    case False
    then show ?thesis using 1(3) by (subst level_loop.simps) simp
  qed
qed

text \<open>The order of the block that serves a request.\<close>

definition order_for :: "u64 \<Rightarrow> nat" where
  "order_for n = max MIN_LEVEL (level_loop 1 (unat n + 16))"

lemma order_for_bounds:
  assumes "n \<le> MEMORY_SIZE"
  shows "MIN_LEVEL \<le> order_for n" "order_for n \<le> 22" "unat n + 16 \<le> 2 ^ order_for n"
    "unat (n + sizeof_block) = unat n + 16"
proof -
  have un: "unat n \<le> 2 ^ 21" using assms by (simp add: word_le_nat_alt)
  then show "unat (n + sizeof_block) = unat n + 16" by (simp add: unat_word_ariths)
  have "level_loop 1 (unat n + 16) \<le> 22" by (rule level_loop_least) (use un in simp_all)
  then show "MIN_LEVEL \<le> order_for n" "order_for n \<le> 22" by (simp_all add: order_for_def)
  have "unat n + 16 \<le> 2 ^ level_loop 1 (unat n + 16)" by (rule level_loop_spec)
  also have "(2 :: nat) ^ level_loop 1 (unat n + 16) \<le> 2 ^ order_for n"
    by (rule power_increasing) (simp_all add: order_for_def)
  finally show "unat n + 16 \<le> 2 ^ order_for n" .
qed

text \<open>What a request returns: a block that was free, or null and nothing changed.\<close>

lemma buddy_alloc_block:
  assumes "bd_ok m F L {}" "n \<noteq> 0" "n \<le> MEMORY_SIZE" "order_for n \<le> j" "F j \<noteq> []"
  shows "\<exists>a m' F'. buddy_alloc m n = Some (a + sizeof_block, m') \<and> (a, order_for n) \<notin> L \<and>
    bd_ok m' F' (insert (a, order_for n) L) {}"
proof -
  note o = order_for_bounds [OF assms(3)]
  let ?k = "order_for n"
  have ba: "buddy_alloc m n =
     (if free_blocks m ?k \<noteq> 0 then take_block ?k m
      else case find_from (\<lambda>i. free_blocks m i \<noteq> 0) (Suc ?k) (Suc (max_order m)) of
             None \<Rightarrow> Some (0, m)
           | Some order_approx \<Rightarrow>
               (case split_down ?k (order_approx - ?k) m of None \<Rightarrow> None | Some m' \<Rightarrow> take_block ?k m'))"
    unfolding buddy_alloc_def Let_def o(4) order_for_def [symmetric] by (rule if_not_P) (use assms(2,3) in simp)
  have taken: ?thesis if "buddy_alloc m n = take_block ?k m1" "bd_ok m1 F1 L {}" "F1 ?k \<noteq> []" for m1 F1
    using take_block_ok [OF that(2,3)] unfolding that(1) by blast
  show ?thesis
  proof (cases "F ?k \<noteq> []")
    case True
    then have "free_blocks m ?k \<noteq> 0" using bd_free_nonempty [OF assms(1)] o(2) by simp
    then show ?thesis by (intro taken [OF _ assms(1) True]) (simp only: ba if_True simp_thms)
  next
    case False
    then have z: "free_blocks m ?k = 0" using bd_free_nonempty [OF assms(1)] o(2) by simp
    have "j \<noteq> ?k" using assms(5) False by metis
    then have j: "Suc ?k \<le> j" "j < Suc (max_order m)" "free_blocks m j \<noteq> 0"
      using assms(4,5) bd_free_order [OF assms(1,5)] bd_okD(1) [OF assms(1)] bd_free_nonempty [OF assms(1), of j] by auto
    obtain i where i: "find_from (\<lambda>i. free_blocks m i \<noteq> 0) (Suc ?k) (Suc (max_order m)) = Some i"
      using find_from_NoneD [OF _ j(1,2), of "\<lambda>i. free_blocks m i \<noteq> 0"] j(3)
      by (cases "find_from (\<lambda>i. free_blocks m i \<noteq> 0) (Suc ?k) (Suc (max_order m))") blast+
    then have "Suc ?k \<le> i" "i < Suc 21" "free_blocks m i \<noteq> 0"
      using find_from_SomeD [OF i] bd_okD(1) [OF assms(1)] by auto
    then have "F (?k + (i - ?k)) \<noteq> []" using bd_free_nonempty [OF assms(1), of i] by simp
    from split_down_ok [OF assms(1) this o(1)] obtain m1 F1 where
      s: "split_down ?k (i - ?k) m = Some m1" "bd_ok m1 F1 L {}" "F1 ?k \<noteq> []" by blast
    show ?thesis by (rule taken [OF _ s(2,3)]) (unfold ba i, simp add: z s(1))
  qed
qed

lemma buddy_alloc_null:
  assumes "bd_ok m F L {}" "n = 0 \<or> n > MEMORY_SIZE \<or> (\<forall>j\<ge>order_for n. F j = [])"
  shows "buddy_alloc m n = Some (0, m)"
proof (cases "n = 0 \<or> n > MEMORY_SIZE")
  case True
  then show ?thesis by (auto simp: buddy_alloc_def)
next
  case False
  then have n: "n \<le> MEMORY_SIZE" by (simp add: not_less)
  note o = order_for_bounds [OF this]
  have z: "free_blocks m j = 0" if "order_for n \<le> j" "j < MAX_ORDER" for j
    using bd_free_nonempty [OF assms(1) that(2)] assms(2) False that(1) by auto
  have "find_from (\<lambda>i. free_blocks m i \<noteq> 0) (Suc (order_for n)) (Suc (max_order m)) = None"
    by (rule find_from_NoneI) (use z bd_okD(1) [OF assms(1)] in auto)
  moreover have "free_blocks m (order_for n) = 0" using z o(2) by simp
  ultimately show ?thesis
    unfolding buddy_alloc_def Let_def o(4) order_for_def [symmetric] using False by simp
qed

section \<open>Release\<close>

lemma merge_step_ok:
  assumes "bd_ok m F L {(a, k)}" "b_order (bd_mem m a) = k" "k < 21"
    and "b_status (bd_mem m (buddy_of a k)) = FREE" "b_order (bd_mem m (buddy_of a k)) = k"
  shows "\<exists>p m' F'. merge_blocks a (buddy_of a k) m = Some (p, m') \<and> p \<noteq> 0 \<and> bd_ok m' F' L {(p, Suc k)} \<and>
    b_order (bd_mem m' p) = Suc k"
proof -
  let ?b = "buddy_of a k"
  define p where "p = (if a < ?b then a else ?b)"
  note d = bd_okD [OF assms(1)]
  have ok: "tile_ok (a, k)" by (rule bd_tile_ok [OF assms(1)]) simp
  then have kl: "MIN_LEVEL \<le> k" by (simp add: tile_ok_def)
  note h = buddy_halves [OF ok assms(3), folded p_def]
  obtain j where j: "(?b, j) \<in> ftiles F \<union> (L \<union> {(a, k)})"
    using buddy_in_tiling [OF d(4) _ assms(3)] by blast
  have "(?b, j) \<notin> L" using d(9) [of ?b j] assms(4) by blast
  then have "?b \<in> set (F j)" using j h(3) by (auto simp: ftiles_def)
  then have b: "?b \<in> set (F k)" using d(7) [of ?b j] assms(5) by simp
  have na: "a \<notin> set (F k)" using d(5) by (auto simp: ftiles_def)
  obtain m1 where m1: "remove_block ?b m = Some m1" "bd_ok m1 (F(k := remove1 ?b (F k))) L (insert (?b, k) {(a, k)})"
      "(?b, k) \<notin> {(a, k)}" "bd_mem m1 a = bd_mem m a" "b_order (bd_mem m1 ?b) = k"
    using bd_ok_remove [OF assms(1) b] assms(3) na by auto
  let ?F = "F(k := remove1 ?b (F k))"
  note e = bd_okD(4-6) [OF m1(2)]
  have both: "insert (?b, k) {(a, k)} = {(p, k), (p + 2 ^ k, k)}" using h(2) by (auto simp: doubleton_eq_iff)
  have "tiling (insert (p, k) (insert (p + 2 ^ k, k) (ftiles ?F \<union> L)))" using e(1) unfolding both by simp
  moreover have "(p, k) \<notin> ftiles ?F \<union> L" "(p + 2 ^ k, k) \<notin> ftiles ?F \<union> L" using e(2,3) unfolding both by auto
  ultimately have t: "tiling (insert (p, Suc k) (ftiles ?F \<union> L))" "(p, Suc k) \<notin> ftiles ?F \<union> L"
    using tiling_merge h(1) kl by blast+
  have D: "bd_ok m1 ?F L {(p, Suc k)}" by (rule bd_ok_detached [OF m1(2)]) (use t in auto)
  let ?m = "upd_block p (\<lambda>b. b\<lparr>b_order := Suc (b_order b), b_status := FREE\<rparr>) m1"
  have "bd_ok ?m ?F L {(p, Suc k)}" by (rule bd_ok_write_detached [OF D]) simp
  moreover have "b_order (bd_mem m1 p) = k" using m1(4,5) assms(2) by (simp add: p_def)
  then have "b_order (bd_mem ?m p) = Suc k" by (simp add: upd_block_def)
  moreover have "merge_blocks a ?b m = Some (p, ?m)"
    using tile_nonzero [OF ok] tile_nonzero [OF h(4)] m1(1) by (simp add: merge_blocks_def p_def [symmetric])
  ultimately show ?thesis using h(5) by blast
qed

lemma merge_loop_ok:
  assumes "bd_ok m F L {(a, k)}" "b_order (bd_mem m a) = k"
  shows "\<exists>b j m' F'. merge_loop a m = Some (b, m') \<and> b \<noteq> 0 \<and> b_order (bd_mem m' b) = j \<and> bd_ok m' F' L {(b, j)}"
  using assms
proof (induction "21 - k" arbitrary: a k m F)
  case 0
  then have "\<not> k < 21" by simp
  moreover have "a \<noteq> 0" using bd_tile_ok [OF 0(2)] tile_nonzero by blast
  ultimately show ?case using 0(2,3) bd_okD(1) [OF 0(2)] by (subst merge_loop.simps) auto
next
  case (Suc n)
  have a: "a \<noteq> 0" using bd_tile_ok [OF Suc.prems(1)] tile_nonzero by blast
  note mo = bd_okD(1) [OF Suc.prems(1)]
  show ?case
  proof (cases "buddy_of a k \<noteq> 0 \<and> k < 21 \<and> b_status (bd_mem m (buddy_of a k)) = FREE \<and> b_order (bd_mem m (buddy_of a k)) = k")
    case True
    then obtain p m1 F1 where s: "merge_blocks a (buddy_of a k) m = Some (p, m1)" "p \<noteq> 0" "bd_ok m1 F1 L {(p, Suc k)}"
        "b_order (bd_mem m1 p) = Suc k"
      using merge_step_ok [OF Suc.prems] by blast
    let ?m = "upd_block p (\<lambda>b. b\<lparr>b_status := FREE\<rparr>) m1"
    have "bd_ok ?m F1 L {(p, Suc k)}" by (rule bd_ok_write_detached [OF s(3)]) simp
    moreover have "b_order (bd_mem ?m p) = Suc k" using s(4) by (simp add: upd_block_def)
    ultimately have "\<exists>b j m' F'. merge_loop p ?m = Some (b, m') \<and> b \<noteq> 0 \<and> b_order (bd_mem m' b) = j \<and> bd_ok m' F' L {(b, j)}"
      using Suc.hyps by (intro Suc.hyps(1)) simp_all
    moreover have "merge_loop a m = merge_loop p ?m"
      using True s a mo Suc.prems(2) by (subst merge_loop.simps) (simp add: Let_def)
    ultimately show ?thesis by simp
  next
    case False
    then have "merge_loop a m = Some (a, m)"
      using Suc.prems(2) mo by (subst merge_loop.simps) (auto simp: Let_def)
    then show ?thesis using a Suc.prems by blast
  qed
qed

text \<open>The whole memory has no buddy, but its computed address is not null either.\<close>

lemma buddy_of_nonzero:
  assumes "tile_ok (a, k)"
  shows "buddy_of a k \<noteq> 0"
proof (cases "k < 21")
  case True
  then show ?thesis using tile_nonzero [OF buddy_halves(4) [OF assms True]] by simp
next
  case False
  then have k: "k = 21" using assms by (simp add: tile_ok_def)
  then have "unat a = unat MEMORY_START" using assms by (simp add: tile_ok_def)
  then have "a = MEMORY_START" by (simp add: word_unat_eq_iff)
  then show ?thesis using k by (simp add: buddy_of_def)
qed

text \<open>Releasing a live block succeeds and takes exactly it away.\<close>

lemma buddy_free_ok:
  assumes "bd_ok m F L {}" "(a, k) \<in> L"
  shows "\<exists>m' F'. buddy_free m (a + sizeof_block) = Some (0, m') \<and> bd_ok m' F' (L - {(a, k)}) {}"
proof -
  have t: "tile_ok (a, k)" by (rule bd_tile_ok [OF assms(1)]) (simp add: assms(2))
  let ?m = "upd_block a (\<lambda>b. b\<lparr>b_status := FREE\<rparr>) m"
  have D: "bd_ok ?m F (L - {(a, k)}) {(a, k)}"
    by (rule bd_ok_write_detached [OF bd_ok_release [OF assms]]) simp
  have o: "b_order (bd_mem ?m a) = k" using bd_okD(8) [OF assms] by (simp add: upd_block_def)
  obtain b j m1 F1 where r: "merge_loop a ?m = Some (b, m1)" "b \<noteq> 0" "b_order (bd_mem m1 b) = j" "bd_ok m1 F1 (L - {(a, k)}) {(b, j)}"
    using merge_loop_ok [OF D o] by blast
  have "a + sizeof_block \<noteq> 0"
  proof
    assume z: "a + sizeof_block = 0"
    have "unat a + 16 < 2 ^ 64" using t by (simp add: tile_ok_def)
    then have "unat (a + sizeof_block) = unat a + 16" using unat_add_lem [of a sizeof_block] by simp
    then show False unfolding z by simp
  qed
  moreover have "b_status (bd_mem m a) \<noteq> FREE" by (rule bd_okD(9) [OF assms])
  moreover have "buddy_of a k \<noteq> 0" by (rule buddy_of_nonzero [OF t])
  ultimately have "buddy_free m (a + sizeof_block) = Some (0, create_block b j m1)"
    using r(1-3) o tile_nonzero [OF t] by (simp add: buddy_free_def Let_def)
  then show ?thesis using bd_ok_create [OF r(4)] by blast
qed

section \<open>The start\<close>

lemma level_memory: "level_loop 1 (unat MEMORY_SIZE) = 21"
proof (rule antisym)
  show "level_loop 1 (unat MEMORY_SIZE) \<le> 21" by (rule level_loop_least) simp_all
  have "2 ^ 21 \<le> (2 :: nat) ^ level_loop 1 (unat MEMORY_SIZE)" using level_loop_spec [of "unat MEMORY_SIZE" 1] by simp
  then show "21 \<le> level_loop 1 (unat MEMORY_SIZE)" by (rule power_le_imp_le_exp [rotated]) simp
qed

lemma whole_memory_tile: "tiling {(MEMORY_START, 21)}"
proof -
  have "unat MEMORY_START + 2 ^ 21 = unat MEMORY_END" by simp
  then have "span (MEMORY_START, 21) = {unat MEMORY_START..<unat MEMORY_END}" by (simp only: span_def fst_conv snd_conv)
  moreover have "tile_ok (MEMORY_START, 21)" using start_dvd [of 21] by (simp add: tile_ok_def)
  ultimately show ?thesis unfolding tiling_def by simp
qed

lemma buddy_init_ok: "bd_ok (buddy_init raw) ((\<lambda>_. [])(21 := [MEMORY_START])) {} {}"
proof -
  let ?m = "raw\<lparr>max_order := 21, free_blocks := (\<lambda>i. if i < MAX_ORDER then 0 else free_blocks raw i),
     bd_info := (bd_info raw)\<lparr>total_memory := MEMORY_SIZE, used_memory := 0, mm_type := ''buddy''\<rparr>\<rparr>"
  have "bd_ok ?m (\<lambda>_. []) {} {(MEMORY_START, 21)}"
    using whole_memory_tile by (simp add: bd_ok_def ftiles_def)
  from bd_ok_create [OF this] show ?thesis unfolding buddy_init_def level_memory Let_def by simp
qed

section \<open>The client's view\<close>

text \<open>The manager with the blocks its client holds; the order of a block is in its header.\<close>

type_synonym buddy_client = "buddy_manager \<times> tile set"

definition client_ok :: "buddy_client \<Rightarrow> bool" where
  "client_ok s \<longleftrightarrow> (\<exists>F. bd_ok (fst s) F (snd s) {})"

definition payload :: "tile \<Rightarrow> nat \<times> nat" where
  "payload t = (unat (fst t) + 16, 2 ^ snd t - 16)"

definition payloads :: "buddy_client \<Rightarrow> (nat \<times> nat) set" where
  "payloads s = payload ` snd s"

definition client_alloc :: "buddy_client \<Rightarrow> u64 \<Rightarrow> (u64 \<times> buddy_client) option" where
  "client_alloc s n = map_option (\<lambda>(p, m). (p, m, if p = 0 then snd s
     else insert (p - sizeof_block, b_order (bd_mem m (p - sizeof_block))) (snd s))) (buddy_alloc (fst s) n)"

definition client_free :: "buddy_client \<Rightarrow> u64 \<Rightarrow> (int \<times> buddy_client) option" where
  "client_free s p = map_option (\<lambda>(r, m). (r, m, if r = 0
     then snd s - {(p - sizeof_block, b_order (bd_mem (fst s) (p - sizeof_block)))} else snd s)) (buddy_free (fst s) p)"

lemma unat_payload:
  assumes "tile_ok (a, k)"
  shows "unat (a + sizeof_block) = unat a + 16" "a + sizeof_block \<noteq> 0" "16 < (2 :: nat) ^ k"
proof -
  have "unat a + 16 < 2 ^ 64" using assms by (simp add: tile_ok_def)
  then show u: "unat (a + sizeof_block) = unat a + 16" using unat_add_lem [of a sizeof_block] by simp
  show "a + sizeof_block \<noteq> 0"
  proof
    assume "a + sizeof_block = 0"
    then have "unat (a + sizeof_block) = 0" by simp
    then show False unfolding u by simp
  qed
  have "(2 :: nat) ^ 5 \<le> 2 ^ k" by (rule power_increasing) (use assms in \<open>simp_all add: tile_ok_def\<close>)
  then show "16 < (2 :: nat) ^ k" by simp
qed

lemma payload_in_span:
  assumes "tile_ok t"
  shows "{fst (payload t)..<fst (payload t) + snd (payload t)} \<subseteq> span t" "0 < snd (payload t)"
  using unat_payload(3) [of "fst t" "snd t"] assms by (auto simp: payload_def span_def)

lemma spans_apart:
  assumes "tile_ok t" "tile_ok t'" "span t \<inter> span t' = {}"
  shows "blocks_disjoint (payload t) (payload t')"
proof (rule ccontr)
  assume n: "\<not> blocks_disjoint (payload t) (payload t')"
  let ?x = "max (fst (payload t)) (fst (payload t'))"
  have "?x \<in> span t" "?x \<in> span t'"
    using n payload_in_span [OF assms(1)] payload_in_span [OF assms(2)] unfolding blocks_disjoint_def by (fastforce intro: subsetD)+
  then show False using assms(3) by blast
qed

lemma payloads_apart:
  assumes "client_ok s" "t \<in> snd s" "t' \<in> snd s" "t \<noteq> t'"
  shows "blocks_disjoint (payload t) (payload t')"
proof -
  obtain F where F: "bd_ok (fst s) F (snd s) {}" using assms(1) by (auto simp: client_ok_def)
  note T = bd_okD(4) [OF F]
  have "tile_ok t" "tile_ok t'" using bd_tile_ok [OF F] assms(2,3) by (metis surj_pair)+
  moreover have "span t \<inter> span t' = {}" using T assms(2-4) unfolding tiling_def by blast
  ultimately show ?thesis by (rule spans_apart)
qed

lemma client_tile_ok: "client_ok s \<Longrightarrow> t \<in> snd s \<Longrightarrow> tile_ok t"
  using bd_tile_ok [of "fst s" _ "snd s" "{}" "fst t" "snd t"] by (auto simp: client_ok_def)

lemma client_alloc_cases:
  assumes "client_ok s"
  shows "(\<exists>m. client_alloc s n = Some (0, m, snd s) \<and> client_ok (m, snd s)) \<or>
    (\<exists>a m. client_alloc s n = Some (a + sizeof_block, m, insert (a, order_for n) (snd s)) \<and> n \<le> MEMORY_SIZE \<and>
       (a, order_for n) \<notin> snd s \<and> client_ok (m, insert (a, order_for n) (snd s)))"
proof -
  obtain F where F: "bd_ok (fst s) F (snd s) {}" using assms by (auto simp: client_ok_def)
  show ?thesis
  proof (cases "n = 0 \<or> n > MEMORY_SIZE \<or> (\<forall>j\<ge>order_for n. F j = [])")
    case True
    from buddy_alloc_null [OF F this] F show ?thesis by (auto simp: client_alloc_def client_ok_def)
  next
    case False
    then obtain j where j: "n \<noteq> 0" "n \<le> MEMORY_SIZE" "order_for n \<le> j" "F j \<noteq> []" by (auto simp: not_less)
    then obtain a m' F' where r: "buddy_alloc (fst s) n = Some (a + sizeof_block, m')" "(a, order_for n) \<notin> snd s"
        "bd_ok m' F' (insert (a, order_for n) (snd s)) {}"
      using buddy_alloc_block [OF F] by blast
    have "tile_ok (a, order_for n)" by (rule bd_tile_ok [OF r(3)]) simp
    note u = unat_payload [OF this]
    have "b_order (bd_mem m' a) = order_for n" by (rule bd_okD(8) [OF r(3)]) simp
    then have "client_alloc s n = Some (a + sizeof_block, m', insert (a, order_for n) (snd s))"
      using r(1) u(2) by (simp add: client_alloc_def)
    moreover have "client_ok (m', insert (a, order_for n) (snd s))" using r(3) by (auto simp: client_ok_def)
    ultimately show ?thesis using j(2) r(2) by blast
  qed
qed

lemma client_free_ok:
  assumes "client_ok s" "(a, k) \<in> snd s"
  shows "\<exists>m'. client_free s (a + sizeof_block) = Some (0, m', snd s - {(a, k)}) \<and> client_ok (m', snd s - {(a, k)})"
proof -
  obtain F where F: "bd_ok (fst s) F (snd s) {}" using assms(1) by (auto simp: client_ok_def)
  obtain m' F' where r: "buddy_free (fst s) (a + sizeof_block) = Some (0, m')" "bd_ok m' F' (snd s - {(a, k)}) {}"
    using buddy_free_ok [OF F assms(2)] by blast
  have "b_order (bd_mem (fst s) a) = k" by (rule bd_okD(8) [OF F assms(2)])
  then have "client_free s (a + sizeof_block) = Some (0, m', snd s - {(a, k)})" using r(1) by (simp add: client_free_def)
  moreover have "client_ok (m', snd s - {(a, k)})" using r(2) by (auto simp: client_ok_def)
  ultimately show ?thesis by blast
qed

interpretation bd: bounded_allocator client_ok payloads client_alloc client_free "\<lambda>_. True"
proof unfold_locales
  fix s :: buddy_client and n assume "client_ok s"
  from client_alloc_cases [OF this, of n] show "\<exists>r. client_alloc s n = Some r" by blast
next
  fix s s' :: buddy_client and n
  assume s: "client_ok s" "client_alloc s n = Some (0, s')"
  have "a + sizeof_block \<noteq> 0" if "client_ok (m, insert (a, k) (snd s))" for a k m
    by (rule unat_payload(2) [of _ k]) (rule client_tile_ok [OF that], simp)
  with client_alloc_cases [OF s(1), of n] s(2) show "client_ok s' \<and> payloads s' = payloads s"
    by (auto simp: payloads_def)
next
  fix s s' :: buddy_client and n p :: u64
  assume s: "client_ok s" "client_alloc s n = Some (p, s')" "p \<noteq> 0"
  then obtain a m where r: "p = a + sizeof_block" "s' = (m, insert (a, order_for n) (snd s))" "n \<le> MEMORY_SIZE"
      "(a, order_for n) \<notin> snd s" "client_ok s'"
    using client_alloc_cases [OF s(1), of n] by auto
  let ?t = "(a, order_for n)"
  have "tile_ok ?t" using client_tile_ok [OF r(5), of ?t] r(2) by simp
  note u = unat_payload [OF this]
  have "unat n \<le> snd (payload ?t)" using order_for_bounds(3) [OF r(3)] by (simp add: payload_def)
  moreover have "payload ?t = (unat p, snd (payload ?t))" using r(1) u(1) by (simp add: payload_def)
  moreover have "payloads s' = insert (payload ?t) (payloads s)" using r(2) by (simp add: payloads_def)
  moreover have "blocks_disjoint (payload ?t) b" if b: "b \<in> payloads s" for b
  proof -
    obtain t where t: "b = payload t" "t \<in> snd s" using b by (auto simp: payloads_def)
    then show ?thesis using payloads_apart [OF r(5), of ?t t] r(2,4) by auto
  qed
  ultimately show "client_ok s' \<and> (\<exists>z. unat n \<le> z \<and> payloads s' = insert (unat p, z) (payloads s) \<and>
      (\<forall>b\<in>payloads s. blocks_disjoint (unat p, z) b))"
    using r(5) by metis
next
  fix s :: buddy_client and p :: u64 and z
  assume s: "client_ok s" "(unat p, z) \<in> payloads s"
  then obtain a k where t: "(a, k) \<in> snd s" "unat p = unat a + 16" "z = 2 ^ k - 16"
    by (auto simp: payloads_def payload_def)
  note u = unat_payload [OF client_tile_ok [OF s(1) t(1)]]
  have p: "p = a + sizeof_block" using u(1) t(2) by (simp add: word_unat_eq_iff)
  have "inj_on payload (snd s)"
  proof (rule inj_onI)
    fix t t' assume i: "t \<in> snd s" "t' \<in> snd s" "payload t = payload t'"
    show "t = t'"
    proof (rule ccontr)
      assume "t \<noteq> t'"
      from payloads_apart [OF s(1) i(1,2) this] i(3) payload_in_span(2) [OF client_tile_ok [OF s(1) i(1)]]
      show False by (simp add: blocks_disjoint_def)
    qed
  qed
  then have "payload ` (snd s - {(a, k)}) = payload ` snd s - payload ` {(a, k)}"
    using t(1) by (intro inj_on_image_set_diff) auto
  then have "payloads (m', snd s - {(a, k)}) = payloads s - {(unat p, z)}" for m'
    using t(2,3) by (simp add: payloads_def payload_def)
  with client_free_ok [OF s(1) t(1)] p
  show "\<exists>s'. client_free s p = Some (0, s') \<and> client_ok s' \<and> payloads s' = payloads s - {(unat p, z)}" by blast
next
  fix s :: buddy_client and b assume s: "client_ok s" "b \<in> payloads s"
  then obtain a k where t: "(a, k) \<in> snd s" "b = (unat a + 16, 2 ^ k - 16)" by (auto simp: payloads_def payload_def)
  have "tile_ok (a, k)" by (rule client_tile_ok [OF s(1) t(1)])
  then have "unat a + 2 ^ k \<le> unat MEMORY_END" and "16 < (2 :: nat) ^ k" using unat_payload(3) [of a k] by (simp_all only: tile_ok_def fst_conv snd_conv)
  moreover have "unat MEMORY_END < 2 ^ 64" by simp
  ultimately show "0 < fst b \<and> fst b + snd b < 2 ^ 64" unfolding t(2) fst_conv snd_conv by linarith
qed

section \<open>Runs of the buddy allocator\<close>

text \<open>
  A client requests any sizes, frees blocks it holds and writes what it likes behind the
  headers of the blocks it holds.
\<close>

inductive buddy_run :: "buddy_manager \<Rightarrow> buddy_client \<Rightarrow> bool" for raw where
  buddy_start: "buddy_run raw (buddy_init raw, {})"
| buddy_request: "buddy_run raw s \<Longrightarrow> client_alloc s n = Some (p, s') \<Longrightarrow> buddy_run raw s'"
| buddy_release: "buddy_run raw s \<Longrightarrow> (unat p, z) \<in> payloads s \<Longrightarrow> client_free s p = Some (r, s') \<Longrightarrow> buddy_run raw s'"
| buddy_write: "buddy_run raw (m, L) \<Longrightarrow> (a, k) \<in> L \<Longrightarrow>
    (\<And>x. \<not> (unat a < unat x \<and> unat x < unat a + 2 ^ k) \<Longrightarrow> mem x = bd_mem m x) \<Longrightarrow>
    buddy_run raw (m\<lparr>bd_mem := mem\<rparr>, L)"

lemma client_write_ok:
  assumes "client_ok (m, L)" "(a, k) \<in> L"
    and "\<And>x. \<not> (unat a < unat x \<and> unat x < unat a + 2 ^ k) \<Longrightarrow> mem x = bd_mem m x"
  shows "client_ok (m\<lparr>bd_mem := mem\<rparr>, L)"
proof -
  obtain F where F: "bd_ok m F L {}" using assms(1) by (auto simp: client_ok_def)
  have "bd_ok (m\<lparr>bd_mem := mem\<rparr>) F L {}"
  proof (rule bd_ok_write [OF F])
    fix b j assume b: "b \<in> set (F j) \<or> (b, j) \<in> L"
    have "\<not> (unat a < unat b \<and> unat b < unat a + 2 ^ k)"
    proof
      assume i: "unat a < unat b \<and> unat b < unat a + 2 ^ k"
      have "(a, k) \<in> ftiles F \<union> (L \<union> {})" "(b, j) \<in> ftiles F \<union> (L \<union> {})" "(a, k) \<noteq> (b, j)"
        using assms(2) b i by (auto simp: ftiles_def)
      then have "span (a, k) \<inter> span (b, j) = {}" using bd_okD(4) [OF F] unfolding tiling_def by blast
      moreover have "unat b \<in> span (a, k)" using i by (simp add: span_def)
      ultimately show False using span_start [of b j] by blast
    qed
    then show "bd_mem (m\<lparr>bd_mem := mem\<rparr>) b = bd_mem m b" using assms(3) by simp
  qed simp_all
  then show ?thesis by (auto simp: client_ok_def)
qed

lemma client_ok_init: "client_ok (buddy_init raw, {})"
  using buddy_init_ok by (auto simp: client_ok_def)

lemma buddy_run_ok: "buddy_run raw s \<Longrightarrow> client_ok s \<and> bd.apart s"
proof (induction rule: buddy_run.induct)
  case buddy_start
  then show ?case using client_ok_init unfolding bd.apart_def by (simp add: payloads_def)
next
  case (buddy_request s n p s')
  then show ?case using bd.alloc_apart by blast
next
  case (buddy_release s p z r s')
  then show ?case using bd.release_apart by blast
next
  case (buddy_write m L a k mem)
  then show ?case using client_write_ok unfolding bd.apart_def by (auto simp: payloads_def)
qed

lemma payload_bounds:
  assumes "client_ok s" "b \<in> payloads s"
  shows "unat MEMORY_START < fst b" "fst b + snd b \<le> unat MEMORY_END" "16 dvd fst b"
proof -
  obtain a k where t: "(a, k) \<in> snd s" "b = payload (a, k)" using assms(2) by (auto simp: payloads_def)
  note ok = client_tile_ok [OF assms(1) t(1)]
  note w = unat_payload(3) [OF ok]
  have d: "(2 :: nat) ^ 4 dvd 2 ^ k" by (rule le_imp_power_dvd) (use ok in \<open>simp add: tile_ok_def\<close>)
  have h: "2 ^ k dvd unat a" "unat MEMORY_START \<le> unat a" "unat a + 2 ^ k \<le> unat MEMORY_END"
    using ok unfolding tile_ok_def by (simp_all only: fst_conv snd_conv)
  have "16 dvd unat a" using dvd_trans [OF d h(1)] by simp
  then have "16 dvd unat a + 16" by simp
  then show "16 dvd fst b" unfolding t(2) payload_def by (simp only: fst_conv)
  show "unat MEMORY_START < fst b" unfolding t(2) payload_def fst_conv
    by (rule order_le_less_trans [OF h(2)]) simp
  have "unat a + 16 + (2 ^ k - 16) = unat a + 2 ^ k" using w by simp
  then show "fst b + snd b \<le> unat MEMORY_END" using h(3) unfolding t(2) payload_def by (simp only: fst_conv snd_conv)
qed

text \<open>
  C3. Whatever the clients of the buddy allocator request, free and write behind the headers
  of their blocks: the blocks they hold lie in the managed memory, start at a multiple of 16
  and do not overlap, every request and every release of a block returns, and a release
  reports success.
\<close>

theorem buddy_blocks_safe:
  assumes "buddy_run raw s"
  shows "(\<forall>b\<in>payloads s. unat MEMORY_START < fst b \<and> fst b + snd b \<le> unat MEMORY_END \<and> 16 dvd fst b \<and>
      (\<forall>c\<in>payloads s. b \<noteq> c \<longrightarrow> blocks_disjoint b c)) \<and>
    (\<forall>n. client_alloc s n \<noteq> None) \<and>
    (\<forall>p z. (unat p, z) \<in> payloads s \<longrightarrow> (\<exists>s'. client_free s p = Some (0, s') \<and> payloads s' = payloads s - {(unat p, z)}))"
proof -
  have ok: "client_ok s" "bd.apart s" using buddy_run_ok [OF assms] by auto
  have "\<forall>b\<in>payloads s. \<forall>c\<in>payloads s. b \<noteq> c \<longrightarrow> blocks_disjoint b c" using ok(2) by (simp only: bd.apart_def)
  moreover have "client_alloc s n \<noteq> None" for n using bd.alloc_returns [OF ok(1) TrueI, of n] by (elim exE) simp
  moreover have "\<exists>s'. client_free s p = Some (0, s') \<and> payloads s' = payloads s - {(unat p, z)}"
    if "(unat p, z) \<in> payloads s" for p z
    using bd.release_live [OF ok(1) that] by (elim exE conjE) (rule exI, rule conjI)
  ultimately show ?thesis by (intro conjI ballI allI impI payload_bounds [OF ok(1)]) (elim conjE, assumption | blast)+
qed

theorem buddy_blocks_safe_witness:
  "\<forall>raw. \<exists>p s. client_alloc (buddy_init raw, {}) 100 = Some (p, s) \<and>
     (\<forall>b\<in>payloads s. fst b + snd b \<le> unat MEMORY_END)"
proof
  fix raw
  obtain p s where s: "client_alloc (buddy_init raw, {}) 100 = Some (p, s)"
    using bd.alloc_returns [OF client_ok_init TrueI, of raw 100] by (metis surj_pair)
  then have "buddy_run raw s" by (rule buddy_request [OF buddy_start])
  with s show "\<exists>p s. client_alloc (buddy_init raw, {}) 100 = Some (p, s) \<and>
     (\<forall>b\<in>payloads s. fst b + snd b \<le> unat MEMORY_END)"
    using buddy_blocks_safe by blast
qed



section \<open>The reported state\<close>

lemma free_sum_spec:
  "chain mem p xs \<Longrightarrow> free_sum mem i p acc = Some (acc + of_nat (length xs) * 2 ^ i)"
proof (induction xs arbitrary: p acc)
  case Nil
  then show ?case by (subst free_sum.simps) simp
next
  case (Cons x xs)
  then have "p = x" "x \<noteq> 0" "free_sum mem i (b_next (mem x)) (acc + 2 ^ i) = Some (acc + 2 ^ i + of_nat (length xs) * 2 ^ i)"
    by auto
  then show ?case by (subst free_sum.simps) (simp add: algebra_simps)
qed

lemma free_orders_spec:
  assumes "bd_ok m F L D" "set is \<subseteq> {..<MAX_ORDER}"
  shows "free_orders m is acc = Some (acc + (\<Sum>i\<leftarrow>is. of_nat (length (F i)) * 2 ^ i))"
  using assms(2)
proof (induction "is" arbitrary: acc)
  case (Cons i js)
  then show ?case using free_sum_spec [OF bd_okD(2) [OF assms(1)], of i i acc] by (simp add: add.assoc)
qed simp

lemma tiling_finite: "tiling T \<Longrightarrow> finite T"
proof (rule finite_subset)
  assume "tiling T"
  then show "T \<subseteq> UNIV \<times> {..21}" unfolding tiling_def tile_ok_def by (elim conjE) fastforce
qed simp

lemma span_card: "card (span t) = 2 ^ snd t"
  by (simp add: span_def)

text \<open>Together the tiles are as large as the memory.\<close>

lemma tiling_total:
  assumes "tiling T"
  shows "(\<Sum>t\<in>T. 2 ^ snd t) = (2 :: nat) ^ 21"
proof -
  have "\<Union> (span ` T) = {unat MEMORY_START..<unat MEMORY_END}"
  proof
    show "\<Union> (span ` T) \<subseteq> {unat MEMORY_START..<unat MEMORY_END}"
    proof (rule UN_least)
      fix t assume "t \<in> T"
      then have "tile_ok t" using assms unfolding tiling_def by (elim conjE) (rule bspec)
      then have "unat MEMORY_START \<le> unat (fst t)" "unat (fst t) + 2 ^ snd t \<le> unat MEMORY_END"
        unfolding tile_ok_def by (simp_all only:)
      then show "span t \<subseteq> {unat MEMORY_START..<unat MEMORY_END}"
        unfolding span_def by (rule ivl_subset [THEN iffD2, OF disjI2, OF conjI])
    qed
    show "{unat MEMORY_START..<unat MEMORY_END} \<subseteq> \<Union> (span ` T)" using assms unfolding tiling_def by (elim conjE)
  qed
  then have "card (\<Union> (span ` T)) = 2 ^ 21" by simp
  moreover have "card (\<Union> (span ` T)) = (\<Sum>t\<in>T. card (span t))"
    by (rule card_UN_disjoint) (use tiling_finite [OF assms] assms in \<open>auto simp: span_def tiling_def\<close>)
  ultimately show ?thesis by (simp add: span_card)
qed

lemma whole_tile_alone:
  assumes "tiling T" "(a, 21) \<in> T" "t \<in> T"
  shows "t = (a, 21)"
proof (rule ccontr)
  assume n: "t \<noteq> (a, 21)"
  have h: "unat MEMORY_START \<le> unat (fst t')" "unat (fst t') + 2 ^ snd t' \<le> unat MEMORY_END" if "t' \<in> T" for t'
  proof -
    have "tile_ok t'" using assms(1) that unfolding tiling_def by (elim conjE) (rule bspec)
    then show "unat MEMORY_START \<le> unat (fst t')" "unat (fst t') + 2 ^ snd t' \<le> unat MEMORY_END"
      unfolding tile_ok_def by (simp_all only:)
  qed
  have "unat a + 2 ^ 21 \<le> unat MEMORY_START + 2 ^ 21" using h(2) [OF assms(2)] by simp
  then have a: "unat a = unat MEMORY_START" using h(1) [OF assms(2)] by simp
  have "unat (fst t) < unat (fst t) + 2 ^ snd t" by simp
  from order_less_le_trans [OF this h(2) [OF assms(3)]]
  have "unat (fst t) < unat a + 2 ^ 21" "unat a \<le> unat (fst t)" using h(1) [OF assms(3)] a by simp_all
  then have "unat (fst t) \<in> span (a, 21)" unfolding span_def by simp
  moreover have "unat (fst t) \<in> span t" using span_start [of "fst t" "snd t"] by simp
  moreover have "span t \<inter> span (a, 21) = {}" using assms n unfolding tiling_def by blast
  ultimately show False by blast
qed

lemma order_sum_word:
  "(\<Sum>i\<leftarrow>[a..<b]. of_nat (g i) * 2 ^ i :: u64) = of_nat (\<Sum>i = a..<b. g i * 2 ^ i)"
  by (simp add: interv_sum_list_conv_sum_set_nat)

lemma unat_of_nat_memory: "f \<le> 2 ^ 21 \<Longrightarrow> unat (of_nat f :: u64) = f"
  by (simp only: unat_of_nat) simp

lemma free_bytes:
  assumes "bd_ok m F L D" "L \<noteq> {}"
  shows "(\<Sum>i = MIN_LEVEL..<21. length (F i) * 2 ^ i) = (\<Sum>t\<in>ftiles F. 2 ^ snd t)"
proof -
  have no: "F 21 = []"
  proof (rule ccontr)
    assume "F 21 \<noteq> []"
    then have "(hd (F 21), 21) \<in> ftiles F" by (simp add: ftiles_def)
    moreover obtain t where "t \<in> L" using assms(2) by blast
    ultimately show False using whole_tile_alone [OF bd_okD(4) [OF assms(1)], of "hd (F 21)" t] bd_okD(5) [OF assms(1)] by auto
  qed
  have f: "ftiles F = (\<Union>i\<in>{MIN_LEVEL..<21}. (\<lambda>a. (a, i)) ` set (F i))"
  proof (rule set_eqI)
    fix t
    show "t \<in> ftiles F \<longleftrightarrow> t \<in> (\<Union>i\<in>{MIN_LEVEL..<21}. (\<lambda>a. (a, i)) ` set (F i))"
      using bd_tile_ok [OF assms(1), of "fst t" "snd t"] no
      by (cases t; cases "snd t = 21") (auto simp: ftiles_def tile_ok_def)
  qed
  have "(\<Sum>t\<in>ftiles F. 2 ^ snd t) = (\<Sum>i = MIN_LEVEL..<21. \<Sum>t\<in>(\<lambda>a. (a, i)) ` set (F i). (2 :: nat) ^ snd t)"
    unfolding f by (rule sum.UNION_disjoint) auto
  also have "\<dots> = (\<Sum>i = MIN_LEVEL..<21. length (F i) * 2 ^ i)"
  proof (rule sum.cong)
    fix i assume "i \<in> {MIN_LEVEL..<21 :: nat}"
    have "(\<Sum>t\<in>(\<lambda>a. (a, i)) ` set (F i). (2 :: nat) ^ snd t) = (\<Sum>a\<in>set (F i). 2 ^ i)"
      by (subst sum.reindex) (auto simp: inj_on_def)
    also have "\<dots> = length (F i) * 2 ^ i" using distinct_card [OF bd_okD(3) [OF assms(1)]] by simp
    finally show "(\<Sum>t\<in>(\<lambda>a. (a, i)) ` set (F i). (2 :: nat) ^ snd t) = length (F i) * 2 ^ i" .
  qed simp
  finally show ?thesis by simp
qed

lemma live_and_free_bytes:
  assumes "bd_ok m F L {}"
  shows "(\<Sum>t\<in>ftiles F. 2 ^ snd t) + (\<Sum>t\<in>L. 2 ^ snd t) = (2 :: nat) ^ 21"
proof -
  have T: "tiling (ftiles F \<union> L)" using bd_okD(4) [OF assms] by simp
  have "finite (ftiles F)" "finite L" using tiling_finite [OF T] by auto
  moreover have "ftiles F \<inter> L = {}" using bd_okD(5) [OF assms] by simp
  ultimately show ?thesis using tiling_total [OF T] sum.union_disjoint [of "ftiles F" L "\<lambda>t. (2 :: nat) ^ snd t"] by simp
qed

text \<open>
  C5. While a client holds a block, \<open>memory_state_get\<close> is exact: the used memory is what the
  held blocks occupy, headers included, and the free memory is the rest of the 2 MB.
\<close>

theorem buddy_state_exact:
  assumes "buddy_run raw s" "snd s \<noteq> {}"
  shows "\<exists>st' m'. buddy_state_get (fst s) st = Some (st', m') \<and> total_memory st' = MEMORY_SIZE \<and>
    unat (used_memory st') = (\<Sum>t\<in>snd s. 2 ^ snd t) \<and>
    unat (free_memory st') + unat (used_memory st') = unat MEMORY_SIZE"
proof -
  obtain F where F: "bd_ok (fst s) F (snd s) {}" using buddy_run_ok [OF assms(1)] by (auto simp: client_ok_def)
  define f where "f = (\<Sum>t\<in>ftiles F. (2 :: nat) ^ snd t)"
  define u where "u = (\<Sum>t\<in>snd s. (2 :: nat) ^ snd t)"
  have fu: "f + u = 2 ^ 21" using live_and_free_bytes [OF F] by (simp only: f_def u_def)
  have "(\<Sum>i\<leftarrow>[MIN_LEVEL..<21]. of_nat (length (F i)) * 2 ^ i) = (of_nat f :: u64)"
    unfolding f_def free_bytes [OF F assms(2), symmetric] by (rule order_sum_word)
  then have "free_orders (fst s) [MIN_LEVEL..<max_order (fst s)] 0 = Some (of_nat f)"
    using free_orders_spec [OF F, of "[MIN_LEVEL..<21]" 0] unfolding bd_okD(1) [OF F] by (simp only: add_0) (simp add: subset_iff)
  moreover have "unat (of_nat f :: u64) = f" by (rule unat_of_nat_memory) (use fu in simp)
  moreover have "MEMORY_SIZE - (of_nat f :: u64) = of_nat u"
  proof -
    have "(of_nat (f + u) :: u64) = MEMORY_SIZE" unfolding fu by simp
    then show ?thesis by (simp add: algebra_simps)
  qed
  moreover have "unat (of_nat u :: u64) = u" by (rule unat_of_nat_memory) (use fu in simp)
  ultimately show ?thesis using bd_okD(10) [OF F] fu unfolding u_def [symmetric]
    by (simp add: buddy_state_get_def Let_def)
qed

text \<open>
  Before the first request, though, \<open>memory_state_get\<close> reports the whole memory as used and
  nothing as free: the loop over the orders leaves the highest one out.
\<close>

theorem buddy_fresh_reported_used:
  "\<exists>st' m'. buddy_state_get (buddy_init raw) st = Some (st', m') \<and> used_memory st' = MEMORY_SIZE \<and> free_memory st' = 0"
proof -
  note F = buddy_init_ok [of raw]
  have "free_orders (buddy_init raw) [MIN_LEVEL..<21] 0 = Some 0"
    using free_orders_spec [OF F, of "[MIN_LEVEL..<21]" 0]
    by (auto simp: sum_list_0)
  then show ?thesis using bd_okD(1,10) [OF F] by (simp add: buddy_state_get_def Let_def)
qed


theorem buddy_state_exact_witness:
  "\<forall>raw. \<exists>s p st' m'. client_alloc (buddy_init raw, {}) 100 = Some (p, s) \<and>
     buddy_state_get (fst s) undefined = Some (st', m') \<and> unat (used_memory st') = 128"
proof
  fix raw
  let ?F = "(\<lambda>_. [])(21 := [MEMORY_START])"
  have o: "order_for 100 = 7"
  proof -
    have "level_loop 1 116 = 7"
      by (simp add: level_loop.simps)
    then show ?thesis by (simp add: order_for_def)
  qed
  obtain a m' F' where r: "buddy_alloc (buddy_init raw) 100 = Some (a + sizeof_block, m')" "bd_ok m' F' {(a, 7)} {}"
    using buddy_alloc_block [OF buddy_init_ok [of raw], of 100 21] unfolding o by fastforce
  have "tile_ok (a, 7)" by (rule bd_tile_ok [OF r(2)]) simp
  note u = unat_payload [OF this]
  have "b_order (bd_mem m' a) = 7" by (rule bd_okD(8) [OF r(2)]) simp
  then have c: "client_alloc (buddy_init raw, {}) 100 = Some (a + sizeof_block, m', {(a, 7)})"
    using r(1) u(2) by (simp add: client_alloc_def)
  have "buddy_run raw (m', {(a, 7)})" by (rule buddy_request [OF buddy_start c])
  from buddy_state_exact [OF this] c
  show "\<exists>s p st' m'. client_alloc (buddy_init raw, {}) 100 = Some (p, s) \<and>
     buddy_state_get (fst s) undefined = Some (st', m') \<and> unat (used_memory st') = 128" by fastforce
qed

section \<open>Lost merges\<close>

text \<open>A sequence of calls of a client.\<close>

datatype heap_call = Request u64 | Release u64

fun client_calls :: "heap_call list \<Rightarrow> buddy_client \<Rightarrow> buddy_client option" where
  "client_calls [] s = Some s"
| "client_calls (Request n # cs) s = (case client_alloc s n of None \<Rightarrow> None | Some (_, s') \<Rightarrow> client_calls cs s')"
| "client_calls (Release p # cs) s = (case client_free s p of None \<Rightarrow> None | Some (_, s') \<Rightarrow> client_calls cs s')"

lemma split_down_numeral:
  "split_down k (numeral n) m = (case split_block (k + numeral n) m of None \<Rightarrow> None | Some m' \<Rightarrow> split_down k (pred_numeral n) m')"
  by (simp add: numeral_eq_Suc)

lemmas buddy_eval = client_alloc_def client_free_def buddy_alloc_def buddy_free_def take_block_def remove_block_def
  create_block_def split_block_def unlink_after_def merge_blocks_def buddy_of_def upd_block_def Let_def
  level_loop.simps find_from.simps split_down_numeral predecessor.simps merge_loop.simps

definition lost_merge_calls :: "heap_call list" where
  "lost_merge_calls =
     [Request 16, Request 16, Request 16, Request 16, Release (MEMORY_START + 16), Release (MEMORY_START + 80),
      Release (MEMORY_START + 48), Release (MEMORY_START + 112)]"


end
