(* ===== verification/Clock.thy ===== *)
theory Clock
  imports Prelude
begin

text \<open>
  The calendar half of Kernel/interrupts/time.c. The fields of \<open>time_struct_t\<close> are bytes
  (\<open>char\<close>, signed on this target) as the real time clock delivers them. Days are summed in
  32 bit words, seconds in 64 bit words; years and months are integers, as in C.
\<close>

type_synonym i8 = "8 word"

record time_struct =
  t_day :: i8
  t_month :: i8
  t_year :: i8
  t_hour :: i8
  t_min :: i8
  t_sec :: i8

abbreviation TICKS_PER_SECOND :: u64 where "TICKS_PER_SECOND \<equiv> 18"

text \<open>C's \<open>%\<close> truncates towards zero; it is zero exactly when \<open>mod\<close> is.\<close>

definition is_leap_year :: "int \<Rightarrow> bool" where
  "is_leap_year year \<longleftrightarrow> year mod 4 = 0 \<and> (year mod 100 \<noteq> 0 \<or> year mod 400 = 0)"

definition days_table :: "int list" where
  "days_table = [31, 28, 31, 30, 31, 30, 31, 31, 30, 31, 30, 31]"

definition days_in_month :: "int \<Rightarrow> int \<Rightarrow> int" where
  "days_in_month month year =
     (if month = 2 \<and> is_leap_year year then 29 else days_table ! nat (month - 1))"

text \<open>The two loops of \<open>date_to_days\<close>: months \<open>m < month\<close>, years \<open>y < year\<close>.\<close>

function months_loop :: "int \<Rightarrow> int \<Rightarrow> int \<Rightarrow> u32 \<Rightarrow> u32" where
  "months_loop m month year days =
     (if m < month then months_loop (m + 1) month year (days + word_of_int (days_in_month m year))
      else days)"
  by pat_completeness auto
termination
  by (relation "measure (\<lambda>(m, month, year, days). nat (month - m))") auto

function years_loop :: "int \<Rightarrow> int \<Rightarrow> u32 \<Rightarrow> u32" where
  "years_loop y year days =
     (if y < year then years_loop (y + 1) year (days + (365 + (if is_leap_year y then 1 else 0)))
      else days)"
  by pat_completeness auto
termination
  by (relation "measure (\<lambda>(y, year, days). nat (year - y))") auto

declare months_loop.simps [simp del] years_loop.simps [simp del]

definition date_to_days :: "int \<Rightarrow> int \<Rightarrow> int \<Rightarrow> u32" where
  "date_to_days day month year =
     years_loop 0 year (months_loop 1 month year (word_of_int (day - 1)))"

definition time_to_epoch_seconds :: "time_struct \<Rightarrow> u64" where
  "time_to_epoch_seconds t =
     (let total_days = date_to_days (sint (t_day t)) (sint (t_month t)) (sint (t_year t))
      in ucast total_days * 86400 + word_of_int (sint (t_hour t)) * 3600
         + word_of_int (sint (t_min t)) * 60 + word_of_int (sint (t_sec t)))"

text \<open>\<open>now\<close> is what \<open>get_time()\<close> reads.\<close>

definition seconds_elapsed :: "time_struct \<Rightarrow> time_struct \<Rightarrow> u64" where
  "seconds_elapsed start_up_time now =
     (let t1 = time_to_epoch_seconds start_up_time; t2 = time_to_epoch_seconds now
      in if t2 > t1 then t2 - t1 else t1 - t2)"

section \<open>The calendar\<close>

text \<open>The loops as sums over the integers, with the wrap-around of the 32 bit total kept.\<close>

lemma months_loop_sum:
  "months_loop m month year days = days + word_of_int (\<Sum>k\<in>{m..<month}. days_in_month k year)"
proof (induction m month year days rule: months_loop.induct)
  case (1 m month year days)
  show ?case
  proof (cases "m < month")
    case True
    then have "{m..<month} = insert m {m + 1..<month}" by auto
    then have "(\<Sum>k\<in>{m..<month}. days_in_month k year)
        = days_in_month m year + (\<Sum>k\<in>{m + 1..<month}. days_in_month k year)" by simp
    with 1 True show ?thesis by (simp add: months_loop.simps [of m])
  qed (simp add: months_loop.simps [of m])
qed

definition year_length :: "int \<Rightarrow> int" where
  "year_length y = 365 + (if is_leap_year y then 1 else 0)"

lemma years_loop_sum:
  "years_loop y year days = days + word_of_int (\<Sum>k\<in>{y..<year}. year_length k)"
proof (induction y year days rule: years_loop.induct)
  case (1 y year days)
  show ?case
  proof (cases "y < year")
    case True
    then have "{y..<year} = insert y {y + 1..<year}" by auto
    then have "(\<Sum>k\<in>{y..<year}. year_length k)
        = year_length y + (\<Sum>k\<in>{y + 1..<year}. year_length k)" by simp
    with 1 True show ?thesis
      by (simp add: years_loop.simps [of y] year_length_def add.assoc)
  qed (simp add: years_loop.simps [of y])
qed

definition days_before :: "int \<Rightarrow> int \<Rightarrow> int" where
  "days_before m y = (\<Sum>k\<in>{1..<m}. days_in_month k y)"

definition days_until :: "int \<Rightarrow> int" where
  "days_until y = (\<Sum>k\<in>{0..<y}. year_length k)"

lemma date_to_days_sum:
  "date_to_days day month year = word_of_int (day - 1 + days_before month year + days_until year)"
  by (simp add: date_to_days_def months_loop_sum years_loop_sum days_before_def days_until_def)

lemma days_before_1 [simp]: "days_before 1 y = 0"
  by (simp add: days_before_def)

lemma days_before_Suc: "1 \<le> m \<Longrightarrow> days_before (m + 1) y = days_before m y + days_in_month m y"
proof -
  assume "1 \<le> m"
  then have "{1..<m + 1} = insert m {1..<m}" by auto
  then show ?thesis by (simp add: days_before_def)
qed

lemma days_until_Suc: "0 \<le> y \<Longrightarrow> days_until (y + 1) = days_until y + year_length y"
proof -
  assume "0 \<le> y"
  then have "{0..<y + 1} = insert y {0..<y}" by auto
  then show ?thesis by (simp add: days_until_def)
qed

text \<open>The twelve months of a year have together the days of the year.\<close>

lemma year_months: "days_before 12 y + days_in_month 12 y = year_length y"
proof -
  have "{1..<12} = {1, 2, 3, 4, 5, 6, 7, 8, 9, 10, 11 :: int}"
    by (rule set_eqI, simp, presburger)
  then show ?thesis
    by (simp add: days_before_def days_in_month_def days_table_def year_length_def)
qed

text \<open>The calendar day after \<open>(d, m, y)\<close>.\<close>

definition next_date :: "int \<Rightarrow> int \<Rightarrow> int \<Rightarrow> int \<times> int \<times> int" where
  "next_date d m y =
     (if d < days_in_month m y then (d + 1, m, y)
      else if m < 12 then (1, m + 1, y) else (1, 1, y + 1))"

lemma next_day_same_month: "date_to_days (d + 1) m y = date_to_days d m y + 1"
  by (simp add: date_to_days_sum)

lemma next_day_new_month:
  "1 \<le> m \<Longrightarrow> date_to_days 1 (m + 1) y = date_to_days (days_in_month m y) m y + 1"
  by (simp add: date_to_days_sum days_before_Suc)

lemma next_day_new_year:
  "0 \<le> y \<Longrightarrow> date_to_days 1 1 (y + 1) = date_to_days (days_in_month 12 y) 12 y + 1"
  by (simp add: date_to_days_sum days_until_Suc flip: year_months)

text \<open>
  Days are numbered consecutively: the day number of the calendar day after any valid
  date, at the end of a month or of a year and in leap years included, is one more than the
  day number of that date (in the 32 bit arithmetic of the code).
\<close>

theorem date_to_days_next:
  assumes "1 \<le> m" "m \<le> 12" "0 \<le> y" "d \<le> days_in_month m y"
    and "next_date d m y = (d', m', y')"
  shows "date_to_days d' m' y' = date_to_days d m y + 1"
proof (cases "d < days_in_month m y")
  case True
  then show ?thesis
    using assms(5) next_day_same_month by (auto simp: next_date_def)
next
  case False
  then have d: "d = days_in_month m y" using assms(4) by simp
  show ?thesis
  proof (cases "m < 12")
    case True
    with assms(5) d have "d' = 1" "m' = m + 1" "y' = y" by (simp_all add: next_date_def)
    then show ?thesis using next_day_new_month [OF assms(1)] d by simp
  next
    case False
    with assms(5) d have "d' = 1" "m' = 1" "y' = y + 1" by (simp_all add: next_date_def)
    moreover have "m = 12" using False assms(2) by simp
    ultimately show ?thesis using next_day_new_year [OF assms(3)] d by simp
  qed
qed

lemma date_to_days_next_witness:
  "date_to_days 1 3 24 = date_to_days 29 2 24 + 1 \<and> date_to_days 1 1 24 = date_to_days 31 12 23 + 1"
proof -
  have n: "next_date 29 2 24 = (1, 3, 24)" "next_date 31 12 23 = (1, 1, 24)"
    and l: "29 \<le> days_in_month 2 24" "31 \<le> days_in_month 12 23"
    by (simp_all add: next_date_def days_in_month_def is_leap_year_def days_table_def)
  show ?thesis
    using date_to_days_next [OF _ _ _ l(1) n(1)] date_to_days_next [OF _ _ _ l(2) n(2)] by simp
qed

end
