(* ===== verification/Fifo.thy ===== *)
theory Fifo
  imports Prelude
begin

text \<open>
  The interface of a first-in first-out queue as the kernel uses it for its rings: an abstraction to a
  list, the elements the queue can hold, a capacity condition under which nothing is lost,
  and the loop that takes elements
  out until one is acceptable.
\<close>

locale fifo =
  fixes elem :: "'a \<Rightarrow> bool"
    and enq :: "'a \<Rightarrow> 'q \<Rightarrow> 'q"
    and deq :: "'q \<Rightarrow> 'a option \<times> 'q"
    and items :: "'q \<Rightarrow> 'a list"
    and valid :: "'q \<Rightarrow> bool"
    and room :: "'q \<Rightarrow> bool"
  assumes enq_items: "valid q \<Longrightarrow> room q \<Longrightarrow> elem x \<Longrightarrow> items (enq x q) = items q @ [x]"
    and enq_valid: "valid q \<Longrightarrow> room q \<Longrightarrow> elem x \<Longrightarrow> valid (enq x q)"
    and deq_empty: "valid q \<Longrightarrow> items q = [] \<Longrightarrow> deq q = (None, q)"
    and deq_items: "valid q \<Longrightarrow> items q = x # xs \<Longrightarrow>
      fst (deq q) = Some x \<and> items (snd (deq q)) = xs"
    and deq_valid: "valid q \<Longrightarrow> valid (snd (deq q))"
begin

lemma deq_None_iff: "valid q \<Longrightarrow> fst (deq q) = None \<longleftrightarrow> items q = []"
  using deq_empty [of q] deq_items [of q] by (cases "items q") auto

lemma deq_enq:
  assumes "valid q" "room q" "elem x"
  shows "fst (deq (enq x q)) = Some (hd (items q @ [x]))"
  using deq_items [of "enq x q" "hd (items q @ [x])" "tl (items q @ [x])"] enq_items [OF assms]
    enq_valid [OF assms] by (cases "items q") auto

end

locale fifo_search = fifo elem enq deq items valid room
  for elem :: "'a \<Rightarrow> bool"
    and enq :: "'a \<Rightarrow> 'q \<Rightarrow> 'q"
    and deq :: "'q \<Rightarrow> 'a option \<times> 'q"
    and items :: "'q \<Rightarrow> 'a list"
    and valid :: "'q \<Rightarrow> bool"
    and room :: "'q \<Rightarrow> bool" +
  fixes search :: "('a \<Rightarrow> bool) \<Rightarrow> 'q \<Rightarrow> 'a option \<times> 'q"
  assumes search_step: "valid q \<Longrightarrow> search p q =
    (case deq q of (None, q') \<Rightarrow> (None, q') | (Some x, q') \<Rightarrow> if p x then (Some x, q') else search p q')"
begin

text \<open>The loop finds the first acceptable element and drops the ones before it.\<close>

lemma search_spec:
  "valid q \<Longrightarrow> fst (search p q) = find p (items q) \<and>
    items (snd (search p q)) = tl (dropWhile (\<lambda>x. \<not> p x) (items q)) \<and> valid (snd (search p q))"
proof (induction "items q" arbitrary: q)
  case Nil
  then show ?case using search_step [of q p] deq_empty [of q] by simp
next
  case (Cons x xs)
  have d: "fst (deq q) = Some x" "items (snd (deq q)) = xs" "valid (snd (deq q))"
    using deq_items [of q x xs] deq_valid [of q] Cons by auto
  have s: "search p q = (if p x then (Some x, snd (deq q)) else search p (snd (deq q)))"
    using search_step [of q p] Cons.prems d(1) by (cases "deq q") simp
  show ?case
    using Cons.hyps(1) [of "snd (deq q)"] d Cons.hyps(2) by (simp add: s flip: Cons.hyps(2))
qed

lemma search_None: "valid q \<Longrightarrow> fst (search p q) = None \<longleftrightarrow> (\<forall>x\<in>set (items q). \<not> p x)"
  using search_spec [of q p] by (auto simp: find_None_iff)

lemma search_Some: "valid q \<Longrightarrow> fst (search p q) = Some x \<Longrightarrow> p x \<and> x \<in> set (items q)"
  using search_spec [of q p] by (auto simp: find_Some_iff)

text \<open>Nothing acceptable is lost except the element returned, if it occurs once.\<close>

lemma search_keeps:
  assumes "valid q" "y \<in> set (items q)" "p y" "fst (search p q) \<noteq> Some y"
  shows "y \<in> set (items (snd (search p q)))"
proof -
  have "find p xs \<noteq> Some y \<Longrightarrow> y \<in> set xs \<Longrightarrow> y \<in> set (tl (dropWhile (\<lambda>x. \<not> p x) xs))" for xs
    using assms(3) by (induction xs) auto
  with assms search_spec [OF assms(1), of p] show ?thesis by simp
qed

end

end
