(* ===== verification/Pcb_Queue.thy ===== *)
theory Pcb_Queue
  imports Fifo Page_Frames
begin

text \<open>
  Kernel/scheduler/pcb-queueADT.c: a ring of 1024 pointers with an 8 bit element count. The
  ring indices stay below 1024 and are natural numbers; the count keeps its width, since
  256 elements wrap it to 0.
\<close>

abbreviation MAX_PROCESSES :: nat where "MAX_PROCESSES \<equiv> 1024"

record 'a pcb_queue =
  q_slots :: "nat \<Rightarrow> 'a"
  q_head :: nat
  q_tail :: nat
  q_size :: u8

text \<open>\<open>sizeof(PCBQueueCDT)\<close>: 1024 pointers, two 32 bit indices, the count, and padding.\<close>

definition sizeof_queue :: u64 where
  "sizeof_queue = 8208"

text \<open>
  The constructor. \<open>raw\<close> is what the memory held before, and stays in the slots. \<open>None\<close>
  is an allocation that does not return, the inner \<open>None\<close> the null pointer.
\<close>

definition new_PCBQueueADT ::
  "'a pcb_queue \<Rightarrow> memory_manager \<Rightarrow> ('a pcb_queue option \<times> memory_manager) option" where
  "new_PCBQueueADT raw mm =
     (case memory_alloc mm sizeof_queue of
        None \<Rightarrow> None
      | Some (p, mm') \<Rightarrow>
          Some (if p \<noteq> 0 then Some (raw\<lparr>q_head := 0, q_tail := 0, q_size := 0\<rparr>) else None, mm'))"

definition enqueue_process :: "'a pcb_queue \<Rightarrow> 'a \<Rightarrow> int \<times> 'a pcb_queue" where
  "enqueue_process self process =
     (if unat (q_size self) = MAX_PROCESSES then (-1, self)
      else (0, self\<lparr>q_slots := (q_slots self)(q_head self := process),
                    q_head := Suc (q_head self) mod MAX_PROCESSES,
                    q_size := q_size self + 1\<rparr>))"

definition dequeue_process :: "'a pcb_queue \<Rightarrow> 'a option \<times> 'a pcb_queue" where
  "dequeue_process self =
     (if q_size self = 0 then (None, self)
      else (Some (q_slots self (q_tail self)),
            self\<lparr>q_tail := Suc (q_tail self) mod MAX_PROCESSES, q_size := q_size self - 1\<rparr>))"

abbreviation enqueued :: "'a \<Rightarrow> 'a pcb_queue \<Rightarrow> 'a pcb_queue" where
  "enqueued x q \<equiv> snd (enqueue_process q x)"

text \<open>
  The inner loop of \<open>get_next_process\<close>: dequeue until the queue is empty or the process is
  acceptable.
\<close>

function dequeue_until :: "('a \<Rightarrow> bool) \<Rightarrow> 'a pcb_queue \<Rightarrow> 'a option \<times> 'a pcb_queue" where
  "dequeue_until p q =
     (case dequeue_process q of
        (None, q') \<Rightarrow> (None, q')
      | (Some x, q') \<Rightarrow> if p x then (Some x, q') else dequeue_until p q')"
  by pat_completeness auto
termination
  by (relation "measure (\<lambda>(p, q). unat (q_size q))")
    (auto simp: dequeue_process_def unat_minus_one unat_gt_0 split: if_splits)

declare dequeue_until.simps [simp del]

section \<open>The queue as a list\<close>

definition q_items :: "'a pcb_queue \<Rightarrow> 'a list" where
  "q_items q = ring_list (q_slots q) MAX_PROCESSES (q_tail q) (unat (q_size q))"

definition q_valid :: "'a pcb_queue \<Rightarrow> bool" where
  "q_valid q \<longleftrightarrow> q_tail q < MAX_PROCESSES \<and>
     q_head q = (q_tail q + unat (q_size q)) mod MAX_PROCESSES"

definition q_room :: "'a pcb_queue \<Rightarrow> bool" where
  "q_room q \<longleftrightarrow> unat (q_size q) < 255"

lemma q_size_Suc: "q_room q \<Longrightarrow> unat (q_size q + 1) = Suc (unat (q_size q))"
  unfolding q_room_def by (subst unat_add_lem [THEN iffD1]) simp_all

lemma q_size_bound: "unat (q_size q) < 256"
  using unsigned_less [of "q_size q"] by simp

lemma q_size_not_max [simp]: "unat (q_size q) \<noteq> MAX_PROCESSES"
  using q_size_bound [of q] by simp

lemma fst_enqueue [simp]: "fst (enqueue_process q x) = 0"
  by (simp add: enqueue_process_def)

lemma q_items_enqueue:
  assumes "q_valid q" "q_room q"
  shows "q_items (enqueued x q) = q_items q @ [x] \<and> q_valid (enqueued x q)"
proof -
  have "unat (q_size q) < MAX_PROCESSES" using assms(2) by (simp add: q_room_def)
  then show ?thesis
    using assms q_size_Suc [OF assms(2)] ring_list_push [of "unat (q_size q)" MAX_PROCESSES "q_slots q" "q_tail q" x]
    by (simp add: q_items_def q_valid_def enqueue_process_def mod_Suc_eq)
qed

lemma q_items_dequeue_empty:
  assumes "q_items q = []"
  shows "dequeue_process q = (None, q)"
  using assms by (simp add: q_items_def dequeue_process_def unat_eq_0)

lemma q_items_dequeue:
  assumes "q_valid q" "q_items q = x # xs"
  shows "fst (dequeue_process q) = Some x \<and> q_items (snd (dequeue_process q)) = xs"
proof -
  have nz: "q_size q \<noteq> 0" using assms(2) by (auto simp: q_items_def)
  then have s: "unat (q_size q) = Suc (unat (q_size q - 1))"
    by (simp add: unat_minus_one unat_gt_0)
  have "q_tail q < MAX_PROCESSES" using assms(1) by (simp add: q_valid_def)
  then have "q_items q = q_slots q (q_tail q) #
      ring_list (q_slots q) MAX_PROCESSES (Suc (q_tail q) mod MAX_PROCESSES) (unat (q_size q - 1))"
    unfolding q_items_def s by (rule ring_list_Cons)
  with assms(2) nz show ?thesis by (simp add: dequeue_process_def q_items_def)
qed

lemma q_valid_dequeue: "q_valid q \<Longrightarrow> q_valid (snd (dequeue_process q))"
proof (cases "q_size q = 0")
  case False
  assume v: "q_valid q"
  have s: "unat (q_size q) = Suc (unat (q_size q - 1))"
    using False by (simp add: unat_minus_one unat_gt_0)
  have "(Suc (q_tail q) mod MAX_PROCESSES + unat (q_size q - 1)) mod MAX_PROCESSES
      = (q_tail q + unat (q_size q)) mod MAX_PROCESSES"
    unfolding s by (simp add: mod_add_left_eq)
  with v False show ?thesis by (simp add: q_valid_def dequeue_process_def)
qed (simp add: dequeue_process_def)

lemma length_q_items [simp]: "length (q_items q) = unat (q_size q)"
  by (simp add: q_items_def)

lemma pcb_queue_fifo: "fifo (\<lambda>_. True) enqueued dequeue_process q_items q_valid q_room"
proof (rule fifo.intro)
  fix q :: "'a pcb_queue" and x xs
  show "q_valid q \<Longrightarrow> q_room q \<Longrightarrow> q_items (enqueued x q) = q_items q @ [x]"
    by (rule conjunct1 [OF q_items_enqueue])
  show "q_valid q \<Longrightarrow> q_room q \<Longrightarrow> q_valid (enqueued x q)"
    by (rule conjunct2 [OF q_items_enqueue])
  show "q_items q = [] \<Longrightarrow> dequeue_process q = (None, q)"
    by (rule q_items_dequeue_empty)
  show "q_valid q \<Longrightarrow> q_items q = x # xs \<Longrightarrow>
      fst (dequeue_process q) = Some x \<and> q_items (snd (dequeue_process q)) = xs"
    by (rule q_items_dequeue)
  show "q_valid q \<Longrightarrow> q_valid (snd (dequeue_process q))"
    by (rule q_valid_dequeue)
qed

interpretation pq: fifo_search "\<lambda>_. True" enqueued dequeue_process q_items q_valid q_room dequeue_until
  by (rule fifo_search.intro [OF pcb_queue_fifo fifo_search_axioms.intro])
    (rule dequeue_until.simps)

lemma new_queue_empty:
  assumes "new_PCBQueueADT raw mm = Some (Some q, mm')"
  shows "q_items q = [] \<and> q_valid q"
  using assms by (auto simp: new_PCBQueueADT_def q_items_def q_valid_def split: option.splits if_splits)

section \<open>Sequences of operations\<close>

datatype 'a q_op = Enq 'a | Deq

primrec queue_run :: "'a q_op list \<Rightarrow> 'a pcb_queue \<Rightarrow> 'a option list \<times> 'a pcb_queue" where
  "queue_run [] q = ([], q)"
| "queue_run (op # ops) q =
     (case op of
        Enq x \<Rightarrow> queue_run ops (enqueued x q)
      | Deq \<Rightarrow> (let (r, q') = dequeue_process q; (rs, q'') = queue_run ops q' in (r # rs, q'')))"

primrec list_run :: "'a q_op list \<Rightarrow> 'a list \<Rightarrow> 'a option list \<times> 'a list" where
  "list_run [] xs = ([], xs)"
| "list_run (op # ops) xs =
     (case op of
        Enq x \<Rightarrow> list_run ops (xs @ [x])
      | Deq \<Rightarrow> (let (rs, ys) = list_run ops (tl xs)
               in ((if xs = [] then None else Some (hd xs)) # rs, ys)))"

text \<open>The element count of the sequence never goes above 255.\<close>

primrec q_fits :: "'a q_op list \<Rightarrow> nat \<Rightarrow> bool" where
  "q_fits [] n \<longleftrightarrow> True"
| "q_fits (op # ops) n \<longleftrightarrow> (case op of Enq x \<Rightarrow> n < 255 \<and> q_fits ops (Suc n) | Deq \<Rightarrow> q_fits ops (n - 1))"

lemma dequeue_cases:
  assumes "q_valid q"
  obtains "q_items q = []" "dequeue_process q = (None, q)"
  | x q' where "dequeue_process q = (Some x, q')" "q_items q = x # q_items q'" "q_valid q'"
proof (cases "q_items q")
  case Nil
  then show thesis using that(1) pq.deq_empty [OF assms] by blast
next
  case (Cons x xs)
  then show thesis
    using that(2) [of x "snd (dequeue_process q)"] pq.deq_items [OF assms Cons] pq.deq_valid [OF assms]
    by (metis prod.collapse)
qed

text \<open>
  C33. Over any sequence of enqueues and dequeues that keeps at most 255 elements, the ring
  of \<open>pcb-queueADT.c\<close> returns what a first-in first-out list returns and ends with the
  same elements in the same order, wherever head and tail stand and however often they go
  round.
\<close>

theorem pcb_queue_refines_list:
  assumes "q_valid q" and "q_fits ops (length (q_items q))"
  shows "fst (queue_run ops q) = fst (list_run ops (q_items q)) \<and>
    q_items (snd (queue_run ops q)) = snd (list_run ops (q_items q))"
  using assms
proof (induction ops arbitrary: q)
  case (Cons op ops)
  show ?case
  proof (cases op)
    case (Enq x)
    with Cons.prems have r: "q_room q" by (simp add: q_room_def)
    show ?thesis
      using Cons.IH [of "enqueued x q"] Cons.prems Enq pq.enq_items [OF _ r TrueI] pq.enq_valid [OF _ r TrueI]
      by (simp del: length_q_items)
  next
    case Deq
    show ?thesis
      using Cons.prems(1)
    proof (cases rule: dequeue_cases)
      case 1
      then show ?thesis
        using Cons.IH [of q] Cons.prems Deq by (auto simp: Let_def split_beta)
    next
      case (2 x q')
      then show ?thesis
        using Cons.IH [of q'] Cons.prems Deq
        by (auto simp: Let_def split_beta simp del: length_q_items)
    qed
  qed
qed simp

lemma pcb_queue_refines_list_witness:
  "\<exists>q::nat pcb_queue. fst (queue_run [Enq 5, Deq, Enq 6, Enq 7, Deq, Deq, Deq] q) =
     [Some 5, Some 6, Some 7, None] \<and> q_tail q = 1022"
proof -
  let ?q = "\<lparr>q_slots = \<lambda>_. 0, q_head = 1022, q_tail = 1022, q_size = 0\<rparr> :: nat pcb_queue"
  have "q_valid ?q" "q_items ?q = []" by (simp_all add: q_valid_def q_items_def)
  then have "fst (queue_run [Enq 5, Deq, Enq 6, Enq 7, Deq, Deq, Deq] ?q) =
     [Some 5, Some 6, Some 7, None]"
    using pcb_queue_refines_list [of ?q "[Enq 5, Deq, Enq 6, Enq 7, Deq, Deq, Deq]"] by simp
  then show ?thesis by (intro exI [of _ ?q]) simp
qed

text \<open>
  The count of \<open>pcb-queueADT.c\<close> is 8 bits wide while the ring has 1024 slots: on a
  queue of 255 elements one more enqueue reports success, the count is 0 again, and the
  next dequeue finds the queue empty. All 256 processes are lost to the scheduler, and the
  full check (\<open>size == 1024\<close>) is never true.
\<close>

theorem pcb_queue_count_wraps:
  assumes "length (q_items q) = 255"
  shows "fst (enqueue_process q x) = 0 \<and> q_items (enqueued x q) = [] \<and>
    fst (dequeue_process (enqueued x q)) = None"
proof -
  have "q_size q = 255"
    using assms by (simp add: word_unat_eq_iff)
  then show ?thesis
    by (simp add: enqueue_process_def q_items_def dequeue_process_def)
qed

lemma pcb_queue_count_wraps_witness:
  "\<exists>q::nat pcb_queue. q_valid q \<and> length (q_items q) = 255 \<and> q_items (enqueued 9 q) = []"
proof -
  let ?q = "\<lparr>q_slots = id, q_head = 255, q_tail = 0, q_size = 255\<rparr> :: nat pcb_queue"
  have "q_valid ?q" "length (q_items ?q) = 255" by (simp_all add: q_valid_def)
  with pcb_queue_count_wraps [of ?q 9] show ?thesis by blast
qed

end
