(* ===== verification/Proc_State.thy ===== *)
theory Proc_State
  imports Pcb_Queue
begin

text \<open>
  The data of Kernel/scheduler/processes.c and its operations on the process table and the
  ready queues. A pointer to a process control block is the index of its slot, \<open>NULL_PCB\<close>
  the null pointer; a C string is the list of its characters before the terminating zero.
  The children array is the list of its first \<open>children_count\<close> entries.
\<close>

section \<open>State\<close>

abbreviation MAX_CHILDREN :: nat where "MAX_CHILDREN \<equiv> 64"
abbreviation PRIORITY_LEVELS :: nat where "PRIORITY_LEVELS \<equiv> 3"
abbreviation STACK_SIZE :: u64 where "STACK_SIZE \<equiv> 0x1000"
abbreviation MAX_PROCESS_NAME_LENGTH :: nat where "MAX_PROCESS_NAME_LENGTH \<equiv> 64"
abbreviation NULL_PCB :: nat where "NULL_PCB \<equiv> MAX_PROCESSES"
abbreviation STDIN :: u16 where "STDIN \<equiv> 0"
abbreviation STDOUT :: u16 where "STDOUT \<equiv> 1"
abbreviation STDERR :: u16 where "STDERR \<equiv> 2"

datatype process_state = READY | RUNNING | BLOCKED | SLEEPING | TERMINATED

record pcb =
  p_pid :: u16
  p_name :: string
  p_state :: process_state
  p_previous :: process_state
  p_priority :: u8
  p_stack_base :: u64
  p_stack :: u64
  p_fd_in :: u16
  p_fd_out :: u16
  p_father :: nat
  p_children :: "nat list"
  p_exit_status :: "8 word"
  p_sem_wait_id :: u32
  p_is_foreground :: u8

record procs =
  process_table :: "nat \<Rightarrow> pcb"
  process_queues :: "nat \<Rightarrow> nat pcb_queue"
  terminated_processes_queue :: "nat pcb_queue"
  current_process :: nat
  next_pid :: u16
  process_count :: u32
  procs_initialized :: bool
  system_running :: u8
  foreground_process :: u16
  first_time :: bool

definition upd_pcb :: "nat \<Rightarrow> (pcb \<Rightarrow> pcb) \<Rightarrow> procs \<Rightarrow> procs" where
  "upd_pcb i f ps = ps\<lparr>process_table := (process_table ps)(i := f (process_table ps i))\<rparr>"

text \<open>\<open>enqueue_process(process_queues[prio], &process_table[i])\<close>\<close>

definition put_ready :: "nat \<Rightarrow> u8 \<Rightarrow> procs \<Rightarrow> procs" where
  "put_ready i prio ps = ps\<lparr>process_queues := (process_queues ps)
     (unat prio := enqueued i (process_queues ps (unat prio)))\<rparr>"

text \<open>
  Every operation on a process starts with the loop that looks for its pid. Some take a
  16 bit pid, some a 32 bit one that is compared with the promoted 16 bit pid of the slot.
\<close>

definition slot_of :: "procs \<Rightarrow> u16 \<Rightarrow> nat option" where
  "slot_of ps pid = find_from (\<lambda>i. p_pid (process_table ps i) = pid) 0 MAX_PROCESSES"

definition slot_of32 :: "procs \<Rightarrow> u32 \<Rightarrow> nat option" where
  "slot_of32 ps pid = find_from (\<lambda>i. ucast (p_pid (process_table ps i)) = pid) 0 MAX_PROCESSES"

section \<open>Operations on one process\<close>

definition processes_initialized :: "procs \<Rightarrow> bool" where
  "processes_initialized ps = procs_initialized ps"

definition get_current_pid :: "procs \<Rightarrow> u16" where
  "get_current_pid ps =
     (if current_process ps = NULL_PCB then 0 else p_pid (process_table ps (current_process ps)))"

definition get_current_priority :: "procs \<Rightarrow> u8" where
  "get_current_priority ps =
     (if current_process ps = NULL_PCB then 0
      else p_priority (process_table ps (current_process ps)))"

text \<open>The caller's array of two descriptors, or \<open>None\<close> for a null pointer.\<close>

definition get_current_fds :: "procs \<Rightarrow> (u16 \<times> u16) option \<Rightarrow> int \<times> (u16 \<times> u16) option" where
  "get_current_fds ps fds =
     (if current_process ps = NULL_PCB \<or> fds = None then (-1, fds)
      else (0, Some (p_fd_in (process_table ps (current_process ps)),
                     p_fd_out (process_table ps (current_process ps)))))"

definition is_foreground :: "procs \<Rightarrow> u16 \<Rightarrow> bool" where
  "is_foreground ps pid \<longleftrightarrow> pid = foreground_process ps"

definition set_exit_status :: "procs \<Rightarrow> 8 word \<Rightarrow> procs" where
  "set_exit_status ps status =
     (if current_process ps = NULL_PCB \<or> p_pid (process_table ps (current_process ps)) = 0 then ps
      else upd_pcb (current_process ps) (\<lambda>p. p\<lparr>p_exit_status := status\<rparr>) ps)"

definition change_priority :: "procs \<Rightarrow> u32 \<Rightarrow> u8 \<Rightarrow> int \<times> procs" where
  "change_priority ps pid newPriority =
     (if unat newPriority \<ge> PRIORITY_LEVELS then (-1, ps)
      else case slot_of32 ps pid of
             None \<Rightarrow> (-1, ps)
           | Some i \<Rightarrow>
               if p_priority (process_table ps i) = newPriority then (0, ps)
               else (let ps' = upd_pcb i (\<lambda>p. p\<lparr>p_priority := newPriority\<rparr>) ps
                     in (0, if p_state (process_table ps' i) = READY
                            then put_ready i newPriority ps' else ps')))"

text \<open>The state to come back to: what it was, where a running process comes back ready.\<close>

definition saved_state :: "process_state \<Rightarrow> process_state" where
  "saved_state s = (if s \<noteq> RUNNING then s else READY)"

definition block_process :: "procs \<Rightarrow> u16 \<Rightarrow> int \<times> procs" where
  "block_process ps pid =
     (case slot_of ps pid of
        None \<Rightarrow> (-1, ps)
      | Some i \<Rightarrow>
          if p_state (process_table ps i) = TERMINATED \<or> p_state (process_table ps i) = BLOCKED
          then (-1, ps)
          else (0, upd_pcb i (\<lambda>p. p\<lparr>p_previous := saved_state (p_state p), p_state := BLOCKED\<rparr>) ps))"

definition is_sleeping :: "procs \<Rightarrow> u16 \<Rightarrow> bool" where
  "is_sleeping ps pid =
     (case slot_of ps pid of
        None \<Rightarrow> False
      | Some i \<Rightarrow> p_state (process_table ps i) = SLEEPING)"

definition sleep_process :: "procs \<Rightarrow> u16 \<Rightarrow> int \<times> procs" where
  "sleep_process ps pid =
     (case slot_of ps pid of
        None \<Rightarrow> (-1, ps)
      | Some i \<Rightarrow>
          if p_state (process_table ps i) = TERMINATED \<or> p_state (process_table ps i) = SLEEPING
          then (-1, ps)
          else (0, upd_pcb i (\<lambda>p. p\<lparr>p_previous := saved_state (p_state p), p_state := SLEEPING\<rparr>) ps))"

text \<open>Back to the previous state, and into the ready queue if that is \<open>READY\<close>.\<close>

definition restore_state :: "nat \<Rightarrow> procs \<Rightarrow> procs" where
  "restore_state i ps =
     (let ps' = upd_pcb i (\<lambda>p. p\<lparr>p_state := p_previous p\<rparr>) ps
      in if p_state (process_table ps' i) = READY
         then put_ready i (p_priority (process_table ps' i)) ps' else ps')"

definition unsleep_process :: "procs \<Rightarrow> u16 \<Rightarrow> int \<times> procs" where
  "unsleep_process ps pid =
     (case slot_of ps pid of
        None \<Rightarrow> (-1, ps)
      | Some i \<Rightarrow>
          if p_state (process_table ps i) = TERMINATED \<or> p_state (process_table ps i) \<noteq> SLEEPING
          then (-1, ps)
          else (0, restore_state i ps))"

definition stop_system :: "procs \<Rightarrow> procs" where
  "stop_system ps = ps\<lparr>system_running := 0\<rparr>"

definition is_system_running :: "procs \<Rightarrow> u8" where
  "is_system_running ps = system_running ps"

definition has_running_processes :: "procs \<Rightarrow> bool" where
  "has_running_processes ps \<longleftrightarrow> system_running ps \<noteq> 0 \<and> process_count ps > 1"

definition get_idle_process_stack :: "procs \<Rightarrow> u64" where
  "get_idle_process_stack ps = p_stack (process_table ps 0)"

definition set_next_process :: "u64 \<Rightarrow> procs \<Rightarrow> procs" where
  "set_next_process current_stack ps =
     (if current_process ps = NULL_PCB then ps
      else if first_time ps then ps\<lparr>first_time := False\<rparr>
      else let c = current_process ps;
               ps1 = upd_pcb c (\<lambda>p. p\<lparr>p_stack := current_stack\<rparr>) ps
           in if p_state (process_table ps1 c) = RUNNING
              then (let ps2 = upd_pcb c (\<lambda>p. p\<lparr>p_state := READY\<rparr>) ps1
                    in if p_pid (process_table ps2 c) \<noteq> 0
                       then put_ready c (p_priority (process_table ps2 c)) ps2 else ps2)
              else ps1)"

section \<open>The process list\<close>

datatype ps_state = PS_READY | PS_RUNNING | PS_BLOCKED | PS_SLEEPING | PS_TERMINATED

record process_info =
  pi_pid :: u16
  pi_name :: string
  pi_state :: ps_state
  pi_priority :: u8
  pi_parent_pid :: u16
  pi_is_foreground :: u8

fun ps_of :: "process_state \<Rightarrow> ps_state" where
  "ps_of READY = PS_READY"
| "ps_of RUNNING = PS_RUNNING"
| "ps_of BLOCKED = PS_BLOCKED"
| "ps_of SLEEPING = PS_SLEEPING"
| "ps_of TERMINATED = PS_TERMINATED"

definition info_of :: "procs \<Rightarrow> pcb \<Rightarrow> process_info" where
  "info_of ps p =
     \<lparr>pi_pid = p_pid p, pi_name = take (MAX_PROCESS_NAME_LENGTH - 1) (p_name p),
      pi_state = ps_of (p_state p), pi_priority = p_priority p,
      pi_parent_pid = (if p_father p \<noteq> NULL_PCB then p_pid (process_table ps (p_father p)) else 0),
      pi_is_foreground = p_is_foreground p\<rparr>"

text \<open>The loop writes the entries in order; \<open>n\<close> is the room left in the caller's array.\<close>

function info_loop :: "procs \<Rightarrow> nat \<Rightarrow> nat \<Rightarrow> process_info list" where
  "info_loop ps i n =
     (if i < MAX_PROCESSES \<and> 0 < n
      then if p_state (process_table ps i) \<noteq> TERMINATED
           then info_of ps (process_table ps i) # info_loop ps (Suc i) (n - 1)
           else info_loop ps (Suc i) n
      else [])"
  by pat_completeness auto
termination
  by (relation "measure (\<lambda>(ps, i, n). MAX_PROCESSES - i)") auto

declare info_loop.simps [simp del]

text \<open>The return value and the entries written; \<open>arr\<close> is whether the pointer is not null.\<close>

definition get_processes_info :: "procs \<Rightarrow> bool \<Rightarrow> int \<Rightarrow> int \<times> process_info list" where
  "get_processes_info ps arr max_processes =
     (if \<not> arr \<or> max_processes \<le> 0 then (-1, [])
      else let xs = info_loop ps 0 (nat max_processes) in (int (length xs), xs))"

section \<open>Field lemmas\<close>

lemma upd_pcb_simps [simp]:
  "process_table (upd_pcb i f ps) = (process_table ps)(i := f (process_table ps i))"
  "process_queues (upd_pcb i f ps) = process_queues ps"
  "terminated_processes_queue (upd_pcb i f ps) = terminated_processes_queue ps"
  "current_process (upd_pcb i f ps) = current_process ps"
  "next_pid (upd_pcb i f ps) = next_pid ps"
  "process_count (upd_pcb i f ps) = process_count ps"
  "procs_initialized (upd_pcb i f ps) = procs_initialized ps"
  "system_running (upd_pcb i f ps) = system_running ps"
  "foreground_process (upd_pcb i f ps) = foreground_process ps"
  "first_time (upd_pcb i f ps) = first_time ps"
  by (simp_all add: upd_pcb_def)

lemma put_ready_simps [simp]:
  "process_table (put_ready i r ps) = process_table ps"
  "process_queues (put_ready i r ps) = (process_queues ps)
     (unat r := enqueued i (process_queues ps (unat r)))"
  "terminated_processes_queue (put_ready i r ps) = terminated_processes_queue ps"
  "current_process (put_ready i r ps) = current_process ps"
  "next_pid (put_ready i r ps) = next_pid ps"
  "process_count (put_ready i r ps) = process_count ps"
  "procs_initialized (put_ready i r ps) = procs_initialized ps"
  "system_running (put_ready i r ps) = system_running ps"
  "foreground_process (put_ready i r ps) = foreground_process ps"
  "first_time (put_ready i r ps) = first_time ps"
  by (simp_all add: put_ready_def)

lemma slot_of_SomeD:
  "slot_of ps pid = Some i \<Longrightarrow> i < MAX_PROCESSES \<and> p_pid (process_table ps i) = pid"
  unfolding slot_of_def by (blast dest: find_from_SomeD)

lemma slot_of32_SomeD:
  "slot_of32 ps pid = Some i \<Longrightarrow> i < MAX_PROCESSES \<and> ucast (p_pid (process_table ps i)) = pid"
  unfolding slot_of32_def by (blast dest: find_from_SomeD)

text \<open>A search depends on the pids only.\<close>

lemma slot_of_cong:
  "(\<And>i. p_pid (process_table ps i) = p_pid (process_table ps' i)) \<Longrightarrow> slot_of ps = slot_of ps'"
  by (rule ext) (simp add: slot_of_def)

lemma slot_ofI:
  "i < MAX_PROCESSES \<Longrightarrow> p_pid (process_table ps i) = pid \<Longrightarrow>
   (\<And>j. j < i \<Longrightarrow> p_pid (process_table ps j) \<noteq> pid) \<Longrightarrow> slot_of ps pid = Some i"
  unfolding slot_of_def by (rule find_from_SomeI) simp_all

end
