(* ===== verification/Rand.thy ===== *)
theory Rand
  imports Clock
begin

text \<open>
  Kernel/kernel-libs/random.c in its 64 bit configuration: the Mersenne twister MT19937-64
  seeded from the clock, and \<open>randInt\<close>. The state array is a map from indices; the index is
  the 64 bit word of the code. \<open>now\<close> is what \<open>get_time()\<close> reads, used by the first call only.
\<close>

section \<open>The generator\<close>

abbreviation STATE_SIZE :: nat where "STATE_SIZE \<equiv> 312"
abbreviation MIDDLE :: nat where "MIDDLE \<equiv> 156"
abbreviation TWIST_MASK :: u64 where "TWIST_MASK \<equiv> 0xb5026f5aa96619e9"
abbreviation INIT_FACT :: u64 where "INIT_FACT \<equiv> 6364136223846793005"
abbreviation LOWER_MASK :: u64 where "LOWER_MASK \<equiv> 0x7fffffff"
abbreviation UPPER_MASK :: u64 where "UPPER_MASK \<equiv> NOT LOWER_MASK"

record rng =
  mt_state :: "nat \<Rightarrow> u64"
  mt_index :: u64

definition rng_init :: rng where
  "rng_init = \<lparr>mt_state = \<lambda>_. 0, mt_index = 313\<rparr>"

definition seed_step :: "(nat \<Rightarrow> u64) \<Rightarrow> nat \<Rightarrow> nat \<Rightarrow> u64" where
  "seed_step st i =
     st(i := INIT_FACT * (st (i - 1) XOR drop_bit 62 (st (i - 1))) + of_nat i)"

definition seed :: "u64 \<Rightarrow> rng \<Rightarrow> rng" where
  "seed s g = \<lparr>mt_state = fold (\<lambda>i st. seed_step st i) [1..<STATE_SIZE] ((mt_state g)(0 := s)),
               mt_index = 312\<rparr>"

definition twist_step :: "(nat \<Rightarrow> u64) \<Rightarrow> nat \<Rightarrow> nat \<Rightarrow> u64" where
  "twist_step st i =
     (let x = (st i AND UPPER_MASK) OR (st ((i + 1) mod STATE_SIZE) AND LOWER_MASK);
          x' = drop_bit 1 x XOR (if x AND 1 \<noteq> 0 then TWIST_MASK else 0)
      in st(i := st ((i + MIDDLE) mod STATE_SIZE) XOR x'))"

definition twist :: "rng \<Rightarrow> rng" where
  "twist g = \<lparr>mt_state = fold (\<lambda>i st. twist_step st i) [0..<STATE_SIZE] (mt_state g), mt_index = 0\<rparr>"

text \<open>The seed from the clock, in 32 bit arithmetic.\<close>

definition clock_seed :: "time_struct \<Rightarrow> u32" where
  "clock_seed t =
     (let hour = word_of_int (sint (t_hour t)); min = word_of_int (sint (t_min t));
          sec = word_of_int (sint (t_sec t));
          s = hour * 3600 + min * 60 + sec;
          s = s * 1103515245 + 12345 * sec;
          s = s + min
      in (s * 7 div 65536) mod 32768)"

definition temper :: "u64 \<Rightarrow> u64" where
  "temper y =
     (let y = y XOR (drop_bit 29 y AND 0x5555555555555555);
          y = y XOR (push_bit 17 y AND 0x71d67fffeda60000);
          y = y XOR (push_bit 37 y AND 0xfff7eee000000000)
      in y XOR drop_bit 43 y)"

text \<open>The generator made ready: its index is below the state size afterwards.\<close>

definition refill :: "time_struct \<Rightarrow> rng \<Rightarrow> rng" where
  "refill now g =
     (if mt_index g \<ge> 312
      then twist (if mt_index g > 312 then seed (ucast (clock_seed now)) g else g)
      else g)"

definition random :: "time_struct \<Rightarrow> rng \<Rightarrow> u64 \<times> rng" where
  "random now g =
     (let g' = refill now g
      in (temper (mt_state g' (unat (mt_index g'))), g'\<lparr>mt_index := mt_index g' + 1\<rparr>))"

text \<open>
  \<open>randInt\<close> on C integers. The sum is formed in 64 bits, as \<open>random()\<close> is unsigned, and cut to
  32 bits by the return type; \<open>diff\<close> is zero, which divides by zero, only when the range is
  all of \<open>int\<close>.
\<close>

definition randInt :: "time_struct \<Rightarrow> int \<Rightarrow> int \<Rightarrow> rng \<Rightarrow> int \<times> rng" where
  "randInt now izq der g =
     (let (lo, hi) = (if izq > der then (der, izq) else (izq, der));
          diff = hi - lo + 1;
          (r, g') = random now g
      in (sint (ucast (r mod word_of_int diff + word_of_int lo) :: u32), g'))"

section \<open>Bounds\<close>

lemma mt_index_refill: "unat (mt_index (refill now g)) < STATE_SIZE"
  by (auto simp: refill_def twist_def word_less_nat_alt word_le_nat_alt)

lemma mt_index_random: "unat (mt_index (snd (random now g))) \<le> STATE_SIZE"
proof -
  have "unat (mt_index (refill now g) + 1) = unat (mt_index (refill now g)) + 1"
    using mt_index_refill [of now g] by (subst unat_add_lem [THEN iffD1]) simp_all
  then show ?thesis using mt_index_refill [of now g] by (simp add: random_def Let_def)
qed

lemma sint_u32_of_int:
  assumes "- (2 ^ 31) \<le> x" "x < 2 ^ 31"
  shows "sint (word_of_int x :: u32) = x"
  using assms by (simp add: signed_of_int signed_take_bit_int_eq_self)

lemma ucast_u64_u32_of_int: "ucast (word_of_int x :: u64) = (word_of_int x :: u32)"
  by transfer (simp add: take_bit_take_bit)

lemma uint_mod_of_int:
  assumes "0 < d" "d < 2 ^ 31"
  shows "uint (r mod word_of_int d :: u64) = uint r mod d"
  using assms by (simp add: uint_mod uint_word_of_int_eq take_bit_int_eq_self)

lemma randInt_bounds:
  assumes "- (2 ^ 31) \<le> izq" "izq < 2 ^ 31" "- (2 ^ 31) \<le> der" "der < 2 ^ 31"
    and "\<bar>izq - der\<bar> + 1 < 2 ^ 31"
  shows "min izq der \<le> fst (randInt now izq der g) \<and> fst (randInt now izq der g) \<le> max izq der"
proof -
  define lo hi where "lo = min izq der" and "hi = max izq der"
  define d where "d = hi - lo + 1"
  define r where "r = fst (random now g)"
  define m where "m = uint r mod d"
  have d: "0 < d" "d < 2 ^ 31" using assms(5) by (auto simp: d_def lo_def hi_def)
  then have m: "0 \<le> m" "m < d" by (simp_all add: m_def)
  have "r mod word_of_int d = word_of_int m"
    using uint_mod_of_int [OF d, of r] by (metis m_def word_of_int_uint)
  moreover have "fst (randInt now izq der g) = sint (ucast (r mod word_of_int d + word_of_int lo) :: u32)"
    by (simp add: randInt_def r_def d_def lo_def hi_def split_beta)
  ultimately have "fst (randInt now izq der g) = sint (word_of_int (m + lo) :: u32)"
    by (simp add: ucast_u64_u32_of_int flip: of_int_add)
  moreover have "- (2 ^ 31) \<le> m + lo" "m + lo < 2 ^ 31"
    using m assms(1-4) by (auto simp: d_def lo_def hi_def)
  ultimately have "fst (randInt now izq der g) = m + lo"
    by (simp only: sint_u32_of_int)
  moreover have "lo \<le> m + lo" "m + lo \<le> hi" using m by (auto simp: d_def)
  ultimately show ?thesis by (simp add: lo_def hi_def)
qed

text \<open>
  \<open>randInt\<close> returns a number of the closed range between its two arguments, in either
  order, for every state of the generator and every reading of the clock, as long as the
  range has fewer than 2^31 elements; and the state it reads is inside the array.
\<close>

theorem randInt_in_range:
  assumes "- (2 ^ 31) \<le> izq" "izq < 2 ^ 31" "- (2 ^ 31) \<le> der" "der < 2 ^ 31"
    and "\<bar>izq - der\<bar> + 1 < 2 ^ 31"
  shows "min izq der \<le> fst (randInt now izq der g) \<and> fst (randInt now izq der g) \<le> max izq der \<and>
    unat (mt_index (refill now g)) < STATE_SIZE"
  using randInt_bounds [OF assms] mt_index_refill by simp

lemma randInt_in_range_witness:
  "\<forall>now. 0 \<le> fst (randInt now 0 13 rng_init) \<and> fst (randInt now 0 13 rng_init) \<le> 13"
  by (rule allI) (use randInt_in_range [of 0 13 _ rng_init] in simp)

end
