(* ===== verification/Video.thy ===== *)
theory Video
  imports Prelude
begin

text \<open>
  Kernel/drivers/video-driver.c. The text screen is a byte map indexed by the offset from
  \<open>0xB8000\<close>, the cursor \<open>current_video\<close> such an offset. Lines and columns are computed in
  32 bit unsigned arithmetic, written out as \<open>mod 2 ^ 32\<close>.
\<close>

section \<open>Screen\<close>

abbreviation WIDTH :: nat where "WIDTH \<equiv> 80"
abbreviation HEIGHT :: nat where "HEIGHT \<equiv> 24"
abbreviation LEFT_MARGIN :: nat where "LEFT_MARGIN \<equiv> 1"
abbreviation SCREEN_BYTES :: nat where "SCREEN_BYTES \<equiv> 3840"
abbreviation CHAR_EOF :: u8 where "CHAR_EOF \<equiv> 0xFC"
abbreviation CHAR_INTERRUPT :: u8 where "CHAR_INTERRUPT \<equiv> 0xFD"
abbreviation SPACE_CHAR :: u8 where "SPACE_CHAR \<equiv> 32"
abbreviation NEWLINE_CHAR :: u8 where "NEWLINE_CHAR \<equiv> 10"
abbreviation BACKSPACE_CHAR :: u8 where "BACKSPACE_CHAR \<equiv> 8"

record screen =
  vd_mem :: "nat \<Rightarrow> u8"
  vd_cursor :: nat
  vd_color :: u8

definition screen_init :: screen where
  "screen_init = \<lparr>vd_mem = \<lambda>_. 0, vd_cursor = LEFT_MARGIN * 2, vd_color = 0x07\<rparr>"

definition NEW_LINE :: "screen \<Rightarrow> screen" where
  "NEW_LINE v =
     (let current_line = (vd_cursor v div 2) div WIDTH mod 2 ^ 32
      in v\<lparr>vd_cursor := ((current_line + 1) * WIDTH + LEFT_MARGIN) * 2 mod 2 ^ 32\<rparr>)"

text \<open>A character and its attribute, written at the cursor.\<close>

definition put_cell :: "u8 \<Rightarrow> screen \<Rightarrow> screen" where
  "put_cell c v = v\<lparr>vd_mem := (vd_mem v)(vd_cursor v := c, Suc (vd_cursor v) := vd_color v)\<rparr>"

definition blank_cell :: "u8 \<Rightarrow> nat \<Rightarrow> (nat \<Rightarrow> u8) \<Rightarrow> nat \<Rightarrow> u8" where
  "blank_cell color k m = m(2 * k := SPACE_CHAR, Suc (2 * k) := color)"

text \<open>The second loop of \<open>vd_scroll_up\<close> steps over the cells of the last line.\<close>

definition vd_scroll_up :: "screen \<Rightarrow> screen" where
  "vd_scroll_up v =
     (let m = fold (\<lambda>i m. m(i := m (i + WIDTH * 2))) [0..<(HEIGHT - 1) * WIDTH * 2] (vd_mem v)
      in v\<lparr>vd_mem := fold (blank_cell (vd_color v)) [(HEIGHT - 1) * WIDTH..<HEIGHT * WIDTH] m\<rparr>)"

definition scroll_if_full :: "screen \<Rightarrow> screen" where
  "scroll_if_full v =
     (if vd_cursor v \<ge> SCREEN_BYTES
      then (vd_scroll_up v)\<lparr>vd_cursor := ((HEIGHT - 1) * WIDTH + LEFT_MARGIN) * 2\<rparr> else v)"

definition cursor_col :: "screen \<Rightarrow> nat" where
  "cursor_col v = (vd_cursor v div 2) mod WIDTH"

definition vd_draw_char :: "u8 \<Rightarrow> screen \<Rightarrow> screen" where
  "vd_draw_char character v0 =
     (let v = scroll_if_full v0
      in if character = NEWLINE_CHAR then scroll_if_full (NEW_LINE v)
         else if character = BACKSPACE_CHAR
         then (if cursor_col v > LEFT_MARGIN \<and> vd_cursor v > 0
               then put_cell SPACE_CHAR (v\<lparr>vd_cursor := vd_cursor v - 2\<rparr>) else v)
         else if character = CHAR_EOF then v
         else (let v1 = (if cursor_col v \<ge> WIDTH - 1 then scroll_if_full (NEW_LINE v) else v);
                   v2 = put_cell character v1
               in v2\<lparr>vd_cursor := vd_cursor v2 + 2\<rparr>))"

text \<open>A zero terminated string is the list of its bytes before the zero.\<close>

fun vd_print :: "u8 list \<Rightarrow> screen \<Rightarrow> screen" where
  "vd_print [] v = v"
| "vd_print (c # s) v = vd_print s (if c = NEWLINE_CHAR then NEW_LINE v else vd_draw_char c v)"

definition vd_nprint :: "(nat \<Rightarrow> u8) \<Rightarrow> u32 \<Rightarrow> screen \<Rightarrow> screen" where
  "vd_nprint s n v = fold (\<lambda>i v. vd_draw_char (s i) v) [0..<unat n] v"

definition vd_clear_screen :: "screen \<Rightarrow> screen" where
  "vd_clear_screen v =
     v\<lparr>vd_mem := fold (blank_cell (vd_color v)) [0..<HEIGHT * WIDTH] (vd_mem v),
       vd_cursor := LEFT_MARGIN * 2\<rparr>"

definition vd_set_cursor :: "u32 \<Rightarrow> u32 \<Rightarrow> screen \<Rightarrow> screen" where
  "vd_set_cursor x y v =
     v\<lparr>vd_cursor := unat (((x + of_nat LEFT_MARGIN) + y * of_nat WIDTH) * 2)\<rparr>"

definition vd_get_color :: "screen \<Rightarrow> u8" where
  "vd_get_color v = vd_color v"

definition vd_set_color :: "u8 \<Rightarrow> screen \<Rightarrow> screen" where
  "vd_set_color new_color v = v\<lparr>vd_color := new_color\<rparr>"

section \<open>Writes stay on the screen\<close>

text \<open>
  A screen operation is confined if it leaves every byte outside the 3840 bytes alone. The
  cursor is always at the start of a cell.
\<close>

definition confined :: "screen \<Rightarrow> screen \<Rightarrow> bool" where
  "confined v v' \<longleftrightarrow> even (vd_cursor v') \<and> (\<forall>j\<ge>SCREEN_BYTES. vd_mem v' j = vd_mem v j)"

lemma confined_refl: "even (vd_cursor v) \<Longrightarrow> confined v v"
  by (simp add: confined_def)

lemma confined_trans: "confined a b \<Longrightarrow> confined b c \<Longrightarrow> confined a c"
  by (simp add: confined_def)

lemma confined_even: "confined v v' \<Longrightarrow> even (vd_cursor v')"
  by (simp add: confined_def)

lemma fold_blank_cell:
  "fold (blank_cell color) [a..<b] m =
     (\<lambda>j. if 2 * a \<le> j \<and> j < 2 * b then if even j then SPACE_CHAR else color else m j)"
proof (induction b)
  case (Suc b)
  show ?case
  proof (cases "a \<le> b")
    case True
    show ?thesis
    proof (rule ext)
      fix j
      consider "j = 2 * b" | "j = Suc (2 * b)" | "j \<noteq> 2 * b" "j \<noteq> Suc (2 * b)" by blast
      then show "fold (blank_cell color) [a..<Suc b] m j =
        (if 2 * a \<le> j \<and> j < 2 * Suc b then if even j then SPACE_CHAR else color else m j)"
        using True by cases (auto simp: Suc.IH blank_cell_def)
    qed
  qed (auto simp: fun_eq_iff)
qed (auto simp: fun_eq_iff)

lemma fold_copy_down:
  "fold (\<lambda>i m. m(i := m (i + d))) [0..<n] m = (\<lambda>j. if j < n then m (j + d) else (m :: nat \<Rightarrow> 'a) j)"
  by (induction n) (auto simp: fun_eq_iff)

text \<open>The scrolled screen: every line moves up by one, the last one is blank.\<close>

lemma vd_scroll_up_mem:
  "vd_mem (vd_scroll_up v) j =
     (if j < 3680 then vd_mem v (j + 160)
      else if j < SCREEN_BYTES then if even j then SPACE_CHAR else vd_color v
      else vd_mem v j)"
  unfolding vd_scroll_up_def Let_def fold_copy_down fold_blank_cell by simp

lemma vd_scroll_up_rest [simp]:
  "vd_cursor (vd_scroll_up v) = vd_cursor v" "vd_color (vd_scroll_up v) = vd_color v"
  by (simp_all add: vd_scroll_up_def)

lemma scroll_if_full_confined: "even (vd_cursor v) \<Longrightarrow> confined v (scroll_if_full v)"
  by (simp add: scroll_if_full_def confined_def vd_scroll_up_mem)

lemma scroll_if_full_cursor: "vd_cursor (scroll_if_full v) < SCREEN_BYTES"
  by (simp add: scroll_if_full_def)

lemma NEW_LINE_confined: "confined v (NEW_LINE v)"
  by (simp add: NEW_LINE_def confined_def dvd_mod)

lemma put_cell_confined:
  assumes "even (vd_cursor v)" "vd_cursor v < SCREEN_BYTES"
  shows "confined v (put_cell c v)"
proof -
  have "Suc (vd_cursor v) < SCREEN_BYTES" using assms by presburger
  then show ?thesis using assms by (auto simp: put_cell_def confined_def)
qed

lemma step_back_confined:
  assumes "even (vd_cursor v)" "cursor_col v > LEFT_MARGIN" "vd_cursor v < SCREEN_BYTES"
  shows "confined v (put_cell c (v\<lparr>vd_cursor := vd_cursor v - 2\<rparr>))"
proof -
  have "confined v (v\<lparr>vd_cursor := vd_cursor v - 2\<rparr>)"
    using assms by (simp add: confined_def)
  moreover have "confined (v\<lparr>vd_cursor := vd_cursor v - 2\<rparr>) (put_cell c (v\<lparr>vd_cursor := vd_cursor v - 2\<rparr>))"
    using assms by (intro put_cell_confined) auto
  ultimately show ?thesis by (rule confined_trans)
qed

lemma new_line_scrolled:
  "confined v (scroll_if_full (NEW_LINE v))"
  using NEW_LINE_confined [of v] scroll_if_full_confined confined_trans confined_even by blast

lemma write_advance_confined:
  assumes "even (vd_cursor v)" "vd_cursor v < SCREEN_BYTES"
  shows "confined v ((put_cell c v)\<lparr>vd_cursor := vd_cursor (put_cell c v) + 2\<rparr>)"
  using put_cell_confined [OF assms] by (simp add: confined_def)

lemma vd_draw_char_confined:
  assumes "even (vd_cursor v)"
  shows "confined v (vd_draw_char c v)"
proof -
  let ?s = "scroll_if_full v"
  have s: "confined v ?s" "vd_cursor ?s < SCREEN_BYTES"
    using scroll_if_full_confined [OF assms] scroll_if_full_cursor by auto
  note e = confined_even [OF s(1)]
  let ?w = "if cursor_col ?s \<ge> WIDTH - 1 then scroll_if_full (NEW_LINE ?s) else ?s"
  have w: "confined ?s ?w" "vd_cursor ?w < SCREEN_BYTES"
    using new_line_scrolled [of ?s] s(2) scroll_if_full_cursor confined_refl [OF e] by auto
  have "confined ?w ((put_cell c ?w)\<lparr>vd_cursor := vd_cursor (put_cell c ?w) + 2\<rparr>)"
    by (rule write_advance_confined [OF confined_even [OF w(1)] w(2)])
  then have "confined ?s ((put_cell c ?w)\<lparr>vd_cursor := vd_cursor (put_cell c ?w) + 2\<rparr>)"
    by (rule confined_trans [OF w(1)])
  then have "confined ?s (vd_draw_char c v)"
    using new_line_scrolled [of ?s] step_back_confined [OF e _ s(2)] confined_refl [OF e]
    unfolding vd_draw_char_def Let_def by auto
  then show ?thesis by (rule confined_trans [OF s(1)])
qed

lemma vd_nprint_confined:
  assumes "even (vd_cursor v)"
  shows "confined v (vd_nprint s n v)"
proof -
  have "confined v (fold (\<lambda>i v. vd_draw_char (s i) v) is v)" if "even (vd_cursor v)" for "is" v
    using that
  proof (induction "is" arbitrary: v)
    case (Cons i "is")
    then show ?case
      using vd_draw_char_confined [of v "s i"] confined_even confined_trans by fastforce
  qed (simp add: confined_refl)
  with assms show ?thesis by (simp add: vd_nprint_def)
qed

lemma vd_print_confined: "even (vd_cursor v) \<Longrightarrow> confined v (vd_print s v)"
proof (induction s v rule: vd_print.induct)
  case (2 c s v)
  let ?v = "if c = NEWLINE_CHAR then NEW_LINE v else vd_draw_char c v"
  have v: "confined v ?v"
    using NEW_LINE_confined vd_draw_char_confined [OF "2.prems"] by simp
  then have "confined ?v (vd_print s ?v)"
    using "2.IH" confined_even by blast
  with v have "confined v (vd_print s ?v)" by (rule confined_trans)
  then show ?case by simp
qed (simp add: confined_refl)

lemma even_unat_double: "even (unat (z * 2 :: u32))"
  by (simp add: unat_word_ariths dvd_mod)

lemma vd_cursor_set_cursor:
  "vd_cursor (vd_set_cursor x y v) = unat (((x + of_nat LEFT_MARGIN) + y * of_nat WIDTH) * 2)"
  by (simp add: vd_set_cursor_def)


section \<open>Numbers\<close>

text \<open>
  \<open>uint_to_base\<close> in three parts: the digits, least significant first, written from the start
  of the buffer; the terminating zero; and the two-pointer reversal. Base 0 divides by zero
  and base 1 never ends: \<open>None\<close>. The buffer is the list of the bytes the call writes.
\<close>

definition digit_char :: "u64 \<Rightarrow> u8" where
  "digit_char remainder = (if remainder < 10 then ucast remainder + 48 else ucast remainder + 65 - 10)"

partial_function (option) digits_loop :: "u64 \<Rightarrow> u32 \<Rightarrow> u8 list \<Rightarrow> u8 list option" where
  "digits_loop v base buf =
     (if base = 0 then None
      else (let buf' = buf @ [digit_char (v mod ucast base)]; v' = v div ucast base
            in if v' \<noteq> 0 then digits_loop v' base buf' else Some buf'))"

function reverse_loop :: "u8 list \<Rightarrow> nat \<Rightarrow> nat \<Rightarrow> u8 list" where
  "reverse_loop buf p1 p2 =
     (if p1 < p2 then reverse_loop (buf[p1 := buf ! p2, p2 := buf ! p1]) (Suc p1) (p2 - 1) else buf)"
  by pat_completeness auto
termination
  by (relation "measure (\<lambda>(buf, p1, p2). p2 - p1)") auto

declare reverse_loop.simps [simp del]

definition uint_to_base :: "u64 \<Rightarrow> u32 \<Rightarrow> (u32 \<times> u8 list) option" where
  "uint_to_base v base =
     (case digits_loop v base [] of
        None \<Rightarrow> None
      | Some buf \<Rightarrow> Some (of_nat (length buf), reverse_loop (buf @ [0]) 0 (length buf - 1)))"

text \<open>Printing stops at the first zero of the buffer.\<close>

definition vd_print_base :: "u64 \<Rightarrow> u32 \<Rightarrow> screen \<Rightarrow> screen option" where
  "vd_print_base v base scr =
     (case uint_to_base v base of
        None \<Rightarrow> None
      | Some (_, buf) \<Rightarrow> Some (vd_print (takeWhile (\<lambda>c. c \<noteq> 0) buf) scr))"

definition vd_print_dec :: "u64 \<Rightarrow> screen \<Rightarrow> screen option" where
  "vd_print_dec v = vd_print_base v 10"

definition vd_print_hex :: "u64 \<Rightarrow> screen \<Rightarrow> screen option" where
  "vd_print_hex v = vd_print_base v 16"

definition vd_print_bin :: "u64 \<Rightarrow> screen \<Rightarrow> screen option" where
  "vd_print_bin v = vd_print_base v 2"

subsection \<open>Reversal\<close>

lemma length_reverse_loop [simp]: "length (reverse_loop buf p1 p2) = length buf"
  by (induction buf p1 p2 rule: reverse_loop.induct) (subst reverse_loop.simps, simp)

lemma reverse_loop_nth:
  "p2 < length buf \<Longrightarrow> i < length buf \<Longrightarrow>
   reverse_loop buf p1 p2 ! i = (if p1 \<le> i \<and> i \<le> p2 then buf ! (p1 + p2 - i) else buf ! i)"
proof (induction buf p1 p2 rule: reverse_loop.induct)
  case (1 buf p1 p2)
  show ?case
  proof (cases "p1 < p2")
    case True
    let ?b = "buf[p1 := buf ! p2, p2 := buf ! p1]"
    have "reverse_loop buf p1 p2 ! i = reverse_loop ?b (Suc p1) (p2 - 1) ! i"
      using True by (simp add: reverse_loop.simps [of buf p1 p2])
    also have "\<dots> = (if Suc p1 \<le> i \<and> i \<le> p2 - 1 then ?b ! (Suc p1 + (p2 - 1) - i) else ?b ! i)"
      using "1.IH" [OF True] "1.prems" by simp
    also have "\<dots> = (if p1 \<le> i \<and> i \<le> p2 then buf ! (p1 + p2 - i) else buf ! i)"
    proof (cases "Suc p1 \<le> i \<and> i \<le> p2 - 1")
      case True
      then have "p1 + p2 - i \<noteq> p1" "p1 + p2 - i \<noteq> p2" "Suc p1 + (p2 - 1) - i = p1 + p2 - i"
        by auto
      with True show ?thesis by (auto simp: nth_list_update)
    next
      case False
      then consider "i = p1" | "i = p2" | "i < p1 \<or> p2 < i" by linarith
      then show ?thesis
        using False True "1.prems" by cases (auto simp: nth_list_update)
    qed
    finally show ?thesis .
  next
    case False
    then have "p1 \<le> i \<Longrightarrow> i \<le> p2 \<Longrightarrow> p1 + p2 - i = i" by linarith
    with False show ?thesis by (auto simp: reverse_loop.simps [of buf p1 p2])
  qed
qed

lemma reverse_loop_rev:
  assumes "buf \<noteq> []"
  shows "reverse_loop (buf @ [0]) 0 (length buf - 1) = rev buf @ [0]"
proof (rule nth_equalityI)
  fix i assume i: "i < length (reverse_loop (buf @ [0]) 0 (length buf - 1))"
  have pos: "0 < length buf" using assms by simp
  then have np: "\<not> length buf \<le> length buf - Suc 0" by linarith
  have l: "length buf - 1 < length (buf @ [0])" "i < length (buf @ [0])" using i by simp_all
  show "reverse_loop (buf @ [0]) 0 (length buf - 1) ! i = (rev buf @ [0]) ! i"
    using pos reverse_loop_nth [OF l, of 0] l
    by (auto simp: nth_append rev_nth less_Suc_eq np)
qed simp

subsection \<open>Digits\<close>

text \<open>The characters of a numeral read back, most significant first.\<close>

definition digit_value :: "u8 \<Rightarrow> nat" where
  "digit_value c = (if unat c < 58 then unat c - 48 else unat c - 55)"

definition numeral_value :: "nat \<Rightarrow> u8 list \<Rightarrow> nat" where
  "numeral_value base s = foldl (\<lambda>n c. n * base + digit_value c) 0 s"

lemma numeral_value_rev_Cons:
  "numeral_value b (rev (c # s)) = numeral_value b (rev s) * b + digit_value c"
  by (simp add: numeral_value_def)

lemma unat_digit_char:
  assumes "unat r < 36"
  shows "unat (digit_char r) = (if unat r < 10 then unat r + 48 else unat r + 55)"
proof -
  have u: "unat (ucast r :: u8) = unat r"
    using assms by (simp add: unsigned_ucast_eq take_bit_nat_eq_self)
  have "unat (ucast r + 48 :: u8) = unat r + 48" "unat (ucast r + 55 :: u8) = unat r + 55"
    using assms by (simp_all add: unat_word_ariths u)
  moreover have "ucast r + 65 - 10 = (ucast r + 55 :: u8)" by simp
  moreover have "r < 10 \<longleftrightarrow> unat r < 10" by (simp add: word_less_nat_alt)
  ultimately show ?thesis by (simp only: digit_char_def split: if_split) simp
qed

lemma digit_value_char: "unat r < 36 \<Longrightarrow> digit_value (digit_char r) = unat r"
  by (simp add: digit_value_def unat_digit_char)

text \<open>Bases from 2 to 36 end, and the digits make up the number.\<close>

lemma unat_base [simp]: "unat (ucast (base :: u32) :: u64) = unat base"
  by (simp add: unsigned_ucast_eq take_bit_nat_eq_self order.strict_trans [OF unsigned_less])

lemma digits_loop_spec:
  assumes "2 \<le> unat base" "unat base \<le> 36"
  shows "\<exists>ds. digits_loop v base buf = Some (buf @ ds) \<and> ds \<noteq> [] \<and>
    numeral_value (unat base) (rev ds) = unat v \<and> (\<forall>c\<in>set ds. 48 \<le> unat c) \<and>
    unat base ^ (length ds - 1) \<le> max 1 (unat v) \<and> unat v < unat base ^ length ds"
proof (induction "unat v" arbitrary: v buf rule: less_induct)
  case less
  let ?b = "unat base"
  let ?d = "digit_char (v mod ucast base)" and ?v = "v div ucast base"
  have b0: "base \<noteq> 0" using assms by auto
  have m: "unat (v mod ucast base) = unat v mod ?b" and q: "unat ?v = unat v div ?b"
    by (simp_all add: unat_mod unat_div)
  have r: "unat v mod ?b < 36" using assms mod_less_divisor [of ?b "unat v"] by linarith
  then have dv: "digit_value ?d = unat v mod ?b" and dc: "48 \<le> unat ?d"
    using digit_value_char [of "v mod ucast base"] unat_digit_char [of "v mod ucast base"] m by auto
  show ?case
  proof (cases "?v = 0")
    case True
    then have "unat v < ?b" using q assms by (metis div_eq_0_iff not_numeral_le_zero unat_0)
    then have "numeral_value ?b (rev [?d]) = unat v" using dv by (simp add: numeral_value_def)
    moreover have "digits_loop v base buf = Some (buf @ [?d])"
      using b0 True by (simp add: digits_loop.simps [of v] Let_def)
    ultimately show ?thesis using dc \<open>unat v < ?b\<close> by (intro exI [of _ "[?d]"]) simp
  next
    case False
    then have q0: "0 < unat v div ?b" using q by (metis gr0I unat_eq_zero)
    then have "0 < unat v" by (cases "unat v = 0") simp_all
    then have "unat ?v < unat v" using q assms by simp
    from less [OF this, of "buf @ [?d]"] obtain ds where
      ds: "digits_loop ?v base (buf @ [?d]) = Some ((buf @ [?d]) @ ds)" "ds \<noteq> []"
        "numeral_value ?b (rev ds) = unat v div ?b" "\<forall>c\<in>set ds. 48 \<le> unat c"
        "?b ^ (length ds - 1) \<le> max 1 (unat v div ?b)" "unat v div ?b < ?b ^ length ds"
      using q by auto
    have "digits_loop v base buf = Some (buf @ ?d # ds)"
      using b0 False ds(1) by (simp add: digits_loop.simps [of v] Let_def)
    moreover have "numeral_value ?b (rev (?d # ds)) = unat v"
      using ds(3) dv by (simp only: numeral_value_rev_Cons) simp
    moreover have "?b ^ (length (?d # ds) - 1) \<le> unat v"
    proof -
      have "?b * ?b ^ (length ds - 1) \<le> ?b * (unat v div ?b)"
        using ds(5) q0 by simp
      also have "\<dots> \<le> unat v" by simp
      finally show ?thesis using ds(2) by (cases ds) simp_all
    qed
    moreover have "unat v < ?b ^ length (?d # ds)"
      using ds(6) assms by (simp add: div_less_iff_less_mult mult.commute)
    ultimately show ?thesis using dc ds(4) by (intro exI [of _ "?d # ds"]) auto
  qed
qed

lemma takeWhile_nonzero:
  "\<forall>c\<in>set ds. 48 \<le> unat (c :: u8) \<Longrightarrow> takeWhile (\<lambda>c. c \<noteq> 0) (rev ds @ [0]) = rev ds"
proof -
  assume h: "\<forall>c\<in>set ds. 48 \<le> unat c"
  then have "\<forall>c\<in>set (rev ds). c \<noteq> 0" by auto
  then show ?thesis by (induction ds rule: rev_induct) auto
qed

text \<open>
  For every base from 2 to 36 the conversion ends, and the numeral it leaves in the
  buffer reads back to the number: the reversal loop has put the most significant digit
  first, the zero is behind the last digit, and the count returned is the number of digits.
\<close>

theorem uint_to_base_roundtrip:
  assumes "2 \<le> unat base" "unat base \<le> 36"
  shows "\<exists>n buf. uint_to_base v base = Some (n, buf) \<and>
    numeral_value (unat base) (takeWhile (\<lambda>c. c \<noteq> 0) buf) = unat v \<and>
    n = of_nat (length (takeWhile (\<lambda>c. c \<noteq> 0) buf)) \<and> length buf = Suc (length (takeWhile (\<lambda>c. c \<noteq> 0) buf))"
proof -
  obtain ds where ds: "digits_loop v base [] = Some ds" "ds \<noteq> []"
      "numeral_value (unat base) (rev ds) = unat v" "\<forall>c\<in>set ds. 48 \<le> unat c"
    using digits_loop_spec [OF assms, of v "[]"] by auto
  then have "uint_to_base v base = Some (of_nat (length ds), rev ds @ [0])"
    using reverse_loop_rev [OF ds(2)] by (simp add: uint_to_base_def)
  then show ?thesis
    using ds(3) takeWhile_nonzero [OF ds(4)] by simp
qed

lemma uint_to_base_roundtrip_witness:
  "\<exists>n buf. uint_to_base 0xDEADBEEF 16 = Some (n, buf) \<and>
     numeral_value 16 (takeWhile (\<lambda>c. c \<noteq> 0) buf) = 3735928559"
  using uint_to_base_roundtrip [of 16 "0xDEADBEEF"] by auto

text \<open>
  The buffer of \<open>vd_print_base\<close> has 64 bytes, but a number of 2^63 or more has 64 binary
  digits: with the zero behind them \<open>vd_print_bin\<close> writes 65 bytes, one past the end. For
  numbers below 2^63 the buffer is large enough.
\<close>

theorem print_buffer_overflow:
  "\<exists>n buf. uint_to_base v 2 = Some (n, buf) \<and> (64 < length buf \<longleftrightarrow> 2 ^ 63 \<le> unat v)"
proof -
  obtain ds where ds: "digits_loop v 2 [] = Some ds" "ds \<noteq> []"
      "2 ^ (length ds - 1) \<le> max 1 (unat v)" "unat v < 2 ^ length ds"
    using digits_loop_spec [of 2 v "[]"] by auto
  have "uint_to_base v 2 = Some (of_nat (length ds), rev ds @ [0])"
    using reverse_loop_rev [OF ds(2)] ds(1) by (simp add: uint_to_base_def)
  moreover have "64 < length (rev ds @ [0]) \<longleftrightarrow> 2 ^ 63 \<le> unat v"
  proof
    assume "64 < length (rev ds @ [0])"
    then have "63 \<le> length ds - 1" by simp
    then have "(2::nat) ^ 63 \<le> 2 ^ (length ds - 1)" by (rule power_increasing) simp
    with ds(3) show "2 ^ 63 \<le> unat v" by (simp add: max_def split: if_splits)
  next
    assume "2 ^ 63 \<le> unat v"
    then have "(2::nat) ^ 63 < 2 ^ length ds" using ds(4) by (rule order_le_less_trans)
    then show "64 < length (rev ds @ [0])" by (simp only: power_strict_increasing_iff) simp
  qed
  ultimately show ?thesis by blast
qed

end
