(* ===== verification/Kernel_State.thy ===== *)
theory Kernel_State
  imports Proc_State Rand Video
begin

text \<open>
  The static data of the kernel as one record: the process tables of
  Kernel/scheduler/processes.c, the heap, the sleep queue of Kernel/scheduler/sleep-manager.c,
  the semaphores of Kernel/semaphores/semaphores.c, the pipes of Kernel/pipes/pipes.c, the
  clock, the random generator, the screen and the keyboard flags. \<open>rtc\<close> is what the real
  time clock shows.
\<close>

abbreviation MAX_SEMAPHORES :: nat where "MAX_SEMAPHORES \<equiv> 512"
abbreviation NOT_A_PROCESS :: u16 where "NOT_A_PROCESS \<equiv> 1025"
abbreviation MAX_AMOUNT_PIPES :: nat where "MAX_AMOUNT_PIPES \<equiv> 256"
abbreviation PIPE_BUFFER_SIZE :: nat where "PIPE_BUFFER_SIZE \<equiv> 512"
abbreviation KERNEL_PIPES_START :: nat where "KERNEL_PIPES_START \<equiv> 1"

record sleep_entry =
  sl_pid :: u16
  sl_time :: u64

datatype sem_state = SEMAPHORE_FREE | SEMAPHORE_USED

record sem =
  s_value :: u32
  s_waiting :: "nat \<Rightarrow> u16"
  s_current_index :: nat
  s_last_index :: nat
  s_state :: sem_state

datatype pipe_state = PIPE_FREE | PIPE_USED

record pipe =
  pp_buffer :: "nat \<Rightarrow> u8"
  pp_read_pos :: nat
  pp_write_pos :: nat
  pp_state :: pipe_state
  pp_read_sem :: u32
  pp_write_sem :: u32

record keyboard =
  kd_capslock :: bool
  kd_shift :: bool
  kd_ctrl :: bool
  kd_alt :: bool

record kernel =
  k_procs :: procs
  k_heap :: memory_manager
  k_sleep :: "nat \<Rightarrow> sleep_entry"
  k_ticks :: u64
  k_start_up :: "time_struct option"
  k_rtc :: time_struct
  k_sems :: "nat \<Rightarrow> sem"
  k_sems_initialized :: bool
  k_pipes :: "nat \<Rightarrow> pipe"
  k_pipe_count :: u16
  k_pipes_initialized :: bool
  k_rng :: rng
  k_screen :: screen
  k_keyboard :: keyboard

definition upd_procs :: "(procs \<Rightarrow> procs) \<Rightarrow> kernel \<Rightarrow> kernel" where
  "upd_procs f k = k\<lparr>k_procs := f (k_procs k)\<rparr>"

definition upd_sem :: "nat \<Rightarrow> (sem \<Rightarrow> sem) \<Rightarrow> kernel \<Rightarrow> kernel" where
  "upd_sem i f k = k\<lparr>k_sems := (k_sems k)(i := f (k_sems k i))\<rparr>"

definition upd_pipe :: "nat \<Rightarrow> (pipe \<Rightarrow> pipe) \<Rightarrow> kernel \<Rightarrow> kernel" where
  "upd_pipe i f k = k\<lparr>k_pipes := (k_pipes k)(i := f (k_pipes k i))\<rparr>"

text \<open>A call on the process tables inside the kernel: its result and the new kernel.\<close>

definition on_procs :: "(procs \<Rightarrow> 'r \<times> procs) \<Rightarrow> kernel \<Rightarrow> 'r \<times> kernel" where
  "on_procs f k = (let (r, ps) = f (k_procs k) in (r, k\<lparr>k_procs := ps\<rparr>))"

lemma upd_sem_simps [simp]:
  "k_procs (upd_sem i f k) = k_procs k" "k_heap (upd_sem i f k) = k_heap k"
  "k_sleep (upd_sem i f k) = k_sleep k" "k_ticks (upd_sem i f k) = k_ticks k"
  "k_sems (upd_sem i f k) = (k_sems k)(i := f (k_sems k i))"
  "k_sems_initialized (upd_sem i f k) = k_sems_initialized k"
  "k_pipes (upd_sem i f k) = k_pipes k" "k_pipe_count (upd_sem i f k) = k_pipe_count k"
  "k_pipes_initialized (upd_sem i f k) = k_pipes_initialized k"
  by (simp_all add: upd_sem_def)

lemma upd_pipe_simps [simp]:
  "k_procs (upd_pipe i f k) = k_procs k" "k_heap (upd_pipe i f k) = k_heap k"
  "k_sleep (upd_pipe i f k) = k_sleep k" "k_ticks (upd_pipe i f k) = k_ticks k"
  "k_sems (upd_pipe i f k) = k_sems k" "k_sems_initialized (upd_pipe i f k) = k_sems_initialized k"
  "k_pipes (upd_pipe i f k) = (k_pipes k)(i := f (k_pipes k i))"
  "k_pipe_count (upd_pipe i f k) = k_pipe_count k"
  "k_pipes_initialized (upd_pipe i f k) = k_pipes_initialized k"
  by (simp_all add: upd_pipe_def)

lemma upd_procs_simps [simp]:
  "k_procs (upd_procs f k) = f (k_procs k)" "k_heap (upd_procs f k) = k_heap k"
  "k_sleep (upd_procs f k) = k_sleep k" "k_ticks (upd_procs f k) = k_ticks k"
  "k_sems (upd_procs f k) = k_sems k" "k_sems_initialized (upd_procs f k) = k_sems_initialized k"
  "k_pipes (upd_procs f k) = k_pipes k" "k_pipe_count (upd_procs f k) = k_pipe_count k"
  "k_pipes_initialized (upd_procs f k) = k_pipes_initialized k"
  by (simp_all add: upd_procs_def)

lemma on_procs_simps [simp]:
  "fst (on_procs f k) = fst (f (k_procs k))"
  "k_procs (snd (on_procs f k)) = snd (f (k_procs k))" "k_heap (snd (on_procs f k)) = k_heap k"
  "k_sleep (snd (on_procs f k)) = k_sleep k" "k_ticks (snd (on_procs f k)) = k_ticks k"
  "k_sems (snd (on_procs f k)) = k_sems k"
  "k_sems_initialized (snd (on_procs f k)) = k_sems_initialized k"
  "k_pipes (snd (on_procs f k)) = k_pipes k" "k_pipe_count (snd (on_procs f k)) = k_pipe_count k"
  "k_pipes_initialized (snd (on_procs f k)) = k_pipes_initialized k"
  by (simp_all add: on_procs_def split_beta)

section \<open>Static data\<close>

text \<open>The kernel's variables before any code runs: zero, or their initialisers.\<close>

definition zero_pcb :: pcb where
  "zero_pcb = \<lparr>p_pid = 0, p_name = [], p_state = READY, p_previous = READY, p_priority = 0,
     p_stack_base = 0, p_stack = 0, p_fd_in = 0, p_fd_out = 0, p_father = NULL_PCB, p_children = [],
     p_exit_status = 0, p_sem_wait_id = 0, p_is_foreground = 0\<rparr>"

definition zero_queue :: "nat pcb_queue" where
  "zero_queue = \<lparr>q_slots = \<lambda>_. NULL_PCB, q_head = 0, q_tail = 0, q_size = 0\<rparr>"

definition zero_sem :: sem where
  "zero_sem = \<lparr>s_value = 0, s_waiting = \<lambda>_. 0, s_current_index = 0, s_last_index = 0,
     s_state = SEMAPHORE_FREE\<rparr>"

definition zero_pipe :: pipe where
  "zero_pipe = \<lparr>pp_buffer = \<lambda>_. 0, pp_read_pos = 0, pp_write_pos = 0, pp_state = PIPE_FREE,
     pp_read_sem = 0, pp_write_sem = 0\<rparr>"

definition static_procs :: procs where
  "static_procs = \<lparr>process_table = \<lambda>_. zero_pcb, process_queues = \<lambda>_. zero_queue,
     terminated_processes_queue = zero_queue, current_process = 0, next_pid = 0, process_count = 1,
     procs_initialized = False, system_running = 1, foreground_process = 0, first_time = True\<rparr>"

definition static_heap :: memory_manager where
  "static_heap = memory_manager_init raw_heap MEMORY_START"

definition static_kernel :: kernel where
  "static_kernel = \<lparr>k_procs = static_procs, k_heap = static_heap, k_sleep = \<lambda>_. \<lparr>sl_pid = 0, sl_time = 0\<rparr>,
     k_ticks = 0, k_start_up = None, k_rtc = \<lparr>t_day = 1, t_month = 1, t_year = 0, t_hour = 0, t_min = 0, t_sec = 0\<rparr>,
     k_sems = \<lambda>_. zero_sem, k_sems_initialized = False, k_pipes = \<lambda>_. zero_pipe, k_pipe_count = 0,
     k_pipes_initialized = False, k_rng = rng_init, k_screen = screen_init,
     k_keyboard = \<lparr>kd_capslock = False, kd_shift = False, kd_ctrl = False, kd_alt = False\<rparr>\<rparr>"

text \<open>Kernels with a given process table, to evaluate operations on.\<close>

definition plain_pcb :: "u16 \<Rightarrow> process_state \<Rightarrow> pcb" where
  "plain_pcb pid st = zero_pcb\<lparr>p_pid := pid, p_state := st, p_father := 0, p_sem_wait_id := -1\<rparr>"

definition table_kernel :: "(nat \<Rightarrow> pcb) \<Rightarrow> nat \<Rightarrow> kernel" where
  "table_kernel t c = static_kernel\<lparr>k_procs := static_procs
     \<lparr>process_table := t, current_process := c, procs_initialized := True, first_time := False\<rparr>\<rparr>"

lemma plain_pcb_simps [simp]:
  "p_pid (plain_pcb pid st) = pid" "p_state (plain_pcb pid st) = st"
  "p_previous (plain_pcb pid st) = READY" "p_priority (plain_pcb pid st) = 0"
  "p_children (plain_pcb pid st) = []" "p_father (plain_pcb pid st) = 0"
  "p_sem_wait_id (plain_pcb pid st) = -1" "p_is_foreground (plain_pcb pid st) = 0"
  "p_stack_base (plain_pcb pid st) = 0"
  by (simp_all add: plain_pcb_def zero_pcb_def)

lemma table_kernel_simps [simp]:
  "process_table (k_procs (table_kernel t c)) = t"
  "current_process (k_procs (table_kernel t c)) = c"
  "process_queues (k_procs (table_kernel t c)) = (\<lambda>_. zero_queue)"
  "terminated_processes_queue (k_procs (table_kernel t c)) = zero_queue"
  "procs_initialized (k_procs (table_kernel t c)) = True"
  "first_time (k_procs (table_kernel t c)) = False"
  "process_count (k_procs (table_kernel t c)) = 1"
  "system_running (k_procs (table_kernel t c)) = 1"
  "next_pid (k_procs (table_kernel t c)) = 0"
  by (simp_all add: table_kernel_def static_procs_def)

lemma zero_queue_items [simp]: "q_items zero_queue = []" "q_valid zero_queue"
  by (simp_all add: q_items_def q_valid_def zero_queue_def)

end
