(* ===== verification/Sleep.thy ===== *)
theory Sleep
  imports Kernel_State
begin

text \<open>
  Kernel/scheduler/sleep-manager.c, the two operations of processes.c that use it
  (\<open>wake_up_process\<close>, \<open>toggle_block_process\<close>), and the timer interrupt of
  Kernel/interrupts/time.c. Ticks are 64 bit words: the deadline \<open>get_ticks() + ticks\<close> wraps.
\<close>

section \<open>The sleep queue\<close>

definition get_ticks :: "kernel \<Rightarrow> u64" where
  "get_ticks k = k_ticks k"

definition set_sleep_process :: "u16 \<Rightarrow> u64 \<Rightarrow> kernel \<Rightarrow> int \<times> kernel" where
  "set_sleep_process pid tk k =
     (case find_from (\<lambda>i. sl_pid (k_sleep k i) = 0) 0 MAX_PROCESSES of
        Some i \<Rightarrow> (int i, k\<lparr>k_sleep := (k_sleep k)(i := \<lparr>sl_pid = pid, sl_time = get_ticks k + tk\<rparr>)\<rparr>)
      | None \<Rightarrow> (-1, k))"

definition sleep :: "u64 \<Rightarrow> kernel \<Rightarrow> int \<times> kernel" where
  "sleep seconds k =
     (if seconds = 0 then (-1, k)
      else if \<not> processes_initialized (k_procs k) then (-1, k)
      else (let current = get_current_pid (k_procs k)
            in if current = 0 then (-1, k)
               else (let tk = seconds * TICKS_PER_SECOND;
                         (r, k') = set_sleep_process current tk k
                     in if r = -1 then (-1, k)
                        else (0, snd (on_procs (\<lambda>ps. sleep_process ps current) k')))))"

definition clear_sleep :: "nat \<Rightarrow> kernel \<Rightarrow> kernel" where
  "clear_sleep i k = k\<lparr>k_sleep := (k_sleep k)(i := \<lparr>sl_pid = 0, sl_time = 0\<rparr>)\<rparr>"

text \<open>One round of the loop of \<open>wake_up_sleeping_processes\<close>.\<close>

definition wake_slot :: "u64 \<Rightarrow> nat \<Rightarrow> kernel \<Rightarrow> kernel" where
  "wake_slot current_time i k =
     (let e = k_sleep k i
      in if sl_pid e \<noteq> 0 \<and> sl_time e \<le> current_time \<and> is_sleeping (k_procs k) (sl_pid e)
         then snd (on_procs (\<lambda>ps. unsleep_process ps (sl_pid e)) (clear_sleep i k))
         else k)"

definition wake_up_sleeping_processes :: "kernel \<Rightarrow> kernel" where
  "wake_up_sleeping_processes k = fold (wake_slot (get_ticks k)) [0..<MAX_PROCESSES] k"

definition is_sleeping_time_expired :: "u16 \<Rightarrow> kernel \<Rightarrow> int \<times> kernel" where
  "is_sleeping_time_expired pid k =
     (case find_from (\<lambda>i. sl_pid (k_sleep k i) = pid) 0 MAX_PROCESSES of
        Some i \<Rightarrow> if sl_time (k_sleep k i) \<le> get_ticks k then (1, clear_sleep i k) else (0, k)
      | None \<Rightarrow> (1, k))"

section \<open>Waking a blocked process\<close>

definition wake_up_process :: "u16 \<Rightarrow> kernel \<Rightarrow> int \<times> kernel" where
  "wake_up_process pid k =
     (case slot_of (k_procs k) pid of
        None \<Rightarrow> (-1, k)
      | Some i \<Rightarrow>
          (let p = process_table (k_procs k) i
           in if p_state p = TERMINATED \<or> p_state p \<noteq> BLOCKED then (-1, k)
              else if p_previous p = SLEEPING
              then (let (expired, k') = is_sleeping_time_expired pid k
                    in (0, if expired \<noteq> 0
                           then upd_procs (\<lambda>ps. put_ready i (p_priority (process_table ps i))
                                  (upd_pcb i (\<lambda>p. p\<lparr>p_state := READY\<rparr>) ps)) k'
                           else upd_procs (upd_pcb i (\<lambda>p. p\<lparr>p_state := SLEEPING\<rparr>)) k'))
              else (0, upd_procs (restore_state i) k)))"

definition toggle_block_process :: "u16 \<Rightarrow> kernel \<Rightarrow> int \<times> kernel" where
  "toggle_block_process pid k =
     (case slot_of (k_procs k) pid of
        None \<Rightarrow> (-1, k)
      | Some i \<Rightarrow>
          if p_state (process_table (k_procs k) i) = BLOCKED then wake_up_process pid k
          else if p_state (process_table (k_procs k) i) \<noteq> TERMINATED
          then on_procs (\<lambda>ps. block_process ps pid) k
          else (-1, k))"

section \<open>The timer\<close>

definition get_time :: "kernel \<Rightarrow> time_struct" where
  "get_time k = k_rtc k"

definition init_time :: "kernel \<Rightarrow> kernel" where
  "init_time k = k\<lparr>k_start_up := Some (get_time k)\<rparr>"

definition timer_handler :: "kernel \<Rightarrow> kernel" where
  "timer_handler k =
     (let k1 = (if k_start_up k = None then init_time k else k);
          k2 = k1\<lparr>k_ticks := k_ticks k1 + 1\<rparr>
      in wake_up_sleeping_processes k2)"

end
