(* ===== verification/Counting.thy ===== *)
theory Counting
  imports Prelude
begin

text \<open>
  The interface of a counting semaphore: a wait that returns takes one unit, a wait that
  suspends takes none, a post gives one back. The client's lemma is that over any interleaving
  of these calls the units are conserved.
\<close>

text \<open>
  Runs of any number of processes: \<open>n\<close> of them have come back from a wait and not yet posted.
  A step \<open>other\<close> is anything else the system does, as long as it leaves the semaphore alone.
\<close>

inductive counted_run ::
  "('s \<Rightarrow> bool) \<Rightarrow> ('s \<Rightarrow> nat) \<Rightarrow> ('s \<Rightarrow> ('s, unit, unit) outcome) \<Rightarrow>
   ('s \<Rightarrow> ('s, unit, unit) outcome) \<Rightarrow> ('s \<Rightarrow> 's) \<Rightarrow> 's \<Rightarrow> 's \<Rightarrow> nat \<Rightarrow> bool"
  for live val wait resume post k0 where
  start: "counted_run live val wait resume post k0 k0 0"
| enter: "counted_run live val wait resume post k0 k n \<Longrightarrow> wait k = Returned k' u \<Longrightarrow>
    counted_run live val wait resume post k0 k' (Suc n)"
| suspend: "counted_run live val wait resume post k0 k n \<Longrightarrow> wait k = Suspended k' u \<Longrightarrow>
    counted_run live val wait resume post k0 k' n"
| resume_enter: "counted_run live val wait resume post k0 k n \<Longrightarrow> resume k = Returned k' u \<Longrightarrow>
    counted_run live val wait resume post k0 k' (Suc n)"
| resume_suspend: "counted_run live val wait resume post k0 k n \<Longrightarrow> resume k = Suspended k' u \<Longrightarrow>
    counted_run live val wait resume post k0 k' n"
| leave: "counted_run live val wait resume post k0 k (Suc n) \<Longrightarrow>
    counted_run live val wait resume post k0 (post k) n"
| other: "counted_run live val wait resume post k0 k n \<Longrightarrow> live k' \<Longrightarrow> val k' = val k \<Longrightarrow>
    counted_run live val wait resume post k0 k' n"

locale counting_semaphore =
  fixes live :: "'s \<Rightarrow> bool"
    and val :: "'s \<Rightarrow> nat"
    and wait :: "'s \<Rightarrow> ('s, unit, unit) outcome"
    and resume :: "'s \<Rightarrow> ('s, unit, unit) outcome"
    and post :: "'s \<Rightarrow> 's"
    and bound :: nat
  assumes wait_Returned: "live k \<Longrightarrow> wait k = Returned k' u \<Longrightarrow> live k' \<and> val k = Suc (val k')"
    and wait_Suspended: "live k \<Longrightarrow> wait k = Suspended k' u \<Longrightarrow> live k' \<and> val k' = val k"
    and resume_Returned: "live k \<Longrightarrow> resume k = Returned k' u \<Longrightarrow> live k' \<and> val k = Suc (val k')"
    and resume_Suspended: "live k \<Longrightarrow> resume k = Suspended k' u \<Longrightarrow> live k' \<and> val k' = val k"
    and post_val: "live k \<Longrightarrow> Suc (val k) < bound \<Longrightarrow> live (post k) \<and> val (post k) = Suc (val k)"
begin

lemma conserved:
  assumes "counted_run live val wait resume post k0 k n" "live k0" "val k0 < bound"
  shows "live k \<and> val k + n = val k0"
  using assms(1)
proof (induction rule: counted_run.induct)
  case start
  then show ?case using assms(2) by simp
next
  case (enter k n k' u)
  then show ?case using wait_Returned by fastforce
next
  case (suspend k n k' u)
  then show ?case using wait_Suspended by fastforce
next
  case (resume_enter k n k' u)
  then show ?case using resume_Returned by fastforce
next
  case (resume_suspend k n k' u)
  then show ?case using resume_Suspended by fastforce
next
  case (leave k n)
  then show ?case using post_val [of k] assms(3) by simp
next
  case (other k n k')
  then show ?case by simp
qed

end

end
