(* ===== verification/Semaphores.thy ===== *)
theory Semaphores
  imports Sleep Counting
begin

text \<open>
  Kernel/semaphores/semaphores.c. A wait that finds the value zero queues and blocks its
  process and gives up the processor (\<open>call_int_20\<close>): the call is then \<open>Suspended\<close> and goes on
  with \<open>sem_wait_resume\<close> when its process runs again. Interrupts are off inside the kernel,
  so every other part of a call is one atomic step.
\<close>

section \<open>Operations\<close>

text \<open>The ring of waiting pids: adding at \<open>last_index\<close>, taking at \<open>current_index\<close>.\<close>

definition sem_enq :: "u16 \<Rightarrow> sem \<Rightarrow> sem" where
  "sem_enq pid s = s\<lparr>s_waiting := (s_waiting s)(s_last_index s := pid),
                     s_last_index := Suc (s_last_index s) mod MAX_PROCESSES\<rparr>"

definition sem_deq :: "sem \<Rightarrow> u16 option \<times> sem" where
  "sem_deq s =
     (let pid = s_waiting s (s_current_index s)
      in if pid \<noteq> NOT_A_PROCESS
         then (Some pid, s\<lparr>s_waiting := (s_waiting s)(s_current_index s := NOT_A_PROCESS),
                           s_current_index := Suc (s_current_index s) mod MAX_PROCESSES\<rparr>)
         else (None, s))"

definition init_sem :: "sem \<Rightarrow> sem" where
  "init_sem s = s\<lparr>s_value := 0, s_current_index := 0, s_last_index := 0, s_state := SEMAPHORE_FREE,
     s_waiting := (\<lambda>j. if j < MAX_PROCESSES then NOT_A_PROCESS else s_waiting s j)\<rparr>"

definition init_sem_manager :: "kernel \<Rightarrow> kernel" where
  "init_sem_manager k =
     k\<lparr>k_sems_initialized := True,
       k_sems := (\<lambda>i. if i < MAX_SEMAPHORES then init_sem (k_sems k i) else k_sems k i)\<rparr>"

definition sems_ready :: "kernel \<Rightarrow> kernel" where
  "sems_ready k = (if k_sems_initialized k then k else init_sem_manager k)"

definition INVALID_SEM :: "u32 \<Rightarrow> kernel \<Rightarrow> bool" where
  "INVALID_SEM s k \<longleftrightarrow> unat s \<ge> MAX_SEMAPHORES \<or> s_state (k_sems k (unat s)) = SEMAPHORE_FREE"

definition found_free_sem :: "kernel \<Rightarrow> nat option \<times> kernel" where
  "found_free_sem k =
     (case find_from (\<lambda>i. s_state (k_sems k i) = SEMAPHORE_FREE) 0 MAX_SEMAPHORES of
        Some i \<Rightarrow> (Some i, upd_sem i (\<lambda>s. s\<lparr>s_state := SEMAPHORE_USED\<rparr>) k)
      | None \<Rightarrow> (None, k))"

text \<open>The result is the index of the semaphore or -1, as a 32 bit word.\<close>

definition create_sem :: "u32 \<Rightarrow> kernel \<Rightarrow> u32 \<times> kernel" where
  "create_sem initial_value k0 =
     (case found_free_sem (sems_ready k0) of
        (None, k) \<Rightarrow> (-1, k)
      | (Some i, k) \<Rightarrow> (of_nat i, upd_sem i (\<lambda>s. s\<lparr>s_value := initial_value\<rparr>) k))"

text \<open>Queueing and blocking the current process.\<close>

definition sem_enqueue_current :: "nat \<Rightarrow> kernel \<Rightarrow> kernel" where
  "sem_enqueue_current i k =
     (let current_pid = get_current_pid (k_procs k);
          k' = upd_sem i (sem_enq current_pid) k
      in snd (on_procs (\<lambda>ps. block_process ps current_pid) k'))"

text \<open>From the test of the loop on: take the semaphore, or suspend.\<close>

definition sem_attempt :: "u32 \<Rightarrow> kernel \<Rightarrow> (kernel, unit, unit) outcome" where
  "sem_attempt s k =
     (if s_value (k_sems k (unat s)) = 0
      then (if INVALID_SEM s k then Returned k () else Suspended (sem_enqueue_current (unat s) k) ())
      else if INVALID_SEM s k then Returned k ()
      else Returned (upd_sem (unat s) (\<lambda>x. x\<lparr>s_value := s_value x - 1\<rparr>) k) ())"

definition sem_wait :: "u32 \<Rightarrow> kernel \<Rightarrow> (kernel, unit, unit) outcome" where
  "sem_wait s k0 =
     (let k = sems_ready k0 in if INVALID_SEM s k then Returned k () else sem_attempt s k)"

definition sem_wait_resume :: "u32 \<Rightarrow> kernel \<Rightarrow> (kernel, unit, unit) outcome" where
  "sem_wait_resume s k = (if INVALID_SEM s k then Returned k () else sem_attempt s k)"

definition sem_post :: "u32 \<Rightarrow> kernel \<Rightarrow> kernel" where
  "sem_post s k0 =
     (let k = sems_ready k0; i = unat s
      in if INVALID_SEM s k then k
         else (let k1 = upd_sem i (\<lambda>x. x\<lparr>s_value := s_value x + 1\<rparr>) k
               in case sem_deq (k_sems k1 i) of
                    (Some pid_to_wake, x) \<Rightarrow> snd (wake_up_process pid_to_wake (upd_sem i (\<lambda>_. x) k1))
                  | (None, _) \<Rightarrow> k1))"

lemma wake_up_process_sems [simp]: "k_sems (snd (wake_up_process pid k)) = k_sems k"
  by (simp add: wake_up_process_def is_sleeping_time_expired_def clear_sleep_def Let_def split_beta
      split: option.split)

lemma wake_up_process_sems_init [simp]:
  "k_sems_initialized (snd (wake_up_process pid k)) = k_sems_initialized k"
  by (simp add: wake_up_process_def is_sleeping_time_expired_def clear_sleep_def Let_def split_beta
      split: option.split)

text \<open>
  The loop of \<open>destroy_sem\<close>. \<open>last_index\<close> is a remainder modulo 1024, so it is reached; the
  test \<open>last_index < 1024\<close> only states that.
\<close>

definition destroy_round :: "nat \<Rightarrow> kernel \<Rightarrow> kernel" where
  "destroy_round i k =
     (let x = k_sems k i; pid_to_wake = s_waiting x (s_current_index x);
          k' = (if pid_to_wake \<noteq> NOT_A_PROCESS then snd (wake_up_process pid_to_wake k) else k)
      in upd_sem i (\<lambda>x. x\<lparr>s_current_index := Suc (s_current_index x) mod MAX_PROCESSES\<rparr>) k')"

lemma destroy_round_sems:
  "k_sems (destroy_round i k) = (k_sems k)(i := (k_sems k i)
     \<lparr>s_current_index := Suc (s_current_index (k_sems k i)) mod MAX_PROCESSES\<rparr>)"
  by (simp add: destroy_round_def Let_def)

function destroy_loop :: "nat \<Rightarrow> kernel \<Rightarrow> kernel" where
  "destroy_loop i k =
     (if s_current_index (k_sems k i) \<noteq> s_last_index (k_sems k i) \<and> s_last_index (k_sems k i) < MAX_PROCESSES
      then destroy_loop i (destroy_round i k) else k)"
  by pat_completeness auto
termination
  by (relation "measure (\<lambda>(i, k). let c = s_current_index (k_sems k i); l = s_last_index (k_sems k i)
      in if c < MAX_PROCESSES then if c \<le> l then l - c else MAX_PROCESSES + l - c else 2048)")
    (auto simp: destroy_round_sems Let_def mod_Suc)

declare destroy_loop.simps [simp del]

definition destroy_sem :: "u32 \<Rightarrow> kernel \<Rightarrow> kernel" where
  "destroy_sem s k0 =
     (let k = sems_ready k0
      in if INVALID_SEM s k then k
         else if s_state (k_sems k (unat s)) = SEMAPHORE_USED
         then upd_sem (unat s) init_sem (destroy_loop (unat s) k) else k)"

definition get_sem_value :: "u32 \<Rightarrow> kernel \<Rightarrow> u32 \<times> kernel" where
  "get_sem_value s k0 =
     (let k = sems_ready k0
      in (if INVALID_SEM s k then 0 else s_value (k_sems k (unat s)), k))"

section \<open>The waiting ring as a list\<close>

definition sem_pending :: "sem \<Rightarrow> nat" where
  "sem_pending x = (s_last_index x + MAX_PROCESSES - s_current_index x) mod MAX_PROCESSES"

definition sem_waiters :: "sem \<Rightarrow> u16 list" where
  "sem_waiters x = ring_list (s_waiting x) MAX_PROCESSES (s_current_index x) (sem_pending x)"

text \<open>The pids lie between the two indices, and every other slot is free.\<close>

definition sem_ok :: "sem \<Rightarrow> bool" where
  "sem_ok x \<longleftrightarrow> s_current_index x < MAX_PROCESSES \<and> s_last_index x < MAX_PROCESSES \<and>
     (\<forall>m<MAX_PROCESSES. s_waiting x ((s_current_index x + m) mod MAX_PROCESSES) = NOT_A_PROCESS
        \<longleftrightarrow> sem_pending x \<le> m)"

definition sem_room :: "sem \<Rightarrow> bool" where
  "sem_room x \<longleftrightarrow> sem_pending x < MAX_PROCESSES - 1"

lemma length_sem_waiters [simp]: "length (sem_waiters x) = sem_pending x"
  by (simp add: sem_waiters_def)

lemma sem_pending_less: "sem_pending x < MAX_PROCESSES"
  by (simp add: sem_pending_def)

lemma sem_ok_bounds: "sem_ok x \<Longrightarrow> s_current_index x < MAX_PROCESSES \<and> s_last_index x < MAX_PROCESSES"
  by (simp add: sem_ok_def)

lemma sem_pending_enq:
  assumes "sem_ok x" "sem_room x"
  shows "sem_pending (sem_enq pid x) = Suc (sem_pending x)"
  using ring_count_push [of "s_current_index x" MAX_PROCESSES "s_last_index x"] assms
  unfolding sem_ok_def sem_room_def sem_pending_def sem_enq_def by simp

lemma sem_last_index:
  "sem_ok x \<Longrightarrow> s_last_index x = (s_current_index x + sem_pending x) mod MAX_PROCESSES"
  using ring_count_last [of "s_current_index x" MAX_PROCESSES "s_last_index x"]
  unfolding sem_ok_def sem_pending_def by simp

lemma sem_enq_list:
  assumes "sem_ok x" "sem_room x" "pid \<noteq> NOT_A_PROCESS"
  shows "sem_waiters (sem_enq pid x) = sem_waiters x @ [pid] \<and> sem_ok (sem_enq pid x)"
proof -
  let ?c = "s_current_index x" and ?n = "sem_pending x"
  have n: "?n < MAX_PROCESSES" by (rule sem_pending_less)
  have w: "s_waiting (sem_enq pid x) = (s_waiting x)((?c + ?n) mod MAX_PROCESSES := pid)"
    using sem_last_index [OF assms(1)] by (simp add: sem_enq_def)
  have c: "s_current_index (sem_enq pid x) = ?c" by (simp add: sem_enq_def)
  have p: "sem_pending (sem_enq pid x) = Suc ?n" by (rule sem_pending_enq [OF assms(1,2)])
  have "sem_waiters (sem_enq pid x) = sem_waiters x @ [pid]"
    unfolding sem_waiters_def w c p by (rule ring_list_push [OF n])
  moreover have "sem_ok (sem_enq pid x)"
    unfolding sem_ok_def c p w
  proof (intro conjI allI impI)
    show "?c < MAX_PROCESSES" using assms(1) by (simp add: sem_ok_def)
    show "s_last_index (sem_enq pid x) < MAX_PROCESSES" by (simp add: sem_enq_def)
    fix m assume m: "m < MAX_PROCESSES"
    have old: "s_waiting x ((?c + m) mod MAX_PROCESSES) = NOT_A_PROCESS \<longleftrightarrow> ?n \<le> m"
      using assms(1) m by (simp add: sem_ok_def)
    show "((s_waiting x)((?c + ?n) mod MAX_PROCESSES := pid)) ((?c + m) mod MAX_PROCESSES) = NOT_A_PROCESS
        \<longleftrightarrow> Suc ?n \<le> m"
    proof (cases "m = ?n")
      case False
      then have "(?c + m) mod MAX_PROCESSES \<noteq> (?c + ?n) mod MAX_PROCESSES"
        using ring_index_inj [OF m n] by blast
      with old False show ?thesis by auto
    qed (use assms(3) in simp)
  qed
  ultimately show ?thesis ..
qed

lemma sem_deq_empty:
  assumes "sem_ok x" "sem_waiters x = []"
  shows "sem_deq x = (None, x)"
proof -
  have "sem_pending x = 0" using assms(2) by (simp flip: length_sem_waiters)
  then have "s_waiting x (s_current_index x) = NOT_A_PROCESS"
    using assms(1) unfolding sem_ok_def by (metis add_0_right mod_less le0 zero_less_numeral)
  then show ?thesis by (simp add: sem_deq_def)
qed

lemma sem_deq_list:
  assumes "sem_ok x" "sem_waiters x = pid # ps"
  shows "fst (sem_deq x) = Some pid \<and> sem_waiters (snd (sem_deq x)) = ps \<and> sem_ok (snd (sem_deq x))"
proof -
  let ?c = "s_current_index x" and ?n = "sem_pending x" and ?N = MAX_PROCESSES
  have b: "?c < ?N" "s_last_index x < ?N" using assms(1) sem_ok_bounds by auto
  obtain n where n: "?n = Suc n"
    using assms(2) by (metis length_Cons length_sem_waiters)
  have nN: "Suc n < ?N" using sem_pending_less [of x] n by simp
  have hd: "s_waiting x ?c = pid" and tl: "ring_list (s_waiting x) ?N (Suc ?c mod ?N) n = ps"
    using assms(2) ring_list_Cons [OF b(1), of "s_waiting x" n] unfolding sem_waiters_def n by auto
  have "s_waiting x ((?c + 0) mod ?N) = NOT_A_PROCESS \<longleftrightarrow> ?n \<le> 0"
    using assms(1) unfolding sem_ok_def by (metis zero_less_numeral)
  then have pid: "pid \<noteq> NOT_A_PROCESS" using hd n b by simp
  define y where "y = snd (sem_deq x)"
  have y: "s_waiting y = (s_waiting x)(?c := NOT_A_PROCESS)" "s_current_index y = Suc ?c mod ?N"
      "s_last_index y = s_last_index x"
    using pid hd by (simp_all add: y_def sem_deq_def)
  have slot: "(Suc ?c mod ?N + (?N - 1)) mod ?N = ?c"
    using b(1) by (simp add: mod_Suc)
  have "Suc (sem_pending y) = ?n"
    using ring_count_pop [OF b] n unfolding sem_pending_def y by simp
  then have p: "sem_pending y = n" using n by simp
  have "n \<le> ?N - 1" "?N - 1 < ?N" using nN by simp_all
  from ring_list_upd_free [OF this, of "s_waiting x" "Suc ?c mod ?N" NOT_A_PROCESS]
  have "sem_waiters y = ps"
    unfolding sem_waiters_def p y tl slot .
  moreover have "sem_ok y"
    unfolding sem_ok_def p y
  proof (intro conjI allI impI)
    show "s_last_index x < ?N" by (rule b)
    fix m assume m: "m < ?N"
    show "((s_waiting x)(?c := NOT_A_PROCESS)) ((Suc ?c mod ?N + m) mod ?N) = NOT_A_PROCESS \<longleftrightarrow> n \<le> m"
    proof (cases "m = ?N - 1")
      case True
      then show ?thesis unfolding True slot using nN by simp
    next
      case False
      then have s: "Suc m < ?N" using m by simp
      have e: "(Suc ?c mod ?N + m) mod ?N = (?c + Suc m) mod ?N" by (simp add: mod_add_left_eq)
      have "(?c + Suc m) mod ?N \<noteq> ?c"
        using ring_index_inj [OF s, of 0 ?c] b(1) by auto
      moreover have "s_waiting x ((?c + Suc m) mod ?N) = NOT_A_PROCESS \<longleftrightarrow> Suc n \<le> Suc m"
        using assms(1) s n unfolding sem_ok_def by metis
      ultimately show ?thesis unfolding e by simp
    qed
  qed simp
  ultimately show ?thesis using pid hd by (simp add: y_def sem_deq_def)
qed

lemma sem_deq_ok: "sem_ok x \<Longrightarrow> sem_ok (snd (sem_deq x))"
  using sem_deq_empty sem_deq_list by (cases "sem_waiters x") auto

text \<open>The waiting ring is a first-in first-out queue of pids.\<close>

interpretation sq: fifo "\<lambda>pid. pid \<noteq> NOT_A_PROCESS" sem_enq sem_deq sem_waiters sem_ok sem_room
proof (rule fifo.intro)
  fix x :: sem and pid ps
  show "sem_ok x \<Longrightarrow> sem_room x \<Longrightarrow> pid \<noteq> NOT_A_PROCESS \<Longrightarrow>
      sem_waiters (sem_enq pid x) = sem_waiters x @ [pid]"
    by (rule conjunct1 [OF sem_enq_list])
  show "sem_ok x \<Longrightarrow> sem_room x \<Longrightarrow> pid \<noteq> NOT_A_PROCESS \<Longrightarrow> sem_ok (sem_enq pid x)"
    by (rule conjunct2 [OF sem_enq_list])
  show "sem_ok x \<Longrightarrow> sem_waiters x = [] \<Longrightarrow> sem_deq x = (None, x)"
    by (rule sem_deq_empty)
  show "sem_ok x \<Longrightarrow> sem_waiters x = pid # ps \<Longrightarrow>
      fst (sem_deq x) = Some pid \<and> sem_waiters (snd (sem_deq x)) = ps"
    using sem_deq_list by blast
  show "sem_ok x \<Longrightarrow> sem_ok (snd (sem_deq x))"
    by (rule sem_deq_ok)
qed

lemma sem_ok_init: "sem_ok (init_sem s)"
  by (simp add: sem_ok_def init_sem_def sem_pending_def)

lemma sem_waiters_init: "sem_waiters (init_sem s) = []"
  by (simp add: sem_waiters_def init_sem_def sem_pending_def)

section \<open>What a wait and a post do\<close>

text \<open>A semaphore that has been created and not destroyed.\<close>

definition sem_live :: "u32 \<Rightarrow> kernel \<Rightarrow> bool" where
  "sem_live s k \<longleftrightarrow> k_sems_initialized k \<and> \<not> INVALID_SEM s k"

lemma sem_live_D: "sem_live s k \<Longrightarrow> sems_ready k = k \<and> \<not> INVALID_SEM s k \<and> unat s < MAX_SEMAPHORES"
  by (simp add: sem_live_def sems_ready_def INVALID_SEM_def)

lemma INVALID_SEM_cong:
  "s_state (k_sems k' (unat s)) = s_state (k_sems k (unat s)) \<Longrightarrow> INVALID_SEM s k' = INVALID_SEM s k"
  by (simp add: INVALID_SEM_def)

lemma sem_enq_simps [simp]:
  "s_value (sem_enq p x) = s_value x" "s_state (sem_enq p x) = s_state x"
  by (simp_all add: sem_enq_def)

lemma sem_deq_simps [simp]:
  "s_value (snd (sem_deq x)) = s_value x" "s_state (snd (sem_deq x)) = s_state x"
  by (simp_all add: sem_deq_def Let_def)

lemma sem_value_simps [simp]:
  "sem_ok (x\<lparr>s_value := v\<rparr>) = sem_ok x" "sem_waiters (x\<lparr>s_value := v\<rparr>) = sem_waiters x"
  "sem_room (x\<lparr>s_value := v\<rparr>) = sem_room x"
  by (simp_all add: sem_ok_def sem_waiters_def sem_pending_def sem_room_def)

lemma sem_enqueue_current_sems [simp]:
  "k_sems (sem_enqueue_current i k) = (k_sems k)(i := sem_enq (get_current_pid (k_procs k)) (k_sems k i))"
  "k_sems_initialized (sem_enqueue_current i k) = k_sems_initialized k"
  "k_procs (sem_enqueue_current i k) = snd (block_process (k_procs k) (get_current_pid (k_procs k)))"
  by (simp_all add: sem_enqueue_current_def Let_def)

text \<open>The three cases of a post on a live semaphore, as rewriting.\<close>

lemma sem_post_live:
  assumes "sem_live s k"
  shows "sem_post s k =
    (let i = unat s; x = (k_sems k i)\<lparr>s_value := s_value (k_sems k i) + 1\<rparr>
     in case fst (sem_deq x) of
          None \<Rightarrow> upd_sem i (\<lambda>_. x) k
        | Some pid \<Rightarrow> snd (wake_up_process pid (upd_sem i (\<lambda>_. snd (sem_deq x)) k)))"
proof -
  have "upd_sem i f (upd_sem i g k) = upd_sem i (\<lambda>x. f (g x)) k" for i f g
    by (simp add: upd_sem_def)
  then show ?thesis
    using sem_live_D [OF assms]
    by (simp add: sem_post_def Let_def split_beta upd_sem_def split: option.split)
qed

lemma sem_post_sems:
  assumes "sem_live s k"
  shows "k_sems (sem_post s k) = (k_sems k)(unat s :=
      snd (sem_deq ((k_sems k (unat s))\<lparr>s_value := s_value (k_sems k (unat s)) + 1\<rparr>)))
    \<and> k_sems_initialized (sem_post s k)"
proof -
  have n: "fst (sem_deq x) = None \<Longrightarrow> snd (sem_deq x) = x" for x
    by (simp add: sem_deq_def Let_def split: if_splits)
  show ?thesis
    unfolding sem_post_live [OF assms] Let_def
    using assms by (auto simp: sem_live_def n split: option.split)
qed

lemma wake_up_ready:
  assumes "slot_of (k_procs k) pid = Some i" "p_state (process_table (k_procs k) i) = BLOCKED"
    and "p_previous (process_table (k_procs k) i) = READY"
  shows "wake_up_process pid k = (0, upd_procs (\<lambda>ps. put_ready i (p_priority (process_table ps i))
      (upd_pcb i (\<lambda>p. p\<lparr>p_state := READY\<rparr>) ps)) k)"
  using assms by (simp add: wake_up_process_def restore_state_def Let_def upd_procs_def upd_pcb_def)

lemma wake_up_not_blocked:
  assumes "slot_of (k_procs k) pid = None \<or>
    p_state (process_table (k_procs k) (the (slot_of (k_procs k) pid))) \<noteq> BLOCKED"
  shows "wake_up_process pid k = (-1, k)"
  using assms by (auto simp: wake_up_process_def Let_def split: option.split)

text \<open>
  A wait that finds the value 0 puts the calling process at the end of the semaphore's
  waiting queue, blocks it with \<open>READY\<close> as the state to come back to, and suspends; the value
  and every other process stay as they are.
\<close>

theorem sem_wait_blocks:
  assumes "sem_live s k" "s_value (k_sems k (unat s)) = 0"
    and "sem_ok (k_sems k (unat s))" "sem_room (k_sems k (unat s))"
    and "pid = get_current_pid (k_procs k)" "pid \<noteq> NOT_A_PROCESS"
    and "slot_of (k_procs k) pid = Some i" "p_state (process_table (k_procs k) i) = RUNNING"
  shows "\<exists>k'. sem_wait s k = Suspended k' () \<and>
    sem_waiters (k_sems k' (unat s)) = sem_waiters (k_sems k (unat s)) @ [pid] \<and>
    sem_ok (k_sems k' (unat s)) \<and> s_value (k_sems k' (unat s)) = 0 \<and>
    k_procs k' = upd_pcb i (\<lambda>p. p\<lparr>p_previous := READY, p_state := BLOCKED\<rparr>) (k_procs k)"
proof -
  let ?k = "sem_enqueue_current (unat s) k"
  have "sem_wait s k = Suspended ?k ()"
    using sem_live_D [OF assms(1)] assms(2) by (simp add: sem_wait_def sem_attempt_def Let_def)
  moreover have "sem_waiters (k_sems ?k (unat s)) = sem_waiters (k_sems k (unat s)) @ [pid]"
      "sem_ok (k_sems ?k (unat s))"
    using sq.enq_items [OF assms(3,4,6)] sq.enq_valid [OF assms(3,4,6)] assms(5) by simp_all
  moreover have "k_procs ?k = upd_pcb i (\<lambda>p. p\<lparr>p_previous := READY, p_state := BLOCKED\<rparr>) (k_procs k)"
    using assms(5,7,8) by (simp add: block_process_def saved_state_def upd_pcb_def)
  ultimately show ?thesis using assms(2) by simp
qed


lemma sem_wait_blocks_witness:
  "\<exists>k k'. sem_wait 3 k = Suspended k' () \<and> sem_waiters (k_sems k' 3) = [7] \<and>
     p_state (process_table (k_procs k') 1) = BLOCKED"
proof -
  let ?k = "(table_kernel (\<lambda>i. plain_pcb (if i = 1 then 7 else 0) RUNNING) 1)
    \<lparr>k_sems_initialized := True, k_sems := \<lambda>_. (init_sem zero_sem)\<lparr>s_state := SEMAPHORE_USED\<rparr>\<rparr>"
  have "sem_live 3 ?k" by (simp add: sem_live_def INVALID_SEM_def)
  moreover have "s_value (k_sems ?k (unat (3::u32))) = 0" by (simp add: init_sem_def)
  moreover have w: "sem_ok (k_sems ?k (unat (3::u32)))" "sem_room (k_sems ?k (unat (3::u32)))"
      "sem_waiters (k_sems ?k (unat (3::u32))) = []"
    by (simp_all add: sem_ok_def sem_room_def sem_waiters_def sem_pending_def init_sem_def)
  moreover have "7 = get_current_pid (k_procs ?k)" "(7::u16) \<noteq> NOT_A_PROCESS"
      "slot_of (k_procs ?k) 7 = Some 1" "p_state (process_table (k_procs ?k) 1) = RUNNING"
    by (simp_all add: get_current_pid_def slot_ofI)
  ultimately obtain k' where "sem_wait 3 ?k = Suspended k' ()" "sem_waiters (k_sems k' 3) = [7]"
      "k_procs k' = upd_pcb 1 (\<lambda>p. p\<lparr>p_previous := READY, p_state := BLOCKED\<rparr>) (k_procs ?k)"
    using sem_wait_blocks [of 3 ?k 7 1] by auto
  then show ?thesis by (intro exI [of _ ?k] exI [of _ k']) simp
qed

lemma sem_post_wakes:
  assumes "sem_live s k" "sem_ok (k_sems k (unat s))" "sem_waiters (k_sems k (unat s)) = pid # ps"
    and "slot_of (k_procs k) pid = Some i" "p_state (process_table (k_procs k) i) = BLOCKED"
    and "p_previous (process_table (k_procs k) i) = READY"
  shows "sem_waiters (k_sems (sem_post s k) (unat s)) = ps \<and>
    s_value (k_sems (sem_post s k) (unat s)) = s_value (k_sems k (unat s)) + 1 \<and>
    p_state (process_table (k_procs (sem_post s k)) i) = READY \<and>
    k_procs (sem_post s k) = put_ready i (p_priority (process_table (k_procs k) i))
      (upd_pcb i (\<lambda>p. p\<lparr>p_state := READY\<rparr>) (k_procs k))"
proof -
  let ?x = "(k_sems k (unat s))\<lparr>s_value := s_value (k_sems k (unat s)) + 1\<rparr>"
  let ?k = "upd_sem (unat s) (\<lambda>_. snd (sem_deq ?x)) k"
  have d: "fst (sem_deq ?x) = Some pid" "sem_waiters (snd (sem_deq ?x)) = ps"
    using sq.deq_items [of ?x pid ps] assms(2,3) by simp_all
  have "sem_post s k = snd (wake_up_process pid ?k)"
    using d(1) by (simp add: sem_post_live [OF assms(1)] Let_def)
  moreover have "wake_up_process pid ?k = (0, upd_procs (\<lambda>ps. put_ready i (p_priority (process_table ps i))
      (upd_pcb i (\<lambda>p. p\<lparr>p_state := READY\<rparr>) ps)) ?k)"
    by (rule wake_up_ready) (use assms in simp_all)
  ultimately show ?thesis
    using sem_post_sems [OF assms(1)] d(2) by (simp add: upd_pcb_def)
qed

text \<open>
  A post adds one to the value and wakes the process that has waited longest: its pid
  leaves the front of the queue, the process is ready again and in the ready queue of its
  priority. The waiters behind it keep their order.
\<close>

theorem sem_post_wakes_first:
  assumes "sem_live s k" "sem_ok (k_sems k (unat s))" "sem_waiters (k_sems k (unat s)) = pid # ps"
    and "slot_of (k_procs k) pid = Some i" "p_state (process_table (k_procs k) i) = BLOCKED"
    and "p_previous (process_table (k_procs k) i) = READY"
  shows "sem_waiters (k_sems (sem_post s k) (unat s)) = ps \<and>
    s_value (k_sems (sem_post s k) (unat s)) = s_value (k_sems k (unat s)) + 1 \<and>
    p_state (process_table (k_procs (sem_post s k)) i) = READY \<and>
    k_procs (sem_post s k) = put_ready i (p_priority (process_table (k_procs k) i))
      (upd_pcb i (\<lambda>p. p\<lparr>p_state := READY\<rparr>) (k_procs k))"
  using sem_post_wakes [OF assms] .

lemma sem_post_wakes_first_witness:
  "\<exists>k. sem_waiters (k_sems k 3) = [7] \<and> sem_waiters (k_sems (sem_post 3 k) 3) = [] \<and>
     s_value (k_sems (sem_post 3 k) 3) = 1 \<and> p_state (process_table (k_procs (sem_post 3 k)) 1) = READY"
proof -
  let ?x = "(init_sem zero_sem)\<lparr>s_state := SEMAPHORE_USED\<rparr>"
  let ?k = "(table_kernel (\<lambda>i. plain_pcb (if i = 1 then 7 else 0) BLOCKED) 0)
    \<lparr>k_sems_initialized := True, k_sems := \<lambda>_. sem_enq 7 ?x\<rparr>"
  have live: "sem_live 3 ?k" by (simp add: sem_live_def INVALID_SEM_def)
  have x: "sem_ok ?x" "sem_room ?x" "sem_waiters ?x = []"
    by (simp_all add: sem_ok_def sem_room_def sem_waiters_def sem_pending_def init_sem_def)
  have w: "sem_ok (k_sems ?k 3)" "sem_waiters (k_sems ?k 3) = [7]" "s_value (k_sems ?k 3) = 0"
    using sq.enq_items [OF x(1,2), of 7] sq.enq_valid [OF x(1,2), of 7] x(3)
    by (simp_all add: init_sem_def)
  have "slot_of (k_procs ?k) 7 = Some 1" by (simp add: slot_ofI)
  moreover have "p_state (process_table (k_procs ?k) 1) = BLOCKED"
      "p_previous (process_table (k_procs ?k) 1) = READY"
    by simp_all
  ultimately show ?thesis
    using sem_post_wakes_first [of 3 ?k 7 "[]" 1] live w by (intro exI [of _ ?k]) simp
qed

section \<open>Units are conserved\<close>

definition sem_val :: "u32 \<Rightarrow> kernel \<Rightarrow> nat" where
  "sem_val s k = unat (s_value (k_sems k (unat s)))"

lemma sem_live_cong:
  "s_state (k_sems k' (unat s)) = s_state (k_sems k (unat s)) \<Longrightarrow>
   k_sems_initialized k' = k_sems_initialized k \<Longrightarrow> sem_live s k' = sem_live s k"
  by (simp add: sem_live_def INVALID_SEM_def)

lemma sem_attempt_counts:
  assumes "sem_live s k"
  shows "(sem_attempt s k = Returned k' u \<longrightarrow> sem_live s k' \<and> sem_val s k = Suc (sem_val s k')) \<and>
    (sem_attempt s k = Suspended k' u \<longrightarrow> sem_live s k' \<and> sem_val s k' = sem_val s k)"
proof -
  have "unat (v - 1) = unat v - 1" if "v \<noteq> 0" for v :: u32
    using that by (simp add: unat_minus_one)
  then have "v \<noteq> 0 \<Longrightarrow> unat v = Suc (unat (v - 1))" for v :: u32
    by (metis Suc_pred' unat_gt_0)
  then show ?thesis
    using sem_live_D [OF assms] assms
    by (auto simp: sem_attempt_def sem_val_def sem_live_def INVALID_SEM_def)
qed

lemma sem_wait_live: "sem_live s k \<Longrightarrow> sem_wait s k = sem_attempt s k \<and> sem_wait_resume s k = sem_attempt s k"
  using sem_live_D [of s k] by (simp add: sem_wait_def sem_wait_resume_def)

lemma sem_post_val:
  assumes "sem_live s k" "Suc (sem_val s k) < 2 ^ 32"
  shows "sem_live s (sem_post s k) \<and> sem_val s (sem_post s k) = Suc (sem_val s k)"
proof -
  have "unat (s_value (k_sems k (unat s)) + 1) = Suc (sem_val s k)"
    using assms(2) unfolding sem_val_def by (subst unat_add_lem [THEN iffD1]) simp_all
  then show ?thesis
    using sem_post_sems [OF assms(1)] assms(1)
    by (simp add: sem_val_def sem_live_def INVALID_SEM_def)
qed

interpretation cs: counting_semaphore "sem_live s" "sem_val s" "sem_wait s" "sem_wait_resume s" "sem_post s" "2 ^ 32"
proof (rule counting_semaphore.intro)
  fix k k' :: kernel and u :: unit
  assume l: "sem_live s k"
  note e = sem_wait_live [OF l] and c = sem_attempt_counts [OF l, of k' u]
  show "sem_wait s k = Returned k' u \<Longrightarrow> sem_live s k' \<and> sem_val s k = Suc (sem_val s k')"
    and "sem_wait s k = Suspended k' u \<Longrightarrow> sem_live s k' \<and> sem_val s k' = sem_val s k"
    and "sem_wait_resume s k = Returned k' u \<Longrightarrow> sem_live s k' \<and> sem_val s k = Suc (sem_val s k')"
    and "sem_wait_resume s k = Suspended k' u \<Longrightarrow> sem_live s k' \<and> sem_val s k' = sem_val s k"
    using e c by simp_all
  show "Suc (sem_val s k) < 2 ^ 32 \<Longrightarrow> sem_live s (sem_post s k) \<and> sem_val s (sem_post s k) = Suc (sem_val s k)"
    by (rule sem_post_val [OF l])
qed

text \<open>
  C26. Semaphores exclude. Over any interleaving of waits, resumed waits and posts of any
  number of processes on one semaphore, with anything else happening in between that leaves
  it alone, the value plus the number of processes that have passed a wait and not yet posted
  is the initial value; so a semaphore created with 1 admits one process at a time.
\<close>

theorem semaphore_exclusion:
  assumes "sem_live s k0"
    and "counted_run (sem_live s) (sem_val s) (sem_wait s) (sem_wait_resume s) (sem_post s) k0 k n"
  shows "sem_val s k + n = sem_val s k0 \<and> n \<le> sem_val s k0"
proof -
  have "sem_val s k0 < 2 ^ 32"
    using unsigned_less [of "s_value (k_sems k0 (unat s))"] by (simp add: sem_val_def)
  then show ?thesis using cs.conserved [OF assms(2,1)] by simp
qed

text \<open>Calls on other semaphores are such steps.\<close>

lemma other_semaphore:
  assumes "sem_live s k" "sem_live t k" "s \<noteq> t"
  shows "sem_live s (sem_post t k) \<and> sem_val s (sem_post t k) = sem_val s k"
    and "sem_wait t k = Returned k' u \<or> sem_wait t k = Suspended k' u \<Longrightarrow>
      sem_live s k' \<and> sem_val s k' = sem_val s k"
proof -
  have ne: "unat s \<noteq> unat t" using assms(3) by (simp add: word_unat_eq_iff)
  show "sem_live s (sem_post t k) \<and> sem_val s (sem_post t k) = sem_val s k"
    using sem_post_sems [OF assms(2)] assms(1) ne by (simp add: sem_live_def INVALID_SEM_def sem_val_def)
  show "sem_wait t k = Returned k' u \<or> sem_wait t k = Suspended k' u \<Longrightarrow>
      sem_live s k' \<and> sem_val s k' = sem_val s k"
    using sem_wait_live [OF assms(2)] assms(1) ne
    by (auto simp: sem_attempt_def sem_live_def INVALID_SEM_def sem_val_def split: if_splits)
qed


definition live_kernel :: "u32 \<Rightarrow> kernel" where
  "live_kernel v = static_kernel\<lparr>k_sems_initialized := True,
     k_sems := \<lambda>_. (init_sem zero_sem)\<lparr>s_state := SEMAPHORE_USED, s_value := v\<rparr>\<rparr>"

lemma live_kernel_live: "unat s < MAX_SEMAPHORES \<Longrightarrow> sem_live s (live_kernel v)"
  by (simp add: live_kernel_def sem_live_def INVALID_SEM_def)

lemma semaphore_exclusion_witness:
  "\<exists>k. counted_run (sem_live 3) (sem_val 3) (sem_wait 3) (sem_wait_resume 3) (sem_post 3) (live_kernel 1) k 1 \<and>
     sem_val 3 k = 0"
proof -
  let ?k0 = "live_kernel 1"
  have l: "sem_live 3 ?k0" by (rule live_kernel_live) simp
  have v: "sem_val 3 ?k0 = 1" by (simp add: sem_val_def live_kernel_def)
  obtain k where k: "sem_wait 3 ?k0 = Returned k ()"
    using sem_live_D [OF l] v
    by (cases "s_value (k_sems ?k0 3) = 0") (simp_all add: sem_wait_def sem_attempt_def sem_val_def Let_def)
  have r: "counted_run (sem_live 3) (sem_val 3) (sem_wait 3) (sem_wait_resume 3) (sem_post 3) ?k0 k 1"
    unfolding One_nat_def by (rule counted_run.enter [where wait = "sem_wait 3"]) (rule counted_run.start, rule k)
  then show ?thesis using semaphore_exclusion [OF l r] v by auto
qed

section \<open>Dead waiters\<close>

text \<open>
  C39. A pid stays in the waiting queue when its process is killed or woken by other means. If
  such a pid is at the front, a post takes it out and wakes nobody: every process keeps its
  state, also the live ones blocked behind it, although the semaphore now has a unit.
\<close>

theorem sem_post_lost_wakeup:
  assumes "sem_live s k" "sem_ok (k_sems k (unat s))" "sem_waiters (k_sems k (unat s)) = dead # ps"
    and "slot_of (k_procs k) dead = None \<or>
      p_state (process_table (k_procs k) (the (slot_of (k_procs k) dead))) \<noteq> BLOCKED"
  shows "k_procs (sem_post s k) = k_procs k \<and> sem_waiters (k_sems (sem_post s k) (unat s)) = ps \<and>
    s_value (k_sems (sem_post s k) (unat s)) = s_value (k_sems k (unat s)) + 1"
proof -
  let ?x = "(k_sems k (unat s))\<lparr>s_value := s_value (k_sems k (unat s)) + 1\<rparr>"
  let ?k = "upd_sem (unat s) (\<lambda>_. snd (sem_deq ?x)) k"
  have d: "fst (sem_deq ?x) = Some dead" "sem_waiters (snd (sem_deq ?x)) = ps"
    using sq.deq_items [of ?x dead ps] assms(2,3) by simp_all
  have "sem_post s k = snd (wake_up_process dead ?k)"
    using d(1) by (simp add: sem_post_live [OF assms(1)] Let_def)
  moreover have "wake_up_process dead ?k = (-1, ?k)"
    by (rule wake_up_not_blocked) (use assms(4) in simp)
  ultimately show ?thesis using d(2) by simp
qed

lemma sem_post_lost_wakeup_witness:
  "\<exists>k. sem_waiters (k_sems k 3) = [7, 8] \<and> p_state (process_table (k_procs k) 2) = BLOCKED \<and>
     p_pid (process_table (k_procs k) 2) = 8 \<and>
     p_state (process_table (k_procs (sem_post 3 k)) 2) = BLOCKED \<and> s_value (k_sems (sem_post 3 k) 3) = 1"
proof -
  let ?t = "(\<lambda>_. plain_pcb 0 READY)(1 := plain_pcb 7 TERMINATED, 2 := plain_pcb 8 BLOCKED)"
  let ?x = "(init_sem zero_sem)\<lparr>s_state := SEMAPHORE_USED\<rparr>"
  let ?k = "(table_kernel ?t 0)\<lparr>k_sems_initialized := True, k_sems := \<lambda>_. sem_enq 8 (sem_enq 7 ?x)\<rparr>"
  have live: "sem_live 3 ?k" by (simp add: sem_live_def INVALID_SEM_def)
  have x: "sem_ok ?x" "sem_room ?x" "sem_waiters ?x = []" "sem_pending ?x = 0"
    by (simp_all add: sem_ok_def sem_room_def sem_waiters_def sem_pending_def init_sem_def)
  have y: "sem_ok (sem_enq 7 ?x)" "sem_waiters (sem_enq 7 ?x) = [7]" "sem_room (sem_enq 7 ?x)"
    using sq.enq_items [OF x(1,2), of 7] sq.enq_valid [OF x(1,2), of 7] x sem_pending_enq [OF x(1,2), of 7]
    by (simp_all add: sem_room_def)
  have w: "sem_ok (k_sems ?k 3)" "sem_waiters (k_sems ?k 3) = [7, 8]" "s_value (k_sems ?k 3) = 0"
    using sq.enq_items [OF y(1,3), of 8] sq.enq_valid [OF y(1,3), of 8] y(2)
    by (simp_all add: init_sem_def)
  have "slot_of (k_procs ?k) 7 = Some 1" by (simp add: slot_ofI)
  then show ?thesis
    using sem_post_lost_wakeup [of 3 ?k 7 "[8]"] live w by (intro exI [of _ ?k]) simp
qed

section \<open>Destroying a semaphore\<close>

lemma is_sleeping_time_expired_upd_sem:
  "is_sleeping_time_expired pid (upd_sem i f k) =
     (fst (is_sleeping_time_expired pid k), upd_sem i f (snd (is_sleeping_time_expired pid k)))"
  by (simp add: is_sleeping_time_expired_def get_ticks_def clear_sleep_def upd_sem_def split: option.split)

lemma wake_up_upd_sem:
  "snd (wake_up_process pid (upd_sem i f k)) = upd_sem i f (snd (wake_up_process pid k))"
  by (simp add: wake_up_process_def is_sleeping_time_expired_upd_sem Let_def split_beta split: option.split)
    (simp add: upd_sem_def upd_procs_def)

definition wake_all :: "u16 list \<Rightarrow> kernel \<Rightarrow> kernel" where
  "wake_all pids k = fold (\<lambda>pid k. snd (wake_up_process pid k)) pids k"

lemma wake_all_upd_sem: "wake_all pids (upd_sem i f k) = upd_sem i f (wake_all pids k)"
  by (induction pids arbitrary: k) (simp_all add: wake_all_def wake_up_upd_sem)

lemma wake_all_sems [simp]: "k_sems (wake_all pids k) = k_sems k"
  by (induction pids arbitrary: k) (simp_all add: wake_all_def)

text \<open>\<open>init_sem\<close> forgets what the loop did to the indices.\<close>

lemma init_sem_index: "init_sem (x\<lparr>s_current_index := c\<rparr>) = init_sem x"
  by (simp add: init_sem_def cong: if_cong)

lemma destroy_loop_wakes:
  assumes "s_current_index (k_sems k i) < MAX_PROCESSES" "s_last_index (k_sems k i) < MAX_PROCESSES"
    and "\<forall>pid\<in>set (sem_waiters (k_sems k i)). pid \<noteq> NOT_A_PROCESS"
  shows "\<exists>c. destroy_loop i k =
    upd_sem i (\<lambda>x. x\<lparr>s_current_index := c\<rparr>) (wake_all (sem_waiters (k_sems k i)) k)"
  using assms
proof (induction "sem_pending (k_sems k i)" arbitrary: k)
  case 0
  let ?x = "k_sems k i"
  have w: "sem_waiters ?x = []" using 0(1) by (simp add: sem_waiters_def)
  have "s_current_index ?x = s_last_index ?x"
    using ring_count_last [OF 0(2,3)] 0(1,2) by (simp add: sem_pending_def)
  moreover have "k = upd_sem i (\<lambda>x. x\<lparr>s_current_index := s_current_index ?x\<rparr>) k"
    by (simp add: upd_sem_def)
  ultimately show ?case
    using w by (auto simp: destroy_loop.simps [of i k] wake_all_def)
next
  case (Suc n)
  let ?x = "k_sems k i" and ?N = MAX_PROCESSES
  let ?pid = "s_waiting ?x (s_current_index ?x)"
  let ?up = "\<lambda>x. x\<lparr>s_current_index := Suc (s_current_index x) mod ?N\<rparr>"
  have w: "sem_waiters ?x = ?pid # ring_list (s_waiting ?x) ?N (Suc (s_current_index ?x) mod ?N) n"
    unfolding sem_waiters_def Suc(2) [symmetric] by (rule ring_list_Cons [OF Suc(3)])
  have p: "sem_pending (?up ?x) = n"
    using ring_count_pop [OF Suc(3,4)] Suc(2) by (simp add: sem_pending_def)
  have w': "sem_waiters (?up ?x) = tl (sem_waiters ?x)"
    unfolding w using p by (simp add: sem_waiters_def)
  have ne: "s_current_index ?x \<noteq> s_last_index ?x"
    using Suc(2,3) by (auto simp: sem_pending_def)
  have r: "destroy_round i k = upd_sem i ?up (snd (wake_up_process ?pid k))"
    using Suc(5) w by (simp add: destroy_round_def Let_def)
  have k': "k_sems (destroy_round i k) i = ?up ?x"
    by (simp add: destroy_round_sems)
  have "\<exists>c. destroy_loop i (destroy_round i k) = upd_sem i (\<lambda>x. x\<lparr>s_current_index := c\<rparr>)
      (wake_all (sem_waiters (k_sems (destroy_round i k) i)) (destroy_round i k))"
  proof (rule Suc(1))
    show "n = sem_pending (k_sems (destroy_round i k) i)" using p by (simp add: k')
    show "\<forall>pid\<in>set (sem_waiters (k_sems (destroy_round i k) i)). pid \<noteq> NOT_A_PROCESS"
      unfolding k' w' using Suc(5) by (cases "sem_waiters ?x") auto
  qed (use Suc(4) in \<open>simp_all add: k'\<close>)
  then obtain c where "destroy_loop i (destroy_round i k) = upd_sem i (\<lambda>x. x\<lparr>s_current_index := c\<rparr>)
      (wake_all (tl (sem_waiters ?x)) (destroy_round i k))"
    unfolding k' w' by blast
  then have "destroy_loop i k = upd_sem i (\<lambda>x. x\<lparr>s_current_index := c\<rparr>) (upd_sem i ?up
      (wake_all (sem_waiters ?x) k))"
    using ne Suc(4) w
    by (simp add: destroy_loop.simps [of i k]) (simp add: r wake_all_upd_sem, simp add: wake_all_def)
  then show ?case by (auto simp: upd_sem_def)
qed

lemma sem_ok_waiters:
  assumes "sem_ok x"
  shows "\<forall>pid\<in>set (sem_waiters x). pid \<noteq> NOT_A_PROCESS"
proof
  fix pid assume "pid \<in> set (sem_waiters x)"
  then obtain m where m: "m < sem_pending x" "pid = s_waiting x ((s_current_index x + m) mod MAX_PROCESSES)"
    by (auto simp: sem_waiters_def set_ring_list)
  then have "m < MAX_PROCESSES" using sem_pending_less [of x] by simp
  with m assms show "pid \<noteq> NOT_A_PROCESS" unfolding sem_ok_def by (metis not_le)
qed

lemma destroy_sem_live:
  assumes "sem_live s k" "sem_ok (k_sems k (unat s))"
  shows "destroy_sem s k = upd_sem (unat s) init_sem (wake_all (sem_waiters (k_sems k (unat s))) k) \<and>
    INVALID_SEM s (destroy_sem s k) \<and> sem_waiters (k_sems (destroy_sem s k) (unat s)) = []"
proof -
  let ?i = "unat s"
  obtain c where c: "destroy_loop ?i k =
      upd_sem ?i (\<lambda>x. x\<lparr>s_current_index := c\<rparr>) (wake_all (sem_waiters (k_sems k ?i)) k)"
    using destroy_loop_wakes [of k ?i] sem_ok_bounds [OF assms(2)] sem_ok_waiters [OF assms(2)] by blast
  have used: "s_state (k_sems k ?i) = SEMAPHORE_USED"
    using sem_live_D [OF assms(1)] by (cases "s_state (k_sems k ?i)") (simp_all add: INVALID_SEM_def)
  have "destroy_sem s k = upd_sem ?i init_sem (wake_all (sem_waiters (k_sems k ?i)) k)"
    using sem_live_D [OF assms(1)] used
    by (simp add: destroy_sem_def c) (simp add: upd_sem_def init_sem_index)
  then show ?thesis
    by (simp add: INVALID_SEM_def sem_waiters_init) (simp add: init_sem_def)
qed

text \<open>
  Destroying a semaphore wakes its waiters, all of them and in the order they queued,
  does nothing else to the rest of the kernel, and leaves the semaphore free, with value 0
  and an empty queue, ready to be created again.
\<close>

theorem destroy_sem_wakes_all:
  assumes "sem_live s k" "sem_ok (k_sems k (unat s))"
  shows "destroy_sem s k = upd_sem (unat s) init_sem (wake_all (sem_waiters (k_sems k (unat s))) k) \<and>
    INVALID_SEM s (destroy_sem s k) \<and> sem_waiters (k_sems (destroy_sem s k) (unat s)) = []"
  using destroy_sem_live [OF assms] .

lemma unat_numeral_3: "unat (3 :: u32) = 3"
  by simp

lemma destroy_sem_wakes_all_witness:
  "\<exists>k. sem_waiters (k_sems k 3) = [7] \<and> sem_waiters (k_sems (destroy_sem 3 k) 3) = [] \<and>
     INVALID_SEM 3 (destroy_sem 3 k)"
proof -
  let ?x = "(init_sem zero_sem)\<lparr>s_state := SEMAPHORE_USED\<rparr>"
  let ?k = "(live_kernel 0)\<lparr>k_sems := \<lambda>_. sem_enq 7 ?x\<rparr>"
  have live: "sem_live 3 ?k" by (simp add: sem_live_def INVALID_SEM_def live_kernel_def)
  have x: "sem_ok ?x" "sem_room ?x" "sem_waiters ?x = []"
    by (simp_all add: sem_ok_def sem_room_def sem_waiters_def sem_pending_def init_sem_def)
  have "sem_ok (k_sems ?k 3)" "sem_waiters (k_sems ?k 3) = [7]"
    using sq.enq_items [OF x(1,2), of 7] sq.enq_valid [OF x(1,2), of 7] x(3) by simp_all
  then show ?thesis
    using destroy_sem_wakes_all [of 3 ?k] live unfolding unat_numeral_3 by blast
qed

end
