(* ===== verification/Pipes.thy ===== *)
theory Pipes
  imports Semaphores
begin

text \<open>
  Kernel/pipes/pipes.c. Descriptors 16 bits wide index the pipe array; the writing calls take an
  \<open>int\<close>, and a negative one indexes before the array: \<open>None\<close>. A blocking call that suspends
  keeps the semaphore it waits on, the descriptor, the number of bytes still to do, and the
  bytes read so far or still to be written.
\<close>

section \<open>Operations\<close>

definition fresh_pipe :: "nat \<Rightarrow> pipe" where
  "fresh_pipe i = zero_pipe\<lparr>pp_state := if i < KERNEL_PIPES_START then PIPE_USED else PIPE_FREE\<rparr>"

text \<open>The two semaphores of a pipe: bytes to read, and room to write.\<close>

definition pipe_sems :: "nat \<Rightarrow> kernel \<Rightarrow> kernel" where
  "pipe_sems i k =
     (let (r, k1) = create_sem 0 k; k2 = upd_pipe i (\<lambda>p. p\<lparr>pp_read_sem := r\<rparr>) k1;
          (w, k3) = create_sem (of_nat (PIPE_BUFFER_SIZE - 1)) k2
      in upd_pipe i (\<lambda>p. p\<lparr>pp_write_sem := w\<rparr>) k3)"

definition init_pipe_manager :: "kernel \<Rightarrow> kernel" where
  "init_pipe_manager k =
     (let k1 = k\<lparr>k_pipe_count := 0,
                 k_pipes := (\<lambda>i. if i < MAX_AMOUNT_PIPES then fresh_pipe i else k_pipes k i)\<rparr>;
          k2 = fold pipe_sems [0..<KERNEL_PIPES_START] k1
      in k2\<lparr>k_pipes_initialized := True\<rparr>)"

definition pipes_ready :: "kernel \<Rightarrow> kernel" where
  "pipes_ready k = (if k_pipes_initialized k then k else init_pipe_manager k)"

definition INVALID_PIPE :: "nat \<Rightarrow> kernel \<Rightarrow> bool" where
  "INVALID_PIPE fd k \<longleftrightarrow> fd \<ge> MAX_AMOUNT_PIPES \<or> pp_state (k_pipes k fd) = PIPE_FREE"

definition clean_buffer :: "nat \<Rightarrow> kernel \<Rightarrow> kernel" where
  "clean_buffer fd = upd_pipe fd (\<lambda>p. p\<lparr>pp_buffer :=
     (\<lambda>i. if i < PIPE_BUFFER_SIZE then 0 else pp_buffer p i)\<rparr>)"

text \<open>The first three descriptors are skipped; 0 means that there is none.\<close>

definition find_available_pipe :: "kernel \<Rightarrow> nat" where
  "find_available_pipe k =
     (case find_from (\<lambda>i. pp_state (k_pipes k i) = PIPE_FREE) 3 MAX_AMOUNT_PIPES of
        Some i \<Rightarrow> i | None \<Rightarrow> 0)"

definition create_pipe :: "kernel \<Rightarrow> int \<times> kernel" where
  "create_pipe k0 =
     (let k = pipes_ready k0; i = find_available_pipe k
      in if unat (k_pipe_count k) \<ge> MAX_AMOUNT_PIPES then (-1, k)
         else if i = 0 then (-1, k)
         else (let k1 = pipe_sems i (clean_buffer i (upd_pipe i
                     (\<lambda>p. p\<lparr>pp_read_pos := 0, pp_write_pos := 0, pp_state := PIPE_USED\<rparr>) k));
                   p = k_pipes k1 i
               in if pp_read_sem p = -1 \<or> pp_write_sem p = -1
                  then (-1, destroy_sem (pp_write_sem p) (destroy_sem (pp_read_sem p)
                              (upd_pipe i (\<lambda>p. p\<lparr>pp_state := PIPE_FREE\<rparr>) k1)))
                  else (int i, k1\<lparr>k_pipe_count := k_pipe_count k1 + 1\<rparr>)))"

definition close_pipe :: "u16 \<Rightarrow> kernel \<Rightarrow> int \<times> kernel" where
  "close_pipe fd k0 =
     (let k = pipes_ready k0; i = unat fd
      in if i < KERNEL_PIPES_START \<or> INVALID_PIPE i k then (-1, k)
         else (let k1 = (upd_pipe i (\<lambda>p. p\<lparr>pp_state := PIPE_FREE, pp_read_pos := 0, pp_write_pos := 0\<rparr>) k)
                     \<lparr>k_pipe_count := k_pipe_count k - 1\<rparr>;
                   k2 = destroy_sem (pp_read_sem (k_pipes k1 i)) k1;
                   k3 = destroy_sem (pp_write_sem (k_pipes k2 i)) k2
               in (0, clean_buffer i k3)))"

text \<open>What a reader does once it has its unit, and what a writer does.\<close>

definition get_byte :: "nat \<Rightarrow> kernel \<Rightarrow> u8 \<times> kernel" where
  "get_byte fd k =
     (let p = k_pipes k fd;
          k1 = upd_pipe fd (\<lambda>p. p\<lparr>pp_read_pos := (pp_read_pos p + 1) mod PIPE_BUFFER_SIZE\<rparr>) k
      in (pp_buffer p (pp_read_pos p), sem_post (pp_write_sem p) k1))"

definition put_byte :: "nat \<Rightarrow> u8 \<Rightarrow> kernel \<Rightarrow> kernel" where
  "put_byte fd c k =
     (let k1 = upd_pipe fd (\<lambda>p. p\<lparr>pp_buffer := (pp_buffer p)(pp_write_pos p := c),
                                  pp_write_pos := (pp_write_pos p + 1) mod PIPE_BUFFER_SIZE\<rparr>) k
      in sem_post (pp_read_sem (k_pipes k fd)) k1)"

type_synonym read_cont = "u32 \<times> nat \<times> nat \<times> u8 list"
type_synonym write_cont = "u32 \<times> nat \<times> u8 list \<times> nat"

fun read_loop :: "nat \<Rightarrow> nat \<Rightarrow> u8 list \<Rightarrow> kernel \<Rightarrow> (kernel, read_cont, int \<times> u8 list) outcome" where
  "read_loop fd 0 got k = Returned k (int (length got), got)"
| "read_loop fd (Suc n) got k =
     (case sem_wait (pp_read_sem (k_pipes k fd)) k of
        Suspended k1 _ \<Rightarrow> Suspended k1 (pp_read_sem (k_pipes k fd), fd, n, got)
      | Returned k1 _ \<Rightarrow> (let (c, k2) = get_byte fd k1 in read_loop fd n (got @ [c]) k2))"

fun write_loop :: "nat \<Rightarrow> u8 list \<Rightarrow> nat \<Rightarrow> kernel \<Rightarrow> (kernel, write_cont, int) outcome" where
  "write_loop fd [] done k = Returned k (int done)"
| "write_loop fd (c # cs) done k =
     (case sem_wait (pp_write_sem (k_pipes k fd)) k of
        Suspended k1 _ \<Rightarrow> Suspended k1 (pp_write_sem (k_pipes k fd), fd, c # cs, done)
      | Returned k1 _ \<Rightarrow> write_loop fd cs (Suc done) (put_byte fd c k1))"

text \<open>
  The tests before the loops. \<open>buffer\<close> is whether the pointer is not null; the bytes to write
  are the first \<open>count\<close> of the buffer.
\<close>

definition cannot_use :: "nat \<Rightarrow> bool \<Rightarrow> int \<Rightarrow> kernel \<Rightarrow> bool" where
  "cannot_use fd buffer count k \<longleftrightarrow>
     fd = unat STDOUT \<or> fd = unat STDERR \<or> INVALID_PIPE fd k \<or> \<not> buffer \<or> count \<le> 0"

definition read_pipe :: "u16 \<Rightarrow> bool \<Rightarrow> int \<Rightarrow> kernel \<Rightarrow> (kernel, read_cont, int \<times> u8 list) outcome" where
  "read_pipe fd buffer count k0 =
     (let k = pipes_ready k0
      in if cannot_use (unat fd) buffer count k then Returned k (-1, [])
         else read_loop (unat fd) (nat count) [] k)"

definition read_pipe_resume :: "read_cont \<Rightarrow> kernel \<Rightarrow> (kernel, read_cont, int \<times> u8 list) outcome" where
  "read_pipe_resume c k =
     (case c of (s, fd, n, got) \<Rightarrow>
       (case sem_wait_resume s k of
          Suspended k1 _ \<Rightarrow> Suspended k1 c
        | Returned k1 _ \<Rightarrow> (let (b, k2) = get_byte fd k1 in read_loop fd n (got @ [b]) k2)))"

definition write_pipe ::
  "int \<Rightarrow> u8 list option \<Rightarrow> int \<Rightarrow> kernel \<Rightarrow> (kernel, write_cont, int) outcome option" where
  "write_pipe fd buffer count k0 =
     (let k = pipes_ready k0
      in if fd < 0 then None
         else if cannot_use (nat fd) (buffer \<noteq> None) count k then Some (Returned k (-1))
         else Some (write_loop (nat fd) (take (nat count) (the buffer)) 0 k))"

definition write_pipe_resume :: "write_cont \<Rightarrow> kernel \<Rightarrow> (kernel, write_cont, int) outcome" where
  "write_pipe_resume w k =
     (case w of (s, fd, bytes, done) \<Rightarrow>
       (case sem_wait_resume s k of
          Suspended k1 _ \<Rightarrow> Suspended k1 w
        | Returned k1 _ \<Rightarrow> write_loop fd (tl bytes) (Suc done) (put_byte fd (hd bytes) k1)))"

fun read_loop_nonblocking ::
  "nat \<Rightarrow> nat \<Rightarrow> u8 list \<Rightarrow> kernel \<Rightarrow> (kernel, read_cont, int \<times> u8 list) outcome" where
  "read_loop_nonblocking fd 0 got k = Returned k (int (length got), got)"
| "read_loop_nonblocking fd (Suc n) got k0 =
     (let (v, k) = get_sem_value (pp_read_sem (k_pipes k0 fd)) k0
      in if v = 0 then Returned k (int (length got), got)
         else (case sem_wait (pp_read_sem (k_pipes k fd)) k of
                 Suspended k1 _ \<Rightarrow> Suspended k1 (pp_read_sem (k_pipes k fd), fd, n, got)
               | Returned k1 _ \<Rightarrow> (let (c, k2) = get_byte fd k1
                                   in read_loop_nonblocking fd n (got @ [c]) k2)))"

fun write_loop_nonblocking :: "nat \<Rightarrow> u8 list \<Rightarrow> nat \<Rightarrow> kernel \<Rightarrow> (kernel, write_cont, int) outcome" where
  "write_loop_nonblocking fd [] done k = Returned k (int done)"
| "write_loop_nonblocking fd (c # cs) done k0 =
     (let (v, k) = get_sem_value (pp_write_sem (k_pipes k0 fd)) k0
      in if v = 0 then Returned k (int done)
         else (case sem_wait (pp_write_sem (k_pipes k fd)) k of
                 Suspended k1 _ \<Rightarrow> Suspended k1 (pp_write_sem (k_pipes k fd), fd, c # cs, done)
               | Returned k1 _ \<Rightarrow> write_loop_nonblocking fd cs (Suc done) (put_byte fd c k1)))"

definition read_pipe_nonblocking ::
  "u16 \<Rightarrow> bool \<Rightarrow> int \<Rightarrow> kernel \<Rightarrow> (kernel, read_cont, int \<times> u8 list) outcome" where
  "read_pipe_nonblocking fd buffer count k0 =
     (let k = pipes_ready k0
      in if cannot_use (unat fd) buffer count k then Returned k (-1, [])
         else read_loop_nonblocking (unat fd) (nat count) [] k)"

definition write_pipe_nonblocking ::
  "int \<Rightarrow> u8 list option \<Rightarrow> int \<Rightarrow> kernel \<Rightarrow> (kernel, write_cont, int) outcome option" where
  "write_pipe_nonblocking fd buffer count k0 =
     (let k = pipes_ready k0
      in if fd < 0 then None
         else if cannot_use (nat fd) (buffer \<noteq> None) count k then Some (Returned k (-1))
         else Some (write_loop_nonblocking (nat fd) (take (nat count) (the buffer)) 0 k))"

section \<open>A pipe is a bounded queue of bytes\<close>

definition pipe_len :: "pipe \<Rightarrow> nat" where
  "pipe_len p = (pp_write_pos p + PIPE_BUFFER_SIZE - pp_read_pos p) mod PIPE_BUFFER_SIZE"

definition pipe_data :: "pipe \<Rightarrow> u8 list" where
  "pipe_data p = ring_list (pp_buffer p) PIPE_BUFFER_SIZE (pp_read_pos p) (pipe_len p)"

text \<open>
  An open pipe: the value of the reading semaphore is the number of bytes in the ring, the
  value of the writing semaphore the room that is left.
\<close>

definition pipe_ok :: "nat \<Rightarrow> kernel \<Rightarrow> bool" where
  "pipe_ok fd k \<longleftrightarrow>
     (let p = k_pipes k fd; r = pp_read_sem p; w = pp_write_sem p
      in k_pipes_initialized k \<and> \<not> INVALID_PIPE fd k \<and>
         pp_read_pos p < PIPE_BUFFER_SIZE \<and> pp_write_pos p < PIPE_BUFFER_SIZE \<and>
         sem_live r k \<and> sem_live w k \<and> r \<noteq> w \<and>
         sem_val r k = pipe_len p \<and> sem_val w k + pipe_len p = PIPE_BUFFER_SIZE - 1)"

lemma wake_up_pipes [simp]:
  "k_pipes (snd (wake_up_process pid k)) = k_pipes k"
  "k_pipes_initialized (snd (wake_up_process pid k)) = k_pipes_initialized k"
  by (simp_all add: wake_up_process_def is_sleeping_time_expired_def clear_sleep_def Let_def split_beta
      split: option.split)

lemma sems_ready_pipes [simp]:
  "k_pipes (sems_ready k) = k_pipes k" "k_pipes_initialized (sems_ready k) = k_pipes_initialized k"
  by (simp_all add: sems_ready_def init_sem_manager_def)

lemma sem_post_pipes [simp]:
  "k_pipes (sem_post s k) = k_pipes k" "k_pipes_initialized (sem_post s k) = k_pipes_initialized k"
  by (simp_all add: sem_post_def Let_def split_beta split: option.split)

lemma INVALID_PIPE_cong:
  "pp_state (k_pipes k' fd) = pp_state (k_pipes k fd) \<Longrightarrow> INVALID_PIPE fd k' = INVALID_PIPE fd k"
  by (simp add: INVALID_PIPE_def)

lemma length_pipe_data [simp]: "length (pipe_data p) = pipe_len p"
  by (simp add: pipe_data_def)

text \<open>A wait on a live semaphore with a unit takes it and does nothing else.\<close>

definition take_unit :: "u32 \<Rightarrow> kernel \<Rightarrow> kernel" where
  "take_unit s = upd_sem (unat s) (\<lambda>x. x\<lparr>s_value := s_value x - 1\<rparr>)"

lemma sem_wait_takes:
  assumes "sem_live s k" "0 < sem_val s k"
  shows "sem_wait s k = Returned (take_unit s k) () \<and> sem_wait_resume s k = Returned (take_unit s k) ()"
  using sem_wait_live [OF assms(1)] sem_live_D [OF assms(1)] assms(2)
  by (auto simp: sem_attempt_def sem_val_def take_unit_def)

lemma take_unit_simps [simp]:
  "k_pipes (take_unit s k) = k_pipes k" "k_pipes_initialized (take_unit s k) = k_pipes_initialized k"
  "k_procs (take_unit s k) = k_procs k" "sem_live t (take_unit s k) = sem_live t k"
  by (simp_all add: take_unit_def sem_live_def INVALID_SEM_def)

lemma take_unit_val:
  shows "0 < sem_val s k \<Longrightarrow> sem_val s (take_unit s k) = sem_val s k - 1"
    and "s \<noteq> t \<Longrightarrow> sem_val t (take_unit s k) = sem_val t k"
proof -
  have "v \<noteq> 0 \<Longrightarrow> unat (v - 1) = unat v - 1" for v :: u32
    by (simp add: unat_minus_one)
  then show "0 < sem_val s k \<Longrightarrow> sem_val s (take_unit s k) = sem_val s k - 1"
    by (auto simp: take_unit_def sem_val_def unat_gt_0)
  have "s \<noteq> t \<Longrightarrow> unat t \<noteq> unat s" by (metis word_unat_eq_iff)
  then show "s \<noteq> t \<Longrightarrow> sem_val t (take_unit s k) = sem_val t k"
    by (simp add: take_unit_def sem_val_def)
qed

lemma upd_pipe_sems [simp]:
  "sem_live s (upd_pipe i f k) = sem_live s k" "sem_val s (upd_pipe i f k) = sem_val s k"
  by (simp_all add: sem_live_def INVALID_SEM_def sem_val_def)

lemma put_byte_ok:
  fixes c :: u8
  assumes "pipe_ok fd k" "pipe_len (k_pipes k fd) < PIPE_BUFFER_SIZE - 1"
  defines "w \<equiv> pp_write_sem (k_pipes k fd)"
  defines "k' \<equiv> put_byte fd c (take_unit w k)"
  shows "0 < sem_val w k \<and> sem_live w k \<and> pipe_ok fd k' \<and>
    pipe_data (k_pipes k' fd) = pipe_data (k_pipes k fd) @ [c]"
proof -
  let ?p = "k_pipes k fd"
  define r where "r = pp_read_sem ?p"
  have ok: "k_pipes_initialized k" "\<not> INVALID_PIPE fd k" "pp_read_pos ?p < PIPE_BUFFER_SIZE"
      "pp_write_pos ?p < PIPE_BUFFER_SIZE" "sem_live r k" "sem_live w k" "r \<noteq> w"
      "sem_val r k = pipe_len ?p" "sem_val w k + pipe_len ?p = PIPE_BUFFER_SIZE - 1"
    using assms(1) by (simp_all add: pipe_ok_def Let_def r_def w_def)
  define q where "q = ?p\<lparr>pp_buffer := (pp_buffer ?p)(pp_write_pos ?p := c),
              pp_write_pos := (pp_write_pos ?p + 1) mod PIPE_BUFFER_SIZE\<rparr>"
  have q: "pp_buffer q = (pp_buffer ?p)(pp_write_pos ?p := c)" "pp_read_pos q = pp_read_pos ?p"
      "pp_write_pos q = Suc (pp_write_pos ?p) mod PIPE_BUFFER_SIZE" "pp_state q = pp_state ?p"
      "pp_read_sem q = pp_read_sem ?p" "pp_write_sem q = pp_write_sem ?p"
    by (simp_all add: q_def)
  define k1 where "k1 = upd_pipe fd (\<lambda>p. p\<lparr>pp_buffer := (pp_buffer p)(pp_write_pos p := c),
    pp_write_pos := (pp_write_pos p + 1) mod PIPE_BUFFER_SIZE\<rparr>) (take_unit w k)"
  have k': "k' = sem_post r k1" by (simp add: k'_def put_byte_def Let_def k1_def r_def)
  have p': "k_pipes k' fd = q" by (simp add: k' k1_def q_def)
  have len: "pipe_len q = Suc (pipe_len ?p)"
    using ring_count_push [OF ok(3,4)] assms(2) by (simp add: pipe_len_def q)
  have pos: "pp_write_pos ?p = (pp_read_pos ?p + pipe_len ?p) mod PIPE_BUFFER_SIZE"
    using ring_count_last [OF ok(3,4)] by (simp add: pipe_len_def)
  have "pipe_len ?p < PIPE_BUFFER_SIZE" using assms(2) by simp
  from ring_list_push [OF this, of "pp_buffer ?p" "pp_read_pos ?p" c]
  have data: "pipe_data q = pipe_data ?p @ [c]"
    unfolding pipe_data_def len q by (simp only: pos [symmetric])
  have w0: "0 < sem_val w k" using ok(9) assms(2) by linarith
  have live1: "sem_live r k1" "sem_live w k1" using ok(5,6) by (simp_all add: k1_def)
  have v1: "sem_val r k1 = pipe_len ?p" "sem_val w k1 = sem_val w k - 1"
    using ok(7,8) w0 by (simp_all add: k1_def take_unit_val)
  have "Suc (sem_val r k1) < 2 ^ 32" using v1(1) assms(2) by simp
  from sem_post_val [OF live1(1) this] other_semaphore(1) [OF live1(2,1)] ok(7)
  have s: "sem_live r k'" "sem_val r k' = Suc (pipe_len ?p)" "sem_live w k'" "sem_val w k' = sem_val w k - 1"
    using v1 by (auto simp: k')
  have "INVALID_PIPE fd k' = INVALID_PIPE fd k" by (rule INVALID_PIPE_cong) (simp add: p' q)
  moreover have "k_pipes_initialized k'" using ok(1) by (simp add: k' k1_def)
  moreover have "pp_read_sem (k_pipes k' fd) = r" "pp_write_sem (k_pipes k' fd) = w"
    by (simp_all add: p' q r_def w_def)
  ultimately have "pipe_ok fd k'"
    using ok s len w0 unfolding pipe_ok_def Let_def p' by (simp add: q)
  then show ?thesis using w0 ok(6) data by (simp add: p')
qed

lemma get_byte_ok:
  assumes "pipe_ok fd k" "pipe_data (k_pipes k fd) = c # cs"
  defines "r \<equiv> pp_read_sem (k_pipes k fd)"
  defines "g \<equiv> get_byte fd (take_unit r k)"
  shows "0 < sem_val r k \<and> sem_live r k \<and> pipe_ok fd (snd g) \<and> fst g = c \<and>
    pipe_data (k_pipes (snd g) fd) = cs"
proof -
  let ?p = "k_pipes k fd"
  define w where "w = pp_write_sem ?p"
  define k' where "k' = snd g"
  have ok: "k_pipes_initialized k" "\<not> INVALID_PIPE fd k" "pp_read_pos ?p < PIPE_BUFFER_SIZE"
      "pp_write_pos ?p < PIPE_BUFFER_SIZE" "sem_live r k" "sem_live w k" "r \<noteq> w"
      "sem_val r k = pipe_len ?p" "sem_val w k + pipe_len ?p = PIPE_BUFFER_SIZE - 1"
    using assms(1) by (simp_all add: pipe_ok_def Let_def r_def w_def)
  obtain n where n: "pipe_len ?p = Suc n"
    using assms(2) by (metis length_Cons length_pipe_data)
  define q where "q = ?p\<lparr>pp_read_pos := (pp_read_pos ?p + 1) mod PIPE_BUFFER_SIZE\<rparr>"
  have q: "pp_buffer q = pp_buffer ?p" "pp_read_pos q = Suc (pp_read_pos ?p) mod PIPE_BUFFER_SIZE"
      "pp_write_pos q = pp_write_pos ?p" "pp_state q = pp_state ?p"
      "pp_read_sem q = pp_read_sem ?p" "pp_write_sem q = pp_write_sem ?p"
    by (simp_all add: q_def)
  define k1 where "k1 = upd_pipe fd (\<lambda>p. p\<lparr>pp_read_pos := (pp_read_pos p + 1) mod PIPE_BUFFER_SIZE\<rparr>) (take_unit r k)"
  have g: "k' = sem_post w k1" "fst g = pp_buffer ?p (pp_read_pos ?p)"
    by (simp_all add: k'_def g_def get_byte_def Let_def k1_def w_def)
  have p': "k_pipes k' fd = q" by (simp add: g k1_def q_def)
  have len: "pipe_len q = n"
    using ring_count_pop [OF ok(3,4)] n by (simp add: pipe_len_def q)
  have d: "pipe_data ?p = pp_buffer ?p (pp_read_pos ?p) #
      ring_list (pp_buffer ?p) PIPE_BUFFER_SIZE (Suc (pp_read_pos ?p) mod PIPE_BUFFER_SIZE) n"
    unfolding pipe_data_def n by (rule ring_list_Cons [OF ok(3)])
  then have c: "fst g = c" and data: "pipe_data q = cs"
    using assms(2) g(2) by (simp_all add: pipe_data_def [of q] len q)
  have r0: "0 < sem_val r k" using ok(8) n by simp
  have live1: "sem_live r k1" "sem_live w k1" using ok(5,6) by (simp_all add: k1_def)
  have v1: "sem_val r k1 = n" "sem_val w k1 = sem_val w k"
    using ok(7,8) r0 n by (simp_all add: k1_def take_unit_val)
  have "Suc (sem_val w k1) < 2 ^ 32" using v1(2) ok(9) by simp
  from sem_post_val [OF live1(2) this] other_semaphore(1) [OF live1] ok(7)
  have s: "sem_live w k'" "sem_val w k' = Suc (sem_val w k)" "sem_live r k'" "sem_val r k' = n"
    using v1 by (auto simp: g)
  have "INVALID_PIPE fd k' = INVALID_PIPE fd k" by (rule INVALID_PIPE_cong) (simp add: p' q)
  moreover have "k_pipes_initialized k'" using ok(1) by (simp add: g k1_def)
  moreover have "pp_read_sem (k_pipes k' fd) = r" "pp_write_sem (k_pipes k' fd) = w"
    by (simp_all add: p' q r_def w_def)
  ultimately have "pipe_ok fd k'"
    using ok s len n unfolding pipe_ok_def Let_def p' by (simp add: q)
  then show ?thesis using r0 ok(5) data c by (simp add: p' k'_def [symmetric])
qed

text \<open>The loops, while there is room and while there are bytes.\<close>

lemma write_loop_room:
  "pipe_ok fd k \<Longrightarrow> pipe_len (k_pipes k fd) + length cs \<le> PIPE_BUFFER_SIZE - 1 \<Longrightarrow>
   \<exists>k'. write_loop fd cs m k = Returned k' (int (m + length cs)) \<and> pipe_ok fd k' \<and>
     pipe_data (k_pipes k' fd) = pipe_data (k_pipes k fd) @ cs"
proof (induction cs arbitrary: m k)
  case (Cons c cs)
  let ?w = "pp_write_sem (k_pipes k fd)"
  let ?k = "put_byte fd c (take_unit ?w k)"
  have l: "pipe_len (k_pipes k fd) < PIPE_BUFFER_SIZE - 1" using Cons.prems(2) by simp
  note b = put_byte_ok [OF Cons.prems(1) l, of c]
  then have "pipe_len (k_pipes ?k fd) = Suc (pipe_len (k_pipes k fd))"
    by (metis length_pipe_data length_append_singleton)
  then have "\<exists>k'. write_loop fd cs (Suc m) ?k = Returned k' (int (Suc m + length cs)) \<and> pipe_ok fd k' \<and>
      pipe_data (k_pipes k' fd) = pipe_data (k_pipes ?k fd) @ cs"
    using Cons.prems(2) b by (intro Cons.IH) auto
  moreover have "sem_wait ?w k = Returned (take_unit ?w k) ()"
    using sem_wait_takes b by blast
  ultimately show ?case using b by simp
qed simp

lemma read_loop_bytes:
  "pipe_ok fd k \<Longrightarrow> n \<le> pipe_len (k_pipes k fd) \<Longrightarrow>
   \<exists>k'. read_loop fd n got k = Returned k' (int (length got + n), got @ take n (pipe_data (k_pipes k fd))) \<and>
     pipe_ok fd k' \<and> pipe_data (k_pipes k' fd) = drop n (pipe_data (k_pipes k fd))"
proof (induction n arbitrary: got k)
  case (Suc n)
  let ?r = "pp_read_sem (k_pipes k fd)"
  have "pipe_data (k_pipes k fd) \<noteq> []" using Suc.prems(2) by (metis length_pipe_data list.size(3) not_less_eq_eq le0)
  then obtain c cs where d: "pipe_data (k_pipes k fd) = c # cs" by (cases "pipe_data (k_pipes k fd)") auto
  note b = get_byte_ok [OF Suc.prems(1) d]
  let ?k = "snd (get_byte fd (take_unit ?r k))"
  have "n \<le> pipe_len (k_pipes ?k fd)"
    using b d Suc.prems(2) by (metis Suc_le_mono length_Cons length_pipe_data)
  then have "\<exists>k'. read_loop fd n (got @ [c]) ?k = Returned k' (int (length (got @ [c]) + n),
      (got @ [c]) @ take n (pipe_data (k_pipes ?k fd))) \<and> pipe_ok fd k' \<and>
      pipe_data (k_pipes k' fd) = drop n (pipe_data (k_pipes ?k fd))"
    using b by (intro Suc.IH) auto
  moreover have "sem_wait ?r k = Returned (take_unit ?r k) ()"
    using sem_wait_takes b by blast
  moreover have "get_byte fd (take_unit ?r k) = (c, ?k)" using b by (simp add: prod_eq_iff)
  ultimately show ?case using b d by (simp add: split_beta)
qed simp

lemma pipe_ok_ready: "pipe_ok fd k \<Longrightarrow> pipes_ready k = k \<and> \<not> INVALID_PIPE fd k"
  by (simp add: pipe_ok_def Let_def pipes_ready_def)

lemma pipe_ok_sem_0:
  assumes "pipe_ok fd k"
  shows "pipe_len (k_pipes k fd) = 0 \<longleftrightarrow> sem_val (pp_read_sem (k_pipes k fd)) k = 0"
    and "pipe_len (k_pipes k fd) = PIPE_BUFFER_SIZE - 1 \<longleftrightarrow> sem_val (pp_write_sem (k_pipes k fd)) k = 0"
    and "sem_live (pp_read_sem (k_pipes k fd)) k" "sem_live (pp_write_sem (k_pipes k fd)) k"
  using assms by (auto simp: pipe_ok_def Let_def)

text \<open>
  Writing to a pipe that has room for all the bytes returns their number without giving
  up the processor and puts them, in order, behind the bytes already in the pipe.
\<close>

theorem write_pipe_appends:
  assumes "pipe_ok fd k" "fd \<noteq> 1" "fd \<noteq> 2" "0 < count" "nat count \<le> length buf"
    and "length (pipe_data (k_pipes k fd)) + nat count \<le> 511"
  shows "\<exists>k'. write_pipe (int fd) (Some buf) count k = Some (Returned k' count) \<and> pipe_ok fd k' \<and>
    pipe_data (k_pipes k' fd) = pipe_data (k_pipes k fd) @ take (nat count) buf"
proof -
  have "pipe_len (k_pipes k fd) + length (take (nat count) buf) \<le> PIPE_BUFFER_SIZE - 1"
    using assms(5,6) by simp
  from write_loop_room [OF assms(1) this, of 0] obtain k' where
    k': "write_loop fd (take (nat count) buf) 0 k = Returned k' count" "pipe_ok fd k'"
      "pipe_data (k_pipes k' fd) = pipe_data (k_pipes k fd) @ take (nat count) buf"
    using assms(4,5) by auto
  then show ?thesis
    using assms(2-4) pipe_ok_ready [OF assms(1)] by (simp add: write_pipe_def cannot_use_def)
qed

text \<open>
  Reading no more bytes than the pipe holds returns the oldest ones, in the order they
  were written, takes exactly those out, and does not give up the processor.
\<close>

theorem read_pipe_takes:
  assumes "pipe_ok (unat fd) k" "fd \<noteq> 1" "fd \<noteq> 2" "0 < count"
    and "nat count \<le> length (pipe_data (k_pipes k (unat fd)))"
  shows "\<exists>k'. read_pipe fd True count k = Returned k' (count, take (nat count) (pipe_data (k_pipes k (unat fd)))) \<and>
    pipe_ok (unat fd) k' \<and> pipe_data (k_pipes k' (unat fd)) = drop (nat count) (pipe_data (k_pipes k (unat fd)))"
proof -
  have ne: "unat fd \<noteq> 1" "unat fd \<noteq> 2"
    using assms(2,3) word_unat_eq_iff [of fd 1] word_unat_eq_iff [of fd 2] by simp_all
  have "nat count \<le> pipe_len (k_pipes k (unat fd))" using assms(5) by simp
  from read_loop_bytes [OF assms(1) this, of "[]"]
  show ?thesis
    using assms(4) ne pipe_ok_ready [OF assms(1)] by (simp add: read_pipe_def cannot_use_def)
qed

section \<open>Non-blocking calls\<close>

lemma get_sem_value_live: "sem_live s k \<Longrightarrow> get_sem_value s k = (s_value (k_sems k (unat s)), k)"
  using sem_live_D [of s k] by (simp add: get_sem_value_def)

lemma value_0_iff: "s_value (k_sems k (unat s)) = 0 \<longleftrightarrow> sem_val s k = 0"
  by (simp add: sem_val_def unat_eq_0)

lemma read_nonblocking_spec:
  "pipe_ok fd k \<Longrightarrow>
   \<exists>k'. read_loop_nonblocking fd n got k = Returned k' (int (length got + min n (pipe_len (k_pipes k fd))),
       got @ take n (pipe_data (k_pipes k fd))) \<and>
     pipe_ok fd k' \<and> pipe_data (k_pipes k' fd) = drop n (pipe_data (k_pipes k fd))"
proof (induction n arbitrary: got k)
  case (Suc n)
  let ?r = "pp_read_sem (k_pipes k fd)"
  note s0 = pipe_ok_sem_0 [OF Suc.prems]
  note gv = get_sem_value_live [OF s0(3)]
  show ?case
  proof (cases "pipe_data (k_pipes k fd)")
    case Nil
    then have l: "pipe_len (k_pipes k fd) = 0" by (metis length_pipe_data list.size(3))
    then have "s_value (k_sems k (unat ?r)) = 0" using s0(1) value_0_iff by blast
    then show ?thesis using Suc.prems Nil l gv by simp
  next
    case (Cons c cs)
    note b = get_byte_ok [OF Suc.prems Cons]
    let ?k = "snd (get_byte fd (take_unit ?r k))"
    have len: "pipe_len (k_pipes k fd) = Suc (pipe_len (k_pipes ?k fd))"
      using b Cons by (metis length_Cons length_pipe_data)
    have "s_value (k_sems k (unat ?r)) \<noteq> 0" using b value_0_iff [of k ?r] by simp
    moreover have "sem_wait ?r k = Returned (take_unit ?r k) ()" using sem_wait_takes b by blast
    moreover have "get_byte fd (take_unit ?r k) = (c, ?k)" using b by (simp add: prod_eq_iff)
    moreover have "\<exists>k'. read_loop_nonblocking fd n (got @ [c]) ?k = Returned k'
        (int (length (got @ [c]) + min n (pipe_len (k_pipes ?k fd))), (got @ [c]) @ take n (pipe_data (k_pipes ?k fd))) \<and>
        pipe_ok fd k' \<and> pipe_data (k_pipes k' fd) = drop n (pipe_data (k_pipes ?k fd))"
      using b by (intro Suc.IH) auto
    ultimately show ?thesis using gv b Cons len by (simp add: split_beta)
  qed
qed simp

lemma write_nonblocking_spec:
  "pipe_ok fd k \<Longrightarrow>
   \<exists>k'. write_loop_nonblocking fd cs m k =
       Returned k' (int (m + min (length cs) (511 - pipe_len (k_pipes k fd)))) \<and>
     pipe_ok fd k' \<and> pipe_data (k_pipes k' fd) =
       pipe_data (k_pipes k fd) @ take (511 - pipe_len (k_pipes k fd)) cs"
proof (induction cs arbitrary: m k)
  case (Cons c cs)
  let ?w = "pp_write_sem (k_pipes k fd)"
  note s0 = pipe_ok_sem_0 [OF Cons.prems]
  note gv = get_sem_value_live [OF s0(4)]
  have le: "pipe_len (k_pipes k fd) \<le> 511" using Cons.prems by (auto simp: pipe_ok_def Let_def)
  show ?case
  proof (cases "pipe_len (k_pipes k fd) = 511")
    case True
    then have "s_value (k_sems k (unat ?w)) = 0" using s0(2) value_0_iff [of k ?w] by simp
    then show ?thesis using Cons.prems True gv by simp
  next
    case False
    then have l: "pipe_len (k_pipes k fd) < PIPE_BUFFER_SIZE - 1" using le by simp
    note b = put_byte_ok [OF Cons.prems l, of c]
    let ?k = "put_byte fd c (take_unit ?w k)"
    have len: "pipe_len (k_pipes ?k fd) = Suc (pipe_len (k_pipes k fd))"
      using b by (metis length_append_singleton length_pipe_data)
    have room: "511 - pipe_len (k_pipes k fd) = Suc (511 - pipe_len (k_pipes ?k fd))"
      using len l by simp
    have "s_value (k_sems k (unat ?w)) \<noteq> 0" using b value_0_iff [of k ?w] by simp
    moreover have "sem_wait ?w k = Returned (take_unit ?w k) ()" using sem_wait_takes b by blast
    moreover have "\<exists>k'. write_loop_nonblocking fd cs (Suc m) ?k =
        Returned k' (int (Suc m + min (length cs) (511 - pipe_len (k_pipes ?k fd)))) \<and> pipe_ok fd k' \<and>
        pipe_data (k_pipes k' fd) = pipe_data (k_pipes ?k fd) @ take (511 - pipe_len (k_pipes ?k fd)) cs"
      using b by (intro Cons.IH) auto
    ultimately show ?thesis using gv b room by simp
  qed
qed simp

lemma read_pipe_nonblocking_returns:
  assumes "pipe_ok (unat fd) k" "fd \<noteq> 1" "fd \<noteq> 2" "0 < count"
  shows "\<exists>k'. read_pipe_nonblocking fd True count k = Returned k'
      (int (min (nat count) (pipe_len (k_pipes k (unat fd)))), take (nat count) (pipe_data (k_pipes k (unat fd)))) \<and>
    pipe_ok (unat fd) k' \<and> pipe_data (k_pipes k' (unat fd)) = drop (nat count) (pipe_data (k_pipes k (unat fd)))"
proof -
  have ne: "unat fd \<noteq> 1" "unat fd \<noteq> 2"
    using assms(2,3) word_unat_eq_iff [of fd 1] word_unat_eq_iff [of fd 2] by simp_all
  then have "\<not> cannot_use (unat fd) True count k"
    using assms(4) pipe_ok_ready [OF assms(1)] by (simp add: cannot_use_def)
  then have "read_pipe_nonblocking fd True count k = read_loop_nonblocking (unat fd) (nat count) [] k"
    using pipe_ok_ready [OF assms(1)] by (simp add: read_pipe_nonblocking_def)
  then show ?thesis using read_nonblocking_spec [OF assms(1), of "nat count" "[]"] by simp
qed

lemma write_pipe_nonblocking_returns:
  fixes fd :: u16
  assumes "pipe_ok (unat fd) k" "fd \<noteq> 1" "fd \<noteq> 2" "0 < count" "nat count \<le> length buf"
  shows "\<exists>k'. write_pipe_nonblocking (uint fd) (Some buf) count k = Some (Returned k'
      (int (min (nat count) (511 - pipe_len (k_pipes k (unat fd)))))) \<and>
    pipe_ok (unat fd) k' \<and> pipe_data (k_pipes k' (unat fd)) =
      pipe_data (k_pipes k (unat fd)) @ take (min (nat count) (511 - pipe_len (k_pipes k (unat fd)))) buf"
proof -
  have ne: "unat fd \<noteq> 1" "unat fd \<noteq> 2"
    using assms(2,3) word_unat_eq_iff [of fd 1] word_unat_eq_iff [of fd 2] by simp_all
  then have "\<not> cannot_use (unat fd) True count k"
    using assms(4) pipe_ok_ready [OF assms(1)] by (simp add: cannot_use_def)
  then have e: "write_pipe_nonblocking (uint fd) (Some buf) count k =
      Some (write_loop_nonblocking (unat fd) (take (nat count) buf) 0 k)"
    using pipe_ok_ready [OF assms(1)] by (simp add: write_pipe_nonblocking_def)
  obtain k' where k': "write_loop_nonblocking (unat fd) (take (nat count) buf) 0 k = Returned k'
      (int (0 + min (length (take (nat count) buf)) (511 - pipe_len (k_pipes k (unat fd)))))"
    "pipe_ok (unat fd) k'" "pipe_data (k_pipes k' (unat fd)) = pipe_data (k_pipes k (unat fd)) @
       take (511 - pipe_len (k_pipes k (unat fd))) (take (nat count) buf)"
    using write_nonblocking_spec [OF assms(1), of "take (nat count) buf" 0] by blast
  have "length (take (nat count) buf) = nat count" using assms(5) by simp
  then show ?thesis using e k' by (simp add: take_take min.commute)
qed

text \<open>
  The non-blocking calls never give up the processor. A read returns as many bytes as the
  pipe holds, up to the number asked for, oldest first; a write puts in as many as there is
  room for and returns their number.
\<close>

theorem nonblocking_pipe:
  fixes fd :: u16
  assumes "pipe_ok (unat fd) k" "fd \<noteq> 1" "fd \<noteq> 2" "0 < count" "nat count \<le> length buf"
  shows "(\<exists>k'. read_pipe_nonblocking fd True count k =
      Returned k' (int (min (nat count) (pipe_len (k_pipes k (unat fd)))),
                   take (nat count) (pipe_data (k_pipes k (unat fd)))) \<and>
      pipe_ok (unat fd) k' \<and>
      pipe_data (k_pipes k' (unat fd)) = drop (nat count) (pipe_data (k_pipes k (unat fd)))) \<and>
    (\<exists>k'. write_pipe_nonblocking (uint fd) (Some buf) count k =
      Some (Returned k' (int (min (nat count) (511 - pipe_len (k_pipes k (unat fd)))))) \<and>
      pipe_ok (unat fd) k' \<and>
      pipe_data (k_pipes k' (unat fd)) = pipe_data (k_pipes k (unat fd)) @
        take (min (nat count) (511 - pipe_len (k_pipes k (unat fd)))) buf)"
  using read_pipe_nonblocking_returns [OF assms(1-4)] write_pipe_nonblocking_returns [OF assms] by blast

text \<open>A kernel whose pipe 0 holds the bytes 65, 66, ..., \<open>n\<close> of them.\<close>

definition pipe_kernel :: "nat \<Rightarrow> kernel" where
  "pipe_kernel n = static_kernel\<lparr>k_sems_initialized := True,
     k_sems := (\<lambda>i. (init_sem zero_sem)\<lparr>s_state := SEMAPHORE_USED,
       s_value := of_nat (if i = 0 then n else 511 - n)\<rparr>),
     k_pipes_initialized := True,
     k_pipes := (\<lambda>_. zero_pipe\<lparr>pp_buffer := \<lambda>i. of_nat (65 + i), pp_write_pos := n, pp_state := PIPE_USED,
       pp_read_sem := 0, pp_write_sem := 1\<rparr>)\<rparr>"

lemma pipe_kernel_ok:
  assumes "n < 512"
  shows "pipe_ok 0 (pipe_kernel n) \<and> pipe_data (k_pipes (pipe_kernel n) 0) = map (\<lambda>i. of_nat (65 + i)) [0..<n]"
proof -
  have n: "unat (of_nat n :: u32) = n" "unat (of_nat (511 - n) :: u32) = 511 - n"
    using assms by (simp_all only: unat_of_nat) simp_all
  have l: "pipe_len (k_pipes (pipe_kernel n) 0) = n"
    using assms by (simp add: pipe_len_def pipe_kernel_def zero_pipe_def)
  have "sem_live 0 (pipe_kernel n)" "sem_live 1 (pipe_kernel n)"
    by (simp_all add: sem_live_def INVALID_SEM_def pipe_kernel_def)
  moreover have "sem_val 0 (pipe_kernel n) = n" "sem_val 1 (pipe_kernel n) = 511 - n"
    using n by (simp_all add: sem_val_def pipe_kernel_def)
  moreover have "k_pipes_initialized (pipe_kernel n)" "\<not> INVALID_PIPE 0 (pipe_kernel n)"
      "pp_read_pos (k_pipes (pipe_kernel n) 0) = 0" "pp_write_pos (k_pipes (pipe_kernel n) 0) = n"
      "pp_read_sem (k_pipes (pipe_kernel n) 0) = 0" "pp_write_sem (k_pipes (pipe_kernel n) 0) = 1"
    by (simp_all add: INVALID_PIPE_def pipe_kernel_def zero_pipe_def)
  ultimately have "pipe_ok 0 (pipe_kernel n)"
    using l assms by (simp add: pipe_ok_def Let_def)
  moreover have "pipe_data (k_pipes (pipe_kernel n) 0) = map (\<lambda>i. of_nat (65 + i)) [0..<n]"
    unfolding pipe_data_def l using assms
    by (auto simp: ring_list_def pipe_kernel_def zero_pipe_def)
  ultimately show ?thesis ..
qed

lemma write_pipe_appends_witness:
  "\<exists>k'. write_pipe 0 (Some [67, 68]) 2 (pipe_kernel 2) = Some (Returned k' 2) \<and>
     pipe_data (k_pipes k' 0) = [65, 66, 67, 68]"
proof -
  have "pipe_ok 0 (pipe_kernel 2)" "pipe_data (k_pipes (pipe_kernel 2) 0) = [65, 66]"
    using pipe_kernel_ok [of 2] by (simp_all add: upt_rec)
  then show ?thesis using write_pipe_appends [of 0 "pipe_kernel 2" 2 "[67, 68]"] by auto
qed

lemma read_pipe_takes_witness:
  "\<exists>k'. read_pipe 0 True 2 (pipe_kernel 3) = Returned k' (2, [65, 66]) \<and>
     pipe_data (k_pipes k' 0) = [67]"
proof -
  have "pipe_ok 0 (pipe_kernel 3)" "pipe_data (k_pipes (pipe_kernel 3) 0) = [65, 66, 67]"
    using pipe_kernel_ok [of 3] by (simp_all add: upt_rec)
  then show ?thesis using read_pipe_takes [of 0 "pipe_kernel 3" 2] by auto
qed

lemma nonblocking_pipe_witness:
  "(\<exists>k'. read_pipe_nonblocking 0 True 5 (pipe_kernel 3) = Returned k' (3, [65, 66, 67])) \<and>
   (\<exists>k'. write_pipe_nonblocking 0 (Some [1, 2, 3, 4, 5]) 5 (pipe_kernel 3) = Some (Returned k' 5))"
proof -
  have p: "pipe_ok 0 (pipe_kernel 3)" "pipe_data (k_pipes (pipe_kernel 3) 0) = [65, 66, 67]"
    using pipe_kernel_ok [of 3] by (simp_all add: upt_rec)
  then have "pipe_len (k_pipes (pipe_kernel 3) 0) = 3" by (simp flip: length_pipe_data)
  then show ?thesis using nonblocking_pipe [of 0 "pipe_kernel 3" 5 "[1, 2, 3, 4, 5]"] p by auto
qed

section \<open>A reader that has to wait\<close>

lemma read_resume_bytes:
  assumes "pipe_ok fd k2" "pp_read_sem (k_pipes k2 fd) = r" "n < length (pipe_data (k_pipes k2 fd))"
  shows "\<exists>k3. read_pipe_resume (r, fd, n, []) k2 =
      Returned k3 (int (Suc n), take (Suc n) (pipe_data (k_pipes k2 fd))) \<and> pipe_ok fd k3 \<and>
      pipe_data (k_pipes k3 fd) = drop (Suc n) (pipe_data (k_pipes k2 fd))"
proof -
  obtain c cs where d: "pipe_data (k_pipes k2 fd) = c # cs"
    using assms(3) by (cases "pipe_data (k_pipes k2 fd)") simp_all
  note b = get_byte_ok [OF assms(1) d, unfolded assms(2)]
  define k where "k = snd (get_byte fd (take_unit r k2))"
  have k: "pipe_ok fd k" "pipe_data (k_pipes k fd) = cs" using b by (simp_all add: k_def)
  then have "n \<le> pipe_len (k_pipes k fd)" using assms(3) d by (metis length_Cons length_pipe_data less_Suc_eq_le)
  from read_loop_bytes [OF k(1) this, of "[c]"] k
  obtain k3 where "read_loop fd n [c] k = Returned k3 (int (Suc n), c # take n cs)" "pipe_ok fd k3"
      "pipe_data (k_pipes k3 fd) = drop n cs" by auto
  moreover have "sem_wait_resume r k2 = Returned (take_unit r k2) ()" using sem_wait_takes b by blast
  moreover have "get_byte fd (take_unit r k2) = (c, k)" using b by (simp add: prod_eq_iff k_def)
  ultimately show ?thesis using d by (simp add: read_pipe_resume_def)
qed

text \<open>
  C27. A read of an empty pipe blocks its process at the end of the queue of the reading
  semaphore, with the whole read still to do, and leaves the pipe as it was. However it is
  resumed, if the pipe then holds the bytes asked for, the call ends with the oldest of them.
\<close>

theorem read_pipe_blocks:
  assumes "pipe_ok (unat fd) k" "pipe_data (k_pipes k (unat fd)) = []" "fd \<noteq> 1" "fd \<noteq> 2" "0 < count"
    and "r = pp_read_sem (k_pipes k (unat fd))"
    and "sem_ok (k_sems k (unat r))" "sem_room (k_sems k (unat r))"
    and "pid = get_current_pid (k_procs k)" "pid \<noteq> NOT_A_PROCESS"
    and "slot_of (k_procs k) pid = Some i" "p_state (process_table (k_procs k) i) = RUNNING"
  shows "(\<exists>k1. read_pipe fd True count k = Suspended k1 (r, unat fd, nat count - 1, []) \<and>
      k_pipes k1 = k_pipes k \<and> pipe_ok (unat fd) k1 \<and>
      sem_waiters (k_sems k1 (unat r)) = sem_waiters (k_sems k (unat r)) @ [pid] \<and>
      k_procs k1 = upd_pcb i (\<lambda>p. p\<lparr>p_previous := READY, p_state := BLOCKED\<rparr>) (k_procs k)) \<and>
    (\<forall>k2. pipe_ok (unat fd) k2 \<and> pp_read_sem (k_pipes k2 (unat fd)) = r \<and>
         nat count \<le> length (pipe_data (k_pipes k2 (unat fd))) \<longrightarrow>
      (\<exists>k3. read_pipe_resume (r, unat fd, nat count - 1, []) k2 =
          Returned k3 (count, take (nat count) (pipe_data (k_pipes k2 (unat fd)))) \<and>
        pipe_ok (unat fd) k3 \<and>
        pipe_data (k_pipes k3 (unat fd)) = drop (nat count) (pipe_data (k_pipes k2 (unat fd)))))"
proof (intro conjI allI impI)
  let ?fd = "unat fd"
  obtain n where n: "nat count = Suc n" using assms(5) by (cases "nat count") auto
  have ne: "?fd \<noteq> 1" "?fd \<noteq> 2"
    using assms(3,4) word_unat_eq_iff [of fd 1] word_unat_eq_iff [of fd 2] by simp_all
  have l: "pipe_len (k_pipes k ?fd) = 0" using assms(2) by (simp flip: length_pipe_data)
  note s0 = pipe_ok_sem_0 [OF assms(1), folded assms(6)]
  have v: "s_value (k_sems k (unat r)) = 0" using l s0(1) value_0_iff by blast
  define k1 where "k1 = sem_enqueue_current (unat r) k"
  have w: "sem_wait r k = Suspended k1 ()"
    using sem_wait_live [OF s0(3)] v sem_live_D [OF s0(3)] by (simp add: sem_attempt_def k1_def)
  have p1: "k_pipes k1 = k_pipes k" "k_pipes_initialized k1 = k_pipes_initialized k"
    by (simp_all add: k1_def sem_enqueue_current_def Let_def)
  have sv: "s_value (k_sems k1 j) = s_value (k_sems k j)" "s_state (k_sems k1 j) = s_state (k_sems k j)" for j
    by (simp_all add: k1_def)
  have live: "sem_live t k1 = sem_live t k" "sem_val t k1 = sem_val t k" for t
    using sv by (simp_all add: sem_live_def INVALID_SEM_def sem_val_def k1_def)
  have "INVALID_PIPE ?fd k1 = INVALID_PIPE ?fd k" by (rule INVALID_PIPE_cong) (simp add: p1)
  then have ok: "pipe_ok ?fd k1" using assms(1) by (simp add: pipe_ok_def Let_def p1 live)
  have "sem_waiters (k_sems k1 (unat r)) = sem_waiters (k_sems k (unat r)) @ [pid]"
    using sq.enq_items [OF assms(7,8,10)] assms(9) by (simp add: k1_def)
  moreover have "k_procs k1 = upd_pcb i (\<lambda>p. p\<lparr>p_previous := READY, p_state := BLOCKED\<rparr>) (k_procs k)"
    using assms(9,11,12) by (simp add: k1_def block_process_def saved_state_def upd_pcb_def)
  moreover have "read_pipe fd True count k = Suspended k1 (r, ?fd, n, [])"
    using w ne assms(5,6) pipe_ok_ready [OF assms(1)] by (simp add: read_pipe_def cannot_use_def n)
  ultimately show "\<exists>k1. read_pipe fd True count k = Suspended k1 (r, unat fd, nat count - 1, []) \<and>
      k_pipes k1 = k_pipes k \<and> pipe_ok (unat fd) k1 \<and>
      sem_waiters (k_sems k1 (unat r)) = sem_waiters (k_sems k (unat r)) @ [pid] \<and>
      k_procs k1 = upd_pcb i (\<lambda>p. p\<lparr>p_previous := READY, p_state := BLOCKED\<rparr>) (k_procs k)"
    using p1(1) ok n by auto
next
  fix k2
  assume k2: "pipe_ok (unat fd) k2 \<and> pp_read_sem (k_pipes k2 (unat fd)) = r \<and>
    nat count \<le> length (pipe_data (k_pipes k2 (unat fd)))"
  define n where "n = nat count - 1"
  have n: "nat count = Suc n" "int (Suc n) = count" using assms(5) by (simp_all add: n_def)
  have "n < length (pipe_data (k_pipes k2 (unat fd)))" using k2 n by simp
  with read_resume_bytes [of "unat fd" k2 r n] k2
  show "\<exists>k3. read_pipe_resume (r, unat fd, nat count - 1, []) k2 =
          Returned k3 (count, take (nat count) (pipe_data (k_pipes k2 (unat fd)))) \<and>
        pipe_ok (unat fd) k3 \<and>
        pipe_data (k_pipes k3 (unat fd)) = drop (nat count) (pipe_data (k_pipes k2 (unat fd)))"
    using n by simp
qed

lemma read_pipe_blocks_witness:
  "\<exists>k k1. read_pipe 0 True 1 k = Suspended k1 (0, 0, 0, []) \<and> sem_waiters (k_sems k1 0) = [7] \<and>
     p_state (process_table (k_procs k1) 1) = BLOCKED"
proof -
  let ?k = "(pipe_kernel 0)\<lparr>k_procs := static_procs\<lparr>procs_initialized := True, current_process := 1,
    process_table := \<lambda>i. plain_pcb (if i = 1 then 7 else 0) RUNNING\<rparr>\<rparr>"
  have e: "k_sems ?k = k_sems (pipe_kernel 0)" "k_pipes ?k = k_pipes (pipe_kernel 0)"
    "k_pipes_initialized ?k = k_pipes_initialized (pipe_kernel 0)"
    "k_sems_initialized ?k = k_sems_initialized (pipe_kernel 0)" by simp_all
  have "sem_live s ?k = sem_live s (pipe_kernel 0)" "sem_val s ?k = sem_val s (pipe_kernel 0)" for s
    by (simp_all add: sem_live_def INVALID_SEM_def sem_val_def)
  then have "pipe_ok 0 ?k = pipe_ok 0 (pipe_kernel 0)" unfolding pipe_ok_def INVALID_PIPE_def Let_def e by simp
  then have ok: "pipe_ok 0 ?k" "pipe_data (k_pipes ?k 0) = []" using pipe_kernel_ok [of 0] by simp_all
  have s: "sem_ok (k_sems ?k 0)" "sem_room (k_sems ?k 0)" "sem_waiters (k_sems ?k 0) = []"
    by (simp_all add: sem_ok_def sem_room_def sem_waiters_def sem_pending_def init_sem_def pipe_kernel_def)
  have c: "7 = get_current_pid (k_procs ?k)" "(7::u16) \<noteq> NOT_A_PROCESS"
      "slot_of (k_procs ?k) 7 = Some 1" "p_state (process_table (k_procs ?k) 1) = RUNNING"
      "pp_read_sem (k_pipes ?k 0) = 0"
    by (simp_all add: get_current_pid_def slot_ofI pipe_kernel_def zero_pipe_def)
  have "\<exists>k1. read_pipe 0 True 1 ?k = Suspended k1 (0, 0, 0, []) \<and> sem_waiters (k_sems k1 0) = [7] \<and>
     k_procs k1 = upd_pcb 1 (\<lambda>p. p\<lparr>p_previous := READY, p_state := BLOCKED\<rparr>) (k_procs ?k)"
    using read_pipe_blocks [of 0 ?k 1 0 7 1] ok s c unfolding unat_0 by auto
  then obtain k1 where "read_pipe 0 True 1 ?k = Suspended k1 (0, 0, 0, [])" "sem_waiters (k_sems k1 0) = [7]"
     "k_procs k1 = upd_pcb 1 (\<lambda>p. p\<lparr>p_previous := READY, p_state := BLOCKED\<rparr>) (k_procs ?k)" by blast
  then show ?thesis by (intro exI [of _ ?k] exI [of _ k1]) simp
qed



section \<open>Opening and closing\<close>

lemma create_sem_lowest:
  assumes "k_sems_initialized k" "a < MAX_SEMAPHORES" "s_state (k_sems k a) = SEMAPHORE_FREE"
  obtains i where "i < MAX_SEMAPHORES" "s_state (k_sems k i) = SEMAPHORE_FREE"
    "create_sem v k = (of_nat i, upd_sem i (\<lambda>x. x\<lparr>s_state := SEMAPHORE_USED, s_value := v\<rparr>) k)"
proof -
  let ?f = "find_from (\<lambda>i. s_state (k_sems k i) = SEMAPHORE_FREE) 0 MAX_SEMAPHORES"
  obtain i where i: "?f = Some i" using find_from_NoneD [of _ 0 MAX_SEMAPHORES a] assms(2,3) by (cases ?f) auto
  then have "i < MAX_SEMAPHORES" "s_state (k_sems k i) = SEMAPHORE_FREE" using find_from_SomeD [OF i] by auto
  moreover have "create_sem v k = (of_nat i, upd_sem i (\<lambda>x. x\<lparr>s_state := SEMAPHORE_USED, s_value := v\<rparr>) k)"
    using i assms(1) by (simp add: create_sem_def found_free_sem_def sems_ready_def upd_sem_def)
  ultimately show ?thesis using that by blast
qed

lemma unat_sem_index: "i < MAX_SEMAPHORES \<Longrightarrow> unat (of_nat i :: u32) = i"
  by (simp only: unat_of_nat) simp

lemma sem_index_valid: "i < MAX_SEMAPHORES \<Longrightarrow> (of_nat i :: u32) \<noteq> -1"
proof -
  have "unat (-1 :: u32) = 2 ^ 32 - 1" by (simp add: unsigned_minus_1_eq_mask mask_eq_exp_minus_1)
  then show "i < MAX_SEMAPHORES \<Longrightarrow> ?thesis" using unat_sem_index [of i] by auto
qed

text \<open>
  When a descriptor above 2 and two semaphores are free, \<open>create_pipe\<close> returns a descriptor
  between 3 and 255 that was free. That pipe is then open and empty, every other pipe, the
  processes and the semaphores in use are as they were.
\<close>

theorem create_pipe_opens:
  assumes "k_pipes_initialized k" "k_sems_initialized k" "unat (k_pipe_count k) < MAX_AMOUNT_PIPES"
    and "3 \<le> j" "j < MAX_AMOUNT_PIPES" "pp_state (k_pipes k j) = PIPE_FREE"
    and "a < MAX_SEMAPHORES" "b < MAX_SEMAPHORES" "a \<noteq> b"
    and "s_state (k_sems k a) = SEMAPHORE_FREE" "s_state (k_sems k b) = SEMAPHORE_FREE"
  shows "\<exists>i k'. create_pipe k = (int i, k') \<and> 3 \<le> i \<and> i < MAX_AMOUNT_PIPES \<and>
    pp_state (k_pipes k i) = PIPE_FREE \<and> pipe_ok i k' \<and> pipe_data (k_pipes k' i) = [] \<and>
    (\<forall>m. m \<noteq> i \<longrightarrow> k_pipes k' m = k_pipes k m) \<and> k_procs k' = k_procs k \<and>
    (\<forall>m. s_state (k_sems k m) = SEMAPHORE_USED \<longrightarrow> k_sems k' m = k_sems k m)"
proof -
  let ?f = "find_from (\<lambda>i. pp_state (k_pipes k i) = PIPE_FREE) 3 MAX_AMOUNT_PIPES"
  obtain i where f: "?f = Some i" using find_from_NoneD [of _ 3 MAX_AMOUNT_PIPES j] assms(4-6) by (cases ?f) auto
  then have i: "3 \<le> i" "i < MAX_AMOUNT_PIPES" "pp_state (k_pipes k i) = PIPE_FREE" using find_from_SomeD [OF f] by auto
  define k0 where "k0 = clean_buffer i (upd_pipe i (\<lambda>p. p\<lparr>pp_read_pos := 0, pp_write_pos := 0, pp_state := PIPE_USED\<rparr>) k)"
  have k0: "k_sems k0 = k_sems k" "k_sems_initialized k0" "k_pipes_initialized k0" "k_procs k0 = k_procs k"
      "k_pipe_count k0 = k_pipe_count k"
    using assms(1,2) by (simp_all add: k0_def clean_buffer_def)
  obtain r where r: "r < MAX_SEMAPHORES" "s_state (k_sems k r) = SEMAPHORE_FREE"
    "create_sem 0 k0 = (of_nat r, upd_sem r (\<lambda>x. x\<lparr>s_state := SEMAPHORE_USED, s_value := 0\<rparr>) k0)"
    using create_sem_lowest [of k0 a 0] assms(7,10) k0(1,2) by metis
  define k2 where "k2 = upd_pipe i (\<lambda>p. p\<lparr>pp_read_sem := of_nat r\<rparr>)
    (upd_sem r (\<lambda>x. x\<lparr>s_state := SEMAPHORE_USED, s_value := 0\<rparr>) k0)"
  have k2: "k_sems k2 = (k_sems k)(r := (k_sems k r)\<lparr>s_state := SEMAPHORE_USED, s_value := 0\<rparr>)"
    "k_sems_initialized k2" using k0 by (simp_all add: k2_def)
  obtain c where "c < MAX_SEMAPHORES" "s_state (k_sems k2 c) = SEMAPHORE_FREE"
    using assms(7-11) k2(1) by (metis fun_upd_other)
  then obtain w where w: "w < MAX_SEMAPHORES" "s_state (k_sems k2 w) = SEMAPHORE_FREE"
    "create_sem 511 k2 = (of_nat w, upd_sem w (\<lambda>x. x\<lparr>s_state := SEMAPHORE_USED, s_value := 511\<rparr>) k2)"
    using create_sem_lowest [of k2 c 511] k2(2) by metis
  have rw: "r \<noteq> w" "s_state (k_sems k w) = SEMAPHORE_FREE" using w(2) k2(1) by (auto split: if_splits)
  define k4 where "k4 = upd_pipe i (\<lambda>p. p\<lparr>pp_write_sem := of_nat w\<rparr>)
    (upd_sem w (\<lambda>x. x\<lparr>s_state := SEMAPHORE_USED, s_value := 511\<rparr>) k2)"
  define k' where "k' = k4\<lparr>k_pipe_count := k_pipe_count k4 + 1\<rparr>"
  have ps: "pipe_sems i k0 = k4" using r(3) w(3) by (simp add: pipe_sems_def k4_def k2_def)
  have p: "k_pipes k' = (k_pipes k)(i := k_pipes k' i)" "pp_read_pos (k_pipes k' i) = 0" "pp_write_pos (k_pipes k' i) = 0"
      "pp_state (k_pipes k' i) = PIPE_USED" "pp_read_sem (k_pipes k' i) = of_nat r" "pp_write_sem (k_pipes k' i) = of_nat w"
      "k_pipes k4 = k_pipes k'"
    by (simp_all add: k'_def k4_def k2_def k0_def clean_buffer_def)
  have "create_pipe k = (int i, k')"
  proof -
    have "find_available_pipe k = i" "pipes_ready k = k"
      using f assms(1) by (simp_all add: find_available_pipe_def pipes_ready_def)
    moreover have "pp_read_sem (k_pipes k4 i) \<noteq> -1" "pp_write_sem (k_pipes k4 i) \<noteq> -1"
      using sem_index_valid [OF r(1)] sem_index_valid [OF w(1)] unfolding p(5-7) .
    moreover have "\<not> MAX_AMOUNT_PIPES \<le> unat (k_pipe_count k)" "i \<noteq> 0" using assms(3) i(1) by simp_all
    ultimately show ?thesis
      unfolding create_pipe_def Let_def by (simp only: k0_def [symmetric] ps k'_def if_False simp_thms)
  qed
  moreover have s: "k_sems k' = (k_sems k2)(w := (k_sems k w)\<lparr>s_state := SEMAPHORE_USED, s_value := 511\<rparr>)"
    using k2(1) rw by (simp add: k'_def k4_def)
  moreover have init: "k_sems_initialized k'" using k2(2) by (simp add: k'_def k4_def)
  moreover have "k_pipes_initialized k'" "k_procs k' = k_procs k"
    using k0(3,4) by (simp_all add: k'_def k4_def k2_def)
  moreover have "pipe_len (k_pipes k' i) = 0" by (simp add: pipe_len_def p(2,3))
  moreover have "sem_live (of_nat r) k'" "sem_live (of_nat w) k'" "sem_val (of_nat r) k' = 0" "sem_val (of_nat w) k' = 511"
    using s init k2(1) rw unat_sem_index [OF r(1)] unat_sem_index [OF w(1)] r(1) w(1)
    by (simp_all add: sem_live_def INVALID_SEM_def sem_val_def)
  moreover have "(of_nat r :: u32) \<noteq> of_nat w"
    using rw(1) unat_sem_index [OF r(1)] unat_sem_index [OF w(1)] by metis
  moreover have "\<not> INVALID_PIPE i k'" using i p(4) by (simp add: INVALID_PIPE_def)
  ultimately have "create_pipe k = (int i, k') \<and> pipe_ok i k' \<and> pipe_data (k_pipes k' i) = [] \<and> k_procs k' = k_procs k"
    by (simp add: pipe_ok_def Let_def p(2-6) pipe_data_def)
  moreover have "m \<noteq> i \<Longrightarrow> k_pipes k' m = k_pipes k m" for m using p(1) by (metis fun_upd_other)
  moreover have "s_state (k_sems k m) = SEMAPHORE_USED \<Longrightarrow> k_sems k' m = k_sems k m" for m
    using s(1) k2(1) r(2) rw(2) by auto
  ultimately show ?thesis using i by blast
qed

lemma create_pipe_opens_witness:
  "\<exists>i k k'. create_pipe k = (int i, k') \<and> 3 \<le> i \<and> pipe_ok i k' \<and> pipe_data (k_pipes k' i) = []"
proof -
  let ?k = "static_kernel\<lparr>k_pipes_initialized := True, k_sems_initialized := True\<rparr>"
  have "k_pipes_initialized ?k" "k_sems_initialized ?k" "unat (k_pipe_count ?k) < MAX_AMOUNT_PIPES"
      "pp_state (k_pipes ?k 3) = PIPE_FREE" "s_state (k_sems ?k 0) = SEMAPHORE_FREE"
      "s_state (k_sems ?k 1) = SEMAPHORE_FREE"
    by (simp_all add: static_kernel_def zero_pipe_def zero_sem_def)
  then show ?thesis using create_pipe_opens [of ?k 3 0 1] by auto
qed

lemma sem_post_invalid: "k_sems_initialized k \<Longrightarrow> INVALID_SEM s k \<Longrightarrow> sem_post s k = k"
  by (simp add: sem_post_def sems_ready_def)

lemma sem_wait_invalid:
  "k_sems_initialized k \<Longrightarrow> INVALID_SEM s k \<Longrightarrow>
   sem_wait s k = Returned k () \<and> sem_wait_resume s k = Returned k ()"
  by (simp add: sem_wait_def sem_wait_resume_def sems_ready_def)

text \<open>A pipe that has been closed and whose semaphores have not been given out again.\<close>

definition pipe_closed :: "nat \<Rightarrow> kernel \<Rightarrow> bool" where
  "pipe_closed fd k \<longleftrightarrow> k_sems_initialized k \<and> pp_state (k_pipes k fd) = PIPE_FREE \<and>
     INVALID_SEM (pp_read_sem (k_pipes k fd)) k \<and> INVALID_SEM (pp_write_sem (k_pipes k fd)) k \<and>
     (\<forall>i<PIPE_BUFFER_SIZE. pp_buffer (k_pipes k fd) i = 0) \<and> pp_read_pos (k_pipes k fd) < PIPE_BUFFER_SIZE"

lemma get_byte_closed:
  "pipe_closed fd k \<Longrightarrow> fst (get_byte fd k) = 0 \<and> pipe_closed fd (snd (get_byte fd k)) \<and>
   pp_read_sem (k_pipes (snd (get_byte fd k)) fd) = pp_read_sem (k_pipes k fd)"
  by (simp add: pipe_closed_def get_byte_def Let_def sem_post_invalid INVALID_SEM_def)

lemma read_loop_closed:
  "pipe_closed fd k \<Longrightarrow>
   \<exists>k'. read_loop fd n got k = Returned k' (int (length got + n), got @ replicate n 0)"
proof (induction n arbitrary: got k)
  case (Suc n)
  define k1 where "k1 = snd (get_byte fd k)"
  have g: "get_byte fd k = (0, k1)" "pipe_closed fd k1"
    using get_byte_closed [OF Suc.prems] by (simp_all add: prod_eq_iff k1_def)
  have "sem_wait (pp_read_sem (k_pipes k fd)) k = Returned k ()"
    using Suc.prems by (simp add: pipe_closed_def sem_wait_invalid)
  with g Suc.IH [OF g(2), of "got @ [0]"] show ?case by simp
qed simp

lemma read_resume_closed:
  assumes "pipe_closed fd k"
  shows "\<exists>k'. read_pipe_resume (pp_read_sem (k_pipes k fd), fd, n, []) k =
    Returned k' (int (Suc n), replicate (Suc n) 0)"
proof -
  define k1 where "k1 = snd (get_byte fd k)"
  have g: "get_byte fd k = (0, k1)" "pipe_closed fd k1"
    using get_byte_closed [OF assms] by (simp_all add: prod_eq_iff k1_def)
  have "sem_wait_resume (pp_read_sem (k_pipes k fd)) k = Returned k ()"
    using assms by (simp add: pipe_closed_def sem_wait_invalid)
  with g read_loop_closed [OF g(2), of n "[0]"] show ?thesis by (simp add: read_pipe_resume_def)
qed

lemma wake_all_simps [simp]:
  "k_pipes (wake_all ps k) = k_pipes k" "k_sems_initialized (wake_all ps k) = k_sems_initialized k"
  by (induction ps arbitrary: k) (simp_all add: wake_all_def)

lemma close_pipe_closes:
  assumes "pipe_ok (unat fd) k" "fd \<noteq> 0"
    and "sem_ok (k_sems k (unat (pp_read_sem (k_pipes k (unat fd)))))"
    and "sem_ok (k_sems k (unat (pp_write_sem (k_pipes k (unat fd)))))"
  shows "fst (close_pipe fd k) = 0 \<and> pipe_closed (unat fd) (snd (close_pipe fd k)) \<and>
    pp_read_sem (k_pipes (snd (close_pipe fd k)) (unat fd)) = pp_read_sem (k_pipes k (unat fd))"
proof -
  let ?i = "unat fd" and ?p = "k_pipes k (unat fd)"
  define r w where "r = pp_read_sem ?p" and "w = pp_write_sem ?p"
  define k1 where "k1 = (upd_pipe ?i (\<lambda>p. p\<lparr>pp_state := PIPE_FREE, pp_read_pos := 0, pp_write_pos := 0\<rparr>) k)
                     \<lparr>k_pipe_count := k_pipe_count k - 1\<rparr>"
  have ok: "sem_live r k" "sem_live w k" "r \<noteq> w" "\<not> INVALID_PIPE ?i k"
    using assms(1) by (simp_all add: pipe_ok_def Let_def r_def w_def)
  have ne: "unat r \<noteq> unat w" using ok(3) by (simp add: word_unat_eq_iff)
  have k1: "k_sems k1 = k_sems k" "k_sems_initialized k1 = k_sems_initialized k"
    "pp_read_sem (k_pipes k1 ?i) = r" "pp_write_sem (k_pipes k1 ?i) = w" "pp_state (k_pipes k1 ?i) = PIPE_FREE"
    "pp_read_pos (k_pipes k1 ?i) = 0"
    by (simp_all add: k1_def r_def w_def)
  have l1: "sem_live r k1" using ok(1) by (simp add: sem_live_def INVALID_SEM_def k1)
  define k2 where "k2 = destroy_sem r k1"
  have k2: "k2 = upd_sem (unat r) init_sem (wake_all (sem_waiters (k_sems k (unat r))) k1)"
    using destroy_sem_live [OF l1] assms(3) by (simp add: k2_def k1 r_def)
  have s2: "k_sems k2 = (k_sems k)(unat r := init_sem (k_sems k (unat r)))" "k_pipes k2 = k_pipes k1"
    "k_sems_initialized k2 = k_sems_initialized k"
    by (simp_all add: k2 k1)
  have l2: "sem_live w k2" using ok(2) ne by (simp add: sem_live_def INVALID_SEM_def s2)
  define k3 where "k3 = destroy_sem w k2"
  have k3: "k3 = upd_sem (unat w) init_sem (wake_all (sem_waiters (k_sems k (unat w))) k2)"
    using destroy_sem_live [OF l2] assms(4) ne by (simp add: k3_def s2 w_def)
  have s3: "k_sems k3 = (k_sems k)(unat r := init_sem (k_sems k (unat r)), unat w := init_sem (k_sems k (unat w)))"
    "k_pipes k3 = k_pipes k1" "k_sems_initialized k3 = k_sems_initialized k"
    using ne by (simp_all add: k3 s2)
  have "unat fd \<noteq> 0" using assms(2) by (simp add: unat_eq_0)
  then have "close_pipe fd k = (0, clean_buffer ?i k3)"
    using ok(4) pipe_ok_ready [OF assms(1)]
    by (simp add: close_pipe_def Let_def k1_def [symmetric] k1 k2_def [symmetric] s2 k3_def [symmetric])
  moreover have "pipe_closed ?i (clean_buffer ?i k3)"
    using ok(1) ne by (simp add: pipe_closed_def clean_buffer_def s3 k1 INVALID_SEM_def init_sem_def sem_live_def)
  moreover have "pp_read_sem (k_pipes (clean_buffer ?i k3) ?i) = r" by (simp add: clean_buffer_def s3 k1)
  ultimately show ?thesis by (simp add: r_def)
qed

text \<open>
  Closing a pipe wakes the readers blocked on it but does not tell them: a read with \<open>n\<close>
  bytes to go after the one it waits for does not fail when it is resumed. It passes the
  semaphore that no longer exists and returns its full count, all of it zero bytes.
\<close>

theorem closed_pipe_reads_zeros:
  assumes "pipe_ok (unat fd) k" "fd \<noteq> 0"
    and "sem_ok (k_sems k (unat (pp_read_sem (k_pipes k (unat fd)))))"
    and "sem_ok (k_sems k (unat (pp_write_sem (k_pipes k (unat fd)))))"
  shows "fst (close_pipe fd k) = 0 \<and>
    (\<exists>k'. read_pipe_resume (pp_read_sem (k_pipes k (unat fd)), unat fd, n, []) (snd (close_pipe fd k)) =
      Returned k' (int (Suc n), replicate (Suc n) 0))"
  using close_pipe_closes [OF assms] read_resume_closed [of "unat fd" "snd (close_pipe fd k)" n] by simp

lemma pipe_ok_same:
  "k_pipes k' fd = k_pipes k fd' \<Longrightarrow> k_sems k' = k_sems k \<Longrightarrow> k_sems_initialized k' = k_sems_initialized k \<Longrightarrow>
   k_pipes_initialized k' = k_pipes_initialized k \<Longrightarrow> fd < MAX_AMOUNT_PIPES \<Longrightarrow> pipe_ok fd' k \<Longrightarrow> pipe_ok fd k'"
  by (simp add: pipe_ok_def Let_def INVALID_PIPE_def sem_live_def INVALID_SEM_def sem_val_def)

lemma closed_pipe_reads_zeros_witness:
  "fst (close_pipe 5 (pipe_kernel 0)) = 0 \<and>
   (\<exists>k'. read_pipe_resume (0, 5, 2, []) (snd (close_pipe 5 (pipe_kernel 0))) = Returned k' (3, [0, 0, 0]))"
proof -
  have e: "k_pipes (pipe_kernel 0) 5 = k_pipes (pipe_kernel 0) 0" by (simp add: pipe_kernel_def)
  have "pipe_ok 5 (pipe_kernel 0)"
    by (rule pipe_ok_same [of _ _ "pipe_kernel 0" 0]) (use pipe_kernel_ok [of 0] e in simp_all)
  moreover have "sem_ok (k_sems (pipe_kernel 0) i)" for i
    by (simp add: sem_ok_def sem_pending_def init_sem_def pipe_kernel_def)
  moreover have "pp_read_sem (k_pipes (pipe_kernel 0) 5) = 0" by (simp add: pipe_kernel_def zero_pipe_def)
  ultimately show ?thesis
    using closed_pipe_reads_zeros [of 5 "pipe_kernel 0" 2] by (simp add: numeral_3_eq_3)
qed

end
