(* ===== verification/Process_Life.thy ===== *)
theory Process_Life
  imports Semaphores
begin

text \<open>
  The life of a process in Kernel/scheduler/processes.c: creation, termination, reaping and
  waiting for the end. A result \<open>None\<close> is an allocation that does not return. The pointers and
  counts that only end up on the new process's stack (entry point, argc, argv) do not influence
  the kernel's data; of \<open>set_process_stack\<close> (scheduler-asm.asm) the model keeps the stack
  pointer, 21 words of 8 bytes below the top.
\<close>

section \<open>Creation\<close>

abbreviation PID_ERROR :: u16 where "PID_ERROR \<equiv> -1"

definition set_process_stack :: "u64 \<Rightarrow> u64" where
  "set_process_stack stack = stack - 168"

definition process_name :: "string option \<Rightarrow> string" where
  "process_name name =
     take (MAX_PROCESS_NAME_LENGTH - 1) (case name of Some s \<Rightarrow> s | None \<Rightarrow> ''unnamed'')"

definition set_new_process ::
  "string option \<Rightarrow> (u16 \<times> u16) option \<Rightarrow> u8 \<Rightarrow> kernel \<Rightarrow> (pcb \<times> kernel) option" where
  "set_new_process name fds is_fg k =
     (case memory_alloc (k_heap k) STACK_SIZE of
        None \<Rightarrow> None
      | Some (base, heap) \<Rightarrow>
          Some (\<lparr>p_pid = next_pid (k_procs k), p_name = process_name name, p_state = READY,
                 p_previous = TERMINATED, p_priority = 0, p_stack_base = base, p_stack = base,
                 p_fd_in = (case fds of Some (a, _) \<Rightarrow> if a \<noteq> 0 then a else STDIN | None \<Rightarrow> STDIN),
                 p_fd_out = (case fds of Some (_, b) \<Rightarrow> if b \<noteq> 0 then b else STDOUT | None \<Rightarrow> STDOUT),
                 p_father = current_process (k_procs k), p_children = [], p_exit_status = -1,
                 p_sem_wait_id = -1, p_is_foreground = is_fg\<rparr>,
                upd_procs (\<lambda>ps. ps\<lparr>next_pid := next_pid ps + 1\<rparr>) (k\<lparr>k_heap := heap\<rparr>)))"

text \<open>
  The first loop of \<open>init_processes\<close>, over the ready queues. The memory of a new queue holds
  what the slot's queue held before. The boolean is false if an allocation gave null.
\<close>

definition new_ready_queue :: "nat \<Rightarrow> kernel \<Rightarrow> (bool \<times> kernel) option" where
  "new_ready_queue i k =
     (case new_PCBQueueADT (process_queues (k_procs k) i) (k_heap k) of
        None \<Rightarrow> None
      | Some (None, heap) \<Rightarrow> Some (False, k\<lparr>k_heap := heap\<rparr>)
      | Some (Some q, heap) \<Rightarrow> Some (True, upd_procs
          (\<lambda>ps. ps\<lparr>process_queues := (process_queues ps)(i := q)\<rparr>) (k\<lparr>k_heap := heap\<rparr>)))"

fun new_ready_queues :: "nat list \<Rightarrow> kernel \<Rightarrow> (bool \<times> kernel) option" where
  "new_ready_queues [] k = Some (True, k)"
| "new_ready_queues (i # is) k =
     (case new_ready_queue i k of
        None \<Rightarrow> None
      | Some (False, k') \<Rightarrow> Some (False, k')
      | Some (True, k') \<Rightarrow> new_ready_queues is k')"

definition new_terminated_queue :: "kernel \<Rightarrow> (bool \<times> kernel) option" where
  "new_terminated_queue k =
     (case new_PCBQueueADT (terminated_processes_queue (k_procs k)) (k_heap k) of
        None \<Rightarrow> None
      | Some (None, heap) \<Rightarrow> Some (False, k\<lparr>k_heap := heap\<rparr>)
      | Some (Some q, heap) \<Rightarrow> Some (True, upd_procs
          (\<lambda>ps. ps\<lparr>terminated_processes_queue := q\<rparr>) (k\<lparr>k_heap := heap\<rparr>)))"

text \<open>The second half of \<open>init_processes\<close>: an empty table, and the idle process in slot 0.\<close>

definition init_table :: "procs \<Rightarrow> procs" where
  "init_table ps = ps\<lparr>process_table := (\<lambda>i. if i < MAX_PROCESSES
     then (process_table ps i)\<lparr>p_state := TERMINATED\<rparr> else process_table ps i), procs_initialized := True\<rparr>"

definition init_idle :: "kernel \<Rightarrow> (int \<times> kernel) option" where
  "init_idle k =
     (case set_new_process (Some ''init'') None 1 (upd_procs init_table k) of
        None \<Rightarrow> None
      | Some (p, k1) \<Rightarrow>
          (let k2 = upd_procs (\<lambda>ps. (upd_pcb 0 (\<lambda>_. p) ps)\<lparr>process_count := 1\<rparr>) k1
           in if p_stack_base p = 0 then Some (-1, k2)
              else Some (0, upd_procs (upd_pcb 0 (\<lambda>p. p
                     \<lparr>p_stack := set_process_stack (p_stack_base p + STACK_SIZE - 8)\<rparr>)) k2)))"

definition init_processes :: "kernel \<Rightarrow> (int \<times> kernel) option" where
  "init_processes k =
     (if procs_initialized (k_procs k) then Some (0, k)
      else case new_ready_queues [0..<PRIORITY_LEVELS] k of
             None \<Rightarrow> None
           | Some (False, k1) \<Rightarrow> Some (-1, k1)
           | Some (True, k1) \<Rightarrow>
               (case new_terminated_queue k1 of
                  None \<Rightarrow> None
                | Some (False, k2) \<Rightarrow> Some (-1, k2)
                | Some (True, k2) \<Rightarrow> init_idle k2))"

text \<open>
  The foreground part of \<open>create_process\<close>: only a foreground process can start one, and it
  gives the foreground up.
\<close>

definition take_foreground :: "u8 \<Rightarrow> procs \<Rightarrow> u8 \<times> procs" where
  "take_foreground is_fg ps =
     (if is_fg = 0 then (is_fg, ps)
      else if p_is_foreground (process_table ps (current_process ps)) = 0 then (0, ps)
      else (is_fg, (upd_pcb (current_process ps) (\<lambda>p. p\<lparr>p_is_foreground := 0\<rparr>) ps)
              \<lparr>foreground_process := next_pid ps\<rparr>))"

text \<open>The end of \<open>create_process\<close>, after all its tests.\<close>

definition launch :: "nat \<Rightarrow> u8 \<Rightarrow> procs \<Rightarrow> procs" where
  "launch i is_fg ps =
     (let ps1 = upd_pcb (current_process ps) (\<lambda>p. p\<lparr>p_children := p_children p @ [i]\<rparr>) ps;
          ps2 = upd_pcb i (\<lambda>p. p\<lparr>p_stack := set_process_stack (p_stack_base p + STACK_SIZE - 8),
                                 p_is_foreground := is_fg\<rparr>) ps1
      in (put_ready i 0 ps2)\<lparr>process_count := process_count ps2 + 1\<rparr>)"

definition find_free_slot :: "procs \<Rightarrow> nat option" where
  "find_free_slot ps = find_from (\<lambda>i. p_state (process_table ps i) = TERMINATED) 1 MAX_PROCESSES"

definition spawn :: "string option \<Rightarrow> (u16 \<times> u16) option \<Rightarrow> u8 \<Rightarrow> kernel \<Rightarrow> (u16 \<times> kernel) option" where
  "spawn name fds is_fg k =
     (if process_count (k_procs k) \<ge> of_nat MAX_PROCESSES then Some (PID_ERROR, k)
      else case find_free_slot (k_procs k) of
             None \<Rightarrow> Some (PID_ERROR, k)
           | Some index \<Rightarrow>
               (let (fg, ps) = take_foreground is_fg (k_procs k)
                in case set_new_process name fds fg (k\<lparr>k_procs := ps\<rparr>) of
                     None \<Rightarrow> None
                   | Some (p, k1) \<Rightarrow>
                       (let k2 = upd_procs (upd_pcb index (\<lambda>_. p)) k1
                        in if p_stack_base p = 0 then Some (PID_ERROR, k2)
                           else if length (p_children (process_table (k_procs k2)
                                  (current_process (k_procs k2)))) \<ge> MAX_CHILDREN
                           then Some (PID_ERROR, k2)
                           else (let k3 = upd_procs (launch index fg) k2
                                 in Some (p_pid (process_table (k_procs k3) index), k3)))))"

definition create_process ::
  "string option \<Rightarrow> (u16 \<times> u16) option \<Rightarrow> u8 \<Rightarrow> kernel \<Rightarrow> (u16 \<times> kernel) option" where
  "create_process name fds is_fg k =
     (if \<not> procs_initialized (k_procs k)
      then (case init_processes k of
              None \<Rightarrow> None
            | Some (r, k') \<Rightarrow> if r = -1 then Some (PID_ERROR, k') else spawn name fds is_fg k')
      else spawn name fds is_fg k)"

section \<open>Termination\<close>

text \<open>One reaped process.\<close>

definition reap :: "nat \<Rightarrow> kernel \<Rightarrow> kernel" where
  "reap i k =
     (let k1 = upd_procs (\<lambda>ps. (upd_pcb i (\<lambda>p. p\<lparr>p_state := TERMINATED\<rparr>) ps)
                 \<lparr>process_count := process_count ps - 1\<rparr>) k;
          base = p_stack_base (process_table (k_procs k1) i)
      in if base \<noteq> 0
         then upd_procs (upd_pcb i (\<lambda>p. p\<lparr>p_stack_base := 0\<rparr>))
                (k1\<lparr>k_heap := snd (memory_free (k_heap k1) base)\<rparr>)
         else k1)"

definition set_terminated_queue :: "nat pcb_queue \<Rightarrow> kernel \<Rightarrow> kernel" where
  "set_terminated_queue q = upd_procs (\<lambda>ps. ps\<lparr>terminated_processes_queue := q\<rparr>)"

lemma reap_terminated_queue [simp]:
  "terminated_processes_queue (k_procs (reap i k)) = terminated_processes_queue (k_procs k)"
  by (simp add: reap_def Let_def)

lemma set_terminated_queue_q [simp]:
  "terminated_processes_queue (k_procs (set_terminated_queue q k)) = q"
  by (simp add: set_terminated_queue_def)

function free_terminated_processes :: "kernel \<Rightarrow> kernel" where
  "free_terminated_processes k =
     (case dequeue_process (terminated_processes_queue (k_procs k)) of
        (None, q) \<Rightarrow> set_terminated_queue q k
      | (Some i, q) \<Rightarrow> free_terminated_processes (reap i (set_terminated_queue q k)))"
  by pat_completeness auto
termination
  by (relation "measure (\<lambda>k. unat (q_size (terminated_processes_queue (k_procs k))))")
    (auto simp: dequeue_process_def unat_minus_one unat_gt_0 split: if_splits)

declare free_terminated_processes.simps [simp del]

text \<open>The orphans go to the idle process, in slot 0, as long as it has room.\<close>

definition adopt :: "nat \<Rightarrow> procs \<Rightarrow> procs" where
  "adopt child ps =
     (if child \<noteq> NULL_PCB \<and> length (p_children (process_table ps 0)) < MAX_CHILDREN
      then upd_pcb child (\<lambda>p. p\<lparr>p_father := 0\<rparr>)
             (upd_pcb 0 (\<lambda>p. p\<lparr>p_children := p_children p @ [child]\<rparr>) ps)
      else ps)"

definition return_foreground :: "nat \<Rightarrow> procs \<Rightarrow> procs" where
  "return_foreground i ps =
     (if p_is_foreground (process_table ps i) \<noteq> 0
      then (let f = p_father (process_table ps i);
                ps' = upd_pcb f (\<lambda>p. p\<lparr>p_is_foreground := 1\<rparr>) ps
            in ps'\<lparr>foreground_process := p_pid (process_table ps' f)\<rparr>)
      else ps)"

text \<open>Slot 0 has pid 0, so the list of orphans is not the one that grows.\<close>

definition kill_process :: "u32 \<Rightarrow> kernel \<Rightarrow> int \<times> kernel" where
  "kill_process pid k =
     (if pid = 0 then (-1, k)
      else case slot_of32 (k_procs k) pid of
             None \<Rightarrow> (-1, k)
           | Some i \<Rightarrow>
               (let ps1 = return_foreground i (upd_pcb i (\<lambda>p. p\<lparr>p_state := TERMINATED\<rparr>) (k_procs k));
                    ps2 = fold adopt (p_children (process_table ps1 i)) ps1;
                    k2 = k\<lparr>k_procs := ps2\<rparr>;
                    s = p_sem_wait_id (process_table ps2 i);
                    k3 = (if s \<noteq> -1 then sem_post s k2 else k2)
                in (0, upd_procs (\<lambda>ps. ps\<lparr>terminated_processes_queue :=
                          enqueued i (terminated_processes_queue ps)\<rparr>) k3)))"

definition kill_foreground_process :: "kernel \<Rightarrow> int \<times> kernel" where
  "kill_foreground_process k =
     (if foreground_process (k_procs k) \<le> 1 then (-1, k)
      else kill_process (ucast (foreground_process (k_procs k))) k)"

section \<open>Waiting for the end\<close>

text \<open>
  The result is what was stored through the status pointer last, \<open>None\<close> when nothing was. A
  suspended wait goes on with the slot and the semaphore it waits on.
\<close>

definition wait_finish :: "nat \<Rightarrow> kernel \<Rightarrow> (kernel, nat \<times> u32, 8 word option) outcome" where
  "wait_finish i k =
     (let k1 = destroy_sem (p_sem_wait_id (process_table (k_procs k) i)) k;
          k2 = upd_procs (upd_pcb i (\<lambda>p. p\<lparr>p_sem_wait_id := -1\<rparr>)) k1
      in Returned k2 (Some (p_exit_status (process_table (k_procs k2) i))))"

definition after_sem ::
  "nat \<Rightarrow> u32 \<Rightarrow> (kernel, unit, unit) outcome \<Rightarrow> (kernel, nat \<times> u32, 8 word option) outcome" where
  "after_sem i s r = (case r of Returned k _ \<Rightarrow> wait_finish i k | Suspended k _ \<Rightarrow> Suspended k (i, s))"

definition wait_process :: "u16 \<Rightarrow> kernel \<Rightarrow> (kernel, nat \<times> u32, 8 word option) outcome" where
  "wait_process pid k =
     (if pid = 0 then Returned k None
      else case slot_of (k_procs k) pid of
             None \<Rightarrow> Returned k None
           | Some i \<Rightarrow>
               (let p = process_table (k_procs k) i
                in if p_state p = TERMINATED \<or> p_sem_wait_id p \<noteq> -1
                   then Returned k (Some (p_exit_status p))
                   else (let (s, k1) = create_sem 0 k;
                             k2 = upd_procs (upd_pcb i (\<lambda>p. p\<lparr>p_sem_wait_id := s\<rparr>)) k1
                         in if s = -1 then Returned k2 (Some (p_exit_status p))
                            else after_sem i s (sem_wait s k2))))"

definition wait_process_resume :: "nat \<times> u32 \<Rightarrow> kernel \<Rightarrow> (kernel, nat \<times> u32, 8 word option) outcome" where
  "wait_process_resume c k = after_sem (fst c) (snd c) (sem_wait_resume (snd c) k)"

end
