(* ===== verification/Scheduler.thy ===== *)
theory Scheduler
  imports Process_Life
begin

text \<open>
  The choice of the next process (Kernel/scheduler/processes.c, \<open>get_random_priority\<close> and
  \<open>get_next_process\<close>) and Kernel/scheduler/scheduler.c. The outer loop of \<open>get_next_process\<close> is
  a partial function of the priorities already looked at; \<open>next_loop_spec\<close> shows that it ends.
\<close>

section \<open>Operations\<close>

definition weight :: "nat \<Rightarrow> u32" where
  "weight i = of_nat ((PRIORITY_LEVELS - i) * (PRIORITY_LEVELS - i))"

definition total_weight :: u32 where
  "total_weight = fold (\<lambda>i total. total + weight i) [0..<PRIORITY_LEVELS] 0"

function pick_priority :: "u32 \<Rightarrow> nat \<Rightarrow> u32 \<Rightarrow> nat" where
  "pick_priority random_value priority accumulated =
     (if priority < PRIORITY_LEVELS
      then (let accumulated' = accumulated + weight priority
            in if random_value < accumulated' then priority
               else pick_priority random_value (Suc priority) accumulated')
      else PRIORITY_LEVELS - 1)"
  by pat_completeness auto
termination
  by (relation "measure (\<lambda>(r, p, a). PRIORITY_LEVELS - p)") auto

declare pick_priority.simps [simp del]

definition get_random_priority :: "kernel \<Rightarrow> nat \<times> kernel" where
  "get_random_priority k =
     (let (r, g) = randInt (k_rtc k) 0 (uint (total_weight - 1)) (k_rng k)
      in (pick_priority (word_of_int r) 0 0, k\<lparr>k_rng := g\<rparr>))"

text \<open>What the inner loop looks for in the queue of a priority.\<close>

definition runnable :: "procs \<Rightarrow> nat \<Rightarrow> nat \<Rightarrow> bool" where
  "runnable ps priority i \<longleftrightarrow>
     priority = unat (p_priority (process_table ps i)) \<and> p_state (process_table ps i) = READY"

definition search_queue :: "nat \<Rightarrow> procs \<Rightarrow> nat option \<times> procs" where
  "search_queue priority ps =
     (let (r, q) = dequeue_until (runnable ps priority) (process_queues ps priority)
      in (r, ps\<lparr>process_queues := (process_queues ps)(priority := q)\<rparr>))"

partial_function (option) next_loop ::
  "(nat \<Rightarrow> bool) \<Rightarrow> nat \<Rightarrow> nat \<Rightarrow> procs \<Rightarrow> (nat option \<times> procs) option" where
  "next_loop checked count priority ps =
     (if count < PRIORITY_LEVELS
      then if checked priority
           then next_loop checked count ((priority + 1) mod PRIORITY_LEVELS) ps
           else (let r = search_queue priority ps
                 in if fst r = None
                    then next_loop (checked(priority := True)) (Suc count)
                           ((priority + 1) mod PRIORITY_LEVELS) (snd r)
                    else Some r)
      else Some (None, ps))"

definition run_process :: "nat \<Rightarrow> procs \<Rightarrow> procs" where
  "run_process i ps = (upd_pcb i (\<lambda>p. p\<lparr>p_state := RUNNING\<rparr>) ps)\<lparr>current_process := i\<rparr>"

definition choose_next :: "nat \<Rightarrow> procs \<Rightarrow> procs option" where
  "choose_next priority ps =
     (case next_loop (\<lambda>_. False) 0 priority ps of
        None \<Rightarrow> None
      | Some (r, ps') \<Rightarrow> Some (run_process (case r of None \<Rightarrow> 0 | Some i \<Rightarrow> i) ps'))"

definition current_stack_of :: "procs \<Rightarrow> u64" where
  "current_stack_of ps = p_stack (process_table ps (current_process ps))"

definition get_next_process :: "kernel \<Rightarrow> (u64 \<times> kernel) option" where
  "get_next_process k =
     (let (priority, k1) = get_random_priority k
      in case choose_next priority (k_procs k1) of
           None \<Rightarrow> None
         | Some ps \<Rightarrow> Some (current_stack_of ps, k1\<lparr>k_procs := ps\<rparr>))"

definition scheduler :: "u64 \<Rightarrow> kernel \<Rightarrow> (u64 \<times> kernel) option" where
  "scheduler current_stack k =
     (if \<not> processes_initialized (k_procs k) then Some (current_stack, k)
      else if current_stack = 0 then Some (get_idle_process_stack (k_procs k), k)
      else (let k1 = free_terminated_processes k
            in if \<not> has_running_processes (k_procs k1)
               then (let k2 = upd_procs stop_system k1
                     in Some (get_idle_process_stack (k_procs k2), k2))
               else get_next_process (upd_procs (set_next_process current_stack) k1)))"

section \<open>The search over the priorities\<close>

text \<open>
  The three queues, from the drawn priority on: the first runnable process, and the queues as
  the search leaves them.
\<close>

definition search_from :: "nat \<Rightarrow> procs \<Rightarrow> nat option \<times> procs" where
  "search_from p ps =
     (let r1 = search_queue p ps; r2 = search_queue ((p + 1) mod PRIORITY_LEVELS) (snd r1);
          r3 = search_queue ((p + 2) mod PRIORITY_LEVELS) (snd r2)
      in if fst r1 \<noteq> None then r1 else if fst r2 \<noteq> None then r2
         else (fst r3, snd r3))"

lemma next_loop_unchecked:
  "count < PRIORITY_LEVELS \<Longrightarrow> \<not> checked p \<Longrightarrow> next_loop checked count p ps =
     (let r = search_queue p ps in if fst r = None
      then next_loop (checked(p := True)) (Suc count) ((p + 1) mod PRIORITY_LEVELS) (snd r) else Some r)"
  by (subst next_loop.simps) simp

lemma next_loop_spec:
  assumes "p < PRIORITY_LEVELS"
  shows "next_loop (\<lambda>_. False) 0 p ps = Some (search_from p ps)"
proof -
  have stop: "next_loop c (Suc (Suc (Suc 0))) q s = Some (None, s)" for c q s
    by (subst next_loop.simps) simp
  consider "p = 0" | "p = 1" | "p = 2" using assms by linarith
  then show ?thesis
    by cases (simp_all add: next_loop_unchecked stop search_from_def Let_def prod_eq_iff)
qed

end
