(* ===== verification/Sched_Invariant.thy ===== *)
theory Sched_Invariant
  imports Scheduler
begin

text \<open>
  The invariant of the scheduler and its preservation by the operations on processes, the
  timer, the semaphores and the scheduler itself.
\<close>

section \<open>The invariant\<close>

text \<open>
  Every ready process except idle is in the queue of its priority; only the current process is
  running; live processes have a pid, and a priority the queues know. What a process comes
  back to is never \<open>RUNNING\<close>.
\<close>

definition queues_ok :: "procs \<Rightarrow> bool" where
  "queues_ok ps \<longleftrightarrow> (\<forall>p<PRIORITY_LEVELS. q_valid (process_queues ps p) \<and>
     (\<forall>i\<in>set (q_items (process_queues ps p)). i < MAX_PROCESSES))"

definition slot_ok :: "procs \<Rightarrow> nat \<Rightarrow> bool" where
  "slot_ok ps i \<longleftrightarrow>
     unat (p_priority (process_table ps i)) < PRIORITY_LEVELS \<and>
     p_previous (process_table ps i) \<noteq> RUNNING \<and>
     (0 < i \<longrightarrow> p_state (process_table ps i) \<noteq> TERMINATED \<longrightarrow> p_pid (process_table ps i) \<noteq> 0) \<and>
     (0 < i \<longrightarrow> p_state (process_table ps i) = READY \<longrightarrow>
        i \<in> set (q_items (process_queues ps (unat (p_priority (process_table ps i)))))) \<and>
     (p_state (process_table ps i) = RUNNING \<longrightarrow> i = current_process ps \<and> \<not> first_time ps)"

definition sched_ok :: "procs \<Rightarrow> bool" where
  "sched_ok ps \<longleftrightarrow> current_process ps < MAX_PROCESSES \<and> queues_ok ps \<and>
     (\<forall>i<MAX_PROCESSES. slot_ok ps i)"

definition all_room :: "procs \<Rightarrow> bool" where
  "all_room ps \<longleftrightarrow> (\<forall>p<PRIORITY_LEVELS. q_room (process_queues ps p))"

lemma sched_okD: "sched_ok ps \<Longrightarrow> i < MAX_PROCESSES \<Longrightarrow> slot_ok ps i"
  by (simp add: sched_ok_def)

lemma all_room_upd_pcb [simp]: "all_room (upd_pcb i f ps) = all_room ps"
  by (simp add: all_room_def)

text \<open>Other fields do not matter.\<close>

lemma sched_ok_cong:
  assumes "process_table ps' = process_table ps" "process_queues ps' = process_queues ps"
    and "current_process ps' = current_process ps" "first_time ps' = first_time ps"
  shows "sched_ok ps' = sched_ok ps"
  using assms by (simp add: sched_ok_def queues_ok_def slot_ok_def)

text \<open>Changing one slot without making it ready.\<close>

lemma sched_upd_pcb:
  assumes "sched_ok ps" "p = process_table ps i"
    and "unat (p_priority (f p)) < PRIORITY_LEVELS" "p_previous (f p) \<noteq> RUNNING"
    and "0 < i \<Longrightarrow> p_state (f p) \<noteq> TERMINATED \<Longrightarrow> p_pid (f p) \<noteq> 0"
    and "0 < i \<Longrightarrow> p_state (f p) = READY \<Longrightarrow> p_state p = READY \<and> p_priority (f p) = p_priority p"
    and "p_state (f p) = RUNNING \<Longrightarrow> p_state p = RUNNING"
  shows "sched_ok (upd_pcb i f ps)"
  using assms by (auto simp: sched_ok_def queues_ok_def slot_ok_def)

lemma q_put:
  assumes "q_valid q" "q_room q"
  shows "q_items (enqueued x q) = q_items q @ [x]" "q_valid (enqueued x q)"
  using pq.enq_items [OF assms TrueI] pq.enq_valid [OF assms TrueI] by auto

text \<open>A slot put into a ready queue.\<close>

lemma queues_ok_put_ready:
  assumes "queues_ok ps" "i < MAX_PROCESSES" "q_room (process_queues ps (unat r))" "unat r < PRIORITY_LEVELS"
  shows "queues_ok (put_ready i r ps) \<and> (\<forall>p. set (q_items (process_queues (put_ready i r ps) p)) =
    (if p = unat r then insert i (set (q_items (process_queues ps p))) else set (q_items (process_queues ps p))))"
proof -
  have v: "q_valid (process_queues ps (unat r))"
    using assms(1,4) by (simp add: queues_ok_def)
  note q = q_put [OF v assms(3)]
  have "set (q_items (process_queues (put_ready i r ps) p)) =
      (if p = unat r then insert i (set (q_items (process_queues ps p))) else set (q_items (process_queues ps p)))" for p
    using q(1) by simp
  moreover have "q_valid (process_queues (put_ready i r ps) p)" if "p < PRIORITY_LEVELS" for p
    using q(2) assms(1) that by (simp add: queues_ok_def)
  ultimately show ?thesis using assms(1,2) unfolding queues_ok_def by auto
qed

text \<open>A slot made ready and put into the queue of its priority.\<close>

lemma sched_make_ready:
  assumes "sched_ok ps" "i < MAX_PROCESSES" "p = process_table ps i"
    and "unat (p_priority (f p)) < PRIORITY_LEVELS" "p_previous (f p) \<noteq> RUNNING"
    and "0 < i \<Longrightarrow> p_pid (f p) \<noteq> 0" "p_state (f p) = READY"
    and "q_room (process_queues ps (unat (p_priority (f p))))"
    and "r = p_priority (f p)"
  shows "sched_ok (put_ready i r (upd_pcb i f ps))"
proof -
  let ?ps = "put_ready i r (upd_pcb i f ps)"
  have q: "queues_ok ?ps" "\<And>p. set (q_items (process_queues ?ps p)) =
      (if p = unat r then insert i (set (q_items (process_queues ps p))) else set (q_items (process_queues ps p)))"
    using queues_ok_put_ready [of "upd_pcb i f ps" i r] assms by (auto simp: sched_ok_def queues_ok_def)
  have "slot_ok ?ps j" if j: "j < MAX_PROCESSES" for j
  proof (cases "j = i")
    case True
    then show ?thesis
      using assms(3-7,9) q(2) [of "unat r"] by (simp only: slot_ok_def) simp
  next
    case False
    have "slot_ok ps j" using assms(1) j by (rule sched_okD)
    then show ?thesis
      using False q(2) [of "unat (p_priority (process_table ps j))"]
      by (simp only: slot_ok_def) (auto split: if_splits)
  qed
  with q(1) assms(1) show ?thesis by (simp add: sched_ok_def)
qed

lemma saved_state_not_running [simp]: "saved_state s \<noteq> RUNNING"
  by (simp add: saved_state_def)

section \<open>Operations on one process keep it\<close>

lemma sched_restore_state:
  assumes "sched_ok ps" "all_room ps" "i < MAX_PROCESSES" "p_state (process_table ps i) \<noteq> TERMINATED"
  shows "sched_ok (restore_state i ps)"
proof -
  have s: "slot_ok ps i" using assms by (simp add: sched_ok_def)
  let ?f = "\<lambda>p. p\<lparr>p_state := p_previous p\<rparr>"
  show ?thesis
  proof (cases "p_previous (process_table ps i) = READY")
    case True
    have "sched_ok (put_ready i (p_priority (process_table ps i)) (upd_pcb i ?f ps))"
      by (rule sched_make_ready [OF assms(1,3) refl])
        (use s assms True in \<open>auto simp: slot_ok_def all_room_def\<close>)
    then show ?thesis using True by (simp add: restore_state_def Let_def)
  next
    case False
    have "sched_ok (upd_pcb i ?f ps)"
      by (rule sched_upd_pcb [OF assms(1) refl]) (use s False assms in \<open>auto simp: slot_ok_def\<close>)
    then show ?thesis using False by (simp add: restore_state_def Let_def)
  qed
qed

text \<open>Changes that only suspend a process, or end it.\<close>

lemma sched_suspend:
  assumes "sched_ok ps" "i < MAX_PROCESSES" "p = process_table ps i" "p_priority (f p) = p_priority p"
    and "p_previous (f p) \<noteq> RUNNING" "p_pid (f p) = p_pid p"
    and "p_state (f p) = TERMINATED \<or> p_state (f p) \<in> {BLOCKED, SLEEPING} \<and> p_state p \<noteq> TERMINATED
      \<or> p_state (f p) = p_state p"
  shows "sched_ok (upd_pcb i f ps)"
proof -
  have "slot_ok ps i" using assms(1,2) by (rule sched_okD)
  then show ?thesis
    using assms(3-7) by (intro sched_upd_pcb [OF assms(1,3)]) (auto simp: slot_ok_def)
qed

lemma sched_block_process: "sched_ok ps \<Longrightarrow> sched_ok (snd (block_process ps pid))"
  unfolding block_process_def
  by (auto split: option.split dest!: slot_of_SomeD intro!: sched_suspend [OF _ _ refl])

lemma sched_sleep_process: "sched_ok ps \<Longrightarrow> sched_ok (snd (sleep_process ps pid))"
  unfolding sleep_process_def
  by (auto split: option.split dest!: slot_of_SomeD intro!: sched_suspend [OF _ _ refl])

lemma sched_unsleep_process:
  "sched_ok ps \<Longrightarrow> all_room ps \<Longrightarrow> sched_ok (snd (unsleep_process ps pid))"
  unfolding unsleep_process_def
  by (auto split: option.split dest!: slot_of_SomeD intro!: sched_restore_state)

lemma sched_previous: "sched_ok ps \<Longrightarrow> i < MAX_PROCESSES \<Longrightarrow> p_previous (process_table ps i) \<noteq> RUNNING"
  using sched_okD [of ps i] by (simp add: slot_ok_def)

lemma sched_current: "sched_ok ps \<Longrightarrow> current_process ps < MAX_PROCESSES"
  by (simp add: sched_ok_def)

lemma sched_set_exit_status: "sched_ok ps \<Longrightarrow> sched_ok (set_exit_status ps st)"
  unfolding set_exit_status_def
  by (auto intro!: sched_suspend [OF _ _ refl] simp: sched_previous sched_current)

lemma sched_change_priority:
  assumes "sched_ok ps" "all_room ps"
  shows "sched_ok (snd (change_priority ps pid r))"
proof (cases "slot_of32 ps pid")
  case (Some i)
  then have i: "i < MAX_PROCESSES" using slot_of32_SomeD by blast
  then have s: "slot_ok ps i" using assms(1) sched_okD by blast
  let ?f = "\<lambda>p. p\<lparr>p_priority := r\<rparr>"
  show ?thesis
  proof (cases "unat r < PRIORITY_LEVELS \<and> p_priority (process_table ps i) \<noteq> r")
    case True
    have "sched_ok (upd_pcb i ?f ps)" if "p_state (process_table ps i) \<noteq> READY"
      by (rule sched_upd_pcb [OF assms(1) refl]) (use s that True in \<open>auto simp: slot_ok_def\<close>)
    moreover have "sched_ok (put_ready i r (upd_pcb i ?f ps))" if "p_state (process_table ps i) = READY"
      by (rule sched_make_ready [OF assms(1) i refl])
        (use s that True assms(2) in \<open>auto simp: slot_ok_def all_room_def\<close>)
    ultimately show ?thesis using Some True by (simp add: change_priority_def Let_def)
  qed (use Some assms in \<open>auto simp: change_priority_def\<close>)
qed (use assms in \<open>simp add: change_priority_def\<close>)

section \<open>The clock tick\<close>

lemma fold_inv: "P s \<Longrightarrow> (\<And>x s. x \<in> set xs \<Longrightarrow> P s \<Longrightarrow> P (f x s)) \<Longrightarrow> P (fold f xs s)"
  by (induction xs arbitrary: s) simp_all

lemma sched_is_sleeping_time_expired [simp]:
  "k_procs (snd (is_sleeping_time_expired pid k)) = k_procs k"
  by (simp add: is_sleeping_time_expired_def clear_sleep_def split: option.split)

lemma sched_wake_up_process:
  assumes "sched_ok (k_procs k)" "all_room (k_procs k)"
  shows "sched_ok (k_procs (snd (wake_up_process pid k)))"
proof (cases "slot_of (k_procs k) pid")
  case (Some i)
  let ?ps = "k_procs k"
  have i: "i < MAX_PROCESSES" using Some slot_of_SomeD by blast
  have s: "slot_ok ?ps i" using assms(1) i by (rule sched_okD)
  show ?thesis
  proof (cases "p_state (process_table ?ps i) = BLOCKED")
    case True
    have "sched_ok (put_ready i (p_priority (process_table ?ps i)) (upd_pcb i (\<lambda>p. p\<lparr>p_state := READY\<rparr>) ?ps))"
      by (rule sched_make_ready [OF assms(1) i refl])
        (use s assms True in \<open>auto simp: slot_ok_def all_room_def\<close>)
    moreover have "sched_ok (upd_pcb i (\<lambda>p. p\<lparr>p_state := SLEEPING\<rparr>) ?ps)"
      by (rule sched_suspend [OF assms(1) i refl]) (use s True in \<open>auto simp: slot_ok_def\<close>)
    moreover have "sched_ok (restore_state i ?ps)"
      by (rule sched_restore_state [OF assms i]) (use True in simp)
    ultimately show ?thesis
      using Some True by (simp add: wake_up_process_def Let_def split_beta)
  qed (use Some assms in \<open>simp add: wake_up_process_def Let_def\<close>)
qed (use assms in \<open>simp add: wake_up_process_def\<close>)

lemma sched_toggle_block:
  assumes "sched_ok (k_procs k)" "all_room (k_procs k)"
  shows "sched_ok (k_procs (snd (toggle_block_process pid k)))"
  using sched_wake_up_process [OF assms] sched_block_process [OF assms(1)] assms(1)
  by (simp add: toggle_block_process_def split: option.split)

lemma sched_sleep: "sched_ok (k_procs k) \<Longrightarrow> sched_ok (k_procs (snd (sleep secs k)))"
  using sched_sleep_process [of "k_procs k"]
  by (simp add: sleep_def set_sleep_process_def Let_def split_beta split: option.split)


text \<open>Room for \<open>n\<close> more processes in every ready queue.\<close>

definition room_for :: "nat \<Rightarrow> procs \<Rightarrow> bool" where
  "room_for n ps \<longleftrightarrow> (\<forall>p<PRIORITY_LEVELS. unat (q_size (process_queues ps p)) + n \<le> 255)"

lemma all_room_room_for: "all_room ps \<longleftrightarrow> room_for 1 ps"
  by (auto simp: all_room_def room_for_def q_room_def less_eq_Suc_le)

lemma room_for_mono: "room_for n ps \<Longrightarrow> m \<le> n \<Longrightarrow> room_for m ps"
  unfolding room_for_def by (meson add_le_cancel_left le_trans)

lemma room_for_upd_pcb [simp]: "room_for n (upd_pcb i f ps) = room_for n ps"
  by (simp add: room_for_def)

lemma q_size_enqueued: "q_room q \<Longrightarrow> unat (q_size (enqueued x q)) = Suc (unat (q_size q))"
  using q_size_Suc [of q] by (simp add: enqueue_process_def)

lemma room_for_put_ready:
  assumes "room_for (Suc n) ps"
  shows "room_for n (put_ready i r ps)"
  unfolding room_for_def
proof (intro allI impI)
  fix p assume p: "p < PRIORITY_LEVELS"
  have s: "unat (q_size (process_queues ps p)) + Suc n \<le> 255"
    using assms p by (simp add: room_for_def)
  then have "q_room (process_queues ps p)" by (simp add: q_room_def)
  from q_size_enqueued [OF this, of i] s
  show "unat (q_size (process_queues (put_ready i r ps) p)) + n \<le> 255"
    by (cases "p = unat r") simp_all
qed

lemma room_for_restore_state: "room_for (Suc n) ps \<Longrightarrow> room_for n (restore_state i ps)"
  using room_for_put_ready [of n "upd_pcb i (\<lambda>p. p\<lparr>p_state := p_previous p\<rparr>) ps"]
    room_for_mono [of "Suc n" ps n]
  by (simp add: restore_state_def Let_def)

lemma room_for_unsleep: "room_for (Suc n) ps \<Longrightarrow> room_for n (snd (unsleep_process ps pid))"
  using room_for_restore_state [of n ps] room_for_mono [of "Suc n" ps n]
  by (simp add: unsleep_process_def split: option.split)

lemma wake_slot_sleep: "j \<noteq> i \<Longrightarrow> k_sleep (wake_slot t i k) j = k_sleep k j"
  by (simp add: wake_slot_def clear_sleep_def Let_def)

definition sleepers :: "nat list \<Rightarrow> kernel \<Rightarrow> nat" where
  "sleepers is k = length (filter (\<lambda>i. sl_pid (k_sleep k i) \<noteq> 0) is)"

lemma sleepers_wake_slot: "i \<notin> set is \<Longrightarrow> sleepers is (wake_slot t i k) = sleepers is k"
  unfolding sleepers_def by (metis (mono_tags, lifting) filter_cong wake_slot_sleep)

lemma sched_wake_slots:
  assumes "sched_ok (k_procs k)" "distinct is" "room_for (sleepers is k + n) (k_procs k)"
  shows "sched_ok (k_procs (fold (wake_slot t) is k)) \<and> room_for n (k_procs (fold (wake_slot t) is k))"
  using assms
proof (induction "is" arbitrary: k)
  case (Cons i "is")
  let ?k = "wake_slot t i k"
  have r: "room_for (sleepers is k + n) (k_procs ?k) \<and> sched_ok (k_procs ?k)"
  proof (cases "sl_pid (k_sleep k i) = 0")
    case True
    then show ?thesis using Cons.prems by (simp add: wake_slot_def sleepers_def)
  next
    case False
    then have "room_for (Suc (sleepers is k + n)) (k_procs k)"
      using Cons.prems(3) by (simp add: sleepers_def)
    then show ?thesis
      using room_for_unsleep room_for_mono [of _ "k_procs k" "sleepers is k + n"]
        sched_unsleep_process [OF Cons.prems(1)] all_room_room_for room_for_mono [of _ "k_procs k" 1] Cons.prems(1)
      by (simp add: wake_slot_def clear_sleep_def Let_def)
  qed
  then show ?case
    using Cons.IH [of ?k] Cons.prems(2) sleepers_wake_slot [of i "is"] by simp
qed (simp add: sleepers_def)

lemma sched_timer_handler:
  assumes "sched_ok (k_procs k)" "room_for (sleepers [0..<MAX_PROCESSES] k + n) (k_procs k)"
  shows "sched_ok (k_procs (timer_handler k)) \<and> room_for n (k_procs (timer_handler k))"
proof -
  let ?k1 = "if k_start_up k = None then init_time k else k"
  let ?k2 = "?k1\<lparr>k_ticks := k_ticks ?k1 + 1\<rparr>"
  have e: "k_procs ?k2 = k_procs k" "k_sleep ?k2 = k_sleep k" by (simp_all add: init_time_def)
  have "sleepers is ?k2 = sleepers is k" for "is" using e(2) by (simp add: sleepers_def)
  then show ?thesis
    using sched_wake_slots [of ?k2 "[0..<MAX_PROCESSES]" n "get_ticks ?k2"] assms e(1)
    unfolding timer_handler_def wake_up_sleeping_processes_def Let_def by (simp only: distinct_upt)
qed

section \<open>The scheduler\<close>

lemma running_current:
  "sched_ok ps \<Longrightarrow> i < MAX_PROCESSES \<Longrightarrow> p_state (process_table ps i) = RUNNING \<Longrightarrow>
   i = current_process ps \<and> \<not> first_time ps"
  using sched_okD [of ps i] by (simp add: slot_ok_def)

lemma set_next_not_running:
  assumes "sched_ok ps" "i < MAX_PROCESSES"
  shows "p_state (process_table (set_next_process st ps) i) \<noteq> RUNNING"
proof (cases "i = current_process ps \<and> \<not> first_time ps")
  case True
  then show ?thesis using assms(2) by (auto simp: set_next_process_def Let_def)
next
  case False
  then have "p_state (process_table ps i) \<noteq> RUNNING"
    using running_current [OF assms] by blast
  then show ?thesis using False by (auto simp: set_next_process_def Let_def)
qed

lemma sched_set_next_process:
  assumes "sched_ok ps" "all_room ps"
  shows "sched_ok (set_next_process st ps)"
proof -
  let ?c = "current_process ps" and ?g = "\<lambda>p. p\<lparr>p_stack := st\<rparr>" and ?r = "\<lambda>p. p\<lparr>p_state := READY\<rparr>"
  let ?ps1 = "upd_pcb ?c ?g ps"
  have c: "?c < MAX_PROCESSES" using assms(1) by (rule sched_current)
  have s1: "sched_ok ?ps1"
    by (rule sched_suspend [OF assms(1) c refl]) (simp_all add: sched_previous [OF assms(1) c])
  have s: "slot_ok ?ps1 ?c" using s1 c by (rule sched_okD)
  have first: "sched_ok (ps\<lparr>first_time := False\<rparr>)"
    using assms(1) by (auto simp: sched_ok_def queues_ok_def slot_ok_def)
  have ready: "sched_ok (put_ready ?c (p_priority (process_table ps ?c)) (upd_pcb ?c ?r ?ps1))"
    if "p_state (process_table ps ?c) = RUNNING"
    by (rule sched_make_ready [OF s1 c refl])
      (use s assms(2) that in \<open>simp_all add: slot_ok_def all_room_def\<close>)
  have idle: "sched_ok (upd_pcb ?c ?r ?ps1)"
    if "p_state (process_table ps ?c) = RUNNING" "p_pid (process_table ps ?c) = 0"
    by (rule sched_upd_pcb [OF s1 refl]) (use s that in \<open>auto simp: slot_ok_def\<close>)
  show ?thesis
    using c s1 first ready idle by (simp add: set_next_process_def Let_def)
qed

text \<open>One queue searched: the first runnable process of it, and no other runnable one lost.\<close>

lemma set_tl_dropWhile: "set (tl (dropWhile P xs)) \<subseteq> set xs"
  by (induction xs) auto

lemma search_queue_props:
  assumes "queues_ok ps" "p < PRIORITY_LEVELS" "search_queue p ps = (r, ps')"
  shows "process_table ps' = process_table ps" "queues_ok ps'" "current_process ps' = current_process ps"
    "first_time ps' = first_time ps"
    "r = find (runnable ps p) (q_items (process_queues ps p))"
    "\<And>j q. j \<in> set (q_items (process_queues ps q)) \<Longrightarrow> Some j \<noteq> r \<Longrightarrow>
      q = p \<longrightarrow> runnable ps p j \<Longrightarrow> j \<in> set (q_items (process_queues ps' q))"
proof -
  have v: "q_valid (process_queues ps p)" using assms(1,2) by (simp add: queues_ok_def)
  let ?d = "dequeue_until (runnable ps p) (process_queues ps p)"
  have ps': "ps' = ps\<lparr>process_queues := (process_queues ps)(p := snd ?d)\<rparr>" and r: "r = fst ?d"
    using assms(3) by (auto simp: search_queue_def split_beta)
  have sp: "fst ?d = find (runnable ps p) (q_items (process_queues ps p))"
      "q_items (snd ?d) = tl (dropWhile (\<lambda>x. \<not> runnable ps p x) (q_items (process_queues ps p)))"
      "q_valid (snd ?d)"
    using pq.search_spec [OF v, of "runnable ps p"] by auto
  show "process_table ps' = process_table ps" "current_process ps' = current_process ps"
    "first_time ps' = first_time ps"
    by (simp_all add: ps')
  show "r = find (runnable ps p) (q_items (process_queues ps p))" using r sp(1) by simp
  have "set (q_items (snd ?d)) \<subseteq> set (q_items (process_queues ps p))"
    unfolding sp(2) by (rule set_tl_dropWhile)
  then show "queues_ok ps'"
    using assms(1,2) sp(3) by (auto simp: queues_ok_def ps')
  show "j \<in> set (q_items (process_queues ps' q))"
    if "j \<in> set (q_items (process_queues ps q))" "Some j \<noteq> r" "q = p \<longrightarrow> runnable ps p j" for j q
    using that pq.search_keeps [OF v, of j "runnable ps p"] r by (auto simp: ps')
qed

text \<open>How many priorities are tried before \<open>q\<close> when \<open>p\<close> is drawn.\<close>

definition rank :: "nat \<Rightarrow> nat \<Rightarrow> nat" where
  "rank p q = (q + PRIORITY_LEVELS - p) mod PRIORITY_LEVELS"

definition ready_queued :: "procs \<Rightarrow> nat \<Rightarrow> bool" where
  "ready_queued ps j \<longleftrightarrow> (\<exists>q<PRIORITY_LEVELS. j \<in> set (q_items (process_queues ps q)) \<and> runnable ps q j)"

text \<open>The first process of a queue that the search can take.\<close>

definition first_runnable :: "procs \<Rightarrow> nat \<Rightarrow> nat option" where
  "first_runnable ps q = find (runnable ps q) (q_items (process_queues ps q))"

lemma runnable_cong: "process_table ps' = process_table ps \<Longrightarrow> runnable ps' = runnable ps"
  by (simp add: runnable_def fun_eq_iff)

lemma search_queue_other: "q \<noteq> p \<Longrightarrow> process_queues (snd (search_queue p ps)) q = process_queues ps q"
  by (simp add: search_queue_def split_beta)

text \<open>One search: what it finds, what it leaves.\<close>

lemma search_queue_step:
  assumes "queues_ok ps" "p < PRIORITY_LEVELS"
  defines "s \<equiv> search_queue p ps"
  shows "process_table (snd s) = process_table ps \<and> queues_ok (snd s) \<and>
      current_process (snd s) = current_process ps \<and> first_time (snd s) = first_time ps"
    and "fst s = None \<Longrightarrow> j \<in> set (q_items (process_queues ps p)) \<Longrightarrow> \<not> runnable ps p j"
    and "fst s = Some i \<Longrightarrow> i < MAX_PROCESSES \<and> runnable ps p i \<and> first_runnable ps p = Some i"
    and "ready_queued ps j \<Longrightarrow> fst s \<noteq> Some j \<Longrightarrow> ready_queued (snd s) j"
proof -
  note r = search_queue_props [OF assms(1,2), of "fst s" "snd s"]
  have e: "search_queue p ps = (fst s, snd s)" by (simp add: s_def)
  show "process_table (snd s) = process_table ps \<and> queues_ok (snd s) \<and>
      current_process (snd s) = current_process ps \<and> first_time (snd s) = first_time ps"
    using r(1-4) [OF e] by simp
  show "fst s = None \<Longrightarrow> j \<in> set (q_items (process_queues ps p)) \<Longrightarrow> \<not> runnable ps p j"
    using r(5) [OF e] by (simp add: find_None_iff)
  show "fst s = Some i \<Longrightarrow> i < MAX_PROCESSES \<and> runnable ps p i \<and> first_runnable ps p = Some i"
    using r(5) [OF e] assms(1,2) by (auto simp: find_Some_iff queues_ok_def first_runnable_def)
  show "ready_queued ps j \<Longrightarrow> fst s \<noteq> Some j \<Longrightarrow> ready_queued (snd s) j"
    unfolding ready_queued_def runnable_cong [OF r(1) [OF e]] using r(6) [OF e] by metis
qed

text \<open>The queues of a list of priorities, one after the other.\<close>

fun search_list :: "nat list \<Rightarrow> procs \<Rightarrow> nat option \<times> procs" where
  "search_list [] ps = (None, ps)"
| "search_list (q # qs) ps = (let s = search_queue q ps in if fst s \<noteq> None then s else search_list qs (snd s))"

lemma search_list_keeps:
  assumes "queues_ok ps" "set qs \<subseteq> {..<PRIORITY_LEVELS}"
  shows "process_table (snd (search_list qs ps)) = process_table ps \<and> queues_ok (snd (search_list qs ps)) \<and>
      current_process (snd (search_list qs ps)) = current_process ps \<and> first_time (snd (search_list qs ps)) = first_time ps \<and>
      (ready_queued ps j \<longrightarrow> fst (search_list qs ps) \<noteq> Some j \<longrightarrow> ready_queued (snd (search_list qs ps)) j)"
  using assms
proof (induction qs arbitrary: ps)
  case (Cons q qs)
  then have q: "q < PRIORITY_LEVELS" "set qs \<subseteq> {..<PRIORITY_LEVELS}" by simp_all
  note s = search_queue_step [OF Cons.prems(1) q(1)] and IH = Cons.IH [OF _ q(2), of "snd (search_queue q ps)"]
  show ?case using s(1,4) IH by (simp add: Let_def)
qed simp

lemma search_list_finds:
  assumes "queues_ok ps" "set qs \<subseteq> {..<PRIORITY_LEVELS}" "distinct qs"
  shows "fst (search_list qs ps) = Option.bind (find (\<lambda>q. first_runnable ps q \<noteq> None) qs) (first_runnable ps)"
  using assms
proof (induction qs arbitrary: ps)
  case (Cons q qs)
  then have q: "q < PRIORITY_LEVELS" by simp
  let ?s = "search_queue q ps"
  have f: "fst ?s = first_runnable ps q" "queues_ok (snd ?s)" "process_table (snd ?s) = process_table ps"
    using search_queue_props [OF Cons.prems(1) q, of "fst ?s" "snd ?s"] by (simp_all add: first_runnable_def)
  have o: "first_runnable (snd ?s) r = first_runnable ps r" if "r \<in> set qs" for r
  proof -
    have "r \<noteq> q" using that Cons.prems(3) by auto
    then show ?thesis by (simp add: first_runnable_def search_queue_other runnable_cong [OF f(3)])
  qed
  then have "find (\<lambda>r. first_runnable (snd ?s) r \<noteq> None) qs = find (\<lambda>r. first_runnable ps r \<noteq> None) qs"
    by (intro find_cong) simp_all
  moreover have "fst (search_list qs (snd ?s)) =
      Option.bind (find (\<lambda>r. first_runnable (snd ?s) r \<noteq> None) qs) (first_runnable (snd ?s))"
    using Cons.prems(2,3) by (intro Cons.IH [OF f(2)]) simp_all
  ultimately have "fst (search_list qs (snd ?s)) = Option.bind (find (\<lambda>r. first_runnable ps r \<noteq> None) qs) (first_runnable (snd ?s))"
    by simp
  also have "\<dots> = Option.bind (find (\<lambda>r. first_runnable ps r \<noteq> None) qs) (first_runnable ps)"
  proof (cases "find (\<lambda>r. first_runnable ps r \<noteq> None) qs")
    case (Some r)
    then have "r \<in> set qs" by (auto simp: find_Some_iff)
    then show ?thesis by (simp only: Some bind.simps o)
  qed simp
  finally show ?case using f(1) by (simp add: Let_def)
qed simp

text \<open>The whole search, from the drawn priority on.\<close>

lemma search_from_list:
  "search_from p ps = search_list [p, (p + 1) mod PRIORITY_LEVELS, (p + 2) mod PRIORITY_LEVELS] ps"
  by (simp add: search_from_def Let_def) (metis prod.collapse)

lemma search_from_props:
  assumes "queues_ok ps" "p < PRIORITY_LEVELS"
  defines "s \<equiv> search_from p ps"
  shows "process_table (snd s) = process_table ps \<and> queues_ok (snd s) \<and>
      current_process (snd s) = current_process ps \<and> first_time (snd s) = first_time ps"
    and "fst s = None \<Longrightarrow> \<not> ready_queued ps j"
    and "fst s = Some i \<Longrightarrow> i < MAX_PROCESSES \<and> runnable ps (unat (p_priority (process_table ps i))) i \<and>
      first_runnable ps (unat (p_priority (process_table ps i))) = Some i"
    and "fst s = Some i \<Longrightarrow> ready_queued ps j \<Longrightarrow>
      rank p (unat (p_priority (process_table ps i))) \<le> rank p (unat (p_priority (process_table ps j)))"
    and "ready_queued ps j \<Longrightarrow> fst s \<noteq> Some j \<Longrightarrow> ready_queued (snd s) j"
proof -
  define qs where "qs = [p, (p + 1) mod PRIORITY_LEVELS, (p + 2) mod PRIORITY_LEVELS]"
  have p: "p = 0 \<or> p = 1 \<or> p = 2" using assms(2) by linarith
  then have qs: "set qs \<subseteq> {..<PRIORITY_LEVELS}" "distinct qs" "q < PRIORITY_LEVELS \<Longrightarrow> q \<in> set qs" and l: "length qs = 3" for q
    by (elim disjE; auto simp: qs_def)+
  have rk: "rank p (qs ! k) = k" if "k < 3" for k
  proof -
    have "k = 0 \<or> k = 1 \<or> k = 2" using that by linarith
    then show ?thesis using p by (elim disjE; simp add: rank_def qs_def)
  qed
  have s: "s = search_list qs ps" by (simp only: s_def qs_def search_from_list)
  have found: "fst s = Option.bind (find (\<lambda>q. first_runnable ps q \<noteq> None) qs) (first_runnable ps)"
    unfolding s by (rule search_list_finds [OF assms(1) qs(1,2)])
  have first: "first_runnable ps q = Some i \<Longrightarrow> q < PRIORITY_LEVELS \<Longrightarrow>
      i < MAX_PROCESSES \<and> runnable ps q i \<and> unat (p_priority (process_table ps i)) = q" for q i
    using assms(1) by (auto simp: first_runnable_def find_Some_iff queues_ok_def runnable_def)
  have ready: "ready_queued ps j \<Longrightarrow> first_runnable ps (unat (p_priority (process_table ps j))) \<noteq> None \<and>
      unat (p_priority (process_table ps j)) < PRIORITY_LEVELS" for j
    by (auto simp: ready_queued_def runnable_def first_runnable_def find_None_iff)
  show "process_table (snd s) = process_table ps \<and> queues_ok (snd s) \<and>
      current_process (snd s) = current_process ps \<and> first_time (snd s) = first_time ps"
    unfolding s using search_list_keeps [OF assms(1) qs(1)] by blast
  show "ready_queued ps j \<Longrightarrow> fst s \<noteq> Some j \<Longrightarrow> ready_queued (snd s) j"
    unfolding s using search_list_keeps [OF assms(1) qs(1)] by blast
  show "\<not> ready_queued ps j" if "fst s = None"
    using that ready [of j] qs(3) [of "unat (p_priority (process_table ps j))"] unfolding found
    by (cases "find (\<lambda>q. first_runnable ps q \<noteq> None) qs") (auto simp only: find_None_iff find_Some_iff bind.simps)
  assume i: "fst s = Some i"
  then obtain k where k: "k < 3" "first_runnable ps (qs ! k) = Some i" "\<And>m. m < k \<Longrightarrow> first_runnable ps (qs ! m) = None"
    unfolding found bind_eq_Some_conv find_Some_iff l by auto
  have q: "qs ! k < PRIORITY_LEVELS" using subsetD [OF qs(1) nth_mem [of k qs]] k(1) l by simp
  note f = first [OF k(2) q]
  then show "i < MAX_PROCESSES \<and> runnable ps (unat (p_priority (process_table ps i))) i \<and>
      first_runnable ps (unat (p_priority (process_table ps i))) = Some i" using k(2) by simp
  assume j: "ready_queued ps j"
  obtain m where m: "m < 3" "unat (p_priority (process_table ps j)) = qs ! m"
    using qs(3) [of "unat (p_priority (process_table ps j))"] ready [OF j] by (auto simp: in_set_conv_nth l)
  then have "\<not> m < k" using k(3) ready [OF j] by metis
  then show "rank p (unat (p_priority (process_table ps i))) \<le> rank p (unat (p_priority (process_table ps j)))"
    using f m(2) rk [OF k(1)] rk [OF m(1)] by simp
qed

lemma ready_is_queued:
  assumes "sched_ok ps" "0 < j" "j < MAX_PROCESSES" "p_state (process_table ps j) = READY"
  shows "ready_queued ps j"
  using sched_okD [OF assms(1,3)] assms(2,4)
  by (auto simp: slot_ok_def ready_queued_def runnable_def)

lemma run_process_simps [simp]:
  "process_table (run_process i ps) = (process_table ps)(i := (process_table ps i)\<lparr>p_state := RUNNING\<rparr>)"
  "process_queues (run_process i ps) = process_queues ps"
  "current_process (run_process i ps) = i" "first_time (run_process i ps) = first_time ps"
  by (simp_all add: run_process_def)

lemma sched_run_process:
  assumes "sched_ok ps" "\<not> first_time ps" "i < MAX_PROCESSES" "i = 0 \<or> p_state (process_table ps i) \<noteq> TERMINATED"
    and "\<And>j. j < MAX_PROCESSES \<Longrightarrow> p_state (process_table ps j) \<noteq> RUNNING"
    and "process_table ps' = process_table ps" "queues_ok ps'" "first_time ps' = first_time ps"
    and "\<And>j. ready_queued ps j \<Longrightarrow> j \<noteq> i \<Longrightarrow> ready_queued ps' j"
  shows "sched_ok (run_process i ps')"
proof -
  let ?ps = "run_process i ps'"
  have "slot_ok ?ps j" if j: "j < MAX_PROCESSES" for j
  proof (cases "j = i")
    case True
    have "slot_ok ps i" using assms(1,3) by (rule sched_okD)
    then show ?thesis using True assms(2,4,6,8) by (auto simp: slot_ok_def)
  next
    case False
    have s: "slot_ok ps j" using assms(1) j by (rule sched_okD)
    have "j \<in> set (q_items (process_queues ps' (unat (p_priority (process_table ps j)))))"
      if "0 < j" "p_state (process_table ps j) = READY"
      using assms(9) [OF ready_is_queued [OF assms(1) that(1) j that(2)] False] assms(6)
      by (auto simp: ready_queued_def runnable_def)
    then show ?thesis using s False assms(5) [OF j] assms(6) by (auto simp: slot_ok_def)
  qed
  moreover have "queues_ok ?ps" using assms(7) by (simp add: queues_ok_def)
  ultimately show ?thesis using assms(3) by (simp add: sched_ok_def)
qed

lemma choose_next_facts:
  assumes "sched_ok ps" "\<not> first_time ps" "p < PRIORITY_LEVELS"
    and "\<And>j. j < MAX_PROCESSES \<Longrightarrow> p_state (process_table ps j) \<noteq> RUNNING"
  shows "\<exists>ps' i. choose_next p ps = Some ps' \<and> current_process ps' = i \<and> i < MAX_PROCESSES \<and>
    sched_ok ps' \<and> p_state (process_table ps' i) = RUNNING \<and>
    (\<forall>j. j \<noteq> i \<longrightarrow> process_table ps' j = process_table ps j) \<and>
    p_stack (process_table ps' i) = p_stack (process_table ps i) \<and>
    (if \<exists>j<MAX_PROCESSES. 0 < j \<and> p_state (process_table ps j) = READY
     then first_runnable ps (unat (p_priority (process_table ps i))) = Some i \<and>
       p_state (process_table ps i) = READY \<and>
       (\<forall>j<MAX_PROCESSES. 0 < j \<longrightarrow> p_state (process_table ps j) = READY \<longrightarrow>
          rank p (unat (p_priority (process_table ps i))) \<le> rank p (unat (p_priority (process_table ps j))))
     else i = 0)"
proof -
  have q: "queues_ok ps" using assms(1) by (simp add: sched_ok_def)
  define s where "s = search_from p ps"
  note f = search_from_props [OF q assms(3), folded s_def]
  define i where "i = (case fst s of None \<Rightarrow> 0 | Some i \<Rightarrow> i)"
  have c: "choose_next p ps = Some (run_process i (snd s))"
    by (simp add: choose_next_def next_loop_spec [OF assms(3)] s_def i_def split_beta)
  have i: "i < MAX_PROCESSES" "i = 0 \<or> p_state (process_table ps i) = READY"
    using f(3) by (auto simp: i_def runnable_def split: option.splits)
  have keep: "ready_queued ps j \<Longrightarrow> j \<noteq> i \<Longrightarrow> ready_queued (snd s) j" for j
    using f(2,5) by (auto simp: i_def split: option.splits)
  have ok: "sched_ok (run_process i (snd s))"
    by (rule sched_run_process [OF assms(1,2) i(1) _ assms(4)]) (use i(2) f(1) keep in auto)
  have pri: "first_runnable ps (unat (p_priority (process_table ps i))) = Some i \<and> p_state (process_table ps i) = READY \<and>
      rank p (unat (p_priority (process_table ps i))) \<le> rank p (unat (p_priority (process_table ps j)))"
    if "j < MAX_PROCESSES" "0 < j" "p_state (process_table ps j) = READY" for j
  proof -
    have r: "ready_queued ps j" by (rule ready_is_queued [OF assms(1) that(2,1,3)])
    then obtain i' where i': "fst s = Some i'" using f(2) by (cases "fst s") auto
    then have "i' = i" by (simp add: i_def)
    with i' show ?thesis using f(3) [OF i'] f(4) [OF i' r] by (auto simp: runnable_def)
  qed
  have t: "process_table (snd s) = process_table ps" using f(1) by blast
  let ?some = "\<exists>j<MAX_PROCESSES. 0 < j \<and> p_state (process_table ps j) = READY"
  have "if ?some then first_runnable ps (unat (p_priority (process_table ps i))) = Some i \<and>
       p_state (process_table ps i) = READY \<and>
       (\<forall>j<MAX_PROCESSES. 0 < j \<longrightarrow> p_state (process_table ps j) = READY \<longrightarrow>
          rank p (unat (p_priority (process_table ps i))) \<le> rank p (unat (p_priority (process_table ps j))))
     else i = 0"
  proof (cases ?some)
    case True
    then show ?thesis unfolding if_P [OF True] using pri by blast
  next
    case False
    then have "i = 0" using i by auto
    then show ?thesis unfolding if_not_P [OF False] .
  qed
  moreover have "\<forall>j. j \<noteq> i \<longrightarrow> process_table (run_process i (snd s)) j = process_table ps j"
    using t by simp
  moreover have "current_process (run_process i (snd s)) = i"
      "p_state (process_table (run_process i (snd s)) i) = RUNNING"
      "p_stack (process_table (run_process i (snd s)) i) = p_stack (process_table ps i)"
    using t by simp_all
  ultimately show ?thesis using c i(1) ok by blast
qed

text \<open>
  C8. The choice of \<open>get_next_process\<close>. Whatever priority is drawn, the search over the ready
  queues ends, and the process it gives the processor to is ready, is the first ready process of
  its queue, and stands in the first priority, from the drawn one on, that has a ready process;
  idle runs only when no process is ready. The chosen process is the only one running, no other process changes, and no ready
  process is lost from the queues.
\<close>

theorem choose_next_correct:
  assumes "sched_ok ps" "\<not> first_time ps" "p < PRIORITY_LEVELS"
    and "\<And>j. j < MAX_PROCESSES \<Longrightarrow> p_state (process_table ps j) \<noteq> RUNNING"
  shows "\<exists>ps' i. choose_next p ps = Some ps' \<and> current_process ps' = i \<and> i < MAX_PROCESSES \<and>
    sched_ok ps' \<and> p_state (process_table ps' i) = RUNNING \<and>
    (\<forall>j. j \<noteq> i \<longrightarrow> process_table ps' j = process_table ps j) \<and>
    (if \<exists>j<MAX_PROCESSES. 0 < j \<and> p_state (process_table ps j) = READY
     then first_runnable ps (unat (p_priority (process_table ps i))) = Some i \<and>
       p_state (process_table ps i) = READY \<and>
       (\<forall>j<MAX_PROCESSES. 0 < j \<longrightarrow> p_state (process_table ps j) = READY \<longrightarrow>
          rank p (unat (p_priority (process_table ps i))) \<le> rank p (unat (p_priority (process_table ps j))))
     else i = 0)"
  using choose_next_facts [OF assms] by blast

lemma choose_next_correct_witness:
  "\<exists>ps. choose_next 2 (k_procs (table_kernel ((\<lambda>_. plain_pcb 0 TERMINATED)(0 := plain_pcb 0 READY)) 0)) = Some ps \<and>
     current_process ps = 0 \<and> p_state (process_table ps 0) = RUNNING"
proof -
  let ?ps = "k_procs (table_kernel ((\<lambda>_. plain_pcb 0 TERMINATED)(0 := plain_pcb 0 READY)) 0)"
  have "sched_ok ?ps"
    by (auto simp: sched_ok_def queues_ok_def slot_ok_def)
  moreover have "\<not> (\<exists>j<MAX_PROCESSES. 0 < j \<and> p_state (process_table ?ps j) = READY)"
      "\<And>j. p_state (process_table ?ps j) \<noteq> RUNNING" "\<not> first_time ?ps"
    by auto
  ultimately show ?thesis
    using choose_next_correct [of ?ps 2] by auto
qed

section \<open>The drawn priority\<close>

lemma total_weight_value: "total_weight = 14"
  by (simp add: total_weight_def weight_def upt_rec)

lemma pick_priority_cases:
  "pick_priority r 0 0 = (if r < 9 then 0 else if r < 13 then 1 else 2)"
  by (simp add: pick_priority.simps weight_def)

lemma get_random_priority_less: "fst (get_random_priority k) < PRIORITY_LEVELS"
  by (simp add: get_random_priority_def split_beta pick_priority_cases)

text \<open>
  The draw of a priority is weighted 9 : 4 : 1. Of the fourteen values the random number
  can take, exactly nine select priority 0, four priority 1 and one priority 2.
\<close>

theorem get_random_priority_weights:
  "(\<exists>r<14. fst (get_random_priority k) = pick_priority (of_nat r) 0 0) \<and>
   card {r. r < 14 \<and> pick_priority (of_nat r) 0 0 = 0} = 9 \<and>
   card {r. r < 14 \<and> pick_priority (of_nat r) 0 0 = 1} = 4 \<and>
   card {r. r < 14 \<and> pick_priority (of_nat r) 0 0 = 2} = 1"
proof -
  have pick: "pick_priority (of_nat r) 0 0 = (if r < 9 then 0 else if r < 13 then 1 else 2)" if "r < 14" for r
  proof -
    have "unat (of_nat r :: u32) = r" using that by (simp add: unat_of_nat)
    then show ?thesis by (simp add: pick_priority_cases word_less_nat_alt)
  qed
  have "{r. r < 14 \<and> pick_priority (of_nat r) 0 0 = 0} = {..<9}"
    "{r. r < 14 \<and> pick_priority (of_nat r) 0 0 = 1} = {9..<13}"
    "{r. r < 14 \<and> pick_priority (of_nat r) 0 0 = 2} = {13..<14}"
    using pick by (auto split: if_splits)
  moreover have "\<exists>r<14. fst (get_random_priority k) = pick_priority (of_nat r) 0 0"
  proof -
    let ?r = "fst (randInt (k_rtc k) 0 13 (k_rng k))"
    have "0 \<le> ?r" "?r \<le> 13"
      using randInt_bounds [of 0 13 "k_rtc k" "k_rng k"] by auto
    then have "nat ?r < 14" "word_of_int ?r = (of_nat (nat ?r) :: u32)" by auto
    then show ?thesis
      by (intro exI [of _ "nat ?r"]) (simp add: get_random_priority_def split_beta total_weight_value)
  qed
  ultimately show ?thesis by simp
qed

section \<open>Termination and reaping\<close>

text \<open>Fields the scheduler does not look at.\<close>

definition same_schedule :: "(pcb \<Rightarrow> pcb) \<Rightarrow> bool" where
  "same_schedule f \<longleftrightarrow> (\<forall>p. p_pid (f p) = p_pid p \<and> p_state (f p) = p_state p \<and>
     p_previous (f p) = p_previous p \<and> p_priority (f p) = p_priority p)"

lemma sched_okI:
  assumes "current_process ps < MAX_PROCESSES" "queues_ok ps" "\<And>j. j < MAX_PROCESSES \<Longrightarrow> slot_ok ps j"
  shows "sched_ok ps"
  using assms by (simp add: sched_ok_def)

lemma sched_ok_fields [simp]:
  "sched_ok (ps\<lparr>process_count := c\<rparr>) = sched_ok ps"
  "sched_ok (ps\<lparr>terminated_processes_queue := q\<rparr>) = sched_ok ps"
  "sched_ok (ps\<lparr>system_running := r\<rparr>) = sched_ok ps"
  "sched_ok (ps\<lparr>foreground_process := f\<rparr>) = sched_ok ps"
  "sched_ok (ps\<lparr>next_pid := n\<rparr>) = sched_ok ps"
  by (rule sched_ok_cong; simp)+

lemma queues_ok_upd_pcb [simp]: "queues_ok (upd_pcb i f ps) = queues_ok ps"
  by (simp add: queues_ok_def)

lemma sched_upd_flag:
  assumes "sched_ok ps" "same_schedule f"
  shows "sched_ok (upd_pcb i f ps)"
proof (rule sched_okI)
  fix j assume "j < MAX_PROCESSES"
  then have "slot_ok ps j" by (rule sched_okD [OF assms(1)])
  then show "slot_ok (upd_pcb i f ps) j"
    using assms(2) by (cases "j = i") (simp_all add: slot_ok_def same_schedule_def)
qed (use assms(1) in \<open>simp_all add: sched_ok_def\<close>)

lemma sched_terminate:
  assumes "sched_ok ps"
  shows "sched_ok (upd_pcb i (\<lambda>p. p\<lparr>p_state := TERMINATED\<rparr>) ps)"
proof (rule sched_okI)
  fix j assume "j < MAX_PROCESSES"
  then have "slot_ok ps j" by (rule sched_okD [OF assms(1)])
  then show "slot_ok (upd_pcb i (\<lambda>p. p\<lparr>p_state := TERMINATED\<rparr>) ps) j"
    by (cases "j = i") (simp_all add: slot_ok_def)
qed (use assms(1) in \<open>simp_all add: sched_ok_def\<close>)

lemma sched_reap: "sched_ok (k_procs k) \<Longrightarrow> sched_ok (k_procs (reap i k))"
proof -
  assume ok: "sched_ok (k_procs k)"
  let ?ps = "(upd_pcb i (\<lambda>p. p\<lparr>p_state := TERMINATED\<rparr>) (k_procs k))
    \<lparr>process_count := process_count (k_procs k) - 1\<rparr>"
  have "sched_ok ?ps" using sched_terminate [OF ok] by simp
  moreover from this have "sched_ok (upd_pcb i (\<lambda>p. p\<lparr>p_stack_base := 0\<rparr>) ?ps)"
    by (rule sched_upd_flag) (simp add: same_schedule_def)
  ultimately show ?thesis by (simp add: reap_def Let_def)
qed

lemma reap_queues [simp]:
  "process_queues (k_procs (reap i k)) = process_queues (k_procs k)"
  "current_process (k_procs (reap i k)) = current_process (k_procs k)"
  "procs_initialized (k_procs (reap i k)) = procs_initialized (k_procs k)"
  "first_time (k_procs (reap i k)) = first_time (k_procs k)"
  by (simp_all add: reap_def Let_def)

lemma set_terminated_queue_simps [simp]:
  "sched_ok (k_procs (set_terminated_queue q k)) = sched_ok (k_procs k)"
  "process_queues (k_procs (set_terminated_queue q k)) = process_queues (k_procs k)"
  "current_process (k_procs (set_terminated_queue q k)) = current_process (k_procs k)"
  "procs_initialized (k_procs (set_terminated_queue q k)) = procs_initialized (k_procs k)"
  "first_time (k_procs (set_terminated_queue q k)) = first_time (k_procs k)"
  by (simp_all add: set_terminated_queue_def)

lemma free_terminated_keeps:
  assumes "sched_ok (k_procs k)"
  shows "sched_ok (k_procs (free_terminated_processes k)) \<and>
    process_queues (k_procs (free_terminated_processes k)) = process_queues (k_procs k) \<and>
    current_process (k_procs (free_terminated_processes k)) = current_process (k_procs k) \<and>
    first_time (k_procs (free_terminated_processes k)) = first_time (k_procs k)"
  using assms
proof (induction k rule: free_terminated_processes.induct)
  case (1 k)
  obtain r q where d: "dequeue_process (terminated_processes_queue (k_procs k)) = (r, q)" by fastforce
  show ?case
  proof (cases r)
    case None
    then show ?thesis using 1(2) d by (simp add: free_terminated_processes.simps [of k])
  next
    case (Some i)
    let ?k = "reap i (set_terminated_queue q k)"
    have "sched_ok (k_procs ?k)" by (rule sched_reap) (use 1(2) in simp)
    from 1(1) [OF d [symmetric] Some this]
    show ?thesis using d Some by (simp add: free_terminated_processes.simps [of k])
  qed
qed

lemma scheduler_facts:
  assumes "procs_initialized (k_procs k)" "st \<noteq> 0" "sched_ok (k_procs k)" "all_room (k_procs k)"
    and "k1 = free_terminated_processes k"
  shows "\<exists>sp k'. scheduler st k = Some (sp, k') \<and> sched_ok (k_procs k') \<and>
    (if has_running_processes (k_procs k1)
     then (\<forall>i<MAX_PROCESSES. p_state (process_table (k_procs k') i) = RUNNING \<longleftrightarrow> i = current_process (k_procs k')) \<and>
       sp = p_stack (process_table (k_procs k') (current_process (k_procs k'))) \<and>
       (\<not> first_time (k_procs k) \<longrightarrow>
          p_stack (process_table (k_procs k') (current_process (k_procs k))) = st)
     else system_running (k_procs k') = 0 \<and> sp = p_stack (process_table (k_procs k') 0))"
proof -
  have k1: "sched_ok (k_procs k1)" "all_room (k_procs k1)"
      "current_process (k_procs k1) = current_process (k_procs k)" "first_time (k_procs k1) = first_time (k_procs k)"
    using free_terminated_keeps [OF assms(3)] assms(4,5) by (auto simp: all_room_def)
  show ?thesis
  proof (cases "has_running_processes (k_procs k1)")
    case False
    have "sched_ok (stop_system (k_procs k1))"
      using k1(1) by (simp add: stop_system_def)
    then show ?thesis
      using False assms(1,2,5)
      by (simp add: scheduler_def processes_initialized_def Let_def stop_system_def get_idle_process_stack_def)
  next
    case True
    let ?ps = "set_next_process st (k_procs k1)"
    let ?k2 = "upd_procs (set_next_process st) k1"
    define p where "p = fst (get_random_priority ?k2)"
    have ok: "sched_ok ?ps" by (rule sched_set_next_process [OF k1(1,2)])
    have c: "current_process (k_procs k1) < MAX_PROCESSES" by (rule sched_current [OF k1(1)])
    then have ft: "\<not> first_time ?ps" by (simp add: set_next_process_def Let_def)
    have nr: "\<And>j. j < MAX_PROCESSES \<Longrightarrow> p_state (process_table ?ps j) \<noteq> RUNNING"
      by (rule set_next_not_running [OF k1(1)])
    obtain ps' i where ch: "choose_next p ?ps = Some ps'" "current_process ps' = i" "i < MAX_PROCESSES"
        "sched_ok ps'" "p_state (process_table ps' i) = RUNNING"
        "\<forall>j. j \<noteq> i \<longrightarrow> process_table ps' j = process_table ?ps j"
        "p_stack (process_table ps' i) = p_stack (process_table ?ps i)"
      using choose_next_facts [OF ok ft get_random_priority_less nr, of ?k2] unfolding p_def by blast
    have rp: "k_procs (snd (get_random_priority ?k2)) = ?ps"
      by (simp add: get_random_priority_def split_beta)
    have "scheduler st k = Some (current_stack_of ps', (snd (get_random_priority ?k2))\<lparr>k_procs := ps'\<rparr>)"
      using True assms(1,2,5) ch(1) rp
      by (simp add: scheduler_def processes_initialized_def Let_def get_next_process_def split_beta p_def)
    moreover have "p_stack (process_table ps' (current_process (k_procs k))) = st" if "\<not> first_time (k_procs k)"
      using ch(6,7) that c k1(3,4)
      by (cases "current_process (k_procs k) = i") (auto simp: set_next_process_def Let_def)
    moreover have "\<forall>j<MAX_PROCESSES. p_state (process_table ps' j) = RUNNING \<longleftrightarrow> j = current_process ps'"
      using ch(2,5,6) nr by metis
    ultimately show ?thesis
      using True ch(2,4) by (simp add: current_stack_of_def)
  qed
qed



section \<open>Killing and creating\<close>

lemma sched_return_foreground: "sched_ok ps \<Longrightarrow> sched_ok (return_foreground i ps)"
  by (simp add: return_foreground_def Let_def sched_upd_flag same_schedule_def)

lemma sched_adopt: "sched_ok ps \<Longrightarrow> sched_ok (adopt c ps)"
  by (simp add: adopt_def sched_upd_flag same_schedule_def)

lemma return_foreground_queues [simp]: "process_queues (return_foreground i ps) = process_queues ps"
  by (simp add: return_foreground_def Let_def)

lemma fold_adopt_queues [simp]: "process_queues (fold adopt cs ps) = process_queues ps"
  by (induction cs arbitrary: ps) (simp_all add: adopt_def)

lemma sched_fold_adopt: "sched_ok ps \<Longrightarrow> sched_ok (fold adopt cs ps)"
  by (induction cs arbitrary: ps) (simp_all add: sched_adopt)

lemma sems_ready_procs [simp]: "k_procs (sems_ready k) = k_procs k" "k_sleep (sems_ready k) = k_sleep k"
  by (simp_all add: sems_ready_def init_sem_manager_def)

lemma sched_sem_post:
  assumes "sched_ok (k_procs k)" "all_room (k_procs k)"
  shows "sched_ok (k_procs (sem_post s k))"
  using sched_wake_up_process assms
  by (simp add: sem_post_def Let_def split_beta split: option.split)

lemma sched_sem_wait:
  assumes "sched_ok (k_procs k)" "sem_wait s k = Suspended k' u \<or> sem_wait s k = Returned k' u
    \<or> sem_wait_resume s k = Suspended k' u \<or> sem_wait_resume s k = Returned k' u"
  shows "sched_ok (k_procs k')"
  using assms sched_block_process
  by (auto simp: sem_wait_def sem_wait_resume_def sem_attempt_def Let_def split: if_splits)

lemma sched_kill_process:
  assumes "sched_ok (k_procs k)" "all_room (k_procs k)"
  shows "sched_ok (k_procs (snd (kill_process pid k)))"
proof -
  have "sched_ok (fold adopt cs (return_foreground i (upd_pcb i (\<lambda>p. p\<lparr>p_state := TERMINATED\<rparr>) (k_procs k))))"
    for i cs
    by (rule sched_fold_adopt [OF sched_return_foreground [OF sched_terminate [OF assms(1)]]])
  then show ?thesis
    using assms sched_sem_post
    by (simp add: kill_process_def Let_def all_room_def split: option.split)
qed

lemma take_foreground_queues [simp]:
  "process_queues (snd (take_foreground f ps)) = process_queues ps"
  "next_pid (snd (take_foreground f ps)) = next_pid ps"
  "current_process (snd (take_foreground f ps)) = current_process ps"
  "process_count (snd (take_foreground f ps)) = process_count ps"
  by (simp_all add: take_foreground_def)

lemma sched_take_foreground: "sched_ok ps \<Longrightarrow> sched_ok (snd (take_foreground f ps))"
  by (simp add: take_foreground_def sched_upd_flag same_schedule_def)

text \<open>A new process that is launched is in the table, ready, and in queue 0.\<close>

lemma sched_launch:
  assumes "sched_ok ps" "all_room ps" "i < MAX_PROCESSES"
    and "p_state p = READY" "p_previous p = TERMINATED" "p_priority p = 0" "p_pid p \<noteq> 0"
  shows "sched_ok (launch i fg (upd_pcb i (\<lambda>_. p) ps))"
proof -
  let ?c = "current_process ps" and ?h = "\<lambda>p. p\<lparr>p_children := p_children p @ [i]\<rparr>"
  let ?g = "\<lambda>p. p\<lparr>p_stack := set_process_stack (p_stack_base p + STACK_SIZE - 8), p_is_foreground := fg\<rparr>"
  let ?p = "if ?c = i then ?h p else p"
  let ?ps = "if ?c = i then ps else upd_pcb ?c ?h ps"
  have e: "upd_pcb i ?g (upd_pcb ?c ?h (upd_pcb i (\<lambda>_. p) ps)) = upd_pcb i (\<lambda>_. ?g ?p) ?ps"
    by (auto simp: upd_pcb_def fun_eq_iff)
  have "sched_ok (upd_pcb ?c ?h ps)"
    by (rule sched_upd_flag [OF assms(1)]) (simp add: same_schedule_def)
  then have ok: "sched_ok ?ps" using assms(1) by simp
  have pf: "p_state ?p = READY" "p_previous ?p = TERMINATED" "p_priority ?p = 0" "p_pid ?p \<noteq> 0"
    using assms(4-7) by simp_all
  have "process_queues ?ps = process_queues ps" by simp
  then have "q_room (process_queues ?ps 0)" using assms(2) by (simp add: all_room_def)
  then have "sched_ok (put_ready i 0 (upd_pcb i (\<lambda>_. ?g ?p) ?ps))"
    using pf by (intro sched_make_ready [OF ok assms(3) refl]) (simp_all split del: if_split)
  moreover have "launch i fg (upd_pcb i (\<lambda>_. p) ps) =
      (put_ready i 0 (upd_pcb i (\<lambda>_. ?g ?p) ?ps))\<lparr>process_count := process_count ps + 1\<rparr>"
    unfolding e [symmetric] by (simp add: launch_def Let_def)
  ultimately show ?thesis by simp
qed

lemma free_slot: "find_free_slot ps = Some i \<Longrightarrow>
    0 < i \<and> i < MAX_PROCESSES \<and> p_state (process_table ps i) = TERMINATED"
  unfolding find_free_slot_def by (auto dest: find_from_SomeD)

text \<open>The process table entry a creation builds.\<close>

definition new_pcb :: "string option \<Rightarrow> (u16 \<times> u16) option \<Rightarrow> u8 \<Rightarrow> u64 \<Rightarrow> procs \<Rightarrow> pcb" where
  "new_pcb name fds fg base ps =
     \<lparr>p_pid = next_pid ps, p_name = process_name name, p_state = READY,
      p_previous = TERMINATED, p_priority = 0, p_stack_base = base, p_stack = base,
      p_fd_in = (case fds of Some (a, _) \<Rightarrow> if a \<noteq> 0 then a else STDIN | None \<Rightarrow> STDIN),
      p_fd_out = (case fds of Some (_, b) \<Rightarrow> if b \<noteq> 0 then b else STDOUT | None \<Rightarrow> STDOUT),
      p_father = current_process ps, p_children = [], p_exit_status = -1,
      p_sem_wait_id = -1, p_is_foreground = fg\<rparr>"

lemma new_pcb_simps [simp]:
  "p_pid (new_pcb name fds fg base ps) = next_pid ps" "p_state (new_pcb name fds fg base ps) = READY"
  "p_previous (new_pcb name fds fg base ps) = TERMINATED" "p_priority (new_pcb name fds fg base ps) = 0"
  "p_stack_base (new_pcb name fds fg base ps) = base" "p_children (new_pcb name fds fg base ps) = []"
  "p_father (new_pcb name fds fg base ps) = current_process ps"
  "p_name (new_pcb name fds fg base ps) = process_name name"
  by (simp_all add: new_pcb_def)

text \<open>Up to the tests that follow the write of the table entry, creation is this.\<close>

definition entered :: "string option \<Rightarrow> (u16 \<times> u16) option \<Rightarrow> u8 \<Rightarrow> nat \<Rightarrow> u64 \<Rightarrow> procs \<Rightarrow> procs" where
  "entered name fds is_fg i base ps =
     (let (fg, ps1) = take_foreground is_fg ps
      in upd_pcb i (\<lambda>_. new_pcb name fds fg base ps1) (ps1\<lparr>next_pid := next_pid ps1 + 1\<rparr>))"

lemma spawn_entered:
  assumes "process_count (k_procs k) < of_nat MAX_PROCESSES"
    and "find_free_slot (k_procs k) = Some i"
    and "memory_alloc (k_heap k) STACK_SIZE = Some (base, h)"
  shows "spawn name fds is_fg k =
    (let ps2 = entered name fds is_fg i base (k_procs k); k2 = k\<lparr>k_procs := ps2, k_heap := h\<rparr>
     in if base = 0 \<or> length (p_children (process_table ps2 (current_process ps2))) \<ge> MAX_CHILDREN
        then Some (PID_ERROR, k2)
        else Some (next_pid (k_procs k), upd_procs (launch i (fst (take_foreground is_fg (k_procs k)))) k2))"
proof -
  have "set_new_process name fds fg (k\<lparr>k_procs := ps\<rparr>) = Some (new_pcb name fds fg base ps,
      k\<lparr>k_procs := ps\<lparr>next_pid := next_pid ps + 1\<rparr>, k_heap := h\<rparr>)" for fg ps
    using assms(3) by (simp add: set_new_process_def new_pcb_def upd_procs_def)
  moreover have "\<not> of_nat MAX_PROCESSES \<le> process_count (k_procs k)" using assms(1) by simp
  ultimately show ?thesis
    using assms(2) by (simp add: spawn_def split_beta Let_def entered_def launch_def upd_procs_def)
qed

end
