(* ===== verification/Life_Properties.thy ===== *)
theory Life_Properties
  imports Sched_Invariant
begin

text \<open>
  What creation, termination, reaping and waiting of processes.c do, branch by branch, and
  where they fail.
\<close>

lemma sched_entered:
  assumes "sched_ok ps" "all_room ps" "i < MAX_PROCESSES" "next_pid ps \<noteq> 0"
  shows "sched_ok (launch i g (entered name fds is_fg i base ps))"
proof -
  let ?ps1 = "(snd (take_foreground is_fg ps))\<lparr>next_pid := next_pid ps + 1\<rparr>"
  have "sched_ok ?ps1" "all_room ?ps1"
    using sched_take_foreground [OF assms(1)] assms(2) by (simp_all add: all_room_def)
  from sched_launch [OF this assms(3)] show ?thesis
    using assms(4) by (simp add: entered_def split_beta)
qed

lemma sched_create_process:
  assumes "sched_ok (k_procs k)" "all_room (k_procs k)" "procs_initialized (k_procs k)"
    and "create_process name fds is_fg k = Some (pid, k')" "pid \<noteq> PID_ERROR" "next_pid (k_procs k) \<noteq> 0"
  shows "sched_ok (k_procs k')"
proof -
  have sp: "spawn name fds is_fg k = Some (pid, k')"
    using assms(3,4) by (simp add: create_process_def)
  then have pc: "process_count (k_procs k) < of_nat MAX_PROCESSES"
    using assms(5) by (auto simp: spawn_def split: if_splits)
  obtain i where i: "find_free_slot (k_procs k) = Some i"
    using sp assms(5) pc by (cases "find_free_slot (k_procs k)")
      (auto simp: spawn_def split: if_splits)
  obtain base h where m: "memory_alloc (k_heap k) STACK_SIZE = Some (base, h)"
    using sp i pc by (cases "memory_alloc (k_heap k) STACK_SIZE")
      (auto simp: spawn_def set_new_process_def split_beta Let_def split: if_splits)
  have "k' = upd_procs (launch i (fst (take_foreground is_fg (k_procs k))))
      (k\<lparr>k_procs := entered name fds is_fg i base (k_procs k), k_heap := h\<rparr>)"
    using sp assms(5) unfolding spawn_entered [OF pc i m] by (simp add: Let_def split: if_splits)
  then show ?thesis
    using sched_entered [OF assms(1,2) _ assms(6)] free_slot [OF i] by simp
qed


lemma table_kernel_heap [simp]: "k_heap (table_kernel t c) = memory_manager_init raw_heap MEMORY_START"
  by (simp add: table_kernel_def static_kernel_def static_heap_def)

lemma find_free_slotI:
  "0 < i \<Longrightarrow> i < MAX_PROCESSES \<Longrightarrow> p_state (process_table ps i) = TERMINATED \<Longrightarrow>
   (\<And>j. 0 < j \<Longrightarrow> j < i \<Longrightarrow> p_state (process_table ps j) \<noteq> TERMINATED) \<Longrightarrow> find_free_slot ps = Some i"
  unfolding find_free_slot_def by (rule find_from_SomeI) simp_all

lemma zero_queue_room [simp]: "q_room zero_queue"
  by (simp add: q_room_def zero_queue_def)


section \<open>Reaping\<close>

lemma reap_table:
  "process_table (k_procs (reap i k)) = (process_table (k_procs k))
     (i := (process_table (k_procs k) i)\<lparr>p_state := TERMINATED, p_stack_base := 0\<rparr>)"
proof -
  let ?p = "process_table (k_procs k) i"
  have t: "process_table (k_procs (reap i k)) = (process_table (k_procs k))
      (i := if p_stack_base ?p = 0 then ?p\<lparr>p_state := TERMINATED\<rparr> else ?p\<lparr>p_state := TERMINATED, p_stack_base := 0\<rparr>)"
    by (simp add: reap_def Let_def)
  have "(if p_stack_base ?p = 0 then ?p\<lparr>p_state := TERMINATED\<rparr> else ?p\<lparr>p_state := TERMINATED, p_stack_base := 0\<rparr>)
      = ?p\<lparr>p_state := TERMINATED, p_stack_base := 0\<rparr>"
    by (cases ?p) simp
  then show ?thesis unfolding t by (rule arg_cong)
qed

lemma reap_count: "process_count (k_procs (reap i k)) = process_count (k_procs k) - 1"
  by (simp add: reap_def Let_def)

lemma set_terminated_queue_table [simp]:
  "process_table (k_procs (set_terminated_queue q k)) = process_table (k_procs k)"
  "process_count (k_procs (set_terminated_queue q k)) = process_count (k_procs k)"
  by (simp_all add: set_terminated_queue_def)

lemma free_terminated_spec:
  assumes "q_valid (terminated_processes_queue (k_procs k))"
    and "q_items (terminated_processes_queue (k_procs k)) = is"
  shows "process_table (k_procs (free_terminated_processes k)) =
      (\<lambda>j. if j \<in> set is then (process_table (k_procs k) j)\<lparr>p_state := TERMINATED, p_stack_base := 0\<rparr>
           else process_table (k_procs k) j) \<and>
    process_count (k_procs (free_terminated_processes k)) = process_count (k_procs k) - of_nat (length is) \<and>
    q_items (terminated_processes_queue (k_procs (free_terminated_processes k))) = []"
  using assms
proof (induction "is" arbitrary: k)
  case Nil
  then show ?case
    using pq.deq_empty [OF Nil] by (simp add: free_terminated_processes.simps [of k])
next
  case (Cons i "is")
  let ?q = "terminated_processes_queue (k_procs k)"
  have d: "dequeue_process ?q = (Some i, snd (dequeue_process ?q))" "q_items (snd (dequeue_process ?q)) = is"
      "q_valid (snd (dequeue_process ?q))"
    using pq.deq_items [OF Cons.prems] pq.deq_valid [OF Cons.prems(1)] by (auto simp: prod_eq_iff)
  let ?k = "reap i (set_terminated_queue (snd (dequeue_process ?q)) k)"
  have "free_terminated_processes k = free_terminated_processes ?k"
    by (subst free_terminated_processes.simps, subst d(1)) simp
  then show ?case
    using Cons.IH [of ?k] d(2,3) by (simp add: reap_table reap_count fun_eq_iff)
qed

text \<open>
  Reaping. Every process in the queue of terminated processes ends up terminated and
  without a stack, the process count drops by the number of entries, no other process is
  touched, and the queue is empty.
\<close>

theorem free_terminated_correct:
  assumes "q_valid (terminated_processes_queue (k_procs k))"
    and "j < MAX_PROCESSES"
  defines "is \<equiv> q_items (terminated_processes_queue (k_procs k))"
  defines "k' \<equiv> free_terminated_processes k"
  shows "q_items (terminated_processes_queue (k_procs k')) = [] \<and>
    process_count (k_procs k') = process_count (k_procs k) - of_nat (length is) \<and>
    (j \<in> set is \<longrightarrow> p_state (process_table (k_procs k') j) = TERMINATED \<and>
       p_stack_base (process_table (k_procs k') j) = 0) \<and>
    (j \<notin> set is \<longrightarrow> process_table (k_procs k') j = process_table (k_procs k) j)"
  using free_terminated_spec [OF assms(1) refl] by (simp add: is_def k'_def)

lemma free_terminated_correct_witness:
  "\<exists>k. q_items (terminated_processes_queue (k_procs k)) = [5] \<and> process_count (k_procs k) = 2 \<and>
     process_count (k_procs (free_terminated_processes k)) = 1 \<and>
     p_state (process_table (k_procs (free_terminated_processes k)) 5) = TERMINATED"
proof -
  let ?k = "upd_procs (\<lambda>ps. ps\<lparr>terminated_processes_queue := enqueued 5 zero_queue, process_count := 2\<rparr>)
    (table_kernel (\<lambda>_. plain_pcb 7 READY) 0)"
  have q: "q_items (enqueued 5 zero_queue) = [5]" "q_valid (enqueued 5 zero_queue)"
    using q_put [of zero_queue 5] by simp_all
  then show ?thesis
    using free_terminated_correct [of ?k 5] by (intro exI [of _ ?k]) simp
qed

section \<open>Two failures of creation\<close>

lemma entered_table:
  "process_table (entered name fds fg i base ps) i = new_pcb name fds (fst (take_foreground fg ps)) base (snd (take_foreground fg ps))"
  "j \<noteq> i \<Longrightarrow> process_table (entered name fds fg i base ps) j = process_table (snd (take_foreground fg ps)) j"
  "process_queues (entered name fds fg i base ps) = process_queues ps"
  "current_process (entered name fds fg i base ps) = current_process ps"
  "process_count (entered name fds fg i base ps) = process_count ps"
  "foreground_process (entered name fds fg i base ps) = foreground_process (snd (take_foreground fg ps))"
  by (simp_all add: entered_def split_beta)

lemma take_foreground_children [simp]:
  "p_children (process_table (snd (take_foreground fg ps)) j) = p_children (process_table ps j)"
  by (simp add: take_foreground_def)

text \<open>
  The number of children of a process only grows, and a process that has had 64 cannot
  create another. The failing call still takes the first free slot: it stays ready, with a
  pid, in no queue, and so neither runs nor is ever free again; and when the caller was in
  the foreground and asked for a foreground process, it loses the foreground to that pid.
\<close>

theorem create_process_leaks_slot:
  assumes "procs_initialized (k_procs k)" "process_count (k_procs k) < of_nat MAX_PROCESSES"
    and "find_free_slot (k_procs k) = Some i"
    and "memory_alloc (k_heap k) STACK_SIZE = Some (base, h)"
    and "current_process (k_procs k) = c" "c \<noteq> i"
    and "length (p_children (process_table (k_procs k) c)) = MAX_CHILDREN"
  shows "\<exists>k'. create_process name fds fg k = Some (PID_ERROR, k') \<and>
    p_state (process_table (k_procs k') i) = READY \<and> p_pid (process_table (k_procs k') i) = next_pid (k_procs k) \<and>
    process_queues (k_procs k') = process_queues (k_procs k) \<and>
    process_count (k_procs k') = process_count (k_procs k) \<and>
    (fg \<noteq> 0 \<longrightarrow> p_is_foreground (process_table (k_procs k) c) \<noteq> 0 \<longrightarrow>
       p_is_foreground (process_table (k_procs k') c) = 0 \<and> foreground_process (k_procs k') = next_pid (k_procs k))"
proof -
  let ?ps2 = "entered name fds fg i base (k_procs k)"
  let ?k' = "k\<lparr>k_procs := ?ps2, k_heap := h\<rparr>"
  have "p_children (process_table ?ps2 c) = p_children (process_table (k_procs k) c)"
    using assms(6) by (simp add: entered_table)
  then have "create_process name fds fg k = Some (PID_ERROR, ?k')"
    using assms(1,5,7) spawn_entered [OF assms(2-4), of name fds fg]
    by (simp add: create_process_def Let_def entered_table)
  moreover have "fg \<noteq> 0 \<Longrightarrow> p_is_foreground (process_table (k_procs k) c) \<noteq> 0 \<Longrightarrow>
       p_is_foreground (process_table ?ps2 c) = 0 \<and> foreground_process ?ps2 = next_pid (k_procs k)"
    using assms(5,6) by (simp add: entered_table) (simp add: take_foreground_def)
  ultimately show ?thesis by (simp add: entered_table)
qed

lemma create_process_leaks_slot_witness:
  "\<exists>k k'. create_process None None 1 k = Some (PID_ERROR, k') \<and>
     p_state (process_table (k_procs k') 1) = READY \<and> q_items (process_queues (k_procs k') 0) = []"
proof -
  let ?p = "(plain_pcb 0 RUNNING)\<lparr>p_children := replicate 64 1\<rparr>"
  let ?k = "table_kernel ((\<lambda>_. plain_pcb 0 TERMINATED)(0 := ?p)) 0"
  have "find_free_slot (k_procs ?k) = Some 1" by (rule find_free_slotI) auto
  moreover have "memory_alloc (k_heap ?k) STACK_SIZE = Some (MEMORY_START,
      use_frame 0 (grown (align8 STACK_SIZE) (memory_manager_init raw_heap MEMORY_START)))"
    using fresh_alloc [of STACK_SIZE raw_heap] by simp
  ultimately obtain k' where "create_process None None 1 ?k = Some (PID_ERROR, k')"
      "p_state (process_table (k_procs k') 1) = READY" "process_queues (k_procs k') = (\<lambda>_. zero_queue)"
    using create_process_leaks_slot [of ?k 1 MEMORY_START _ 0 None None 1] by auto
  then show ?thesis by (intro exI [of _ ?k] exI [of _ k']) simp
qed

text \<open>
  C40. A killed process's slot is free at once, while the slot waits in the queue of terminated
  processes until the scheduler runs. A process created in between, in that slot, is reported
  as created and then terminated by the reaping of its predecessor, which also frees its stack.
\<close>

theorem create_before_reap:
  assumes "procs_initialized (k_procs k)" "process_count (k_procs k) < of_nat MAX_PROCESSES"
    and "find_free_slot (k_procs k) = Some i"
    and "memory_alloc (k_heap k) STACK_SIZE = Some (base, h)" "base \<noteq> 0"
    and "current_process (k_procs k) = c" "c \<noteq> i"
    and "length (p_children (process_table (k_procs k) c)) < MAX_CHILDREN"
    and "q_valid (terminated_processes_queue (k_procs k))"
    and "i \<in> set (q_items (terminated_processes_queue (k_procs k)))"
  shows "\<exists>k'. create_process name fds fg k = Some (next_pid (k_procs k), k') \<and>
    p_state (process_table (k_procs k') i) = READY \<and>
    p_state (process_table (k_procs (free_terminated_processes k')) i) = TERMINATED \<and>
    p_stack_base (process_table (k_procs (free_terminated_processes k')) i) = 0"
proof -
  let ?ps2 = "entered name fds fg i base (k_procs k)"
  let ?k' = "upd_procs (launch i (fst (take_foreground fg (k_procs k)))) (k\<lparr>k_procs := ?ps2, k_heap := h\<rparr>)"
  have "p_children (process_table ?ps2 c) = p_children (process_table (k_procs k) c)"
    using assms(7) by (simp add: entered_table)
  then have "create_process name fds fg k = Some (next_pid (k_procs k), ?k')"
    using assms(1,5,6,8) spawn_entered [OF assms(2-4), of name fds fg]
    by (simp add: create_process_def Let_def entered_table)
  moreover have "p_state (process_table (k_procs ?k') i) = READY"
    using assms(6,7) by (simp add: launch_def Let_def entered_table)
  moreover have "terminated_processes_queue (k_procs ?k') = terminated_processes_queue (k_procs k)"
    by (simp add: launch_def Let_def entered_def split_beta take_foreground_def)
  ultimately show ?thesis
    using free_terminated_spec [of ?k' "q_items (terminated_processes_queue (k_procs k))"] assms(9,10) by simp
qed

lemma create_before_reap_witness:
  "\<exists>k k'. create_process None None 0 k = Some (0, k') \<and> p_state (process_table (k_procs k') 1) = READY \<and>
     p_state (process_table (k_procs (free_terminated_processes k')) 1) = TERMINATED"
proof -
  let ?k = "upd_procs (\<lambda>ps. ps\<lparr>terminated_processes_queue := enqueued 1 zero_queue\<rparr>)
    (table_kernel ((\<lambda>_. plain_pcb 0 TERMINATED)(0 := plain_pcb 0 RUNNING)) 0)"
  have "find_free_slot (k_procs ?k) = Some 1" by (rule find_free_slotI) auto
  moreover have "memory_alloc (k_heap ?k) STACK_SIZE = Some (MEMORY_START,
      use_frame 0 (grown (align8 STACK_SIZE) (memory_manager_init raw_heap MEMORY_START)))"
    using fresh_alloc [of STACK_SIZE raw_heap] by simp
  moreover have "q_items (enqueued 1 zero_queue) = [1]" "q_valid (enqueued 1 zero_queue)"
    using q_put [of zero_queue "1::nat"] by simp_all
  ultimately obtain k' where "create_process None None 0 ?k = Some (0, k')"
      "p_state (process_table (k_procs k') 1) = READY"
      "p_state (process_table (k_procs (free_terminated_processes k')) 1) = TERMINATED"
    using create_before_reap [of ?k 1 MEMORY_START _ 0 None None 0] by auto
  then show ?thesis by (intro exI [of _ ?k] exI [of _ k']) simp
qed

section \<open>Waiting for a process and killing it\<close>

text \<open>Handing over the foreground and the orphans changes no scheduling field.\<close>

definition same_core :: "procs \<Rightarrow> procs \<Rightarrow> bool" where
  "same_core ps ps' \<longleftrightarrow> process_queues ps' = process_queues ps \<and>
     terminated_processes_queue ps' = terminated_processes_queue ps \<and>
     current_process ps' = current_process ps \<and>
     (\<forall>j. let p = process_table ps j; p' = process_table ps' j
       in p_pid p' = p_pid p \<and> p_state p' = p_state p \<and> p_previous p' = p_previous p \<and>
          p_priority p' = p_priority p \<and> p_sem_wait_id p' = p_sem_wait_id p \<and>
          p_exit_status p' = p_exit_status p)"

lemma same_core_refl: "same_core ps ps"
  by (simp add: same_core_def)

lemma same_core_trans: "same_core a b \<Longrightarrow> same_core b c \<Longrightarrow> same_core a c"
  by (simp add: same_core_def Let_def)

lemma same_core_return_foreground: "same_core ps (return_foreground i ps)"
  by (simp add: same_core_def return_foreground_def Let_def)

lemma same_core_adopt: "same_core ps (adopt c ps)"
  by (simp add: same_core_def adopt_def Let_def)

lemma same_core_fold_adopt: "same_core ps (fold adopt cs ps)"
  by (induction cs arbitrary: ps) (auto simp: same_core_refl intro: same_core_trans same_core_adopt)

lemma same_core_slot_of: "same_core ps ps' \<Longrightarrow> slot_of ps' = slot_of ps"
  by (rule slot_of_cong) (simp add: same_core_def Let_def)

text \<open>The kill of a live process, up to the post to its waiters.\<close>

definition killed :: "nat \<Rightarrow> procs \<Rightarrow> procs" where
  "killed i ps = (let ps1 = return_foreground i (upd_pcb i (\<lambda>p. p\<lparr>p_state := TERMINATED\<rparr>) ps)
     in fold adopt (p_children (process_table ps1 i)) ps1)"

lemma same_core_killed: "same_core (upd_pcb i (\<lambda>p. p\<lparr>p_state := TERMINATED\<rparr>) ps) (killed i ps)"
  unfolding killed_def Let_def
  by (rule same_core_trans [OF same_core_return_foreground same_core_fold_adopt])

lemma kill_process_eq:
  assumes "pid \<noteq> 0" "slot_of32 (k_procs k) pid = Some i"
  defines "s \<equiv> p_sem_wait_id (process_table (k_procs k) i)"
  defines "k2 \<equiv> k\<lparr>k_procs := killed i (k_procs k)\<rparr>"
  shows "kill_process pid k = (0, upd_procs (\<lambda>ps. ps\<lparr>terminated_processes_queue :=
      enqueued i (terminated_processes_queue ps)\<rparr>) (if s \<noteq> -1 then sem_post s k2 else k2))"
proof -
  have "p_sem_wait_id (process_table (killed i (k_procs k)) i) = s"
    using same_core_killed [of i "k_procs k"] by (simp add: same_core_def Let_def s_def)
  then show ?thesis
    using assms(1,2) by (simp add: kill_process_def k2_def killed_def Let_def)
qed

lemma killed_state:
  "p_state (process_table (killed i ps) j) = (if j = i then TERMINATED else p_state (process_table ps j))"
  "p_previous (process_table (killed i ps) j) = p_previous (process_table ps j)"
  "p_exit_status (process_table (killed i ps) j) = p_exit_status (process_table ps j)"
  "p_sem_wait_id (process_table (killed i ps) j) = p_sem_wait_id (process_table ps j)"
  "process_queues (killed i ps) = process_queues ps"
  "terminated_processes_queue (killed i ps) = terminated_processes_queue ps"
  using same_core_killed [of i ps] by (auto simp: same_core_def Let_def)

lemma killed_slot_of: "slot_of (killed i ps) = slot_of ps"
proof -
  have "slot_of (upd_pcb i (\<lambda>p. p\<lparr>p_state := TERMINATED\<rparr>) ps) = slot_of ps"
    by (rule slot_of_cong) simp
  then show ?thesis using same_core_slot_of [OF same_core_killed] by simp
qed

text \<open>
  C30. Waiting for a process ends with its death. When a process is killed that another one
  waits for, it is terminated and queued for reaping, the waiter is ready again, and when the
  waiter runs its call returns the exit status of the dead process and gives the semaphore
  back.
\<close>

theorem kill_releases_waiter:
  assumes "pid \<noteq> 0" "slot_of32 (k_procs k) pid = Some i"
    and "s = p_sem_wait_id (process_table (k_procs k) i)" "s \<noteq> -1"
    and "sem_live s k" "sem_ok (k_sems k (unat s))" "sem_waiters (k_sems k (unat s)) = [w]"
    and "s_value (k_sems k (unat s)) = 0"
    and "slot_of (k_procs k) w = Some j" "j \<noteq> i" "p_state (process_table (k_procs k) j) = BLOCKED"
    and "p_previous (process_table (k_procs k) j) = READY"
  shows "\<exists>k' k''. kill_process pid k = (0, k') \<and>
    p_state (process_table (k_procs k') i) = TERMINATED \<and> p_state (process_table (k_procs k') j) = READY \<and>
    terminated_processes_queue (k_procs k') = enqueued i (terminated_processes_queue (k_procs k)) \<and>
    wait_process_resume (i, s) k' = Returned k'' (Some (p_exit_status (process_table (k_procs k) i))) \<and>
    INVALID_SEM s k''"
proof -
  let ?k2 = "k\<lparr>k_procs := killed i (k_procs k)\<rparr>"
  let ?k3 = "sem_post s ?k2"
  let ?k' = "upd_procs (\<lambda>ps. ps\<lparr>terminated_processes_queue := enqueued i (terminated_processes_queue ps)\<rparr>) ?k3"
  have live: "sem_live s ?k2" using assms(5) by (simp add: sem_live_def INVALID_SEM_def)
  have w: "sem_waiters (k_sems ?k3 (unat s)) = []" "s_value (k_sems ?k3 (unat s)) = 1"
      "p_state (process_table (k_procs ?k3) j) = READY"
      "k_procs ?k3 = put_ready j (p_priority (process_table (k_procs ?k2) j))
        (upd_pcb j (\<lambda>p. p\<lparr>p_state := READY\<rparr>) (killed i (k_procs k)))"
    using sem_post_wakes [OF live, of w "[]" j] assms(6-12) by (auto simp: killed_state killed_slot_of)
  have kill: "kill_process pid k = (0, ?k')"
    using kill_process_eq [OF assms(1,2)] assms(3,4) by simp
  have t: "p_state (process_table (k_procs ?k') i) = TERMINATED"
      "p_exit_status (process_table (k_procs ?k') i) = p_exit_status (process_table (k_procs k) i)"
      "terminated_processes_queue (k_procs ?k') = enqueued i (terminated_processes_queue (k_procs k))"
    using assms(10) by (simp_all add: w(4) killed_state)
  have live3: "sem_live s ?k3"
    using sem_post_sems [OF live] live by (simp add: sem_live_def INVALID_SEM_def)
  then have live': "sem_live s ?k'" by (simp add: sem_live_def INVALID_SEM_def)
  let ?k4 = "upd_sem (unat s) (\<lambda>x. x\<lparr>s_value := s_value x - 1\<rparr>) ?k'"
  have r: "sem_wait_resume s ?k' = Returned ?k4 ()"
    using sem_live_D [OF live'] w(2) by (simp add: sem_wait_resume_def sem_attempt_def)
  have ok3: "sem_ok (k_sems ?k4 (unat s))"
    using sem_post_sems [OF live] assms(6) sem_deq_ok by simp
  have live4: "sem_live s ?k4" using live' by (simp add: sem_live_def INVALID_SEM_def)
  have id: "p_sem_wait_id (process_table (k_procs ?k3) i) = s"
      "p_exit_status (process_table (k_procs ?k3) i) = p_exit_status (process_table (k_procs k) i)"
    using assms(10) t(2) by (simp_all add: w(4) killed_state assms(3) [symmetric])
  have d: "destroy_sem s ?k4 = upd_sem (unat s) init_sem ?k4"
    using destroy_sem_live [OF live4 ok3] sem_post_sems [OF live] w(1) by (simp add: wake_all_def)
  let ?k5 = "upd_procs (upd_pcb i (\<lambda>p. p\<lparr>p_sem_wait_id := -1\<rparr>)) (upd_sem (unat s) init_sem ?k4)"
  have "wait_process_resume (i, s) ?k' = Returned ?k5 (Some (p_exit_status (process_table (k_procs k) i)))"
    by (simp add: wait_process_resume_def after_sem_def r wait_finish_def Let_def id d)
  moreover have "INVALID_SEM s ?k5" by (simp add: INVALID_SEM_def init_sem_def)
  moreover have "p_state (process_table (k_procs ?k') j) = READY" using w(3) by simp
  ultimately show ?thesis using kill t by blast
qed

lemma slot_of32I:
  "i < MAX_PROCESSES \<Longrightarrow> ucast (p_pid (process_table ps i)) = pid \<Longrightarrow>
   (\<And>j. j < i \<Longrightarrow> ucast (p_pid (process_table ps j)) \<noteq> pid) \<Longrightarrow> slot_of32 ps pid = Some i"
  unfolding slot_of32_def by (rule find_from_SomeI) simp_all

lemma kill_releases_waiter_witness:
  "\<exists>k k' k''. kill_process 8 k = (0, k') \<and> p_state (process_table (k_procs k) 1) = BLOCKED \<and>
     p_state (process_table (k_procs k') 1) = READY \<and> p_state (process_table (k_procs k') 2) = TERMINATED \<and>
     wait_process_resume (2, 3) k' = Returned k'' (Some 42)"
proof -
  let ?t = "(\<lambda>_. plain_pcb 0 READY)(1 := plain_pcb 7 BLOCKED,
    2 := (plain_pcb 8 READY)\<lparr>p_sem_wait_id := 3, p_exit_status := 42\<rparr>)"
  let ?x = "(init_sem zero_sem)\<lparr>s_state := SEMAPHORE_USED\<rparr>"
  let ?k = "(table_kernel ?t 0)\<lparr>k_sems_initialized := True, k_sems := \<lambda>_. sem_enq 7 ?x\<rparr>"
  have live: "sem_live 3 ?k" by (simp add: sem_live_def INVALID_SEM_def)
  have x: "sem_ok ?x" "sem_room ?x" "sem_waiters ?x = []"
    by (simp_all add: sem_ok_def sem_room_def sem_waiters_def sem_pending_def init_sem_def)
  have w: "sem_ok (k_sems ?k 3)" "sem_waiters (k_sems ?k 3) = [7]" "s_value (k_sems ?k 3) = 0"
    using sq.enq_items [OF x(1,2), of 7] sq.enq_valid [OF x(1,2), of 7] x(3)
    by (simp_all add: init_sem_def)
  have "slot_of (k_procs ?k) 7 = Some 1" by (simp add: slot_ofI)
  moreover have "slot_of32 (k_procs ?k) 8 = Some 2"
  proof (rule slot_of32I)
    fix j :: nat assume "j < 2"
    then consider "j = 0" | "j = 1" by linarith
    then show "ucast (p_pid (process_table (k_procs ?k) j)) \<noteq> (8 :: u32)" by cases simp_all
  qed simp_all
  ultimately obtain k' k'' where "kill_process 8 ?k = (0, k')"
      "p_state (process_table (k_procs k') 1) = READY" "p_state (process_table (k_procs k') 2) = TERMINATED"
      "wait_process_resume (2, 3) k' = Returned k'' (Some 42)"
    using kill_releases_waiter [of 8 ?k 2 3 7 1] live w by auto
  then show ?thesis by (intro exI [of _ ?k] exI [of _ k'] exI [of _ k'']) simp
qed

section \<open>Sleeping\<close>

lemma unsleep_other:
  "p_pid (process_table ps i) \<noteq> pid \<Longrightarrow> process_table (snd (unsleep_process ps pid)) i = process_table ps i"
  by (auto simp: unsleep_process_def restore_state_def Let_def dest: slot_of_SomeD split: option.split)

lemma unsleep_pid [simp]: "p_pid (process_table (snd (unsleep_process ps pid)) i) = p_pid (process_table ps i)"
  by (cases "slot_of ps pid") (auto simp: unsleep_process_def restore_state_def Let_def)

lemma wake_slot_pid [simp]:
  "p_pid (process_table (k_procs (wake_slot t n k)) i) = p_pid (process_table (k_procs k) i)"
  by (simp add: wake_slot_def clear_sleep_def Let_def)

lemma wake_slot_slot_of: "slot_of (k_procs (wake_slot t n k)) = slot_of (k_procs k)"
  by (rule slot_of_cong) simp

lemma wake_slot_other:
  "sl_pid (k_sleep k n) \<noteq> p_pid (process_table (k_procs k) i) \<Longrightarrow>
   process_table (k_procs (wake_slot t n k)) i = process_table (k_procs k) i"
  using unsleep_other [of "k_procs k" i "sl_pid (k_sleep k n)"]
  by (simp add: wake_slot_def clear_sleep_def Let_def)

text \<open>Rounds for other entries leave a sleeping process and its entry alone.\<close>

lemma wake_slots_other:
  fixes t :: u64
  assumes "m \<notin> set ns" "distinct ns" "\<And>n. n \<in> set ns \<Longrightarrow> sl_pid (k_sleep k n) \<noteq> p_pid (process_table (k_procs k) i)"
  defines "k' \<equiv> fold (wake_slot t) ns k"
  shows "process_table (k_procs k') i = process_table (k_procs k) i \<and> k_sleep k' m = k_sleep k m \<and>
    slot_of (k_procs k') = slot_of (k_procs k)"
  unfolding k'_def using assms(1-3)
proof (induction ns arbitrary: k)
  case (Cons n ns)
  let ?k = "wake_slot t n k"
  have "process_table (k_procs ?k) i = process_table (k_procs k) i"
    using Cons.prems by (intro wake_slot_other) simp
  moreover have "k_sleep ?k m = k_sleep k m"
    using Cons.prems by (intro wake_slot_sleep) simp
  moreover have "sl_pid (k_sleep ?k n') \<noteq> p_pid (process_table (k_procs ?k) i)" if "n' \<in> set ns" for n'
  proof -
    have "n' \<noteq> n" using that Cons.prems(2) by auto
    then show ?thesis using that Cons.prems(3) by (simp add: wake_slot_sleep)
  qed
  ultimately show ?case
    using Cons.IH [of ?k] Cons.prems by (simp add: wake_slot_slot_of)
qed simp

text \<open>
  C32. A sleeper wakes at its deadline. On a timer tick a sleeping process whose deadline is at
  or before the new tick count comes back ready and its entry in the sleep queue is cleared; one
  whose deadline is later keeps sleeping, and its entry stays. Other sleepers, whatever their
  deadlines, do not disturb it.
\<close>

theorem timer_wakes_at_deadline:
  assumes "m < MAX_PROCESSES" "pid = sl_pid (k_sleep k m)" "pid \<noteq> 0"
    and "\<And>n. n < MAX_PROCESSES \<Longrightarrow> n \<noteq> m \<Longrightarrow> sl_pid (k_sleep k n) \<noteq> pid"
    and "slot_of (k_procs k) pid = Some i" "p_state (process_table (k_procs k) i) = SLEEPING"
    and "p_previous (process_table (k_procs k) i) = READY"
  shows "if sl_time (k_sleep k m) \<le> k_ticks k + 1
    then p_state (process_table (k_procs (timer_handler k)) i) = READY \<and> sl_pid (k_sleep (timer_handler k) m) = 0
    else p_state (process_table (k_procs (timer_handler k)) i) = SLEEPING \<and>
      k_sleep (timer_handler k) m = k_sleep k m"
proof -
  let ?k1 = "if k_start_up k = None then init_time k else k"
  let ?k2 = "?k1\<lparr>k_ticks := k_ticks ?k1 + 1\<rparr>"
  let ?t = "k_ticks k + 1"
  have e: "k_procs ?k2 = k_procs k" "k_sleep ?k2 = k_sleep k" "get_ticks ?k2 = ?t"
    by (simp_all add: init_time_def get_ticks_def)
  have pid: "p_pid (process_table (k_procs k) i) = pid" using slot_of_SomeD [OF assms(5)] by simp
  let ?pre = "[0..<m]" and ?post = "[Suc m..<MAX_PROCESSES]"
  have l: "[0..<MAX_PROCESSES] = ?pre @ m # ?post"
    using upt_add_eq_append [of 0 m "MAX_PROCESSES - m"] upt_conv_Cons [OF assms(1)]
      le_add_diff_inverse [OF less_imp_le [OF assms(1)]] by (simp only: le0)
  define a where "a = fold (wake_slot ?t) ?pre ?k2"
  define b where "b = wake_slot ?t m a"
  define c where "c = fold (wake_slot ?t) ?post b"
  have c: "timer_handler k = c"
    unfolding timer_handler_def wake_up_sleeping_processes_def Let_def e(3) l
    by (simp add: a_def b_def c_def)
  have pre: "process_table (k_procs a) i = process_table (k_procs k) i \<and> k_sleep a m = k_sleep k m \<and>
      slot_of (k_procs a) = slot_of (k_procs k)"
    unfolding a_def using wake_slots_other [of m ?pre ?k2 i ?t] assms(1,4) e pid by simp
  have others: "sl_pid (k_sleep b n) \<noteq> pid" if "n \<in> set ?post" for n
  proof -
    have "k_sleep a n = k_sleep k n"
      unfolding a_def using that wake_slots_other [of n ?pre ?k2 i ?t] assms(1,4) e pid by simp
    then show ?thesis using that assms(4) by (simp add: b_def wake_slot_sleep)
  qed
  have bpid: "p_pid (process_table (k_procs b) i) = pid" using pre pid by (simp add: b_def)
  have post: "process_table (k_procs c) i = process_table (k_procs b) i \<and> k_sleep c m = k_sleep b m"
    unfolding c_def using wake_slots_other [of m ?post b i ?t] others bpid by simp
  have slp: "is_sleeping (k_procs a) pid" using pre assms(5,6) by (simp add: is_sleeping_def)
  show ?thesis
  proof (cases "sl_time (k_sleep k m) \<le> ?t")
    case True
    then have "b = snd (on_procs (\<lambda>ps. unsleep_process ps pid) (clear_sleep m a))"
      using pre assms(2,3) slp by (simp add: b_def wake_slot_def)
    then have "p_state (process_table (k_procs b) i) = READY" "sl_pid (k_sleep b m) = 0"
      using pre assms(5-7) by (simp_all add: clear_sleep_def unsleep_process_def restore_state_def Let_def)
    then show ?thesis using True c post by simp
  next
    case False
    then have "b = a" using pre by (simp add: b_def wake_slot_def)
    then show ?thesis using False c post pre assms(6) by simp
  qed
qed

lemma timer_wakes_at_deadline_witness:
  "\<exists>k. p_state (process_table (k_procs k) 1) = SLEEPING \<and> k_ticks k = 9 \<and>
     p_state (process_table (k_procs (timer_handler k)) 1) = READY"
proof -
  let ?k = "(table_kernel (\<lambda>i. plain_pcb (if i = 1 then 7 else 0) SLEEPING) 0)
    \<lparr>k_sleep := (\<lambda>_. \<lparr>sl_pid = 0, sl_time = 0\<rparr>)(4 := \<lparr>sl_pid = 7, sl_time = 10\<rparr>), k_ticks := 9\<rparr>"
  have "slot_of (k_procs ?k) 7 = Some 1" by (simp add: slot_ofI)
  then show ?thesis
    using timer_wakes_at_deadline [of 4 7 ?k 1] by (intro exI [of _ ?k]) auto
qed

end
