(* ===== verification/Keyboard.thy ===== *)
theory Keyboard
  imports Pipes Life_Properties
begin

text \<open>
  Kernel/drivers/keyboard-driver.c. \<open>get_key\<close> reads the scan code the controller holds; it is
  an argument here. The high bit of the code says whether the key was released. A character
  typed goes into the pipe of standard input.
\<close>

section \<open>Keys\<close>

abbreviation NOT_DRAWBLE :: int where "NOT_DRAWBLE \<equiv> -1"
abbreviation KEY_INTERRUPT :: int where "KEY_INTERRUPT \<equiv> -3"
abbreviation KEY_EOF :: int where "KEY_EOF \<equiv> -4"
abbreviation ESC :: int where "ESC \<equiv> 0x01"
abbreviation CAPSLOCK :: int where "CAPSLOCK \<equiv> 0x3A"
abbreviation LSHIFT :: int where "LSHIFT \<equiv> 0x36"
abbreviation RSHIFT :: int where "RSHIFT \<equiv> 0x2A"
abbreviation LCTRL :: int where "LCTRL \<equiv> 0x1D"
abbreviation RCTRL :: int where "RCTRL \<equiv> 0x9D"
abbreviation LALT :: int where "LALT \<equiv> 0x38"
abbreviation RALT :: int where "RALT \<equiv> 0xB8"
abbreviation F_01 :: int where "F_01 \<equiv> 0x3B"
abbreviation F_10 :: int where "F_10 \<equiv> 0x44"
abbreviation F_11 :: int where "F_11 \<equiv> 0x57"
abbreviation F_12 :: int where "F_12 \<equiv> 0x58"

text \<open>
  The two tables, indexed by scan code. The comments of a row give its first and last code.
  Entry 0 of \<open>shifted_ascii\<close> has no initialiser and is 0.
\<close>

definition codes :: "string \<Rightarrow> int list" where
  "codes s = map of_char s"

definition not_shifted_ascii :: "int list" where
  "not_shifted_ascii =
     [NOT_DRAWBLE, NOT_DRAWBLE] @ codes ''1234567890-='' @ [8, 9] \<comment> \<open>00 to 0F\<close>
     @ codes ''qwertyuiop[]'' @ [10, NOT_DRAWBLE] \<comment> \<open>10 to 1D\<close>
     @ codes ''asdfghjkl;'' @ [39, 96, NOT_DRAWBLE, 92] \<comment> \<open>1E to 2B: quote, backquote, shift, backslash\<close>
     @ codes ''zxcvbnm,./'' @ [NOT_DRAWBLE, NOT_DRAWBLE, NOT_DRAWBLE, 32] \<comment> \<open>2C to 39\<close>
     @ replicate 70 NOT_DRAWBLE \<comment> \<open>3A to 7F\<close>"

definition shifted_ascii :: "int list" where
  "shifted_ascii =
     [0, NOT_DRAWBLE] @ codes ''!@#$%^&*()_+'' @ [8, 9] \<comment> \<open>00 to 0F\<close>
     @ codes ''QWERTYUIOP{}'' @ [10, NOT_DRAWBLE] \<comment> \<open>10 to 1D\<close>
     @ codes ''ASDFGHJKL:'' @ [34, 126, NOT_DRAWBLE, 124] \<comment> \<open>1E to 2B: double quote, tilde, shift, bar\<close>
     @ codes ''ZXCVBNM<>?'' @ [NOT_DRAWBLE, NOT_DRAWBLE, NOT_DRAWBLE, 32] \<comment> \<open>2C to 39\<close>
     @ replicate 70 NOT_DRAWBLE \<comment> \<open>3A to 7F\<close>"

definition kd_is_special_key :: "int \<Rightarrow> bool" where
  "kd_is_special_key scancode \<longleftrightarrow>
     scancode = LSHIFT \<or> scancode = RSHIFT \<or> scancode = LCTRL \<or> scancode = RCTRL \<or>
     scancode = LALT \<or> scancode = RALT \<or> scancode = CAPSLOCK \<or> scancode = ESC \<or>
     scancode = F_11 \<or> scancode = F_12 \<or> (scancode \<ge> F_01 \<and> scancode \<le> F_10)"

section \<open>The handler\<close>

definition key_of :: "u8 \<Rightarrow> int" where
  "key_of scancode = uint (scancode AND 0x7F)"

definition released :: "u8 \<Rightarrow> bool" where
  "released scancode \<longleftrightarrow> scancode AND 0x80 \<noteq> 0"

text \<open>What a press of an ordinary key does: the character, and a kill on control C.\<close>

definition key_char :: "int \<Rightarrow> kernel \<Rightarrow> u8 \<times> kernel" where
  "key_char key k =
     (let kb = k_keyboard k
      in if kd_ctrl kb \<and> shifted_ascii ! nat key = of_char (CHR ''C'')
         then (word_of_int KEY_INTERRUPT, snd (kill_foreground_process k))
         else if kd_ctrl kb \<and> shifted_ascii ! nat key = of_char (CHR ''D'')
         then (word_of_int KEY_EOF, k)
         else (word_of_int (if kd_shift kb \<noteq> kd_capslock kb then shifted_ascii ! nat key
                            else not_shifted_ascii ! nat key), k))"

definition upd_keyboard :: "(keyboard \<Rightarrow> keyboard) \<Rightarrow> kernel \<Rightarrow> kernel" where
  "upd_keyboard f k = k\<lparr>k_keyboard := f (k_keyboard k)\<rparr>"

definition kd_handler :: "u8 \<Rightarrow> kernel \<Rightarrow> (kernel, write_cont, unit) outcome" where
  "kd_handler scancode k =
     (let release = released scancode; key = key_of scancode
      in if key = ESC then Returned k ()
         else if key = CAPSLOCK \<and> \<not> release
         then Returned (upd_keyboard (\<lambda>b. b\<lparr>kd_capslock := \<not> kd_capslock b\<rparr>) k) ()
         else if key = LSHIFT \<or> key = RSHIFT
         then Returned (upd_keyboard (\<lambda>b. b\<lparr>kd_shift := \<not> release\<rparr>) k) ()
         else if key = LCTRL \<or> key = RCTRL
         then Returned (upd_keyboard (\<lambda>b. b\<lparr>kd_ctrl := \<not> release\<rparr>) k) ()
         else if key = LALT \<or> key = RALT
         then Returned (upd_keyboard (\<lambda>b. b\<lparr>kd_alt := \<not> release\<rparr>) k) ()
         else if \<not> kd_is_special_key key \<and> \<not> release
         then (let (c, k1) = key_char key k
               in case write_pipe_nonblocking 0 (Some [c]) 1 k1 of
                    Some (Returned k2 _) \<Rightarrow> Returned k2 ()
                  | Some (Suspended k2 w) \<Rightarrow> Suspended k2 w
                  | None \<Rightarrow> Returned k1 ())
         else Returned k ())"

text \<open>Kernel/interrupts/irqDispatcher.c: the two interrupts.\<close>

definition irq_dispatcher :: "nat \<Rightarrow> u8 \<Rightarrow> kernel \<Rightarrow> (kernel, write_cont, unit) outcome option" where
  "irq_dispatcher irq scancode k =
     (if irq = 0 then Some (Returned (timer_handler k) ())
      else if irq = 1 then Some (kd_handler scancode k)
      else None)"

lemma table_lengths: "length not_shifted_ascii = 128" "length shifted_ascii = 128"
  by (simp_all add: not_shifted_ascii_def shifted_ascii_def codes_def)

lemma key_range: "0 \<le> key_of s" "key_of s < 128"
proof -
  have "s AND 0x7F = take_bit 7 s"
    by (simp add: take_bit_eq_mask mask_eq_exp_minus_1)
  then show "key_of s < 128"
    using take_bit_int_less_exp [of 7 "uint s"] by (simp add: key_of_def unsigned_take_bit_eq)
qed (simp add: key_of_def)

section \<open>The modifier keys\<close>

lemma upd_keyboard_simps [simp]:
  "k_keyboard (upd_keyboard f k) = f (k_keyboard k)" "k_pipes (upd_keyboard f k) = k_pipes k"
  "k_procs (upd_keyboard f k) = k_procs k" "k_sems (upd_keyboard f k) = k_sems k"
  by (simp_all add: upd_keyboard_def)

text \<open>Nothing else in the kernel touches the flags of the keyboard.\<close>

lemma k_keyboard_upd [simp]:
  "k_keyboard (upd_procs f k) = k_keyboard k" "k_keyboard (upd_sem i g k) = k_keyboard k"
  "k_keyboard (upd_pipe i h k) = k_keyboard k" "k_keyboard (snd (on_procs p k)) = k_keyboard k"
  by (simp_all add: upd_procs_def upd_sem_def upd_pipe_def on_procs_def split_beta)

lemma keyboard_wake_up [simp]: "k_keyboard (snd (wake_up_process pid k)) = k_keyboard k"
  by (simp add: wake_up_process_def is_sleeping_time_expired_def clear_sleep_def Let_def split_beta
      split: option.split)

lemma keyboard_sems [simp]:
  "k_keyboard (sems_ready k) = k_keyboard k" "k_keyboard (sem_post s k) = k_keyboard k"
  "k_keyboard (snd (get_sem_value s k)) = k_keyboard k" "k_keyboard (snd (create_sem v k)) = k_keyboard k"
proof -
  show r: "k_keyboard (sems_ready k) = k_keyboard k" for k
    by (simp add: sems_ready_def init_sem_manager_def)
  show "k_keyboard (sem_post s k) = k_keyboard k" "k_keyboard (snd (get_sem_value s k)) = k_keyboard k"
    by (simp_all add: sem_post_def get_sem_value_def Let_def split_beta r split: option.split)
  show "k_keyboard (snd (create_sem v k)) = k_keyboard k"
    by (simp add: create_sem_def found_free_sem_def split_beta r split: option.split)
qed

lemma keyboard_kill [simp]: "k_keyboard (snd (kill_process pid k)) = k_keyboard k"
  by (simp add: kill_process_def Let_def split: option.split)

lemma keyboard_pipes_ready [simp]: "k_keyboard (pipes_ready k) = k_keyboard k"
proof -
  have ps: "k_keyboard (pipe_sems i k) = k_keyboard k" for i k
    by (simp add: pipe_sems_def Let_def split_beta)
  then have "k_keyboard (fold pipe_sems xs k) = k_keyboard k" for xs k
    by (induction xs arbitrary: k) simp_all
  then show ?thesis by (simp add: pipes_ready_def init_pipe_manager_def Let_def ps)
qed

text \<open>A semaphore that shows a unit does not block.\<close>

lemma sem_wait_with_unit:
  assumes "get_sem_value s k0 = (v, k)" "v \<noteq> 0"
  shows "sem_wait s k = Returned (take_unit s k) ()" "k = sems_ready k0"
proof -
  have v: "k = sems_ready k0" "\<not> INVALID_SEM s k" "s_value (k_sems k (unat s)) = v"
    using assms by (auto simp: get_sem_value_def Let_def split: if_splits)
  have "k_sems_initialized k" by (simp add: v(1) sems_ready_def init_sem_manager_def)
  then have "sem_live s k" using v(2) by (simp add: sem_live_def)
  then show "sem_wait s k = Returned (take_unit s k) ()"
    using sem_wait_takes [of s k] v(3) assms(2) by (simp add: sem_val_def unat_gt_0)
qed (use assms in \<open>auto simp: get_sem_value_def Let_def\<close>)

lemma write_loop_nonblocking_keyboard:
  "\<exists>k' r. write_loop_nonblocking fd cs m k = Returned k' r \<and> k_keyboard k' = k_keyboard k"
proof (induction cs arbitrary: m k)
  case (Cons c cs)
  obtain v k1 where g: "get_sem_value (pp_write_sem (k_pipes k fd)) k = (v, k1)" by fastforce
  have kb: "k_keyboard k1 = k_keyboard k" using g keyboard_sems(3) [of _ k] by (metis snd_conv)
  show ?case
  proof (cases "v = 0")
    case False
    have p: "k_pipes k1 = k_pipes k" using sem_wait_with_unit(2) [OF g False] by simp
    have "k_keyboard (put_byte fd c (take_unit s k1)) = k_keyboard k" for s
      using kb by (simp add: put_byte_def take_unit_def)
    with Cons.IH [of "Suc m" "put_byte fd c (take_unit (pp_write_sem (k_pipes k fd)) k1)"]
    show ?thesis using g False sem_wait_with_unit(1) [OF g False] p by simp
  qed (use g kb in simp)
qed simp

lemma kd_handler_returns:
  "\<exists>k'. kd_handler s k = Returned k' () \<and>
     (kd_is_special_key (key_of s) \<or> released s \<or> k_keyboard k' = k_keyboard k)"
proof (cases "kd_is_special_key (key_of s) \<or> released s")
  case False
  obtain c k1 where c: "key_char (key_of s) k = (c, k1)" by fastforce
  have kb: "k_keyboard k1 = k_keyboard k"
    using c by (auto simp: key_char_def kill_foreground_process_def Let_def split: if_splits)
  have "\<exists>k2 r. write_pipe_nonblocking 0 (Some [c]) 1 k1 = Some (Returned k2 r) \<and> k_keyboard k2 = k_keyboard k"
    using write_loop_nonblocking_keyboard [of 0 "[c]" 0 "pipes_ready k1"] kb
    by (cases "cannot_use 0 True 1 (pipes_ready k1)")
      (simp_all add: write_pipe_nonblocking_def del: write_loop_nonblocking.simps)
  then obtain k2 r where "write_pipe_nonblocking 0 (Some [c]) 1 k1 = Some (Returned k2 r)"
      "k_keyboard k2 = k_keyboard k" by blast
  moreover have "key_of s \<noteq> ESC" "key_of s \<noteq> CAPSLOCK" "key_of s \<noteq> LSHIFT" "key_of s \<noteq> RSHIFT"
      "key_of s \<noteq> LCTRL" "key_of s \<noteq> RCTRL" "key_of s \<noteq> LALT" "key_of s \<noteq> RALT"
    using False by (auto simp: kd_is_special_key_def)
  ultimately show ?thesis using False c by (simp add: kd_handler_def Let_def)
next
  case True
  then show ?thesis by (auto simp: kd_handler_def Let_def kd_is_special_key_def)
qed

fun keys_run :: "u8 list \<Rightarrow> kernel \<Rightarrow> kernel" where
  "keys_run [] k = k"
| "keys_run (s # ss) k = (case kd_handler s k of Returned k' _ \<Rightarrow> keys_run ss k' | Suspended k' _ \<Rightarrow> k')"

text \<open>Whether a key of the set was pressed, not released, when it was last touched.\<close>

definition held :: "int set \<Rightarrow> bool \<Rightarrow> u8 list \<Rightarrow> bool" where
  "held keys before ss = fold (\<lambda>s b. if key_of s \<in> keys then \<not> released s else b) ss before"

definition presses :: "int \<Rightarrow> u8 list \<Rightarrow> nat" where
  "presses key ss = length (filter (\<lambda>s. key_of s = key \<and> \<not> released s) ss)"

lemma key_of_not_right [simp]: "key_of s \<noteq> RCTRL" "key_of s \<noteq> RALT"
  using key_range [of s] by auto

lemma kd_handler_flags:
  assumes "kd_handler s k = Returned k' u"
  shows "kd_shift (k_keyboard k') = held {LSHIFT, RSHIFT} (kd_shift (k_keyboard k)) [s]"
    and "kd_ctrl (k_keyboard k') = held {LCTRL} (kd_ctrl (k_keyboard k)) [s]"
    and "kd_alt (k_keyboard k') = held {LALT} (kd_alt (k_keyboard k)) [s]"
    and "kd_capslock (k_keyboard k') = (kd_capslock (k_keyboard k) \<noteq> odd (presses CAPSLOCK [s]))"
proof -
  let ?K = "k_keyboard k'"
  have "kd_shift ?K = held {LSHIFT, RSHIFT} (kd_shift (k_keyboard k)) [s] \<and>
    kd_ctrl ?K = held {LCTRL} (kd_ctrl (k_keyboard k)) [s] \<and>
    kd_alt ?K = held {LALT} (kd_alt (k_keyboard k)) [s] \<and>
    kd_capslock ?K = (kd_capslock (k_keyboard k) \<noteq> odd (presses CAPSLOCK [s]))"
  proof (cases "key_of s \<in> {CAPSLOCK, LSHIFT, RSHIFT, LCTRL, LALT}")
    case True
    then show ?thesis using assms
      by (elim insertE) (auto simp: kd_handler_def Let_def held_def presses_def kd_is_special_key_def split: if_splits)
  next
    case False
    have "k_keyboard k' = k_keyboard k"
    proof (cases "kd_is_special_key (key_of s) \<or> released s")
      case True
      with False assms show ?thesis by (auto simp: kd_handler_def Let_def split: if_splits)
    next
      case F: False
      with kd_handler_returns [of s k] assms show ?thesis by auto
    qed
    with False show ?thesis by (simp add: held_def presses_def)
  qed
  then show "kd_shift ?K = held {LSHIFT, RSHIFT} (kd_shift (k_keyboard k)) [s]"
    and "kd_ctrl ?K = held {LCTRL} (kd_ctrl (k_keyboard k)) [s]"
    and "kd_alt ?K = held {LALT} (kd_alt (k_keyboard k)) [s]"
    and "kd_capslock ?K = (kd_capslock (k_keyboard k) \<noteq> odd (presses CAPSLOCK [s]))" by blast+
qed

text \<open>
  The flags follow the keys. After any sequence of keyboard interrupts, shift, control and
  alt are as the last press or release of such a key left them, and caps lock has changed
  once for every press of its key; characters typed in between, control C included, leave the
  flags alone.
\<close>

theorem modifiers_follow_keys:
  "k_keyboard (keys_run ss k) =
     \<lparr>kd_capslock = kd_capslock (k_keyboard k) \<noteq> odd (presses CAPSLOCK ss),
      kd_shift = held {LSHIFT, RSHIFT} (kd_shift (k_keyboard k)) ss,
      kd_ctrl = held {LCTRL} (kd_ctrl (k_keyboard k)) ss,
      kd_alt = held {LALT} (kd_alt (k_keyboard k)) ss\<rparr>"
proof (induction ss arbitrary: k)
  case (Cons s ss)
  obtain k' where k': "kd_handler s k = Returned k' ()" using kd_handler_returns by blast
  then have "keys_run (s # ss) k = keys_run ss k'" by simp
  with Cons.IH [of k'] kd_handler_flags [OF k'] show ?case
    by (auto simp: held_def presses_def)
qed (simp add: held_def presses_def)

section \<open>Typing\<close>

text \<open>An ordinary key puts its character behind those in the pipe of standard input, if there is room.\<close>

lemma ordinary_key:
  assumes "pipe_ok 0 k" "\<not> released s" "\<not> kd_is_special_key (key_of s)" "key_char (key_of s) k = (c, k)"
  shows "\<exists>k'. kd_handler s k = Returned k' () \<and> pipe_ok 0 k' \<and>
    pipe_data (k_pipes k' 0) = take 511 (pipe_data (k_pipes k 0) @ [c])"
proof -
  have "pipe_ok (unat (0::u16)) k" "0 < (1::int)" "nat 1 \<le> length [c]" using assms(1) by simp_all
  from write_pipe_nonblocking_returns [OF this(1) _ _ this(2,3)]
  obtain k' where k': "write_pipe_nonblocking 0 (Some [c]) 1 k =
      Some (Returned k' (int (min 1 (511 - pipe_len (k_pipes k 0)))))" "pipe_ok 0 k'"
    "pipe_data (k_pipes k' 0) = pipe_data (k_pipes k 0) @ take (min 1 (511 - pipe_len (k_pipes k 0))) [c]"
    by auto
  have "pipe_len (k_pipes k 0) \<le> 511" using assms(1) by (auto simp: pipe_ok_def Let_def)
  then have "pipe_data (k_pipes k' 0) = take 511 (pipe_data (k_pipes k 0) @ [c])"
    using k'(3) by (simp add: take_Cons')
  moreover have "kd_handler s k = Returned k' ()"
    using assms(2-4) k'(1) by (auto simp: kd_handler_def Let_def kd_is_special_key_def)
  ultimately show ?thesis using k'(2) by blast
qed

text \<open>
  Typing. A press of an ordinary key without control puts one character at the end of the
  standard input pipe: that of the shifted table if exactly one of shift and caps lock is on,
  else that of the other table. If the pipe is full the character is lost and nothing blocks.
\<close>

theorem key_typed:
  assumes "pipe_ok 0 k" "\<not> released s" "\<not> kd_is_special_key (key_of s)" "\<not> kd_ctrl (k_keyboard k)"
  shows "\<exists>k'. kd_handler s k = Returned k' () \<and> pipe_ok 0 k' \<and>
    pipe_data (k_pipes k' 0) = take 511 (pipe_data (k_pipes k 0) @
      [word_of_int ((if kd_shift (k_keyboard k) \<noteq> kd_capslock (k_keyboard k) then shifted_ascii
                     else not_shifted_ascii) ! nat (key_of s))])"
  by (rule ordinary_key [OF assms(1-3)]) (use assms(4) in \<open>simp add: key_char_def Let_def\<close>)

lemma key_typed_witness:
  "\<exists>k'. kd_handler 0x1E (pipe_kernel 2) = Returned k' () \<and> pipe_data (k_pipes k' 0) = [65, 66, 97]"
proof -
  have p: "pipe_ok 0 (pipe_kernel 2)" "pipe_data (k_pipes (pipe_kernel 2) 0) = [65, 66]"
    using pipe_kernel_ok [of 2] by (simp_all add: upt_rec)
  have "k_keyboard (pipe_kernel 2) = k_keyboard static_kernel" by (simp add: pipe_kernel_def)
  then have f: "\<not> kd_ctrl (k_keyboard (pipe_kernel 2))" "\<not> kd_shift (k_keyboard (pipe_kernel 2))"
    "\<not> kd_capslock (k_keyboard (pipe_kernel 2))" by (simp_all add: static_kernel_def)
  have k: "key_of 0x1E = 0x1E" "\<not> released 0x1E" "\<not> kd_is_special_key 0x1E" "not_shifted_ascii ! 0x1E = 97"
    by (simp_all add: key_of_def released_def kd_is_special_key_def not_shifted_ascii_def codes_def)
  then show ?thesis using key_typed [where k = "pipe_kernel 2" and s = "0x1E"] p f by auto
qed

section \<open>Control C\<close>

text \<open>A terminated process stays terminated whatever is woken.\<close>

lemma terminated_upd [simp]:
  "p_state (process_table (k_procs (upd_procs (put_ready j pr) k)) i) = p_state (process_table (k_procs k) i)"
  by simp

lemma wake_up_terminated:
  assumes "p_state (process_table (k_procs k) i) = TERMINATED"
  shows "p_state (process_table (k_procs (snd (wake_up_process pid k))) i) = TERMINATED"
proof (cases "slot_of (k_procs k) pid")
  case (Some j)
  show ?thesis
  proof (cases "p_state (process_table (k_procs k) j) = BLOCKED")
    case True
    then have "j \<noteq> i" using assms by auto
    then show ?thesis using Some assms
      by (simp add: wake_up_process_def is_sleeping_time_expired_def clear_sleep_def restore_state_def Let_def
          split_beta split: option.split)
  qed (use Some assms in \<open>simp add: wake_up_process_def Let_def\<close>)
qed (use assms in \<open>simp add: wake_up_process_def\<close>)

lemma sem_post_terminated:
  assumes "p_state (process_table (k_procs k) i) = TERMINATED"
  shows "p_state (process_table (k_procs (sem_post s k)) i) = TERMINATED"
  using assms by (auto simp: sem_post_def Let_def split_beta intro!: wake_up_terminated split: option.split)

lemma write_loop_nonblocking_terminated:
  "p_state (process_table (k_procs k) i) = TERMINATED \<Longrightarrow> write_loop_nonblocking fd cs m k = Returned k' r \<Longrightarrow>
   p_state (process_table (k_procs k') i) = TERMINATED"
proof (induction cs arbitrary: m k)
  case (Cons c cs)
  obtain v k1 where g: "get_sem_value (pp_write_sem (k_pipes k fd)) k = (v, k1)" by fastforce
  have p: "k_procs k1 = k_procs k" "k_pipes k1 = k_pipes k"
    using g by (auto simp: get_sem_value_def Let_def)
  show ?case
  proof (cases "v = 0")
    case True
    then show ?thesis using Cons.prems g p by simp
  next
    case False
    let ?k = "put_byte fd c (take_unit (pp_write_sem (k_pipes k fd)) k1)"
    have "p_state (process_table (k_procs ?k) i) = TERMINATED"
      unfolding put_byte_def Let_def by (rule sem_post_terminated) (simp add: p Cons.prems(1))
    then show ?thesis using Cons.IH [of ?k "Suc m"] Cons.prems(2) g False sem_wait_with_unit(1) [OF g False] p
      by simp
  qed
qed simp

lemma unat_ucast_u32 [simp]: "unat (ucast (p :: u16) :: u32) = unat p"
proof -
  have "unat p < 2 ^ 32" using unsigned_less [of p] by (rule less_le_trans) simp
  then show ?thesis by (simp add: unsigned_ucast_eq take_bit_nat_eq_self)
qed

lemma ucast_u32_inj: "(ucast (p :: u16) :: u32) = ucast q \<longleftrightarrow> p = q"
  by (metis unat_ucast_u32 word_unat_eq_iff)

lemma slot_of32_ucast: "slot_of32 ps (ucast pid) = slot_of ps pid"
  by (simp add: slot_of32_def slot_of_def ucast_u32_inj)

text \<open>
  Control C kills the process in the foreground, unless that is the idle process or the
  shell (pids 0 and 1), and puts the byte -3 into the standard input pipe.
\<close>

theorem control_c_kills:
  assumes "pipe_ok 0 k" "\<not> released s" "key_of s = 0x2E" "kd_ctrl (k_keyboard k)"
    and "1 < foreground_process (k_procs k)"
    and "slot_of (k_procs k) (foreground_process (k_procs k)) = Some i"
    and "p_sem_wait_id (process_table (k_procs k) i) = -1"
  shows "\<exists>k'. kd_handler s k = Returned k' () \<and> pipe_ok 0 k' \<and>
    p_state (process_table (k_procs k') i) = TERMINATED \<and>
    pipe_data (k_pipes k' 0) = take 511 (pipe_data (k_pipes k 0) @ [-3])"
proof -
  let ?pid = "foreground_process (k_procs k)"
  define k1 where "k1 = snd (kill_foreground_process k)"
  have "(ucast ?pid :: u32) \<noteq> 0"
    using assms(5) ucast_u32_inj [of ?pid 0] by auto
  from kill_process_eq [OF this, of k i]
  have k1: "k1 = upd_procs (\<lambda>ps. ps\<lparr>terminated_processes_queue := enqueued i (terminated_processes_queue ps)\<rparr>)
      (k\<lparr>k_procs := killed i (k_procs k)\<rparr>)"
    using assms(5-7) by (simp add: k1_def kill_foreground_process_def slot_of32_ucast not_le)
  have t: "p_state (process_table (k_procs k1) i) = TERMINATED" by (simp add: k1 killed_state)
  have p: "k_pipes k1 = k_pipes k" "pipe_ok 0 k1"
    using pipe_ok_same [of k1 0 k 0] assms(1) by (simp_all add: k1)
  have "pipe_ok (unat (0::u16)) k1" "0 < (1::int)" "nat 1 \<le> length [-3 :: u8]" using p(2) by simp_all
  from write_pipe_nonblocking_returns [OF this(1) _ _ this(2,3)]
  obtain k' where k': "write_pipe_nonblocking 0 (Some [-3]) 1 k1 =
      Some (Returned k' (int (min 1 (511 - pipe_len (k_pipes k1 0)))))" "pipe_ok 0 k'"
    "pipe_data (k_pipes k' 0) = pipe_data (k_pipes k1 0) @ take (min 1 (511 - pipe_len (k_pipes k1 0))) [-3]"
    by auto
  have "pipe_len (k_pipes k 0) \<le> 511" using assms(1) by (auto simp: pipe_ok_def Let_def)
  then have d: "pipe_data (k_pipes k' 0) = take 511 (pipe_data (k_pipes k 0) @ [-3])"
    using k'(3) by (simp add: take_Cons' p(1))
  have "\<not> cannot_use 0 True 1 k1" using pipe_ok_ready [OF p(2)] by (simp add: cannot_use_def)
  then have "write_loop_nonblocking 0 [-3] 0 k1 = Returned k' (int (min 1 (511 - pipe_len (k_pipes k1 0))))"
    using k'(1) pipe_ok_ready [OF p(2)] by (simp add: write_pipe_nonblocking_def del: write_loop_nonblocking.simps)
  from write_loop_nonblocking_terminated [OF t this]
  have "p_state (process_table (k_procs k') i) = TERMINATED" .
  moreover have "shifted_ascii ! 0x2E = of_char (CHR ''C'')"
    by (simp add: shifted_ascii_def codes_def)
  then have "key_char (key_of s) k = (-3, k1)"
    using assms(3,4) by (simp add: key_char_def k1_def)
  then have "kd_handler s k = Returned k' ()"
    using assms(2,3) k'(1) by (simp add: kd_handler_def Let_def kd_is_special_key_def)
  ultimately show ?thesis using k'(2) d by blast
qed

lemma control_c_kills_witness:
  "\<exists>k k'. foreground_process (k_procs k) = 2 \<and> kd_handler 0x2E k = Returned k' () \<and>
     p_state (process_table (k_procs k') 2) = TERMINATED \<and> pipe_data (k_pipes k' 0) = [-3]"
proof -
  define k where "k = (pipe_kernel 0)\<lparr>k_procs := static_procs\<lparr>procs_initialized := True, foreground_process := 2,
      process_table := (\<lambda>i. plain_pcb (of_nat i) READY)\<rparr>,
      k_keyboard := \<lparr>kd_capslock = False, kd_shift = False, kd_ctrl = True, kd_alt = False\<rparr>\<rparr>"
  have "pipe_ok 0 k" "pipe_data (k_pipes k 0) = []"
    using pipe_ok_same [of k 0 "pipe_kernel 0" 0] pipe_kernel_ok [of 0] by (simp_all add: k_def)
  moreover have "\<not> released 0x2E" "key_of 0x2E = 0x2E" by (simp_all add: released_def key_of_def)
  moreover have "kd_ctrl (k_keyboard k)" "foreground_process (k_procs k) = 2" by (simp_all add: k_def)
  moreover have "slot_of (k_procs k) 2 = Some 2"
    by (rule slot_ofI) (auto simp: k_def less_Suc_eq numeral_2_eq_2)
  moreover have "p_sem_wait_id (process_table (k_procs k) 2) = -1" by (simp add: k_def)
  ultimately obtain k' where "kd_handler 0x2E k = Returned k' ()"
     "p_state (process_table (k_procs k') 2) = TERMINATED" "pipe_data (k_pipes k' 0) = [-3]"
    using control_c_kills [where k = k and s = "0x2E" and i = 2] by auto
  then show ?thesis using \<open>foreground_process (k_procs k) = 2\<close> by blast
qed

end
