(* ===== verification/Kernel_Lib.thy ===== *)
theory Kernel_Lib
  imports Prelude
begin

text \<open>
  Kernel/kernel-libs/lib.c over a memory of bytes. A pointer is a 64 bit address and an index
  is added to it with wrap-around; a 32 bit access is four bytes, the lowest first.
\<close>

section \<open>Operations\<close>

type_synonym memory = "u64 \<Rightarrow> u8"

definition load32 :: "memory \<Rightarrow> u64 \<Rightarrow> u32" where
  "load32 m a = ucast (m a) OR push_bit 8 (ucast (m (a + 1)))
     OR push_bit 16 (ucast (m (a + 2))) OR push_bit 24 (ucast (m (a + 3)))"

definition store32 :: "u64 \<Rightarrow> u32 \<Rightarrow> memory \<Rightarrow> memory" where
  "store32 a w m = m(a := ucast w, a + 1 := ucast (drop_bit 8 w),
     a + 2 := ucast (drop_bit 16 w), a + 3 := ucast (drop_bit 24 w))"

text \<open>The loop \<open>while (length--)\<close> writes from the last byte down.\<close>

fun memset_loop :: "u64 \<Rightarrow> u8 \<Rightarrow> nat \<Rightarrow> memory \<Rightarrow> memory" where
  "memset_loop dst chr 0 m = m"
| "memset_loop dst chr (Suc n) m = memset_loop dst chr n (m(dst + of_nat n := chr))"

definition memset :: "u64 \<Rightarrow> u32 \<Rightarrow> u64 \<Rightarrow> memory \<Rightarrow> memory" where
  "memset destination c len m = memset_loop destination (ucast c) (unat len) m"

definition copy_words :: "u64 \<Rightarrow> u64 \<Rightarrow> nat \<Rightarrow> memory \<Rightarrow> memory" where
  "copy_words d s n m = fold (\<lambda>i m. store32 (d + 4 * of_nat i) (load32 m (s + 4 * of_nat i)) m) [0..<n] m"

definition copy_bytes :: "u64 \<Rightarrow> u64 \<Rightarrow> nat \<Rightarrow> memory \<Rightarrow> memory" where
  "copy_bytes d s n m = fold (\<lambda>i m. m(d + of_nat i := m (s + of_nat i))) [0..<n] m"

definition memcpy :: "u64 \<Rightarrow> u64 \<Rightarrow> u64 \<Rightarrow> memory \<Rightarrow> memory" where
  "memcpy destination source len m =
     (if destination mod 4 = 0 \<and> source mod 4 = 0 \<and> len mod 4 = 0
      then copy_words destination source (unat len div 4) m
      else copy_bytes destination source (unat len) m)"

text \<open>\<open>strlen\<close> does not return on a memory without a zero byte.\<close>

partial_function (option) strlen_loop :: "memory \<Rightarrow> u64 \<Rightarrow> u32 \<Rightarrow> u32 option" where
  "strlen_loop m str len = (if m str = 0 then Some len else strlen_loop m (str + 1) (len + 1))"

definition strlen :: "memory \<Rightarrow> u64 \<Rightarrow> u32 option" where
  "strlen m str = strlen_loop m str 0"

text \<open>The loop of \<open>strncpy\<close>, from index \<open>i\<close>: where it stops and the memory.\<close>

function strncpy_loop :: "u64 \<Rightarrow> u64 \<Rightarrow> nat \<Rightarrow> nat \<Rightarrow> memory \<Rightarrow> nat \<times> memory" where
  "strncpy_loop d s n i m =
     (if i < n \<and> m (s + of_nat i) \<noteq> 0
      then strncpy_loop d s n (Suc i) (m(d + of_nat i := m (s + of_nat i)))
      else (i, m))"
  by pat_completeness auto
termination
  by (relation "measure (\<lambda>(d, s, n, i, m). n - i)") auto

declare strncpy_loop.simps [simp del]

definition strncpy :: "u64 \<Rightarrow> u64 \<Rightarrow> u32 \<Rightarrow> memory \<Rightarrow> nat \<times> memory" where
  "strncpy destination source len m =
     (let (i, m') = strncpy_loop destination source (unat len) 0 m
      in (i, if i < unat len then m'(destination + of_nat i := 0) else m'))"

section \<open>Filling and copying\<close>

text \<open>The bytes of a region that starts at \<open>d\<close>, by their offset.\<close>

lemma offset_less: "unat (a - d) < n \<Longrightarrow> a = d + of_nat (unat (a - d))"
  by simp

lemma unat_offset [simp]: "i < 2 ^ 64 \<Longrightarrow> unat (d + of_nat i - d :: u64) = i"
  by (simp add: unsigned_of_nat take_bit_nat_eq_self)

lemma offset_word: "unat (a - d) = n \<Longrightarrow> (a :: u64) = d + of_nat n"
  by (metis add.commute diff_add_cancel of_nat_unat ucast_id)

lemma at_offset: "n < 2 ^ 64 \<Longrightarrow> (a :: u64) = d + of_nat n \<longleftrightarrow> unat (a - d) = n"
  using unat_offset [of n d] offset_word [of a d] by auto

lemma memset_loop_eq:
  "n \<le> 2 ^ 64 \<Longrightarrow> memset_loop d c n m = (\<lambda>a. if unat (a - d) < n then c else m a)"
proof (induction n arbitrary: m)
  case (Suc n)
  have "a = d + of_nat n \<longleftrightarrow> unat (a - d) = n" for a :: u64
    by (rule at_offset) (use Suc.prems in simp)
  then show ?case using Suc by (auto simp: fun_eq_iff less_Suc_eq)
qed simp

lemma copy_bytes_Suc: "copy_bytes d s (Suc n) m = (copy_bytes d s n m)(d + of_nat n := copy_bytes d s n m (s + of_nat n))"
  by (simp add: copy_bytes_def)

definition separate :: "u64 \<Rightarrow> u64 \<Rightarrow> nat \<Rightarrow> bool" where
  "separate d s n \<longleftrightarrow> (\<forall>a. unat (a - d) < n \<longrightarrow> \<not> unat (a - s) < n)"

definition copied :: "u64 \<Rightarrow> u64 \<Rightarrow> nat \<Rightarrow> memory \<Rightarrow> memory" where
  "copied d s n m = (\<lambda>a. if unat (a - d) < n then m (s + (a - d)) else m a)"

lemma separate_mono: "separate d s n \<Longrightarrow> k \<le> n \<Longrightarrow> separate d s k"
  by (meson order_less_le_trans separate_def)

lemma copy_bytes_eq:
  "n \<le> 2 ^ 64 \<Longrightarrow> separate d s n \<Longrightarrow> copy_bytes d s n m = copied d s n m"
proof (induction n)
  case (Suc n)
  have e: "a = d + of_nat n \<longleftrightarrow> unat (a - d) = n" for a :: u64
    by (rule at_offset) (use Suc.prems in simp)
  have o: "s + (a - d) = s + of_nat n" if "unat (a - d) = n" for a :: u64
    using offset_word [OF that] by simp
  have "unat (s + of_nat n - s :: u64) = n" by (rule unat_offset) (use Suc.prems in simp)
  then have "unat (s + of_nat n - s :: u64) < Suc n" by simp
  then have "\<not> unat (s + of_nat n - d) < Suc n" using Suc.prems(2) unfolding separate_def by blast
  moreover have "copy_bytes d s n m = copied d s n m" using Suc separate_mono by simp
  ultimately show ?case
    by (auto simp: fun_eq_iff copy_bytes_Suc copied_def e less_Suc_eq o)
qed (simp add: copied_def copy_bytes_def)

text \<open>A 32 bit copy is four byte copies.\<close>

lemma load32_bytes:
  "ucast (load32 m a) = m a" "ucast (drop_bit 8 (load32 m a)) = m (a + 1)"
  "ucast (drop_bit 16 (load32 m a)) = m (a + 2)" "ucast (drop_bit 24 (load32 m a)) = m (a + 3)"
  by (rule bit_word_eqI; auto simp: load32_def bit_simps dest: bit_imp_le_length)+

lemma store_load32: "store32 d (load32 m s) m = m(d := m s, d + 1 := m (s + 1), d + 2 := m (s + 2), d + 3 := m (s + 3))"
  by (simp add: store32_def load32_bytes)

lemma separate_ne:
  assumes "separate d s n" "i < n" "j < n" "n \<le> 2 ^ 64"
  shows "s + of_nat j \<noteq> d + of_nat i"
proof
  assume e: "s + of_nat j = d + of_nat i"
  have "unat (d + of_nat i - d) = i" "unat (s + of_nat j - s) = j"
    by (rule unat_offset; use assms(2-4) in simp)+
  then show False using assms(1-3) e unfolding separate_def by metis
qed

lemma copy_words_bytes:
  "4 * k \<le> 2 ^ 64 \<Longrightarrow> separate d s (4 * k) \<Longrightarrow> copy_words d s k m = copy_bytes d s (4 * k) m"
proof (induction k)
  case (Suc k)
  let ?m = "copy_bytes d s (4 * k) m"
  let ?d = "d + 4 * of_nat k" and ?s = "s + 4 * of_nat k"
  have ne: "s + of_nat (4 * k + j) \<noteq> d + of_nat (4 * k + i)" if "i < 4" "j < 4" for i j
    by (rule separate_ne [OF Suc.prems(2)]) (use that Suc.prems(1) in simp_all)
  have ne': "?s + 1 \<noteq> ?d" "?s + 2 \<noteq> ?d" "?s + 3 \<noteq> ?d" "?s + 2 \<noteq> ?d + 1" "?s + 3 \<noteq> ?d + 1" "?s + 3 \<noteq> ?d + 2"
    using ne [of 0 1] ne [of 0 2] ne [of 0 3] ne [of 1 2] ne [of 1 3] ne [of 2 3] by (simp_all add: add.assoc)
  have "copy_words d s (Suc k) m = store32 ?d (load32 ?m ?s) ?m"
    using Suc separate_mono [OF Suc.prems(2), of "4 * k"] by (simp add: copy_words_def)
  also have "\<dots> = copy_bytes d s (Suc (Suc (Suc (Suc (4 * k))))) m"
    unfolding store_load32 copy_bytes_Suc
    using ne' by (simp add: ac_simps)
  finally show ?case by (simp add: numeral_eq_Suc)
qed (simp add: copy_words_def copy_bytes_def)

lemma unat64_le: "unat (n :: u64) \<le> 2 ^ 64"
proof -
  have "unat n < 2 ^ 64" using unsigned_less [of n] by simp
  then show ?thesis by simp
qed

lemma memcpy_eq:
  assumes "separate d s (unat n)"
  shows "memcpy d s n m = copied d s (unat n) m"
proof -
  have n: "unat n \<le> 2 ^ 64" by (rule unat64_le)
  have "4 * (unat n div 4) = unat n" if "n mod 4 = 0"
  proof -
    have "unat n mod 4 = 0" using arg_cong [OF that, of unat] by (simp add: unat_mod)
    then show ?thesis using div_mult_mod_eq [of "unat n" 4] by linarith
  qed
  then show ?thesis
    using copy_bytes_eq [OF n assms] copy_words_bytes [of "unat n div 4" d s m] n assms by (simp add: memcpy_def)
qed

text \<open>
  C34. A copy between regions that do not overlap moves every byte, whether it goes by words
  or by bytes: for aligned arguments the loop over 32 bit words gives the memory that the loop
  over bytes gives, which is the old memory with the source region in place of the
  destination.
\<close>

theorem memcpy_words_bytes:
  assumes "separate d s (unat n)"
  shows "memcpy d s n m = copy_bytes d s (unat n) m \<and>
    (\<forall>a. memcpy d s n m a = (if unat (a - d) < unat n then m (s + (a - d)) else m a))"
  using memcpy_eq [OF assms] copy_bytes_eq [OF _ assms, of m] unat64_le [of n]
  by (simp add: copied_def)

lemma memcpy_words_bytes_witness:
  "\<forall>m. memcpy 0x1000 0x2000 8 m = copy_bytes 0x1000 0x2000 8 m"
proof -
  have "separate 0x1000 0x2000 (unat (8 :: u64))"
    unfolding separate_def by (auto simp: unat_sub_if' unat_arith_simps) 
  from memcpy_words_bytes [OF this] show ?thesis by simp
qed

theorem memset_fills: "memset d c n m = (\<lambda>a. if unat (a - d) < unat n then ucast c else m a)"
  using memset_loop_eq [of "unat n" d "ucast c" m] unat64_le [of n] by (simp add: memset_def)

section \<open>Strings\<close>

text \<open>A string of length \<open>n\<close> at an address.\<close>

definition string_at :: "memory \<Rightarrow> u64 \<Rightarrow> nat \<Rightarrow> bool" where
  "string_at m s n \<longleftrightarrow> m (s + of_nat n) = 0 \<and> (\<forall>i<n. m (s + of_nat i) \<noteq> 0)"

lemma strlen_loop_eq: "string_at m s n \<Longrightarrow> strlen_loop m s len = Some (len + of_nat n)"
proof (induction n arbitrary: s len)
  case 0
  then show ?case by (subst strlen_loop.simps) (simp add: string_at_def)
next
  case (Suc n)
  have "m (s + of_nat 0) \<noteq> 0" using Suc.prems unfolding string_at_def by blast
  moreover have "string_at m (s + 1) n"
    using Suc.prems unfolding string_at_def by (metis (no_types, lifting) Suc_less_eq add.assoc of_nat_Suc)
  ultimately show ?case using Suc.IH [of "s + 1" "len + 1"] by (subst strlen_loop.simps) (simp add: add.assoc)
qed

lemma strlen_eq: "string_at m s n \<Longrightarrow> strlen m s = Some (of_nat n)"
  by (simp add: strlen_def strlen_loop_eq)

text \<open>\<open>strncpy\<close> copies what fits, and ends it if there is a byte left.\<close>

lemma copied_Suc:
  assumes "i < n" "n \<le> 2 ^ 64" "separate d s n"
  shows "(copied d s i m)(d + of_nat i := copied d s i m (s + of_nat i)) = copied d s (Suc i) m"
  using copy_bytes_Suc [of d s i m] copy_bytes_eq [of i d s m] copy_bytes_eq [of "Suc i" d s m]
    separate_mono [OF assms(3)] assms(1,2) by (simp add: less_imp_le Suc_le_eq)

lemma copied_source:
  assumes "i < n" "j \<le> n" "n \<le> 2 ^ 64" "separate d s n"
  shows "copied d s j m (s + of_nat i) = m (s + of_nat i)"
proof -
  have "unat (s + of_nat i - s :: u64) = i" by (rule unat_offset) (use assms in simp)
  then have "\<not> unat (s + of_nat i - d) < n" using assms(1,4) unfolding separate_def by metis
  then show ?thesis using assms(2) by (simp add: copied_def)
qed

lemma strncpy_loop_eq:
  assumes "string_at m s len" "n \<le> 2 ^ 64" "separate d s n" "i \<le> min n len"
  shows "strncpy_loop d s n i (copied d s i m) = (min n len, copied d s (min n len) m)"
  using assms(4)
proof (induction "min n len - i" arbitrary: i)
  case 0
  then have i: "i = min n len" by simp
  have "\<not> (i < n \<and> copied d s i m (s + of_nat i) \<noteq> 0)"
    using assms(1) copied_source [OF _ _ assms(2,3), of i i m] i by (auto simp: string_at_def min_def split: if_splits)
  then show ?case by (subst strncpy_loop.simps) (simp only: i if_False)
next
  case (Suc x)
  then have i: "i < n" "i < len" by simp_all
  have src: "copied d s i m (s + of_nat i) = m (s + of_nat i)"
    by (rule copied_source [OF i(1) _ assms(2,3)]) (use i in simp)
  have "m (s + of_nat i) \<noteq> 0" using assms(1) i(2) by (simp add: string_at_def)
  then have "strncpy_loop d s n i (copied d s i m) = strncpy_loop d s n (Suc i) (copied d s (Suc i) m)"
    using src i(1) copied_Suc [OF i(1) assms(2,3), of m, unfolded src]
    by (subst strncpy_loop.simps) (simp only: if_True simp_thms)
  also have "\<dots> = (min n len, copied d s (min n len) m)"
    by (rule Suc.hyps(1)) (use Suc.hyps(2) i in simp_all)
  finally show ?case .
qed

lemma strncpy_eq:
  assumes "string_at m s len" "separate d s (unat n)"
  shows "strncpy d s n m = (min (unat n) len, if len < unat n
      then (copied d s len m)(d + of_nat len := 0) else copied d s (unat n) m)"
proof -
  have "unat n < 2 ^ 32" using unsigned_less [of n] by simp
  then have n: "unat n \<le> 2 ^ 64" by simp
  have "strncpy_loop d s (unat n) 0 (copied d s 0 m) = (min (unat n) len, copied d s (min (unat n) len) m)"
    by (rule strncpy_loop_eq [OF assms(1) n assms(2)]) simp
  moreover have "copied d s 0 m = m" by (simp add: copied_def)
  ultimately show ?thesis by (auto simp: strncpy_def min_def)
qed

end
