(* ===== verification/Syscalls.thy ===== *)
theory Syscalls
  imports Keyboard Kernel_Lib
begin

text \<open>
  Kernel/syscalls: the entries of syscalls.c and the table of syscall-dispatcher.c. Arguments
  are 64 bit registers. User memory is a function from addresses to bytes; what a call
  stores through a pointer of the caller is part of its result. A call that gives up the
  processor is \<open>Suspended\<close> with what is left of it. \<open>None\<close> is a call that does not come back:
  an allocation that loops for ever, an access outside the pipe array, a jump through a null
  entry of the table.
\<close>

section \<open>Types\<close>

datatype sys_out =
    No_out
  | Out_bytes "u8 list"
  | Out_status "8 word option"
  | Out_heap heap_state
  | Out_procs "process_info list"

datatype sys_cont =
    C_write write_cont
  | C_read read_cont u64 nat "u8 list"
  | C_create "nat \<times> u32"
  | C_wait "nat \<times> u32" u64
  | C_sem u32
  | C_return u64

type_synonym sys_result = "(kernel, sys_cont, u64 \<times> sys_out) outcome option"

definition ret :: "u64 \<Rightarrow> kernel \<Rightarrow> sys_result" where
  "ret v k = Some (Returned k (v, No_out))"

definition ret_out :: "u64 \<Rightarrow> sys_out \<Rightarrow> kernel \<Rightarrow> sys_result" where
  "ret_out v out k = Some (Returned k (v, out))"

text \<open>\<open>call_int_20()\<close> followed by \<open>return v\<close>.\<close>

definition yield_ret :: "u64 \<Rightarrow> kernel \<Rightarrow> sys_result" where
  "yield_ret v k = Some (Suspended k (C_return v))"

text \<open>Conversions: to \<open>int\<close>, and back from \<open>int\<close> and \<open>int8_t\<close> with their sign.\<close>

definition to_int :: "u64 \<Rightarrow> int" where
  "to_int x = sint (ucast x :: u32)"

definition from_int :: "int \<Rightarrow> u64" where
  "from_int = word_of_int"

definition user_bytes :: "memory \<Rightarrow> u64 \<Rightarrow> nat \<Rightarrow> u8 list" where
  "user_bytes mem addr n = map (\<lambda>i. mem (addr + of_nat i)) [0..<n]"

definition user_string :: "memory \<Rightarrow> u64 \<Rightarrow> nat \<Rightarrow> string" where
  "user_string mem addr n = map (\<lambda>b. char_of (unat b)) (takeWhile (\<lambda>b. b \<noteq> 0) (user_bytes mem addr n))"

definition user_u16 :: "memory \<Rightarrow> u64 \<Rightarrow> u16" where
  "user_u16 mem addr = ucast (mem addr) + 256 * ucast (mem (addr + 1))"

text \<open>The descriptor a number stands for, once the redirection of the process is applied.\<close>

definition current_fds :: "kernel \<Rightarrow> u16 \<times> u16" where
  "current_fds k = the (snd (get_current_fds (k_procs k) (Some (0, 0))))"

section \<open>Input and output\<close>

definition RED :: u8 where "RED = 0x0C"

definition on_screen :: "(screen \<Rightarrow> screen) \<Rightarrow> kernel \<Rightarrow> kernel" where
  "on_screen f k = k\<lparr>k_screen := f (k_screen k)\<rparr>"

definition sys_write :: "memory \<Rightarrow> u64 \<Rightarrow> u64 \<Rightarrow> u64 \<Rightarrow> kernel \<Rightarrow> sys_result" where
  "sys_write mem fd0 buffer count k =
     (if buffer = 0 \<or> count = 0 then ret (-1) k
      else let fd = (if fd0 = 1 then ucast (snd (current_fds k)) else fd0)
           in if fd = 1
              then ret 0 (on_screen (vd_nprint (\<lambda>i. mem (buffer + of_nat i)) (ucast count)) k)
              else if fd = 2
              then ret 0 (on_screen (\<lambda>s. vd_set_color (vd_get_color s)
                     (vd_nprint (\<lambda>i. mem (buffer + of_nat i)) (ucast count) (vd_set_color RED s))) k)
              else (case write_pipe (to_int fd) (Some (user_bytes mem buffer (nat (to_int count)))) (to_int count) k of
                      None \<Rightarrow> None
                    | Some (Returned k' _) \<Rightarrow> ret 0 k'
                    | Some (Suspended k' w) \<Rightarrow> Some (Suspended k' (C_write w))))"

text \<open>
  The loop of \<open>sys_read\<close> asks the pipe for one byte at a time; \<open>n\<close> is the number still wanted
  (\<open>bytes_read\<close> is 32 bits wide, so this is the loop for counts below \<open>2 ^ 32\<close>, which is what
  the library passes). \<open>read_stop\<close> says whether a byte ends it: an error, or the characters for
  interrupt and end of file. The -1 of an error with nothing read is converted to 32 bits
  first.
\<close>

definition read_stop :: "u8 list \<Rightarrow> int \<Rightarrow> u8 \<Rightarrow> (u64 \<times> u8 list) option" where
  "read_stop got r c =
     (if r = -1 then Some (if got \<noteq> [] then of_nat (length got) else 0xFFFFFFFF, got)
      else if c = word_of_int KEY_INTERRUPT \<or> c = word_of_int KEY_EOF
      then Some (of_nat (length got) + 1, got @ [c])
      else None)"

fun read_bytes :: "u64 \<Rightarrow> nat \<Rightarrow> u8 list \<Rightarrow> kernel \<Rightarrow> sys_result" where
  "read_bytes fd 0 got k = ret_out (of_nat (length got)) (Out_bytes got) k"
| "read_bytes fd (Suc n) got k =
     (case read_pipe (ucast fd) True 1 k of
        Suspended k' rc \<Rightarrow> Some (Suspended k' (C_read rc fd n got))
      | Returned k' (r, bs) \<Rightarrow>
          (case read_stop got r (hd bs) of
             Some (v, buf) \<Rightarrow> ret_out v (Out_bytes buf) k'
           | None \<Rightarrow> read_bytes fd n (got @ [hd bs]) k'))"

definition sys_read :: "u64 \<Rightarrow> u64 \<Rightarrow> u64 \<Rightarrow> kernel \<Rightarrow> sys_result" where
  "sys_read fd0 buffer count k =
     (if buffer = 0 \<or> count = 0 then ret (-1) k
      else let fd = (if fd0 = 0 then ucast (fst (current_fds k)) else fd0)
           in if fd = 0 \<and> \<not> is_foreground (k_procs k) (get_current_pid (k_procs k)) then ret (-1) k
              else read_bytes fd (unat count) [] k)"

definition sys_read_resume :: "read_cont \<Rightarrow> u64 \<Rightarrow> nat \<Rightarrow> u8 list \<Rightarrow> kernel \<Rightarrow> sys_result" where
  "sys_read_resume rc fd n got k =
     (case read_pipe_resume rc k of
        Suspended k' rc' \<Rightarrow> Some (Suspended k' (C_read rc' fd n got))
      | Returned k' (r, bs) \<Rightarrow>
          (case read_stop got r (hd bs) of
             Some (v, buf) \<Rightarrow> ret_out v (Out_bytes buf) k'
           | None \<Rightarrow> read_bytes fd n (got @ [hd bs]) k'))"

definition sys_open :: "kernel \<Rightarrow> sys_result" where
  "sys_open k = (let (fd, k') = create_pipe k in if fd = -1 then ret (-1) k' else ret (from_int fd) k')"

definition sys_close :: "u64 \<Rightarrow> kernel \<Rightarrow> sys_result" where
  "sys_close fd k =
     (if fd = 0 \<or> fd = 1 \<or> fd = 2 then ret (-1) k
      else let (r, k') = close_pipe (ucast fd) k in if r = -1 then ret (-1) k' else ret 0 k')"

definition sys_set_cursor :: "u64 \<Rightarrow> u64 \<Rightarrow> kernel \<Rightarrow> sys_result" where
  "sys_set_cursor x y k = ret 0 (on_screen (vd_set_cursor (ucast x) (ucast y)) k)"

definition sys_set_color :: "u64 \<Rightarrow> kernel \<Rightarrow> sys_result" where
  "sys_set_color color k = ret 0 (on_screen (vd_set_color (ucast color)) k)"

section \<open>Memory\<close>

definition sys_mmap :: "u64 \<Rightarrow> kernel \<Rightarrow> sys_result" where
  "sys_mmap sz k = (case memory_alloc (k_heap k) sz of
     None \<Rightarrow> None | Some (p, heap) \<Rightarrow> ret p (k\<lparr>k_heap := heap\<rparr>))"

definition sys_munmap :: "u64 \<Rightarrow> kernel \<Rightarrow> sys_result" where
  "sys_munmap addr k =
     (let (r, heap) = memory_free (k_heap k) addr in ret (from_int r) (k\<lparr>k_heap := heap\<rparr>))"

text \<open>\<open>old\<close> is what the caller's structure held.\<close>

definition sys_mem_info :: "heap_state \<Rightarrow> u64 \<Rightarrow> kernel \<Rightarrow> sys_result" where
  "sys_mem_info old info_struct k =
     (case memory_state_get (k_heap k) (if info_struct = 0 then None else Some old) of
        None \<Rightarrow> ret 0 k | Some st \<Rightarrow> ret_out 0 (Out_heap st) k)"

section \<open>Processes\<close>

text \<open>The name is read up to its 63rd byte; a null pointer gives no name and no descriptors.\<close>

definition created_status :: "(kernel, nat \<times> u32, 8 word option) outcome \<Rightarrow> sys_result" where
  "created_status r =
     (case r of
        Returned k st \<Rightarrow> ret (scast (case st of Some s \<Rightarrow> s | None \<Rightarrow> (-1 :: 8 word))) k
      | Suspended k c \<Rightarrow> Some (Suspended k (C_create c)))"

definition sys_create_process :: "memory \<Rightarrow> u64 \<Rightarrow> u64 \<Rightarrow> u64 \<Rightarrow> kernel \<Rightarrow> sys_result" where
  "sys_create_process mem name fds is_fg k =
     (case create_process
        (if name = 0 then None else Some (user_string mem name (MAX_PROCESS_NAME_LENGTH - 1)))
        (if fds = 0 then None else Some (user_u16 mem fds, user_u16 mem (fds + 2)))
        (ucast is_fg) k of
        None \<Rightarrow> None
      | Some (new_pid, k') \<Rightarrow>
          if is_fg \<noteq> 0 then created_status (wait_process new_pid k') else ret (ucast new_pid) k')"

definition sys_exit :: "u64 \<Rightarrow> kernel \<Rightarrow> sys_result" where
  "sys_exit status k =
     (let k1 = upd_procs (\<lambda>ps. set_exit_status ps (ucast status)) k
      in yield_ret 0 (snd (kill_process (ucast (get_current_pid (k_procs k1))) k1)))"

definition waited_status :: "u64 \<Rightarrow> (kernel, nat \<times> u32, 8 word option) outcome \<Rightarrow> sys_result" where
  "waited_status status r =
     (case r of
        Returned k st \<Rightarrow> ret_out 0 (Out_status (if status = 0 then None else st)) k
      | Suspended k c \<Rightarrow> Some (Suspended k (C_wait c status)))"

text \<open>The test that \<open>sys_wait\<close> and the three blocking calls share.\<close>

definition bad_pid :: "u64 \<Rightarrow> kernel \<Rightarrow> bool" where
  "bad_pid pid k \<longleftrightarrow> pid \<ge> of_nat MAX_PROCESSES \<or> pid = ucast (get_current_pid (k_procs k))"

definition sys_wait :: "u64 \<Rightarrow> u64 \<Rightarrow> kernel \<Rightarrow> sys_result" where
  "sys_wait pid status k =
     (if bad_pid pid k then ret (-1) k else waited_status status (wait_process (ucast pid) k))"

definition sys_getpid :: "kernel \<Rightarrow> sys_result" where
  "sys_getpid k = ret (ucast (get_current_pid (k_procs k))) k"

definition sys_kill :: "u64 \<Rightarrow> kernel \<Rightarrow> sys_result" where
  "sys_kill pid k = yield_ret 0 (snd (kill_process (ucast (ucast pid :: u16)) k))"

definition sys_getpriority :: "u64 \<Rightarrow> kernel \<Rightarrow> sys_result" where
  "sys_getpriority pid k = ret (ucast (get_current_priority (k_procs k))) k"

definition sys_setpriority :: "u64 \<Rightarrow> u64 \<Rightarrow> kernel \<Rightarrow> sys_result" where
  "sys_setpriority pid priority k =
     (let (r, k') = on_procs (\<lambda>ps. change_priority ps (ucast (ucast pid :: u16)) (ucast priority)) k
      in ret (from_int r) k')"

definition sys_sched_yield :: "kernel \<Rightarrow> sys_result" where
  "sys_sched_yield k = yield_ret 0 k"

definition sys_sleep :: "u64 \<Rightarrow> kernel \<Rightarrow> sys_result" where
  "sys_sleep seconds k =
     (let (r, k') = sleep (from_int (to_int seconds)) k in if r = -1 then ret (-1) k' else yield_ret 0 k')"

definition sys_block_process :: "u64 \<Rightarrow> kernel \<Rightarrow> sys_result" where
  "sys_block_process pid k =
     (if bad_pid pid k then ret (-1) k else ret 0 (snd (on_procs (\<lambda>ps. block_process ps (ucast pid)) k)))"

definition sys_unblock_process :: "u64 \<Rightarrow> kernel \<Rightarrow> sys_result" where
  "sys_unblock_process pid k =
     (if bad_pid pid k then ret (-1) k else ret 0 (snd (wake_up_process (ucast pid) k)))"

definition sys_toggle_block :: "u64 \<Rightarrow> kernel \<Rightarrow> sys_result" where
  "sys_toggle_block pid k =
     (if bad_pid pid k then ret (-1) k else ret 0 (snd (toggle_block_process (ucast pid) k)))"

definition sys_ps :: "u64 \<Rightarrow> u64 \<Rightarrow> kernel \<Rightarrow> sys_result" where
  "sys_ps process_array max_processes k =
     (if process_array = 0 \<or> max_processes = 0 then ret (-1) k
      else let (n, xs) = get_processes_info (k_procs k) True (to_int max_processes)
           in ret_out (from_int n) (Out_procs xs) k)"

section \<open>Semaphores\<close>

definition sys_sem_open :: "u64 \<Rightarrow> kernel \<Rightarrow> sys_result" where
  "sys_sem_open v k = (let (s, k') = create_sem (ucast v) k in ret (scast s) k')"

definition sys_sem_close :: "u64 \<Rightarrow> kernel \<Rightarrow> sys_result" where
  "sys_sem_close sem_id k = ret 0 (destroy_sem (ucast sem_id) k)"

definition sem_done :: "u32 \<Rightarrow> (kernel, unit, unit) outcome \<Rightarrow> sys_result" where
  "sem_done s r = (case r of Returned k _ \<Rightarrow> ret 0 k | Suspended k _ \<Rightarrow> Some (Suspended k (C_sem s)))"

definition sys_sem_wait :: "u64 \<Rightarrow> kernel \<Rightarrow> sys_result" where
  "sys_sem_wait sem_id k = sem_done (ucast sem_id) (sem_wait (ucast sem_id) k)"

definition sys_sem_post :: "u64 \<Rightarrow> kernel \<Rightarrow> sys_result" where
  "sys_sem_post sem_id k = ret 0 (sem_post (ucast sem_id) k)"

definition sys_sem_getvalue :: "u64 \<Rightarrow> kernel \<Rightarrow> sys_result" where
  "sys_sem_getvalue sem_id k = (let (v, k') = get_sem_value (ucast sem_id) k in ret (ucast v) k')"

section \<open>The dispatcher\<close>

text \<open>
  The table has 31 entries, of which the four for shared memory are null. \<open>old\<close> is what the
  structure of a \<open>mem_info\<close> call held.
\<close>

definition syscall_dispatcher ::
  "memory \<Rightarrow> heap_state \<Rightarrow> u64 \<Rightarrow> u64 \<Rightarrow> u64 \<Rightarrow> u64 \<Rightarrow> u64 \<Rightarrow> u64 \<Rightarrow> u64 \<Rightarrow> kernel \<Rightarrow> sys_result" where
  "syscall_dispatcher mem old rax rdi rsi rdx r10 r8 r9 k =
     (if rax \<ge> 31 then ret (-1) k
      else if rax = 0 then sys_write mem rdi rsi rdx k
      else if rax = 1 then sys_read rdi rsi rdx k
      else if rax = 2 then sys_open k
      else if rax = 3 then sys_close rdi k
      else if rax = 4 then sys_set_cursor rdi rsi k
      else if rax = 5 then sys_set_color rdi k
      else if rax = 6 then sys_mmap rdi k
      else if rax = 7 then sys_munmap rdi k
      else if rax = 8 then sys_create_process mem rdi r8 r9 k
      else if rax = 9 then sys_exit rdi k
      else if rax = 10 then sys_wait rdi rsi k
      else if rax = 11 then sys_getpid k
      else if rax = 12 then sys_kill rdi k
      else if rax = 13 then sys_getpriority rdi k
      else if rax = 14 then sys_setpriority rdi rsi k
      else if rax = 15 then sys_sched_yield k
      else if rax = 16 then sys_sleep rdi k
      else if rax = 17 then sys_sem_open rdi k
      else if rax = 18 then sys_sem_close rdi k
      else if rax = 19 then sys_sem_wait rdi k
      else if rax = 20 then sys_sem_post rdi k
      else if rax = 21 then sys_sem_getvalue rdi k
      else if rax \<le> 25 then None
      else if rax = 26 then sys_mem_info old rdi k
      else if rax = 27 then sys_block_process rdi k
      else if rax = 28 then sys_unblock_process rdi k
      else if rax = 29 then sys_toggle_block rdi k
      else sys_ps rdi rsi k)"

text \<open>The rest of a call, when its process runs again.\<close>

definition sys_resume :: "sys_cont \<Rightarrow> kernel \<Rightarrow> sys_result" where
  "sys_resume c k =
     (case c of
        C_write w \<Rightarrow> (case write_pipe_resume w k of
            Returned k' _ \<Rightarrow> ret 0 k' | Suspended k' w' \<Rightarrow> Some (Suspended k' (C_write w')))
      | C_read rc fd n got \<Rightarrow> sys_read_resume rc fd n got k
      | C_create wc \<Rightarrow> created_status (wait_process_resume wc k)
      | C_wait wc status \<Rightarrow> waited_status status (wait_process_resume wc k)
      | C_sem s \<Rightarrow> sem_done s (sem_wait_resume s k)
      | C_return v \<Rightarrow> ret v k)"

end
