(* ===== verification/Kernel_Run.thy ===== *)
theory Kernel_Run
  imports Syscalls
begin

text \<open>
  The whole kernel as a step relation: clock and keyboard interrupts, system calls, calls that
  go on after having given up the processor, and switches of process. The invariant of the
  scheduler holds in every state that can be reached while the ready queues have room, and no
  call that fails to create a process leaks its slot.
\<close>

section \<open>Room\<close>

text \<open>
  The processes that can still come into a ready queue without being created: those that are
  blocked, asleep or running. \<open>keeps n\<close> is the invariant of the scheduler with room for
  all of them and \<open>n\<close> more.
\<close>

definition coming :: "procs \<Rightarrow> nat" where
  "coming ps = card {i. i < MAX_PROCESSES \<and> p_state (process_table ps i) \<in> {BLOCKED, SLEEPING, RUNNING}}"

definition keeps :: "nat \<Rightarrow> procs \<Rightarrow> bool" where
  "keeps n ps \<longleftrightarrow> sched_ok ps \<and> procs_initialized ps \<and> room_for (n + coming ps) ps"

lemma keeps_mono: "keeps n ps \<Longrightarrow> m \<le> n \<Longrightarrow> keeps m ps"
  unfolding keeps_def by (meson add_le_mono1 room_for_mono)

lemma keeps_sched: "keeps n ps \<Longrightarrow> sched_ok ps \<and> procs_initialized ps"
  by (simp add: keeps_def)

lemma keeps_cong:
  assumes "process_table ps' = process_table ps" "process_queues ps' = process_queues ps"
    and "current_process ps' = current_process ps" "first_time ps' = first_time ps"
    and "procs_initialized ps' = procs_initialized ps"
  shows "keeps n ps' = keeps n ps"
  using sched_ok_cong [OF assms(1-4)] assms by (simp add: keeps_def coming_def room_for_def)

lemma coming_cong:
  "(\<And>i. i < MAX_PROCESSES \<Longrightarrow> p_state (process_table ps' i) = p_state (process_table ps i)) \<Longrightarrow>
   coming ps' = coming ps"
  unfolding coming_def by (rule arg_cong [of _ _ card]) auto

text \<open>One slot changes its state.\<close>

lemma coming_upd:
  fixes f :: "pcb \<Rightarrow> pcb" and ps :: procs
  assumes "i < MAX_PROCESSES"
  defines "s \<equiv> p_state (process_table ps i)" and "t \<equiv> p_state (f (process_table ps i))"
  shows "t \<in> {BLOCKED, SLEEPING, RUNNING} \<Longrightarrow> coming (upd_pcb i f ps) \<le> Suc (coming ps)"
    and "s \<in> {BLOCKED, SLEEPING, RUNNING} \<Longrightarrow> t \<in> {BLOCKED, SLEEPING, RUNNING} \<Longrightarrow>
      coming (upd_pcb i f ps) = coming ps"
    and "t \<notin> {BLOCKED, SLEEPING, RUNNING} \<Longrightarrow> coming (upd_pcb i f ps) \<le> coming ps"
    and "s \<in> {BLOCKED, SLEEPING, RUNNING} \<Longrightarrow> t \<notin> {BLOCKED, SLEEPING, RUNNING} \<Longrightarrow>
      Suc (coming (upd_pcb i f ps)) = coming ps"
proof -
  let ?C = "{BLOCKED, SLEEPING, RUNNING}"
  let ?A = "{j. j < MAX_PROCESSES \<and> j \<noteq> i \<and> p_state (process_table ps j) \<in> ?C}"
  have fin: "finite ?A" by simp
  have a: "{j. j < MAX_PROCESSES \<and> p_state (process_table ps j) \<in> ?C} = (if s \<in> ?C then insert i ?A else ?A)"
    using assms(1) by (auto simp: s_def)
  have b: "{j. j < MAX_PROCESSES \<and> p_state (process_table (upd_pcb i f ps) j) \<in> ?C} =
      (if t \<in> ?C then insert i ?A else ?A)"
    using assms(1) by (auto simp: t_def)
  have c: "coming ps = (if s \<in> ?C then Suc (card ?A) else card ?A)"
    "coming (upd_pcb i f ps) = (if t \<in> ?C then Suc (card ?A) else card ?A)"
    unfolding coming_def a b using fin by (simp_all split: if_split)
  then show "t \<in> ?C \<Longrightarrow> coming (upd_pcb i f ps) \<le> Suc (coming ps)"
    and "s \<in> ?C \<Longrightarrow> t \<in> ?C \<Longrightarrow> coming (upd_pcb i f ps) = coming ps"
    and "t \<notin> ?C \<Longrightarrow> coming (upd_pcb i f ps) \<le> coming ps"
    and "s \<in> ?C \<Longrightarrow> t \<notin> ?C \<Longrightarrow> Suc (coming (upd_pcb i f ps)) = coming ps"
    by (simp_all split: if_splits)
qed

lemma coming_put_ready [simp]: "coming (put_ready i r ps) = coming ps"
  by (rule coming_cong) simp

lemma keeps_room: "keeps (Suc n) ps \<Longrightarrow> all_room ps"
  unfolding keeps_def all_room_room_for by (auto intro: room_for_mono)

text \<open>A slot that was counted becomes ready and is queued.\<close>

lemma keeps_make_ready:
  assumes "keeps n ps" "i < MAX_PROCESSES" "p_state (process_table ps i) \<in> {BLOCKED, SLEEPING, RUNNING}"
    and "r = p_priority (process_table ps i)"
    and "p_state (f (process_table ps i)) = READY" "sched_ok (put_ready i r (upd_pcb i f ps))"
  shows "keeps n (put_ready i r (upd_pcb i f ps))"
proof -
  have "Suc (coming (upd_pcb i f ps)) = coming ps" by (rule coming_upd(4)) (use assms(2,3,5) in auto)
  then have "n + coming ps = Suc (n + coming (upd_pcb i f ps))" by simp
  with assms(1) have "room_for (Suc (n + coming (upd_pcb i f ps))) ps" unfolding keeps_def by metis
  then have "room_for (n + coming (upd_pcb i f ps)) (put_ready i r (upd_pcb i f ps))"
    using room_for_put_ready by simp
  then show ?thesis using assms(1,6) by (simp add: keeps_def)
qed

lemma keeps_counted_room:
  assumes "keeps n ps" "i < MAX_PROCESSES" "p_state (process_table ps i) \<in> {BLOCKED, SLEEPING, RUNNING}"
  shows "all_room ps"
proof -
  have "0 < coming ps"
    unfolding coming_def using assms(2,3) by (subst card_gt_0_iff) auto
  then have "1 \<le> n + coming ps" by simp
  with assms(1) show ?thesis unfolding keeps_def all_room_room_for by (blast intro: room_for_mono)
qed

lemma keeps_restore_state:
  assumes "keeps n ps" "i < MAX_PROCESSES" "p_state (process_table ps i) \<in> {BLOCKED, SLEEPING}"
  shows "keeps n (restore_state i ps)"
proof -
  let ?f = "\<lambda>p. p\<lparr>p_state := p_previous p\<rparr>"
  have ok: "sched_ok (restore_state i ps)"
    by (rule sched_restore_state [OF _ keeps_counted_room [OF assms(1,2)] assms(2)])
      (use assms keeps_sched in auto)
  show ?thesis
  proof (cases "p_previous (process_table ps i) = READY")
    case True
    have "keeps n (put_ready i (p_priority (process_table ps i)) (upd_pcb i ?f ps))"
      by (rule keeps_make_ready [OF assms(1,2)])
        (use assms(3) True ok in \<open>auto simp: restore_state_def Let_def\<close>)
    then show ?thesis using True by (simp add: restore_state_def Let_def)
  next
    case False
    have "coming (upd_pcb i ?f ps) \<le> coming ps"
      using coming_upd(2,3) [OF assms(2), where ps = ps and f = ?f] assms(3)
      by (cases "p_previous (process_table ps i) \<in> {BLOCKED, SLEEPING, RUNNING}") auto
    then show ?thesis using False ok assms(1) room_for_mono [of "n + coming ps" ps]
      by (simp add: restore_state_def Let_def keeps_def)
  qed
qed

lemma keeps_wake_up:
  assumes "keeps n (k_procs k)"
  shows "keeps n (k_procs (snd (wake_up_process pid k)))"
proof (cases "slot_of (k_procs k) pid")
  case (Some i)
  let ?ps = "k_procs k"
  have i: "i < MAX_PROCESSES" using Some slot_of_SomeD by blast
  have s: "slot_ok ?ps i" using keeps_sched [OF assms] i sched_okD by blast
  show ?thesis
  proof (cases "p_state (process_table ?ps i) = BLOCKED")
    case True
    have room: "all_room ?ps" by (rule keeps_counted_room [OF assms i]) (simp add: True)
    have "sched_ok (put_ready i (p_priority (process_table ?ps i)) (upd_pcb i (\<lambda>p. p\<lparr>p_state := READY\<rparr>) ?ps))"
      by (rule sched_make_ready [OF _ i refl])
        (use s keeps_sched [OF assms] room True in \<open>auto simp: slot_ok_def all_room_def\<close>)
    then have "keeps n (put_ready i (p_priority (process_table ?ps i)) (upd_pcb i (\<lambda>p. p\<lparr>p_state := READY\<rparr>) ?ps))"
      by (intro keeps_make_ready [OF assms i]) (use True in auto)
    moreover have "sched_ok (upd_pcb i (\<lambda>p. p\<lparr>p_state := SLEEPING\<rparr>) ?ps)"
      by (rule sched_suspend [OF _ i refl]) (use s True keeps_sched [OF assms] in \<open>auto simp: slot_ok_def\<close>)
    then have "keeps n (upd_pcb i (\<lambda>p. p\<lparr>p_state := SLEEPING\<rparr>) ?ps)"
      using coming_upd(2) [OF i, where ps = ?ps and f = "\<lambda>p. p\<lparr>p_state := SLEEPING\<rparr>"] True assms by (simp add: keeps_def)
    moreover have "keeps n (restore_state i ?ps)"
      by (rule keeps_restore_state [OF assms i]) (simp add: True)
    ultimately show ?thesis
      using Some True by (simp add: wake_up_process_def Let_def split_beta)
  qed (use Some assms in \<open>simp add: wake_up_process_def Let_def\<close>)
qed (use assms in \<open>simp add: wake_up_process_def\<close>)

lemma keeps_unsleep:
  assumes "keeps n ps"
  shows "keeps n (snd (unsleep_process ps pid))"
  using assms keeps_restore_state [OF assms]
  by (auto simp: unsleep_process_def split: option.split dest!: slot_of_SomeD)

lemma keeps_timer_handler:
  assumes "keeps n (k_procs k)"
  shows "keeps n (k_procs (timer_handler k))"
proof -
  have w: "keeps n (k_procs k) \<Longrightarrow> keeps n (k_procs (wake_slot t i k))" for t i k
    using keeps_unsleep by (simp add: wake_slot_def Let_def clear_sleep_def)
  have "keeps n (k_procs k) \<Longrightarrow> keeps n (k_procs (fold (wake_slot t) xs k))" for t xs k
    by (induction xs arbitrary: k) (simp_all add: w)
  then show ?thesis
    using assms by (simp add: timer_handler_def wake_up_sleeping_processes_def init_time_def Let_def)
qed

lemma keeps_suspended:
  assumes "keeps (Suc n) ps" "i < MAX_PROCESSES" "sched_ok (upd_pcb i f ps)"
  shows "keeps n (upd_pcb i f ps)"
proof -
  have "coming (upd_pcb i f ps) \<le> Suc (coming ps)"
    using coming_upd(1,3) [OF assms(2), where ps = ps and f = f] by (metis le_SucI)
  then show ?thesis
    using assms(1,3) room_for_mono [of "Suc n + coming ps" ps "n + coming (upd_pcb i f ps)"] by (simp add: keeps_def)
qed

lemma keeps_block_process:
  assumes "keeps (Suc n) ps"
  shows "keeps n (snd (block_process ps pid))"
proof (cases "fst (block_process ps pid) = 0")
  case True
  then obtain i where i: "slot_of ps pid = Some i" by (auto simp: block_process_def split: option.splits)
  let ?f = "\<lambda>p. p\<lparr>p_previous := saved_state (p_state p), p_state := BLOCKED\<rparr>"
  have e: "snd (block_process ps pid) = upd_pcb i ?f ps"
    using True i by (auto simp: block_process_def split: if_splits)
  show ?thesis unfolding e
    by (rule keeps_suspended [OF assms]) (use slot_of_SomeD [OF i] sched_block_process [of ps pid] keeps_sched [OF assms] e in auto)
next
  case False
  then have "snd (block_process ps pid) = ps" by (auto simp: block_process_def split: option.splits if_splits)
  then show ?thesis using keeps_mono [OF assms] by simp
qed

section \<open>The kernel's operations keep it\<close>

lemma keeps_sleep_process:
  assumes "keeps (Suc n) ps"
  shows "keeps n (snd (sleep_process ps pid))"
proof (cases "fst (sleep_process ps pid) = 0")
  case True
  then obtain i where i: "slot_of ps pid = Some i" by (auto simp: sleep_process_def split: option.splits)
  let ?f = "\<lambda>p. p\<lparr>p_previous := saved_state (p_state p), p_state := SLEEPING\<rparr>"
  have e: "snd (sleep_process ps pid) = upd_pcb i ?f ps"
    using True i by (auto simp: sleep_process_def split: if_splits)
  show ?thesis unfolding e
    by (rule keeps_suspended [OF assms])
      (use slot_of_SomeD [OF i] sched_sleep_process [of ps pid] keeps_sched [OF assms] e in auto)
next
  case False
  then have "snd (sleep_process ps pid) = ps" by (auto simp: sleep_process_def split: option.splits if_splits)
  then show ?thesis using keeps_mono [OF assms] by simp
qed

lemma keeps_sleep: "keeps (Suc n) (k_procs k) \<Longrightarrow> keeps n (k_procs (snd (sleep secs k)))"
  using keeps_sleep_process [of n "k_procs k"] keeps_mono [of "Suc n" "k_procs k" n]
  by (simp add: sleep_def set_sleep_process_def Let_def split_beta split: option.split)

lemma keeps_sem_post: "keeps n (k_procs k) \<Longrightarrow> keeps n (k_procs (sem_post s k))"
  using keeps_wake_up by (simp add: sem_post_def Let_def split_beta split: option.split)

text \<open>
  A call that may give up the processor keeps \<open>n\<close> if it returns and needs one more if it is
  suspended, as its process then counts.
\<close>

definition keeps_outcome :: "nat \<Rightarrow> (kernel, 'c, 'r) outcome \<Rightarrow> bool" where
  "keeps_outcome n r = (case r of Returned k _ \<Rightarrow> keeps (Suc n) (k_procs k) | Suspended k _ \<Rightarrow> keeps n (k_procs k))"

lemma keeps_sem_attempt: "keeps (Suc n) (k_procs k) \<Longrightarrow> keeps_outcome n (sem_attempt s k)"
  using keeps_block_process by (simp add: keeps_outcome_def sem_attempt_def)

lemma keeps_sem_wait: "keeps (Suc n) (k_procs k) \<Longrightarrow> keeps_outcome n (sem_wait s k)"
  using keeps_sem_attempt [of n "sems_ready k"]
  by (simp add: sem_wait_def Let_def) (simp add: keeps_outcome_def)

lemma keeps_sem_wait_resume: "keeps (Suc n) (k_procs k) \<Longrightarrow> keeps_outcome n (sem_wait_resume s k)"
  using keeps_sem_attempt by (simp add: sem_wait_resume_def) (simp add: keeps_outcome_def)

lemma keeps_destroy_loop: "keeps n (k_procs k) \<Longrightarrow> keeps n (k_procs (destroy_loop i k))"
proof (induction i k rule: destroy_loop.induct)
  case (1 i k)
  have "keeps n (k_procs (destroy_round i k))"
    using keeps_wake_up [OF 1(2)] 1(2) by (simp add: destroy_round_def Let_def)
  then show ?case using 1 by (subst destroy_loop.simps) simp
qed

lemma keeps_destroy_sem: "keeps n (k_procs k) \<Longrightarrow> keeps n (k_procs (destroy_sem s k))"
  using keeps_destroy_loop [of n "sems_ready k"] by (simp add: destroy_sem_def Let_def)

lemma create_sem_procs [simp]: "k_procs (snd (create_sem v k)) = k_procs k"
  by (simp add: create_sem_def found_free_sem_def split_beta split: option.split)

lemma get_sem_value_procs [simp]: "k_procs (snd (get_sem_value s k)) = k_procs k"
  by (simp add: get_sem_value_def Let_def)

lemma keeps_killed: "keeps n ps \<Longrightarrow> keeps n (killed i ps)"
proof -
  assume k: "keeps n ps"
  have "sched_ok (killed i ps)"
    unfolding killed_def Let_def
    by (rule sched_fold_adopt [OF sched_return_foreground [OF sched_terminate]]) (use keeps_sched [OF k] in simp)
  moreover have "coming (killed i ps) \<le> coming ps"
    unfolding coming_def by (rule card_mono) (auto simp: killed_state split: if_splits)
  moreover have "procs_initialized (killed i ps) = procs_initialized ps"
  proof -
    have "procs_initialized (fold adopt cs qs) = procs_initialized qs" for cs qs
      by (induction cs arbitrary: qs) (simp_all add: adopt_def)
    then show ?thesis by (simp add: killed_def return_foreground_def Let_def)
  qed
  moreover have "room_for m (killed i ps) = room_for m ps" for m by (simp add: room_for_def killed_state)
  ultimately show "keeps n (killed i ps)"
    using k room_for_mono [of "n + coming ps" ps "n + coming (killed i ps)"] by (simp add: keeps_def)
qed

lemma keeps_fields [simp]:
  "keeps n (ps\<lparr>terminated_processes_queue := q\<rparr>) = keeps n ps"
  "keeps n (ps\<lparr>process_count := c\<rparr>) = keeps n ps"
  "keeps n (ps\<lparr>system_running := r\<rparr>) = keeps n ps"
  by (rule keeps_cong; simp)+

lemma keeps_kill_process:
  assumes "keeps n (k_procs k)"
  shows "keeps n (k_procs (snd (kill_process pid k)))"
proof (cases "pid = 0 \<or> slot_of32 (k_procs k) pid = None")
  case True
  then show ?thesis using assms by (auto simp: kill_process_def)
next
  case False
  then obtain i where i: "slot_of32 (k_procs k) pid = Some i" "pid \<noteq> 0" by auto
  show ?thesis
    using kill_process_eq [OF i(2,1)] keeps_killed [OF assms, of i]
      keeps_sem_post [of n "k\<lparr>k_procs := killed i (k_procs k)\<rparr>"] by simp
qed

lemma keeps_set_exit_status:
  assumes "keeps n ps"
  shows "keeps n (set_exit_status ps st)"
proof -
  have "coming (set_exit_status ps st) = coming ps" by (rule coming_cong) (simp add: set_exit_status_def)
  moreover have "room_for m (set_exit_status ps st) = room_for m ps" for m
    by (simp add: room_for_def set_exit_status_def)
  ultimately show ?thesis
    using assms sched_set_exit_status [of ps st] by (simp add: keeps_def) (simp add: set_exit_status_def)
qed

section \<open>Pipes keep it\<close>

lemma pipes_ready_procs [simp]: "k_procs (pipes_ready k) = k_procs k"
proof -
  have ps: "k_procs (pipe_sems i k) = k_procs k" for i k
    by (simp add: pipe_sems_def Let_def split_beta)
  then have "k_procs (fold pipe_sems xs k) = k_procs k" for xs k
    by (induction xs arbitrary: k) simp_all
  then show ?thesis by (simp add: pipes_ready_def init_pipe_manager_def Let_def ps)
qed

lemma keeps_get_byte: "keeps n (k_procs k) \<Longrightarrow> keeps n (k_procs (snd (get_byte fd k)))"
  using keeps_sem_post by (simp add: get_byte_def Let_def)

lemma keeps_put_byte: "keeps n (k_procs k) \<Longrightarrow> keeps n (k_procs (put_byte fd c k))"
  using keeps_sem_post by (simp add: put_byte_def Let_def)

lemma keeps_read_loop: "keeps (Suc n) (k_procs k) \<Longrightarrow> keeps_outcome n (read_loop fd m got k)"
proof (induction m arbitrary: got k)
  case (Suc m)
  show ?case
  proof (cases "sem_wait (pp_read_sem (k_pipes k fd)) k")
    case (Returned k1 u)
    then have "keeps (Suc n) (k_procs k1)"
      using keeps_sem_wait [OF Suc.prems, of "pp_read_sem (k_pipes k fd)"] by (simp add: keeps_outcome_def)
    then show ?thesis using Suc.IH keeps_get_byte Returned by (simp add: split_beta)
  qed (use keeps_sem_wait [OF Suc.prems, of "pp_read_sem (k_pipes k fd)"] in \<open>simp add: keeps_outcome_def\<close>)
qed (simp add: keeps_outcome_def)

lemma keeps_write_loop: "keeps (Suc n) (k_procs k) \<Longrightarrow> keeps_outcome n (write_loop fd cs m k)"
proof (induction cs arbitrary: m k)
  case (Cons c cs)
  show ?case
  proof (cases "sem_wait (pp_write_sem (k_pipes k fd)) k")
    case (Returned k1 u)
    then have "keeps (Suc n) (k_procs k1)"
      using keeps_sem_wait [OF Cons.prems, of "pp_write_sem (k_pipes k fd)"] by (simp add: keeps_outcome_def)
    then show ?thesis using Cons.IH keeps_put_byte Returned by simp
  qed (use keeps_sem_wait [OF Cons.prems, of "pp_write_sem (k_pipes k fd)"] in \<open>simp add: keeps_outcome_def\<close>)
qed (simp add: keeps_outcome_def)

lemma keeps_write_loop_nonblocking:
  "keeps n (k_procs k) \<Longrightarrow> write_loop_nonblocking fd cs m k = Returned k' r \<Longrightarrow> keeps n (k_procs k')"
proof (induction cs arbitrary: m k)
  case (Cons c cs)
  obtain v k1 where g: "get_sem_value (pp_write_sem (k_pipes k fd)) k = (v, k1)" by fastforce
  have p: "k_procs k1 = k_procs k" "k_pipes k1 = k_pipes k"
    using g by (auto simp: get_sem_value_def Let_def)
  show ?case
  proof (cases "v = 0")
    case True
    then show ?thesis using Cons.prems g p by simp
  next
    case False
    let ?k = "put_byte fd c (take_unit (pp_write_sem (k_pipes k fd)) k1)"
    have "keeps n (k_procs ?k)" by (rule keeps_put_byte) (simp add: p Cons.prems(1))
    then show ?thesis using Cons.IH [of ?k "Suc m"] Cons.prems(2) g False sem_wait_with_unit(1) [OF g False] p
      by simp
  qed
qed simp

lemma keeps_read_pipe: "keeps (Suc n) (k_procs k) \<Longrightarrow> keeps_outcome n (read_pipe fd b c k)"
  using keeps_read_loop [of n "pipes_ready k"] by (simp add: read_pipe_def Let_def) (simp add: keeps_outcome_def)

lemma keeps_write_pipe:
  "keeps (Suc n) (k_procs k) \<Longrightarrow> write_pipe fd b c k = Some r \<Longrightarrow> keeps_outcome n r"
  using keeps_write_loop [of n "pipes_ready k"]
  by (auto simp: write_pipe_def Let_def keeps_outcome_def [of n "Returned a b" for a b] split: if_splits)

lemma keeps_read_resume: "keeps (Suc n) (k_procs k) \<Longrightarrow> keeps_outcome n (read_pipe_resume c k)"
proof -
  assume k: "keeps (Suc n) (k_procs k)"
  obtain s fd m got where c: "c = (s, fd, m, got)" by (cases c)
  note w = keeps_sem_wait_resume [OF k, of s]
  show ?thesis
  proof (cases "sem_wait_resume s k")
    case (Returned k1 u)
    then show ?thesis using w keeps_get_byte keeps_read_loop
      by (simp add: c read_pipe_resume_def split_beta) (simp add: keeps_outcome_def)
  qed (use w in \<open>simp add: c read_pipe_resume_def keeps_outcome_def\<close>)
qed

lemma keeps_write_resume: "keeps (Suc n) (k_procs k) \<Longrightarrow> keeps_outcome n (write_pipe_resume c k)"
proof -
  assume k: "keeps (Suc n) (k_procs k)"
  obtain s fd bs m where c: "c = (s, fd, bs, m)" by (cases c)
  note w = keeps_sem_wait_resume [OF k, of s]
  show ?thesis
  proof (cases "sem_wait_resume s k")
    case (Returned k1 u)
    then show ?thesis using w keeps_put_byte keeps_write_loop
      by (simp add: c write_pipe_resume_def) (simp add: keeps_outcome_def)
  qed (use w in \<open>simp add: c write_pipe_resume_def keeps_outcome_def\<close>)
qed

lemma keeps_create_pipe: "keeps n (k_procs k) \<Longrightarrow> keeps n (k_procs (snd (create_pipe k)))"
proof -
  have "k_procs (pipe_sems i k) = k_procs k" for i k by (simp add: pipe_sems_def Let_def split_beta)
  then show "keeps n (k_procs k) \<Longrightarrow> ?thesis"
    by (simp add: create_pipe_def Let_def keeps_destroy_sem clean_buffer_def)
qed

lemma keeps_close_pipe: "keeps n (k_procs k) \<Longrightarrow> keeps n (k_procs (snd (close_pipe fd k)))"
  by (simp add: close_pipe_def Let_def clean_buffer_def keeps_destroy_sem)

section \<open>Creation and waiting\<close>

text \<open>
  When a creation cannot fail after it has written its table entry: there is memory for the
  stack and room for a child, and the next pid is neither 0 nor the error value.
\<close>

definition create_safe :: "kernel \<Rightarrow> bool" where
  "create_safe k \<longleftrightarrow> next_pid (k_procs k) \<noteq> 0 \<and> next_pid (k_procs k) \<noteq> PID_ERROR \<and>
     (case memory_alloc (k_heap k) STACK_SIZE of None \<Rightarrow> True | Some (base, _) \<Rightarrow> base \<noteq> 0) \<and>
     length (p_children (process_table (k_procs k) (current_process (k_procs k)))) < MAX_CHILDREN \<and>
     p_state (process_table (k_procs k) (current_process (k_procs k))) \<noteq> TERMINATED"

lemma spawn_cases:
  assumes "spawn name fds fg k = Some (pid, k')" "create_safe k"
  shows "k' = k \<and> pid = PID_ERROR \<or> (\<exists>i base h. find_free_slot (k_procs k) = Some i \<and> pid = next_pid (k_procs k) \<and>
    k' = upd_procs (launch i (fst (take_foreground fg (k_procs k))))
      (k\<lparr>k_procs := entered name fds fg i base (k_procs k), k_heap := h\<rparr>))"
proof (cases "process_count (k_procs k) < of_nat MAX_PROCESSES \<and> find_free_slot (k_procs k) \<noteq> None")
  case False
  then show ?thesis using assms(1) by (auto simp: spawn_def not_less split: option.splits if_splits)
next
  case True
  then obtain i where i: "find_free_slot (k_procs k) = Some i" and pc: "process_count (k_procs k) < of_nat MAX_PROCESSES"
    by auto
  obtain base h where m: "memory_alloc (k_heap k) STACK_SIZE = Some (base, h)"
    using assms(1) i pc by (cases "memory_alloc (k_heap k) STACK_SIZE")
      (auto simp: spawn_def set_new_process_def split_beta Let_def split: if_splits)
  let ?ps = "entered name fds fg i base (k_procs k)"
  have ne: "current_process (k_procs k) \<noteq> i" using free_slot [OF i] assms(2) by (auto simp: create_safe_def)
  have "current_process ?ps = current_process (k_procs k)" by (simp add: entered_def split_beta)
  then have "length (p_children (process_table ?ps (current_process ?ps))) < MAX_CHILDREN" "base \<noteq> 0"
    using assms(2) m ne by (simp_all add: create_safe_def entered_def split_beta take_foreground_def)
  then show ?thesis
    using assms(1) i unfolding spawn_entered [OF pc i m] by (auto simp: Let_def)
qed

lemma keeps_create_process:
  assumes "keeps (Suc n) (k_procs k)" "create_safe k" "create_process name fds fg k = Some (pid, k')"
  shows "keeps n (k_procs k')"
proof -
  have ok: "sched_ok (k_procs k)" "procs_initialized (k_procs k)" using keeps_sched [OF assms(1)] by auto
  have sp: "spawn name fds fg k = Some (pid, k')" using assms(3) ok(2) by (simp add: create_process_def)
  show ?thesis
  proof (cases "k' = k")
    case True
    then show ?thesis using keeps_mono [OF assms(1)] by simp
  next
    case False
    then obtain i base h where i: "find_free_slot (k_procs k) = Some i" "pid = next_pid (k_procs k)"
      "k' = upd_procs (launch i (fst (take_foreground fg (k_procs k))))
        (k\<lparr>k_procs := entered name fds fg i base (k_procs k), k_heap := h\<rparr>)"
      using spawn_cases [OF sp assms(2)] by blast
    have ii: "i < MAX_PROCESSES" "p_state (process_table (k_procs k) i) = TERMINATED" using free_slot [OF i(1)] by auto
    have s: "sched_ok (k_procs k')"
      using sched_create_process [OF ok(1) keeps_room [OF assms(1)] ok(2) assms(3)] assms(2) i(2)
      by (simp add: create_safe_def)
    have t: "p_state (process_table (k_procs k') j) = (if j = i then READY else p_state (process_table (k_procs k) j))" for j
      by (simp add: i(3) launch_def Let_def entered_def split_beta take_foreground_def)
    have "coming (k_procs k') = coming (k_procs k)"
      unfolding coming_def t by (rule arg_cong [of _ _ card]) (use ii in auto)
    moreover have "room_for (n + coming (k_procs k)) (put_ready i 0 (k_procs k))"
      using assms(1) room_for_put_ready by (simp add: keeps_def)
    then have "room_for (n + coming (k_procs k)) (k_procs k')"
      by (simp add: i(3) room_for_def launch_def Let_def entered_def split_beta)
    moreover have "procs_initialized (k_procs k')"
      using ok(2) by (simp add: i(3) launch_def Let_def entered_def split_beta take_foreground_def)
    ultimately show ?thesis using s by (simp add: keeps_def)
  qed
qed

lemma keeps_flag:
  assumes "keeps n ps" "same_schedule f"
  shows "keeps n (upd_pcb i f ps)"
proof -
  have "coming (upd_pcb i f ps) = coming ps"
    by (rule coming_cong) (use assms(2) in \<open>simp add: same_schedule_def\<close>)
  then show ?thesis using assms sched_upd_flag [OF _ assms(2)] by (simp add: keeps_def)
qed

lemma keeps_wait_finish: "keeps (Suc n) (k_procs k) \<Longrightarrow> keeps_outcome n (wait_finish i k)"
  using keeps_flag [OF keeps_destroy_sem, where f = "\<lambda>p. p\<lparr>p_sem_wait_id := -1\<rparr>"]
  by (simp add: wait_finish_def Let_def keeps_outcome_def same_schedule_def)

lemma keeps_after_sem:
  assumes "keeps_outcome n r"
  shows "keeps_outcome n (after_sem i s r)"
proof (cases r)
  case (Returned k u)
  then show ?thesis using assms keeps_wait_finish [of n k i] by (simp add: after_sem_def keeps_outcome_def)
next
  case (Suspended k u)
  then show ?thesis using assms by (simp add: after_sem_def keeps_outcome_def)
qed

lemma keeps_outcome_cases:
  "keeps_outcome n (Returned k x) = keeps (Suc n) (k_procs k)"
  "keeps_outcome n (Suspended k y) = keeps n (k_procs k)"
  by (simp_all add: keeps_outcome_def)

lemma keeps_wait_process:
  assumes "keeps (Suc n) (k_procs k)"
  shows "keeps_outcome n (wait_process pid k)"
proof -
  have ret: "keeps_outcome n (Returned k x :: (kernel, nat \<times> u32, 8 word option) outcome)" for x using assms by (simp add: keeps_outcome_def)
  define kk where "kk i s = upd_procs (upd_pcb i (\<lambda>p. p\<lparr>p_sem_wait_id := s\<rparr>)) (snd (create_sem 0 k))" for i s
  have "keeps (Suc n) (k_procs (kk i s))" for i s
    using keeps_flag [OF assms, of "\<lambda>p. p\<lparr>p_sem_wait_id := s\<rparr>" i] by (simp add: kk_def same_schedule_def)
  then have "keeps_outcome n (sem_wait s' (kk i s))" "keeps_outcome n (Returned (kk i s) x :: (kernel, nat \<times> u32, 8 word option) outcome)" for i s s' x
    by (auto simp: keeps_outcome_cases intro!: keeps_sem_wait)
  then show ?thesis
    using ret by (simp add: wait_process_def Let_def split_beta keeps_after_sem kk_def [symmetric] split: option.split)
qed

lemma keeps_wait_resume: "keeps (Suc n) (k_procs k) \<Longrightarrow> keeps_outcome n (wait_process_resume c k)"
  by (simp add: wait_process_resume_def keeps_after_sem keeps_sem_wait_resume)

section \<open>System calls keep it\<close>

text \<open>
  What a call leaves: the invariant, and room for one more where it gives up the processor, as
  the scheduler then puts the process that ran back into its queue.
\<close>

definition sys_keeps :: "sys_result \<Rightarrow> bool" where
  "sys_keeps r = (case r of None \<Rightarrow> True
     | Some (Returned k _) \<Rightarrow> sched_ok (k_procs k) \<and> procs_initialized (k_procs k)
     | Some (Suspended k _) \<Rightarrow> keeps 1 (k_procs k))"

lemma sys_keeps_simps [simp]:
  "sys_keeps None" "sys_keeps (ret v k) = (sched_ok (k_procs k) \<and> procs_initialized (k_procs k))"
  "sys_keeps (ret_out v out k) = (sched_ok (k_procs k) \<and> procs_initialized (k_procs k))"
  "sys_keeps (yield_ret v k) = keeps 1 (k_procs k)" "sys_keeps (Some (Suspended k c)) = keeps 1 (k_procs k)"
  by (simp_all add: sys_keeps_def ret_def ret_out_def yield_ret_def)

lemma on_screen_procs [simp]: "k_procs (on_screen f k) = k_procs k"
  by (simp add: on_screen_def)

lemma keeps_2: "keeps 2 ps \<Longrightarrow> sched_ok ps \<and> procs_initialized ps \<and> all_room ps \<and> keeps 1 ps"
  using keeps_sched [of 2 ps] keeps_room [of 1 ps] keeps_mono [of 2 ps 1] by (simp add: numeral_2_eq_2)

lemma keeps_outcome_1:
  "keeps_outcome (Suc 0) (Returned k x) = keeps 2 (k_procs k)"
  "keeps_outcome (Suc 0) (Suspended k y) = keeps (Suc 0) (k_procs k)"
  by (simp_all add: keeps_outcome_cases numeral_2_eq_2)

lemma sys_write_keeps:
  assumes "keeps 2 (k_procs k)"
  shows "sys_keeps (sys_write mem fd b c k)"
proof -
  have "sys_keeps (case write_pipe f x y k of None \<Rightarrow> None | Some (Returned k' _) \<Rightarrow> ret 0 k'
      | Some (Suspended k' w) \<Rightarrow> Some (Suspended k' (C_write w)))" for f x y
  proof (cases "write_pipe f x y k")
    case (Some r)
    then have "keeps_outcome 1 r" using keeps_write_pipe [of 1 k] assms by (simp add: numeral_2_eq_2)
    then show ?thesis using Some keeps_2 by (cases r) (simp_all add: keeps_outcome_1)
  qed simp
  then show ?thesis using keeps_2 [OF assms] by (simp add: sys_write_def Let_def)
qed

lemma read_step_keeps:
  assumes "keeps_outcome 1 r" "\<And>k' g. keeps 2 (k_procs k') \<Longrightarrow> sys_keeps (read_bytes fd n g k')"
  shows "sys_keeps (case r of
        Suspended k' rc \<Rightarrow> Some (Suspended k' (C_read rc fd n got))
      | Returned k' (x, bs) \<Rightarrow>
          (case read_stop got x (hd bs) of
             Some (v, buf) \<Rightarrow> ret_out v (Out_bytes buf) k'
           | None \<Rightarrow> read_bytes fd n (got @ [hd bs]) k'))"
  using assms keeps_2
  by (cases r) (simp_all add: keeps_outcome_1 split_beta split: option.split)

lemma read_bytes_keeps: "keeps 2 (k_procs k) \<Longrightarrow> sys_keeps (read_bytes fd n got k)"
proof (induction n arbitrary: got k)
  case (Suc n)
  have "keeps_outcome 1 (read_pipe (ucast fd) True 1 k)" using keeps_read_pipe [of 1 k] Suc.prems by (simp add: numeral_2_eq_2)
  from read_step_keeps [OF this Suc.IH] show ?case by simp
qed (simp add: keeps_2)

lemma created_keeps: "keeps_outcome 1 r \<Longrightarrow> sys_keeps (created_status r)"
  using keeps_2 by (cases r) (simp_all add: created_status_def keeps_outcome_1)

lemma waited_keeps: "keeps_outcome 1 r \<Longrightarrow> sys_keeps (waited_status st r)"
  using keeps_2 by (cases r) (simp_all add: waited_status_def keeps_outcome_1)

lemma sem_done_keeps: "keeps_outcome 1 r \<Longrightarrow> sys_keeps (sem_done s r)"
  using keeps_2 by (cases r) (simp_all add: sem_done_def keeps_outcome_1)

lemma sys_read_keeps: "keeps 2 (k_procs k) \<Longrightarrow> sys_keeps (sys_read fd b c k)"
  using keeps_2 by (simp add: sys_read_def Let_def read_bytes_keeps)

lemma sys_read_resume_keeps: "keeps 2 (k_procs k) \<Longrightarrow> sys_keeps (sys_read_resume rc fd n got k)"
  unfolding sys_read_resume_def
  by (rule read_step_keeps) (use keeps_read_resume [of 1 k] read_bytes_keeps in \<open>simp_all add: numeral_2_eq_2\<close>)

lemma sys_pipes_keep:
  assumes "keeps 2 (k_procs k)"
  shows "sys_keeps (sys_open k)" "sys_keeps (sys_close fd k)"
  using keeps_2 [OF keeps_create_pipe [OF assms]] keeps_2 [OF keeps_close_pipe [OF assms]] keeps_2 [OF assms]
  by (simp_all add: sys_open_def sys_close_def split_beta)

lemma sys_screen_heap_keep:
  assumes "keeps 2 (k_procs k)"
  shows "sys_keeps (sys_set_cursor x y k)" "sys_keeps (sys_set_color x k)" "sys_keeps (sys_mmap x k)"
    "sys_keeps (sys_munmap x k)" "sys_keeps (sys_mem_info old x k)"
  using keeps_2 [OF assms]
  by (simp_all add: sys_set_cursor_def sys_set_color_def sys_mmap_def sys_munmap_def sys_mem_info_def
      split_beta split: option.split)

lemma sys_create_keeps:
  assumes "keeps 3 (k_procs k)" "create_safe k"
  shows "sys_keeps (sys_create_process mem name fds fg k)"
proof -
  have c: "keeps 2 (k_procs k')" if "create_process a b c k = Some (pid, k')" for a b c pid k'
    using keeps_create_process [of 2 k] that assms by (simp add: eval_nat_numeral)
  define r where "r = create_process (if name = 0 then None else Some (user_string mem name (MAX_PROCESS_NAME_LENGTH - 1)))
        (if fds = 0 then None else Some (user_u16 mem fds, user_u16 mem (fds + 2))) (ucast fg) k"
  show ?thesis
  proof (cases r)
    case None
    then show ?thesis by (simp add: sys_create_process_def r_def [symmetric])
  next
    case (Some x)
    then obtain pid k' where x: "r = Some (pid, k')" by (cases x) auto
    then have k': "keeps 2 (k_procs k')" using c unfolding r_def by blast
    then have "sys_keeps (created_status (wait_process pid k'))"
      by (intro created_keeps keeps_wait_process) (simp add: numeral_2_eq_2)
    then show ?thesis
      using keeps_2 [OF k'] x by (simp add: sys_create_process_def r_def [symmetric])
  qed
qed

lemma sys_exit_keeps:
  assumes "keeps 2 (k_procs k)"
  shows "sys_keeps (sys_exit st k)"
proof -
  let ?k = "upd_procs (\<lambda>ps. set_exit_status ps (ucast st)) k"
  have "keeps 1 (k_procs ?k)" using keeps_set_exit_status keeps_2 [OF assms] by simp
  then have "keeps 1 (k_procs (snd (kill_process pid ?k)))" for pid by (rule keeps_kill_process)
  then show ?thesis by (simp add: sys_exit_def Let_def)
qed

lemma sys_wait_keeps: "keeps 2 (k_procs k) \<Longrightarrow> sys_keeps (sys_wait pid st k)"
  using keeps_2 by (simp add: sys_wait_def waited_keeps keeps_wait_process numeral_2_eq_2)

lemma sys_process_keep:
  assumes "keeps 2 (k_procs k)"
  shows "sys_keeps (sys_getpid k)" "sys_keeps (sys_kill pid k)" "sys_keeps (sys_getpriority pid k)"
    "sys_keeps (sys_sched_yield k)" "sys_keeps (sys_sleep secs k)" "sys_keeps (sys_ps a b k)"
proof -
  have k: "sched_ok (k_procs k)" "procs_initialized (k_procs k)" "keeps 1 (k_procs k)"
    using keeps_2 [OF assms] by auto
  have "keeps 1 (k_procs (snd (sleep s k)))" for s
    using keeps_sleep [of 1 k s] assms by (simp add: numeral_2_eq_2)
  then show "sys_keeps (sys_sleep secs k)"
    using keeps_sched [of 1] by (simp add: sys_sleep_def split_beta)
  show "sys_keeps (sys_kill pid k)" using keeps_kill_process [OF k(3)] by (simp add: sys_kill_def)
  show "sys_keeps (sys_getpid k)" "sys_keeps (sys_getpriority pid k)" "sys_keeps (sys_sched_yield k)" "sys_keeps (sys_ps a b k)"
    using k by (simp_all add: sys_getpid_def sys_getpriority_def sys_sched_yield_def sys_ps_def split_beta)
qed

lemma procs_initialized_simps [simp]:
  "procs_initialized (snd (block_process ps pid)) = procs_initialized ps"
  "procs_initialized (snd (change_priority ps p r)) = procs_initialized ps"
  by (simp_all add: block_process_def change_priority_def Let_def split: option.split)

lemma sys_block_keep:
  assumes "keeps 2 (k_procs k)"
  shows "sys_keeps (sys_block_process pid k)" "sys_keeps (sys_unblock_process pid k)"
    "sys_keeps (sys_toggle_block pid k)" "sys_keeps (sys_setpriority pid r k)"
proof -
  have k: "sched_ok (k_procs k)" "procs_initialized (k_procs k)" "keeps 1 (k_procs k)" "all_room (k_procs k)"
    using keeps_2 [OF assms] by auto
  have w: "sched_ok (k_procs (snd (wake_up_process q k))) \<and> procs_initialized (k_procs (snd (wake_up_process q k)))" for q
    by (rule keeps_sched [OF keeps_wake_up [OF k(3)]])
  have b: "sched_ok (snd (block_process (k_procs k) q))" for q by (rule sched_block_process [OF k(1)])
  show "sys_keeps (sys_block_process pid k)" "sys_keeps (sys_unblock_process pid k)"
    using k b w by (simp_all add: sys_block_process_def sys_unblock_process_def)
  show "sys_keeps (sys_toggle_block pid k)"
    using k b w by (simp add: sys_toggle_block_def toggle_block_process_def split: option.split)
  show "sys_keeps (sys_setpriority pid r k)"
    using k sched_change_priority [OF k(1,4)] by (simp add: sys_setpriority_def split_beta)
qed

lemma sys_sem_keep:
  assumes "keeps 2 (k_procs k)"
  shows "sys_keeps (sys_sem_open v k)" "sys_keeps (sys_sem_close s k)" "sys_keeps (sys_sem_wait s k)"
    "sys_keeps (sys_sem_post s k)" "sys_keeps (sys_sem_getvalue s k)"
proof -
  show "sys_keeps (sys_sem_wait s k)" using assms by (simp add: sys_sem_wait_def sem_done_keeps keeps_sem_wait numeral_2_eq_2)
  show "sys_keeps (sys_sem_close s k)" "sys_keeps (sys_sem_post s k)"
    using keeps_2 [OF keeps_destroy_sem [OF assms]] keeps_2 [OF keeps_sem_post [OF assms]]
    by (simp_all add: sys_sem_close_def sys_sem_post_def)
  show "sys_keeps (sys_sem_open v k)" "sys_keeps (sys_sem_getvalue s k)"
    using keeps_2 [OF assms] by (simp_all add: sys_sem_open_def sys_sem_getvalue_def split_beta)
qed

lemmas sys_calls_keep = sys_write_keeps sys_read_keeps sys_pipes_keep sys_screen_heap_keep
  sys_exit_keeps sys_wait_keeps sys_process_keep sys_block_keep sys_sem_keep

lemma syscall_keeps:
  assumes "keeps 3 (k_procs k)" "rax = 8 \<longrightarrow> create_safe k"
  shows "sys_keeps (syscall_dispatcher mem old rax rdi rsi rdx r10 r8 r9 k)"
proof -
  have k: "keeps 2 (k_procs k)" using keeps_mono [OF assms(1)] by simp
  note s = sys_calls_keep [OF k] keeps_2 [OF k]
  have "rax = 8 \<longrightarrow> sys_keeps (sys_create_process mem rdi r8 r9 k)"
    using sys_create_keeps [OF assms(1)] assms(2) by blast
  then show ?thesis
    unfolding syscall_dispatcher_def using s by (simp only: if_split_asm sys_keeps_simps split: if_split) blast
qed

lemma resume_keeps:
  assumes "keeps 2 (k_procs k)"
  shows "sys_keeps (sys_resume c k)"
proof (cases c)
  case (C_write w)
  have "keeps_outcome 1 (write_pipe_resume w k)"
    by (rule keeps_write_resume) (use assms in \<open>simp add: numeral_2_eq_2\<close>)
  then show ?thesis
    using C_write keeps_2 by (cases "write_pipe_resume w k") (simp_all add: sys_resume_def keeps_outcome_1)
next
  case (C_create wc)
  have "keeps_outcome 1 (wait_process_resume wc k)"
    by (rule keeps_wait_resume) (use assms in \<open>simp add: numeral_2_eq_2\<close>)
  from created_keeps [OF this] C_create show ?thesis by (simp add: sys_resume_def)
next
  case (C_wait wc st)
  have "keeps_outcome 1 (wait_process_resume wc k)"
    by (rule keeps_wait_resume) (use assms in \<open>simp add: numeral_2_eq_2\<close>)
  from waited_keeps [OF this] C_wait show ?thesis by (simp add: sys_resume_def)
next
  case (C_sem s)
  have "keeps_outcome 1 (sem_wait_resume s k)"
    by (rule keeps_sem_wait_resume) (use assms in \<open>simp add: numeral_2_eq_2\<close>)
  from sem_done_keeps [OF this] C_sem show ?thesis by (simp add: sys_resume_def)
qed (use assms sys_read_resume_keeps keeps_2 in \<open>simp_all add: sys_resume_def\<close>)

section \<open>The scheduler and the interrupts\<close>

lemma run_process_initialized [simp]: "procs_initialized (run_process i ps) = procs_initialized ps"
  by (simp add: run_process_def)

lemma search_queue_initialized [simp]: "procs_initialized (snd (search_queue p ps)) = procs_initialized ps"
  by (simp add: search_queue_def Let_def split_beta)

lemma search_from_initialized [simp]: "procs_initialized (snd (search_from p ps)) = procs_initialized ps"
  by (simp add: search_from_def Let_def)

lemma free_terminated_initialized [simp]:
  "procs_initialized (k_procs (free_terminated_processes k)) = procs_initialized (k_procs k)"
proof (induction k rule: free_terminated_processes.induct)
  case (1 k)
  obtain r q where d: "dequeue_process (terminated_processes_queue (k_procs k)) = (r, q)" by fastforce
  then show ?case
    using 1 [OF d [symmetric]] by (cases r) (simp_all add: free_terminated_processes.simps [of k])
qed

lemma scheduler_initialized:
  assumes "scheduler st k = Some (sp, k')" "procs_initialized (k_procs k)"
  shows "procs_initialized (k_procs k')"
proof -
  have n: "procs_initialized (set_next_process s ps) = procs_initialized ps" for s ps
    by (simp add: set_next_process_def Let_def)
  have c: "choose_next p ps = Some ps' \<Longrightarrow> p < PRIORITY_LEVELS \<Longrightarrow> procs_initialized ps' = procs_initialized ps" for p ps ps'
    by (auto simp: choose_next_def next_loop_spec split_beta)
  have g: "get_next_process j = Some (sp, j') \<Longrightarrow> procs_initialized (k_procs j') = procs_initialized (k_procs j)" for j j' sp
    using c get_random_priority_less [of j]
    by (auto simp: get_next_process_def get_random_priority_def split_beta split: option.splits)
  show ?thesis
    using assms by (auto simp: scheduler_def Let_def stop_system_def n dest!: g split: if_splits)
qed

lemma scheduler_keeps:
  assumes "scheduler st k = Some (sp, k')" "keeps 1 (k_procs k)" "st \<noteq> 0"
  shows "sched_ok (k_procs k') \<and> procs_initialized (k_procs k')"
proof -
  have k: "sched_ok (k_procs k)" "procs_initialized (k_procs k)" "all_room (k_procs k)"
    using keeps_sched [OF assms(2)] keeps_room [of 0] assms(2) by auto
  show ?thesis
    using scheduler_facts [OF k(2) assms(3) k(1,3) refl] assms(1) scheduler_initialized [OF assms(1) k(2)] by auto
qed

lemma kd_handler_keeps:
  assumes "kd_handler s k = Returned k' u" "keeps n (k_procs k)"
  shows "keeps n (k_procs k')"
proof -
  have c: "keeps n (k_procs (snd (key_char key k)))" for key
    using keeps_kill_process [OF assms(2)] assms(2) by (simp add: key_char_def kill_foreground_process_def Let_def)
  have w: "write_pipe_nonblocking 0 (Some [b]) 1 j = Some (Returned j' r) \<Longrightarrow> keeps n (k_procs j) \<Longrightarrow> keeps n (k_procs j')"
    for b j j' r
    using keeps_write_loop_nonblocking [of n "pipes_ready j"]
    by (auto simp: write_pipe_nonblocking_def Let_def simp del: write_loop_nonblocking.simps split: if_splits)
  show ?thesis
    using assms c [of "key_of s"] w
    by (auto simp: kd_handler_def Let_def split_beta split: if_splits option.splits outcome.splits)
qed

section \<open>The machine\<close>

text \<open>
  The kernel with what is left of each process's system call. A clock interrupt, a key or a
  new call happens while the process that runs is in no call, as calls run with interrupts
  disabled; the handlers are those of asm/interrupts.asm. \<open>st\<close> is the stack pointer the
  interrupted process had. A call that suspends runs the scheduler (interrupt 22); a slot that
  a creation takes has no call left.
\<close>

record machine =
  m_kernel :: kernel
  m_calls :: "nat \<Rightarrow> sys_cont option"

abbreviation cur :: "machine \<Rightarrow> nat" where
  "cur m \<equiv> current_process (k_procs (m_kernel m))"

definition started :: "kernel \<Rightarrow> kernel \<Rightarrow> (nat \<Rightarrow> sys_cont option) \<Rightarrow> nat \<Rightarrow> sys_cont option" where
  "started k k' calls = (\<lambda>i. if p_state (process_table (k_procs k) i) = TERMINATED \<and>
     p_state (process_table (k_procs k') i) \<noteq> TERMINATED then None else calls i)"

definition room_to_run :: "kernel \<Rightarrow> bool" where
  "room_to_run k \<longleftrightarrow> room_for (3 + coming (k_procs k)) (k_procs k)"

inductive kernel_step :: "machine \<Rightarrow> machine \<Rightarrow> bool" where
  tick: "m_calls m (cur m) = None \<Longrightarrow> st \<noteq> 0 \<Longrightarrow>
    scheduler st (timer_handler (m_kernel m)) = Some (sp, k') \<Longrightarrow>
    kernel_step m (m\<lparr>m_kernel := k'\<rparr>)"
| key: "m_calls m (cur m) = None \<Longrightarrow> kd_handler scancode (m_kernel m) = Returned k' () \<Longrightarrow>
    kernel_step m (m\<lparr>m_kernel := k'\<rparr>)"
| call: "m_calls m (cur m) = None \<Longrightarrow> rax = 8 \<longrightarrow> create_safe (m_kernel m) \<Longrightarrow>
    syscall_dispatcher mem old rax rdi rsi rdx r10 r8 r9 (m_kernel m) = Some (Returned k' r) \<Longrightarrow>
    kernel_step m (m\<lparr>m_kernel := k', m_calls := started (m_kernel m) k' (m_calls m)\<rparr>)"
| call_suspends: "m_calls m (cur m) = None \<Longrightarrow> rax = 8 \<longrightarrow> create_safe (m_kernel m) \<Longrightarrow>
    syscall_dispatcher mem old rax rdi rsi rdx r10 r8 r9 (m_kernel m) = Some (Suspended k1 c) \<Longrightarrow>
    st \<noteq> 0 \<Longrightarrow> scheduler st k1 = Some (sp, k') \<Longrightarrow>
    kernel_step m (m\<lparr>m_kernel := k',
      m_calls := (started (m_kernel m) k1 (m_calls m))(cur m := Some c)\<rparr>)"
| resume: "m_calls m (cur m) = Some c \<Longrightarrow> sys_resume c (m_kernel m) = Some (Returned k' r) \<Longrightarrow>
    kernel_step m (m\<lparr>m_kernel := k', m_calls := (m_calls m)(cur m := None)\<rparr>)"
| resume_suspends: "m_calls m (cur m) = Some c \<Longrightarrow> sys_resume c (m_kernel m) = Some (Suspended k1 c') \<Longrightarrow>
    st \<noteq> 0 \<Longrightarrow> scheduler st k1 = Some (sp, k') \<Longrightarrow>
    kernel_step m (m\<lparr>m_kernel := k', m_calls := (m_calls m)(cur m := Some c')\<rparr>)"

text \<open>Runs along which the ready queues have room.\<close>

inductive kernel_run :: "machine \<Rightarrow> machine \<Rightarrow> bool" for m where
  here: "kernel_run m m"
| further: "kernel_run m m1 \<Longrightarrow> room_to_run (m_kernel m1) \<Longrightarrow> kernel_step m1 m2 \<Longrightarrow> kernel_run m m2"

lemma kernel_step_ok:
  assumes "kernel_step m m'" "room_to_run (m_kernel m)"
    and "sched_ok (k_procs (m_kernel m)) \<and> procs_initialized (k_procs (m_kernel m))"
  shows "sched_ok (k_procs (m_kernel m')) \<and> procs_initialized (k_procs (m_kernel m'))"
proof -
  have k: "keeps 3 (k_procs (m_kernel m))" using assms(2,3) by (simp add: keeps_def room_to_run_def)
  then have k2: "keeps 2 (k_procs (m_kernel m))" "keeps 1 (k_procs (m_kernel m))"
    by (auto intro: keeps_mono)
  show ?thesis
    using assms(1)
  proof cases
    case (tick st sp k')
    show ?thesis using scheduler_keeps [OF tick(4) keeps_timer_handler [OF k2(2)] tick(3)] tick(1) by simp
  next
    case (key s k')
    show ?thesis using keeps_sched [OF kd_handler_keeps [OF key(3) k]] key(1) by simp
  next
    case (call rax mem old rdi rsi rdx r10 r8 r9 k' r)
    show ?thesis
      using syscall_keeps [OF k call(3), of mem old rdi rsi rdx r10 r8 r9] call(1,4) by (simp add: sys_keeps_def)
  next
    case (call_suspends rax mem old rdi rsi rdx r10 r8 r9 k1 c st sp k')
    have "keeps 1 (k_procs k1)"
      using syscall_keeps [OF k call_suspends(3), of mem old rdi rsi rdx r10 r8 r9] call_suspends(4)
      by (simp add: sys_keeps_def)
    from scheduler_keeps [OF call_suspends(6) this call_suspends(5)] call_suspends(1) show ?thesis by simp
  next
    case (resume c k' r)
    show ?thesis using resume_keeps [OF k2(1), of c] resume(1,3) by (simp add: sys_keeps_def)
  next
    case (resume_suspends c k1 c' st sp k')
    have "keeps 1 (k_procs k1)"
      using resume_keeps [OF k2(1), of c] resume_suspends(3) by (simp add: sys_keeps_def)
    from scheduler_keeps [OF resume_suspends(5) this resume_suspends(4)] resume_suspends(1) show ?thesis by simp
  qed
qed

lemma kernel_run_ok:
  assumes "kernel_run m m'"
    and "sched_ok (k_procs (m_kernel m)) \<and> procs_initialized (k_procs (m_kernel m))"
  shows "sched_ok (k_procs (m_kernel m')) \<and> procs_initialized (k_procs (m_kernel m'))"
  using assms
proof (induction rule: kernel_run.induct)
  case (further m1 m2)
  show ?case by (rule kernel_step_ok [OF further(3,2) further(4) [OF further(5)]])
qed simp

end
