(* ===== verification/Modules.thy ===== *)
theory Modules
  imports Kernel_Lib Video
begin

text \<open>
  How the user programs get into memory. Toolchain/ModulePacker/main.c appends them to the
  kernel's file, Kernel/interrupts/module-loader.c copies them to their addresses. The host's
  files are a map from names to contents, of which \<open>None\<close> cannot be opened.
\<close>

section \<open>The packer\<close>

type_synonym files = "string \<Rightarrow> u8 list option"

text \<open>A 32 bit number as \<open>fwrite\<close> writes it on the little endian host.\<close>

definition le32 :: "u32 \<Rightarrow> u8 list" where
  "le32 w = [ucast w, ucast (drop_bit 8 w), ucast (drop_bit 16 w), ucast (drop_bit 24 w)]"

abbreviation BUFFER_SIZE :: nat where "BUFFER_SIZE \<equiv> 128"
abbreviation MAX_FILES :: nat where "MAX_FILES \<equiv> 128"

text \<open>
  The copying loop, with the end-of-file flag of the source: \<open>fread\<close> sets it when it finds
  fewer bytes than it was asked for.
\<close>

function write_file :: "u8 list \<Rightarrow> u8 list \<Rightarrow> bool \<Rightarrow> u8 list" where
  "write_file target source eof =
     (if eof then target
      else write_file (target @ take BUFFER_SIZE source) (drop BUFFER_SIZE source)
             (length source < BUFFER_SIZE))"
  by pat_completeness auto
termination
  by (relation "measure (\<lambda>(t, s, eof). if eof then 0 else Suc (length s))") auto

declare write_file.simps [simp del]

definition write_size :: "u8 list \<Rightarrow> u8 list \<Rightarrow> u8 list" where
  "write_size target file = target @ le32 (of_nat (length file))"

definition checkFiles :: "files \<Rightarrow> string list \<Rightarrow> bool" where
  "checkFiles fs names = list_all (\<lambda>n. fs n \<noteq> None) names"

definition add_module :: "files \<Rightarrow> string \<Rightarrow> u8 list \<Rightarrow> u8 list" where
  "add_module fs name target = write_file (write_size target (the (fs name))) (the (fs name)) False"

text \<open>
  What \<open>buildImage\<close> writes; the caller has checked that the files can be read. \<open>can_create\<close> is
  whether the target can be opened.
\<close>

definition buildImage :: "files \<Rightarrow> bool \<Rightarrow> string list \<Rightarrow> u8 list option" where
  "buildImage fs can_create names =
     (if \<not> can_create then None
      else let t = write_file [] (the (fs (hd names))) False;
               t1 = t @ le32 (of_nat (length names - 1))
           in Some (fold (add_module fs) (tl names) t1))"

text \<open>The command line, as \<open>argp_parse\<close> hands it to \<open>parse_opt\<close> key by key.\<close>

datatype opt_key = Key_o string | Key_arg nat string | Key_end nat | Key_other

datatype opt_result = Parsed | Err_unknown | Usage

record arguments =
  arg_files :: "nat \<Rightarrow> string"
  arg_output_file :: string
  arg_count :: nat

text \<open>\<open>None\<close> is a write behind the array of file names.\<close>

definition parse_opt :: "opt_key \<Rightarrow> arguments \<Rightarrow> (opt_result \<times> arguments) option" where
  "parse_opt key a =
     (case key of
        Key_o f \<Rightarrow> Some (Parsed, a\<lparr>arg_output_file := f\<rparr>)
      | Key_arg n f \<Rightarrow>
          if n < MAX_FILES then Some (Parsed, a\<lparr>arg_files := (arg_files a)(n := f)\<rparr>) else None
      | Key_end n \<Rightarrow> if n < 1 then Some (Usage, a) else Some (Parsed, a\<lparr>arg_count := n\<rparr>)
      | Key_other \<Rightarrow> Some (Err_unknown, a))"

definition main_arguments :: arguments where
  "main_arguments = \<lparr>arg_files = \<lambda>_. [], arg_output_file = ''packedKernel.bin'', arg_count = 0\<rparr>"

text \<open>
  \<open>main\<close>, after \<open>argp_parse\<close> has filled \<open>arguments\<close>: the exit status, and the file written.
\<close>

definition pack_main :: "files \<Rightarrow> bool \<Rightarrow> arguments \<Rightarrow> nat \<times> (string \<times> u8 list) option" where
  "pack_main fs can_create a =
     (let names = map (arg_files a) [0..<arg_count a]
      in if \<not> checkFiles fs names then (1, None)
         else case buildImage fs can_create names of
                None \<Rightarrow> (1, None)
              | Some bytes \<Rightarrow> (0, Some (arg_output_file a, bytes)))"

section \<open>The loader\<close>

definition text_of :: "string \<Rightarrow> u8 list" where
  "text_of s = map of_char s"

text \<open>The value and the pointer behind it.\<close>

definition read_uint_32 :: "memory \<Rightarrow> u64 \<Rightarrow> u32 \<times> u64" where
  "read_uint_32 m a = (load32 m a, a + 4)"

text \<open>
  The messages of \<open>load_module\<close> around the copy. The second address printed is the target's;
  \<open>None\<close> if a number does not print.
\<close>

definition announce_module :: "u64 \<Rightarrow> u64 \<Rightarrow> u32 \<Rightarrow> screen \<Rightarrow> screen option" where
  "announce_module source target module_size v =
     (case vd_print_hex source (vd_print (text_of ''  Will copy module at 0x'') v) of
        None \<Rightarrow> None
      | Some v1 \<Rightarrow>
          (case vd_print_hex target (vd_print (text_of '' to 0x'') v1) of
             None \<Rightarrow> None
           | Some v2 \<Rightarrow>
               (case vd_print_dec (ucast module_size) (vd_print (text_of '' ('') v2) of
                  None \<Rightarrow> None
                | Some v3 \<Rightarrow> Some (vd_print (text_of '' bytes)'') v3))))"

definition load_module :: "u64 \<Rightarrow> u64 \<times> memory \<times> screen \<Rightarrow> (u64 \<times> memory \<times> screen) option" where
  "load_module target_module_address s =
     (case s of (current, m, v) \<Rightarrow>
        let (module_size, source) = read_uint_32 m current
        in case announce_module source target_module_address module_size v of
             None \<Rightarrow> None
           | Some v1 \<Rightarrow> Some (source + ucast module_size,
               memcpy target_module_address source (ucast module_size) m,
               vd_draw_char NEWLINE_CHAR (vd_print (text_of '' [Done]'') v1)))"

text \<open>\<open>None\<close> also if there are more modules than addresses.\<close>

fun load_loop :: "nat \<Rightarrow> u64 list \<Rightarrow> u64 \<times> memory \<times> screen \<Rightarrow> (u64 \<times> memory \<times> screen) option" where
  "load_loop 0 targets s = Some s"
| "load_loop (Suc n) [] s = None"
| "load_loop (Suc n) (t # targets) s =
     (case load_module t s of None \<Rightarrow> None | Some s' \<Rightarrow> load_loop n targets s')"

definition load_modules :: "u64 \<Rightarrow> u64 list \<Rightarrow> memory \<Rightarrow> screen \<Rightarrow> (memory \<times> screen) option" where
  "load_modules payload_start target_module_address m v =
     (let (module_count, current) = read_uint_32 m payload_start
      in map_option snd (load_loop (unat module_count) target_module_address (current, m, v)))"

section \<open>Loading what was packed\<close>

lemma write_file_eq: "write_file t s False = t @ s"
proof (induction "length s" arbitrary: t s rule: less_induct)
  case less
  have e: "write_file t s True = t" for t s by (subst write_file.simps) simp
  show ?case
  proof (cases "length s < BUFFER_SIZE")
    case True
    then show ?thesis by (subst write_file.simps) (simp add: e)
  next
    case False
    then have "write_file (t @ take BUFFER_SIZE s) (drop BUFFER_SIZE s) False = (t @ take BUFFER_SIZE s) @ drop BUFFER_SIZE s"
      by (intro less) simp
    with False show ?thesis by (subst write_file.simps) simp
  qed
qed

definition packed :: "u8 list list \<Rightarrow> u8 list" where
  "packed fs = concat (map (\<lambda>f. le32 (of_nat (length f)) @ f) fs)"

lemma packed_simps [simp]: "packed [] = []" "packed (f # fs) = le32 (of_nat (length f)) @ f @ packed fs"
  by (simp_all add: packed_def)

lemma buildImage_eq:
  "buildImage fs True (kfile # names) =
     Some (the (fs kfile) @ le32 (of_nat (length names)) @ packed (map (\<lambda>n. the (fs n)) names))"
proof -
  have "fold (add_module fs) names t = t @ packed (map (\<lambda>n. the (fs n)) names)" for t
    by (induction names arbitrary: t) (simp_all add: add_module_def write_size_def write_file_eq)
  then show ?thesis by (simp add: buildImage_def write_file_eq)
qed

text \<open>Bytes at an address, and regions that have no byte in common.\<close>

definition holds :: "memory \<Rightarrow> u64 \<Rightarrow> u8 list \<Rightarrow> bool" where
  "holds m a bs \<longleftrightarrow> (\<forall>i<length bs. m (a + of_nat i) = bs ! i)"

definition apart :: "u64 \<Rightarrow> nat \<Rightarrow> u64 \<Rightarrow> nat \<Rightarrow> bool" where
  "apart a n b k \<longleftrightarrow> (\<forall>i<n. \<forall>j<k. a + of_nat i \<noteq> b + of_nat j)"

lemma holds_append: "holds m a (xs @ ys) \<longleftrightarrow> holds m a xs \<and> holds m (a + of_nat (length xs)) ys"
proof -
  have "(\<forall>i<length xs + length ys. P i) \<longleftrightarrow> (\<forall>i<length xs. P i) \<and> (\<forall>i<length ys. P (length xs + i))" for P
  proof (intro iffI allI impI conjI)
    fix i assume h: "(\<forall>i<length xs. P i) \<and> (\<forall>i<length ys. P (length xs + i))" "i < length xs + length ys"
    show "P i"
    proof (cases "i < length xs")
      case False
      then have "i - length xs < length ys" "length xs + (i - length xs) = i" using h(2) by auto
      then show ?thesis using h(1) by metis
    qed (use h(1) in simp)
  qed simp_all
  then show ?thesis by (simp add: holds_def nth_append add.assoc)
qed

lemma load32_le32:
  assumes "holds m a (le32 w)"
  shows "load32 m a = w"
proof -
  have "m a = ucast w" "m (a + 1) = ucast (drop_bit 8 w)" "m (a + 2) = ucast (drop_bit 16 w)"
    "m (a + 3) = ucast (drop_bit 24 w)"
    using assms [unfolded holds_def le32_def, rule_format, of 0] assms [unfolded holds_def le32_def, rule_format, of 1]
      assms [unfolded holds_def le32_def, rule_format, of 2] assms [unfolded holds_def le32_def, rule_format, of 3]
    by simp_all
  then have b: "load32 m a = ucast (ucast w :: u8) OR push_bit 8 (ucast (ucast (drop_bit 8 w) :: u8))
      OR push_bit 16 (ucast (ucast (drop_bit 16 w) :: u8)) OR push_bit 24 (ucast (ucast (drop_bit 24 w) :: u8))"
    by (simp add: load32_def)
  show ?thesis
  proof (rule bit_word_eqI)
    fix n assume "n < LENGTH(32)"
    then consider "n < 8" | "8 \<le> n" "n < 16" | "16 \<le> n" "n < 24" | "24 \<le> n" "n < 32" by fastforce
    then show "bit (load32 m a) n = bit w n" unfolding b by cases (simp_all add: bit_simps less_diff_conv2)
  qed
qed

lemma apart_in: "apart d n b k \<Longrightarrow> i < k \<Longrightarrow> \<not> unat (b + of_nat i - d) < n"
  unfolding apart_def using offset_word by metis

lemma separate_apart: "apart d n s n \<Longrightarrow> separate d s n"
  unfolding separate_def apart_def using offset_word by metis

lemma holds_copied_other: "holds m b bs \<Longrightarrow> apart d n b (length bs) \<Longrightarrow> holds (copied d s n m) b bs"
  using apart_in by (simp add: holds_def copied_def)

lemma holds_copied:
  assumes "holds m s bs" "length bs \<le> 2 ^ 64"
  shows "holds (copied d s (length bs) m) d bs"
proof -
  have "unat (d + of_nat i - d :: u64) = i" if "i < length bs" for i
    by (rule unat_offset) (use that assms(2) in simp)
  then show ?thesis using assms(1) by (simp add: holds_def copied_def)
qed

lemma apart_sub: "apart a n b k \<Longrightarrow> j + k' \<le> k \<Longrightarrow> apart a n (b + of_nat j) k'"
  unfolding apart_def
proof (intro allI impI)
  fix i j'
  assume h: "\<forall>i<n. \<forall>j<k. a + of_nat i \<noteq> b + of_nat j" "j + k' \<le> k" "i < n" "j' < k'"
  have "j + j' < k" using h(2,4) by simp
  then have "a + of_nat i \<noteq> b + of_nat (j + j')" using h(1,3) by blast
  then show "a + of_nat i \<noteq> b + of_nat j + of_nat j'" by (simp add: add.assoc)
qed

lemma announce_returns: "\<exists>v'. announce_module s t n v = Some v'"
proof -
  have p: "\<exists>v'. vd_print_base w base v = Some v'" if "2 \<le> unat base" "unat base \<le> 36" for w base v
    using digits_loop_spec [OF that, of w "[]"] by (auto simp: vd_print_base_def uint_to_base_def)
  have "\<exists>v'. vd_print_hex w v = Some v'" "\<exists>v'. vd_print_dec w v = Some v'" for w v
    by (simp_all add: vd_print_hex_def vd_print_dec_def p)
  then show ?thesis unfolding announce_module_def by (metis option.simps(5))
qed

lemma load_module_packed:
  assumes "holds m cur (le32 (of_nat (length f)) @ f)" "length f < 2 ^ 32"
    and "apart t (length f) cur (4 + length f)"
  shows "\<exists>v'. load_module t (cur, m, v) =
    Some (cur + of_nat (4 + length f), copied t (cur + 4) (length f) m, v')"
proof -
  have l: "length (le32 w) = 4" for w by (simp add: le32_def)
  have h: "holds m cur (le32 (of_nat (length f)))" using assms(1) holds_append by blast
  have u: "unat (ucast (of_nat (length f) :: u32) :: u64) = length f"
    using assms(2) by (simp add: unsigned_ucast_eq unsigned_of_nat take_bit_nat_eq_self)
  have w: "ucast (of_nat (length f) :: u32) = (of_nat (length f) :: u64)"
    using assms(2) u by (metis of_nat_unat ucast_id)
  have "apart t (length f) (cur + of_nat 4) (length f)" by (rule apart_sub [OF assms(3)]) simp
  then have s: "separate t (cur + 4) (unat (ucast (of_nat (length f) :: u32) :: u64))"
    unfolding u by (intro separate_apart) simp
  obtain v1 where v1: "announce_module (cur + 4) t (of_nat (length f)) v = Some v1"
    using announce_returns by blast
  show ?thesis
    using memcpy_eq [OF s, of m] unfolding u
    by (simp add: load_module_def read_uint_32_def load32_le32 [OF h] v1) (simp add: w add.assoc)
qed

lemma load_loop_packed:
  assumes "holds m cur (packed fs)" "length fs \<le> length ts" "\<forall>f\<in>set fs. length f < 2 ^ 32"
    and "\<forall>i<length fs. apart (ts ! i) (length (fs ! i)) cur (length (packed fs))"
    and "\<forall>i<length fs. \<forall>j<length fs. i \<noteq> j \<longrightarrow> apart (ts ! i) (length (fs ! i)) (ts ! j) (length (fs ! j))"
  shows "\<exists>cur' m' v'. load_loop (length fs) ts (cur, m, v) = Some (cur', m', v') \<and>
    (\<forall>i<length fs. holds m' (ts ! i) (fs ! i)) \<and>
    (\<forall>b bs. holds m b bs \<longrightarrow> (\<forall>i<length fs. apart (ts ! i) (length (fs ! i)) b (length bs)) \<longrightarrow> holds m' b bs)"
  using assms
proof (induction fs arbitrary: ts cur m v)
  case (Cons f fs)
  obtain t ts' where ts: "ts = t # ts'" using Cons.prems(2) by (cases ts) auto
  have l: "length (le32 w) = 4" for w by (simp add: le32_def)
  have len: "length (packed (f # fs)) = 4 + length f + length (packed fs)" by (simp add: l)
  have "holds m cur ((le32 (of_nat (length f)) @ f) @ packed fs)" using Cons.prems(1) by simp
  then have h: "holds m cur (le32 (of_nat (length f)) @ f)" "holds m (cur + of_nat (4 + length f)) (packed fs)"
    by (simp_all only: holds_append length_append l)
  have hf: "holds m (cur + 4) f" using h(1) by (simp add: holds_append l)
  have a: "apart t (length f) cur (4 + length f + length (packed fs))"
    using Cons.prems(4) ts unfolding len by (metis length_Cons nth_Cons_0 zero_less_Suc)
  have a1: "apart t (length f) cur (4 + length f)" using apart_sub [OF a, of 0 "4 + length f"] by simp
  have a2: "apart t (length f) (cur + of_nat (4 + length f)) (length (packed fs))"
    by (rule apart_sub [OF a]) simp
  have lf: "length f < 2 ^ 32" using Cons.prems(3) by simp
  let ?m = "copied t (cur + 4) (length f) m"
  obtain v1 where step: "load_module t (cur, m, v) = Some (cur + of_nat (4 + length f), ?m, v1)"
    using load_module_packed [OF h(1) lf a1] by blast
  have tail: "apart (ts' ! i) (length (fs ! i)) (cur + of_nat (4 + length f)) (length (packed fs))" if "i < length fs" for i
    by (rule apart_sub [where k = "length (packed (f # fs))"]) (use Cons.prems(4) ts that len in auto)
  have sep: "apart (ts' ! i) (length (fs ! i)) (ts' ! j) (length (fs ! j))" if "i < length fs" "j < length fs" "i \<noteq> j" for i j
    using Cons.prems(5) [rule_format, of "Suc i" "Suc j"] that ts by simp
  have sep0: "apart (ts' ! i) (length (fs ! i)) t (length f)" if "i < length fs" for i
    using Cons.prems(5) [rule_format, of "Suc i" 0] that ts by simp
  have fs: "length fs \<le> length ts'" "\<forall>f\<in>set fs. length f < 2 ^ 32" using Cons.prems(2,3) ts by simp_all
  obtain cur' m' v' where r: "load_loop (length fs) ts' (cur + of_nat (4 + length f), ?m, v1) = Some (cur', m', v')"
    "\<forall>i<length fs. holds m' (ts' ! i) (fs ! i)"
    "\<forall>b bs. holds ?m b bs \<longrightarrow> (\<forall>i<length fs. apart (ts' ! i) (length (fs ! i)) b (length bs)) \<longrightarrow> holds m' b bs"
    using Cons.IH [OF holds_copied_other [OF h(2) a2], where ts = ts' and v = v1, OF fs(1,2)] tail sep by blast
  have "holds ?m t f" by (rule holds_copied [OF hf]) (use lf in simp)
  then have "holds m' t f" using r(3) sep0 by blast
  then have "\<forall>i<length (f # fs). holds m' (ts ! i) ((f # fs) ! i)"
    using r(2) ts by (auto simp: less_Suc_eq_0_disj)
  moreover have "holds m' b bs" if "holds m b bs" "\<forall>i<length (f # fs). apart (ts ! i) (length ((f # fs) ! i)) b (length bs)" for b bs
  proof -
    have "apart t (length f) b (length bs)" using that(2) [rule_format, of 0] ts by simp
    moreover have "\<forall>i<length fs. apart (ts' ! i) (length (fs ! i)) b (length bs)"
      using that(2) ts by (metis Suc_less_eq length_Cons nth_Cons_Suc)
    ultimately show ?thesis using r(3) holds_copied_other [OF that(1)] by blast
  qed
  ultimately show ?case using r(1) step ts by (intro exI [of _ cur'] exI [of _ m'] exI [of _ v']) simp
qed simp

text \<open>
  C10. What the packer writes is what the loader reads back. For a kernel file and modules that
  can be opened, the packer's image is the kernel followed by the modules; loading the part
  behind the kernel from anywhere in memory puts every module at its address, whole and
  unchanged, as long as there is an address for each and the target regions overlap neither
  the payload nor each other.
\<close>

theorem packed_modules_load:
  assumes "pack_main fs True a = (0, Some (file, bytes))"
    and "map (arg_files a) [0..<arg_count a] = kfile # names" "fs kfile = Some kbytes"
    and "mods = map (\<lambda>n. the (fs n)) names" "length names \<le> length targets" "length names < 2 ^ 31"
    and "\<forall>f\<in>set mods. length f < 2 ^ 32"
    and "payload = drop (length kbytes) bytes" "holds m p payload"
    and "\<forall>i<length mods. apart (targets ! i) (length (mods ! i)) p (length payload)"
    and "\<forall>i<length mods. \<forall>j<length mods. i \<noteq> j \<longrightarrow>
      apart (targets ! i) (length (mods ! i)) (targets ! j) (length (mods ! j))"
  shows "\<exists>m' v'. load_modules p targets m v = Some (m', v') \<and>
    (\<forall>i<length mods. holds m' (targets ! i) (mods ! i))"
proof -
  have l: "length (le32 w) = 4" for w by (simp add: le32_def)
  have lm: "length mods = length names" using assms(4) by simp
  have "bytes = kbytes @ le32 (of_nat (length names)) @ packed mods"
    using assms(1-4) buildImage_eq [of fs kfile names]
    by (auto simp: pack_main_def Let_def split: if_splits)
  then have pl: "payload = le32 (of_nat (length names)) @ packed mods" using assms(8) by simp
  then have h: "holds m p (le32 (of_nat (length names)))" "holds m (p + 4) (packed mods)"
    using assms(9) by (simp_all add: holds_append l)
  have c: "unat (load32 m p) = length mods"
    unfolding load32_le32 [OF h(1)] using assms(6) lm by (simp add: unsigned_of_nat take_bit_nat_eq_self)
  have "apart (targets ! i) (length (mods ! i)) (p + 4) (length (packed mods))" if "i < length mods" for i
    using apart_sub [of _ _ p "length payload" 4] assms(10) that pl l by simp
  then obtain cur m' v' where "load_loop (length mods) targets (p + 4, m, v) = Some (cur, m', v')"
    "\<forall>i<length mods. holds m' (targets ! i) (mods ! i)"
    using load_loop_packed [OF h(2) _ assms(7) _ assms(11), where v = v] assms(5) lm by auto
  then show ?thesis using c by (simp add: load_modules_def read_uint_32_def)
qed

lemma apart_below:
  assumes "unat a + n \<le> unat b" "unat b + k \<le> 2 ^ 64"
  shows "apart a n b k" "apart b k a n"
proof -
  have "a + of_nat i \<noteq> b + of_nat j" if "i < n" "j < k" for i j
  proof
    assume e: "a + of_nat i = b + of_nat j"
    have "unat (x + of_nat i) = unat x + i" if "unat x + i < 2 ^ 64" for x :: u64 and i
      using that by (simp add: unat_word_ariths unsigned_of_nat take_bit_nat_eq_self)
    then have "unat (a + of_nat i) = unat a + i" "unat (b + of_nat j) = unat b + j" using assms that by simp_all
    then show False using e assms that by simp
  qed
  then show "apart a n b k" "apart b k a n" by (auto simp: apart_def) metis
qed

lemma holds_placed: "length bs \<le> 2 ^ 64 \<Longrightarrow> holds (\<lambda>a. if unat (a - p) < length bs then bs ! unat (a - p) else 0) p bs"
  using unat_offset [of _ p] by (simp add: holds_def del: add_diff_cancel_left')

lemma packed_modules_load_witness:
  "\<exists>bytes m m' v'. pack_main ([''kernel'' \<mapsto> [0x7F, 0x45], ''shell'' \<mapsto> [1, 2, 3], ''data'' \<mapsto> [4]]) True
      (main_arguments\<lparr>arg_files := (!) [''kernel'', ''shell'', ''data''], arg_count := 3\<rparr>) =
      (0, Some (''packedKernel.bin'', bytes)) \<and>
    load_modules 0x100000 [0x400000, 0x500000] m screen_init = Some (m', v') \<and>
    m' 0x400000 = 1 \<and> m' 0x400002 = 3 \<and> m' 0x500000 = 4"
proof -
  let ?fs = "[''kernel'' \<mapsto> [0x7F, 0x45], ''shell'' \<mapsto> [1, 2, 3], ''data'' \<mapsto> [4]] :: files"
  let ?a = "main_arguments\<lparr>arg_files := (!) [''kernel'', ''shell'', ''data''], arg_count := 3\<rparr>"
  define pl where "pl = le32 2 @ packed [[1, 2, 3], [4 :: u8]]"
  define m :: memory where "m = (\<lambda>a. if unat (a - 0x100000) < length pl then pl ! unat (a - 0x100000) else 0 :: u8)"
  have n: "map (arg_files ?a) [0..<arg_count ?a] = ''kernel'' # [''shell'', ''data'']"
    by (simp add: upt_rec)
  have main: "pack_main ?fs True ?a = (0, Some (''packedKernel.bin'', [0x7F, 0x45] @ pl))"
    unfolding pack_main_def n using buildImage_eq [of ?fs "''kernel''" "[''shell'', ''data'']"]
    by (simp add: checkFiles_def main_arguments_def pl_def)
  have len: "length pl = 16" by (simp add: pl_def le32_def)
  have h: "holds m 0x100000 pl" unfolding m_def by (rule holds_placed) (simp add: len)
  have ap: "apart 0x400000 3 0x100000 16" "apart 0x500000 1 0x100000 16" "apart 0x400000 3 0x500000 1" "apart 0x500000 1 0x400000 3"
    using apart_below [of "0x100000" 16 "0x400000" 3] apart_below [of "0x100000" 16 "0x500000" 1]
      apart_below [of "0x400000" 3 "0x500000" 1] by simp_all
  let ?mods = "[[1, 2, 3], [4 :: u8]]" and ?ts = "[0x400000, 0x500000] :: u64 list"
  have two: "(\<forall>i<length ?mods. P i) \<longleftrightarrow> P 0 \<and> P 1" for P :: "nat \<Rightarrow> bool"
    by (auto simp: less_Suc_eq)
  have q: "\<forall>i<length ?mods. apart (?ts ! i) (length (?mods ! i)) 0x100000 (length pl)"
    "\<forall>i<length ?mods. \<forall>j<length ?mods. i \<noteq> j \<longrightarrow> apart (?ts ! i) (length (?mods ! i)) (?ts ! j) (length (?mods ! j))"
    unfolding two len using ap by (simp_all add: numeral_3_eq_3)
  have e: "?mods = map (\<lambda>n. the (?fs n)) [''shell'', ''data'']" "?fs ''kernel'' = Some [0x7F, 0x45]" by simp_all
  have s: "\<forall>f\<in>set ?mods. length f < 2 ^ 32" "pl = drop (length [0x7F, 0x45 :: u8]) ([0x7F, 0x45] @ pl)"
    "length [''shell'', ''data''] \<le> length ?ts" "length [''shell'', ''data''] < 2 ^ 31" by simp_all
  obtain m' v' where r: "load_modules 0x100000 ?ts m screen_init = Some (m', v')"
    "\<forall>i<length ?mods. holds m' (?ts ! i) (?mods ! i)"
    using packed_modules_load [OF main n e(2,1) s(3,4,1,2) h q, of screen_init] by blast
  have "holds m' 0x400000 [1, 2, 3]" "holds m' 0x500000 [4]" using r(2) unfolding two by simp_all
  then have "m' 0x400000 = 1" "m' 0x400002 = 3" "m' 0x500000 = 4"
    unfolding holds_def by (force simp: less_Suc_eq)+
  with main r(1) show ?thesis by blast
qed

section \<open>The command line\<close>

text \<open>\<open>argp_parse\<close> calls the parser with one key after the other until one does not succeed.\<close>

fun parse_keys :: "opt_key list \<Rightarrow> arguments \<Rightarrow> (opt_result \<times> arguments) option" where
  "parse_keys [] a = Some (Parsed, a)"
| "parse_keys (k # ks) a =
     (case parse_opt k a of Some (Parsed, a') \<Rightarrow> parse_keys ks a' | r \<Rightarrow> r)"

text \<open>The files named on the command line are the ones packed, in their order.\<close>

lemma parse_keys_files:
  assumes "names \<noteq> []" "length names \<le> MAX_FILES"
  shows "\<exists>a'. parse_keys (map (\<lambda>i. Key_arg i (names ! i)) [0..<length names] @ [Key_end (length names)]) a =
    Some (Parsed, a') \<and> map (arg_files a') [0..<arg_count a'] = names \<and> arg_output_file a' = arg_output_file a"
proof -
  have "parse_keys (map (\<lambda>i. Key_arg i (names ! i)) [k..<length names] @ rest) a =
      parse_keys rest (a\<lparr>arg_files := (\<lambda>i. if k \<le> i \<and> i < length names then names ! i else arg_files a i)\<rparr>)"
    if "k \<le> length names" for k rest and a :: arguments
    using that
  proof (induction "length names - k" arbitrary: k a)
    case 0
    have "(\<lambda>i. if k \<le> i \<and> i < length names then names ! i else arg_files a i) = arg_files a"
      using 0 by (auto simp: fun_eq_iff)
    then show ?case using 0 by simp
  next
    case (Suc n)
    then have k: "k < length names" "n = length names - Suc k" by auto
    let ?a = "a\<lparr>arg_files := (arg_files a)(k := names ! k)\<rparr>"
    have "(\<lambda>i. if Suc k \<le> i \<and> i < length names then names ! i else arg_files ?a i) =
        (\<lambda>i. if k \<le> i \<and> i < length names then names ! i else arg_files a i)"
      using k(1) by (auto simp: fun_eq_iff)
    then show ?case
      using Suc.hyps(1) [OF k(2), of ?a] k(1) assms(2) by (simp add: upt_conv_Cons parse_opt_def)
  qed
  from this [of 0 "[Key_end (length names)]" a] show ?thesis
    using assms(1) by (auto simp: parse_opt_def not_less intro: nth_equalityI)
qed

end
