(* ===== verification/Boot.thy ===== *)
theory Boot
  imports Kernel_Run Modules
begin

text \<open>
  How the kernel comes up: Kernel/kernel.c and Kernel/interrupts/idtLoader.c. The addresses the
  linker places (text, rodata, data, bss, the end of the binary and of the kernel) are fields
  of a record, the processor's vendor string is an argument; both come from outside the C
  sources.
\<close>

section \<open>The interrupt table\<close>

record descr_int =
  offset_l :: u16
  selector :: u16
  cero :: u8
  access :: u8
  offset_m :: u16
  offset_h :: u32
  other_cero :: u32

abbreviation ACS_INT :: u8 where "ACS_INT \<equiv> 0x80 OR 0x0E"

definition setup_IDT_entry :: "nat \<Rightarrow> u64 \<Rightarrow> (nat \<Rightarrow> descr_int) \<Rightarrow> nat \<Rightarrow> descr_int" where
  "setup_IDT_entry index offset idt = idt(index := (idt index)
     \<lparr>selector := 0x08, offset_l := ucast (offset AND 0xFFFF),
      offset_m := ucast (drop_bit 16 offset AND 0xFFFF),
      offset_h := ucast (drop_bit 32 offset AND 0xFFFFFFFF),
      access := ACS_INT, cero := 0, other_cero := 0\<rparr>)"

text \<open>The addresses of the four assembly handlers; the result has the masks of both controllers.\<close>

record handlers =
  irq00Handler :: u64
  irq01Handler :: u64
  irq02Handler :: u64
  int80Handler :: u64

definition load_idt :: "handlers \<Rightarrow> (nat \<Rightarrow> descr_int) \<Rightarrow> (nat \<Rightarrow> descr_int) \<times> u8 \<times> u8" where
  "load_idt h idt =
     (let i1 = setup_IDT_entry 0x20 (irq00Handler h) idt;
          i2 = setup_IDT_entry 0x21 (irq01Handler h) i1;
          i3 = setup_IDT_entry 0x22 (irq02Handler h) i2;
          i4 = setup_IDT_entry 0x80 (int80Handler h) i3
      in (i4, 0xF8, 0xFF))"

section \<open>The kernel's binary\<close>

record image_layout =
  at_text :: u64
  at_rodata :: u64
  at_data :: u64
  at_bss :: u64
  at_end_of_kernel_binary :: u64
  at_end_of_kernel :: u64

abbreviation page_size :: u64 where "page_size \<equiv> 0x1000"
abbreviation user_code_module_address :: u64 where "user_code_module_address \<equiv> 0x400000"
abbreviation user_data_module_address :: u64 where "user_data_module_address \<equiv> 0x500000"
abbreviation system_memory_adress :: u64 where "system_memory_adress \<equiv> 0x600000"

definition clear_bss :: "u64 \<Rightarrow> u64 \<Rightarrow> memory \<Rightarrow> memory" where
  "clear_bss bss_address bss_size = memset bss_address 0 bss_size"

definition get_stack_base :: "image_layout \<Rightarrow> u64" where
  "get_stack_base l = at_end_of_kernel l + page_size * 8 - 8"

definition print_line :: "string \<Rightarrow> screen \<Rightarrow> screen" where
  "print_line s v = vd_draw_char NEWLINE_CHAR (vd_print (text_of s) v)"

text \<open>One line of the address report.\<close>

definition report_address :: "string \<Rightarrow> u64 \<Rightarrow> screen \<Rightarrow> screen option" where
  "report_address label addr v =
     map_option (vd_draw_char NEWLINE_CHAR) (vd_print_hex addr (vd_print (text_of label) v))"

definition announce_sections :: "image_layout \<Rightarrow> screen \<Rightarrow> screen option" where
  "announce_sections l v =
     Option.bind (report_address ''  text: 0x'' (at_text l) v) (\<lambda>v1.
     Option.bind (report_address ''  rodata: 0x'' (at_rodata l) v1) (\<lambda>v2.
     Option.bind (report_address ''  data: 0x'' (at_data l) v2)
       (report_address ''  bss: 0x'' (at_bss l))))"

text \<open>The stack's address, the memory and the screen.\<close>

definition initialize_kernel_binary ::
  "image_layout \<Rightarrow> u8 list \<Rightarrow> memory \<Rightarrow> screen \<Rightarrow> (u64 \<times> memory \<times> screen) option" where
  "initialize_kernel_binary l vendor m v =
     (let v1 = print_line ''[x64BareBones]'' v;
          v2 = vd_draw_char NEWLINE_CHAR (vd_print vendor (vd_print (text_of ''CPU Vendor:'') v1));
          v3 = print_line ''[Loading modules]'' v2
      in Option.bind (load_modules (at_end_of_kernel_binary l)
              [user_code_module_address, user_data_module_address] m v3) (\<lambda>(m1, v4).
         let v5 = vd_draw_char NEWLINE_CHAR (print_line ''[Done]'' v4);
             v6 = print_line (''[Initializing kernel'' @ [CHR 0x27] @ ''s binary]'') v5;
             m2 = clear_bss (at_bss l) (at_end_of_kernel l - at_bss l) m1
         in map_option (\<lambda>v7. (get_stack_base l, m2, vd_draw_char NEWLINE_CHAR (print_line ''[Done]'' v7)))
              (announce_sections l v6)))"

section \<open>Starting the system\<close>

text \<open>
  \<open>main\<close>: its result, the interrupt table and the two masks if it gets that far, and the
  kernel's data. \<open>raw\<close> is what the heap's memory held. \<open>main\<close> does not look at the pid that
  \<open>create_process\<close> returns.
\<close>

definition kernel_main ::
  "memory_manager \<Rightarrow> handlers \<Rightarrow> (nat \<Rightarrow> descr_int) \<Rightarrow> kernel \<Rightarrow>
   (int \<times> ((nat \<Rightarrow> descr_int) \<times> u8 \<times> u8) option \<times> kernel) option" where
  "kernel_main raw h idt k =
     (let k1 = on_screen vd_clear_screen k;
          k2 = k1\<lparr>k_heap := memory_manager_init raw system_memory_adress\<rparr>
      in case init_processes k2 of
           None \<Rightarrow> None
         | Some (r, k3) \<Rightarrow>
             if r = -1
             then Some (1, None, on_screen (print_line ''Error initializing scheduler'') k3)
             else (case create_process (Some ''shell'') None 1 k3 of
                     None \<Rightarrow> None
                   | Some (_, k4) \<Rightarrow> Some (0, Some (load_idt h idt), k4)))"

section \<open>A heap that is in use from its start\<close>

definition full :: "memory_manager \<Rightarrow> u64 \<Rightarrow> bool" where
  "full m f \<longleftrightarrow> frames_ok m \<and> (\<forall>i<page_frames_dim m. fr_used (page_frames m i) = 1) \<and>
     fr_start (page_frames m (page_frames_dim m)) = f"

lemma full_init: "full (memory_manager_init raw MEMORY_START) MEMORY_START"
  using fresh_heap [of raw] by (simp add: full_def)

lemma full_alloc:
  assumes "full m f" "f \<le> MEMORY_END" "n \<noteq> 0" "unat n \<le> 2 ^ 61"
  shows "\<exists>m'. memory_alloc m n = Some (f, m') \<and> full m' (f + align8 n) \<and> f \<noteq> 0"
proof -
  let ?d = "page_frames_dim m"
  have ok: "frames_ok m" and used: "\<And>i. i < ?d \<Longrightarrow> fr_used (page_frames m i) = 1"
    and f: "fr_start (page_frames m ?d) = f" using assms(1) by (auto simp: full_def)
  have ff: "first_fit m (align8 n) = ?d"
    using first_fit_props(2,3) [of m "align8 n"] used unfolding fits_def by (metis le_neq_implies_less)
  have n: "0 < unat n" using assms(3) by (simp add: unat_gt_0)
  note r = align8_request [OF n assms(4)]
  have le: "\<not> fr_start (page_frames m ?d) > MEMORY_END" using f assms(2) by simp
  let ?m = "use_frame ?d (grown (align8 n) m)"
  have t: "take_frame (align8 n) ?d m = (f, ?m)" using take_frame_new [OF ok] f by simp
  have "memory_alloc m n = Some (f, ?m)"
    using memory_alloc_eq [OF ok assms(3)] ff le t by (simp add: alloc_at_def)
  moreover have "frames_ok ?m"
    using take_frame_ok [OF ok r(1,3,4) order_refl _ le t] by (simp add: fits_def)
  then have "full ?m (f + align8 n)"
    using used f by (auto simp: full_def use_frame_def grown_def less_Suc_eq)
  moreover have "f \<noteq> 0" using frame_addr_pos [OF ok order_refl] f by auto
  ultimately show ?thesis by blast
qed

lemma full_queue:
  assumes "full m f" "f \<le> MEMORY_END"
  shows "\<exists>m'. new_PCBQueueADT zero_queue m = Some (Some zero_queue, m') \<and> full m' (f + align8 sizeof_queue)"
proof -
  obtain m' where m: "memory_alloc m sizeof_queue = Some (f, m')" "full m' (f + align8 sizeof_queue)" "f \<noteq> 0"
    using full_alloc [OF assms, of sizeof_queue] by (auto simp: sizeof_queue_def)
  moreover have "zero_queue\<lparr>q_head := 0, q_tail := 0, q_size := 0\<rparr> = zero_queue" by (simp add: zero_queue_def)
  ultimately show ?thesis by (simp add: new_PCBQueueADT_def)
qed

section \<open>After \<open>main\<close>\<close>

text \<open>The process tables \<open>init_processes\<close> leaves, with the idle process's stack at \<open>b\<close>.\<close>

definition idle_pcb :: "u64 \<Rightarrow> pcb" where
  "idle_pcb b = (new_pcb (Some ''init'') None 1 b static_procs)\<lparr>p_stack := set_process_stack (b + STACK_SIZE - 8)\<rparr>"

definition started_procs :: "u64 \<Rightarrow> procs" where
  "started_procs b = (upd_pcb 0 (\<lambda>_. idle_pcb b) (init_table static_procs))\<lparr>next_pid := 1, process_count := 1\<rparr>"

lemma init_processes_boot:
  assumes "full (k_heap k) f" "k_procs k = static_procs" "f \<le> MEMORY_END - 0x9000"
  shows "\<exists>h. init_processes k = Some (0, k\<lparr>k_heap := h, k_procs := started_procs (f + 0x8040)\<rparr>) \<and>
    full h (f + 0x9040)"
proof -
  have a: "align8 sizeof_queue = 0x2010" "align8 STACK_SIZE = 0x1000" by (simp_all add: align8_def sizeof_queue_def)
  have f: "unat f \<le> 0x7F7000" using assms(3) by (simp add: word_le_nat_alt)
  have le: "f + c \<le> MEMORY_END" if "unat c \<le> 0x9000" for c
    using f that by (simp add: word_le_nat_alt unat_word_ariths)
  have q: "\<exists>m'. new_PCBQueueADT zero_queue m = Some (Some zero_queue, m') \<and> full m' (f + (c + 0x2010))"
    if "full m (f + c)" "unat c \<le> 0x9000" for m c
    using full_queue [OF that(1) le [OF that(2)]] a by (simp add: add.assoc)
  obtain m1 where m1: "new_PCBQueueADT zero_queue (k_heap k) = Some (Some zero_queue, m1)" "full m1 (f + 0x2010)"
    using q [of "k_heap k" 0] assms(1) by auto
  obtain m2 where m2: "new_PCBQueueADT zero_queue m1 = Some (Some zero_queue, m2)" "full m2 (f + 0x4020)"
    using q [OF m1(2)] by auto
  obtain m3 where m3: "new_PCBQueueADT zero_queue m2 = Some (Some zero_queue, m3)" "full m3 (f + 0x6030)"
    using q [OF m2(2)] by auto
  obtain m4 where m4: "new_PCBQueueADT zero_queue m3 = Some (Some zero_queue, m4)" "full m4 (f + 0x8040)"
    using q [OF m3(2)] by auto
  have "\<exists>m'. memory_alloc m STACK_SIZE = Some (f + c, m') \<and> full m' (f + (c + 0x1000)) \<and> f + c \<noteq> 0"
    if "full m (f + c)" "unat c \<le> 0x9000" for m c
    using full_alloc [OF that(1) le [OF that(2)], of STACK_SIZE] a by (simp add: add.assoc)
  from this [OF m4(2)] obtain m5 where m5: "memory_alloc m4 STACK_SIZE = Some (f + 0x8040, m5)"
    "full m5 (f + 0x9040)" "f + 0x8040 \<noteq> 0"
    by auto
  have z: "(\<lambda>_. zero_queue)(0 := zero_queue, Suc 0 := zero_queue, Suc (Suc 0) := zero_queue) = (\<lambda>_. zero_queue)"
    by auto
  have "init_processes k = Some (0, k\<lparr>k_heap := m5, k_procs := started_procs (f + 0x8040)\<rparr>)"
    using m1 m2 m3 m4 m5 assms(2)
    by (simp add: init_processes_def new_ready_queue_def new_terminated_queue_def init_idle_def
      set_new_process_def upd_procs_def static_procs_def upt_rec z new_pcb_def started_procs_def idle_pcb_def
      upd_pcb_def init_table_def) (simp cong: if_cong)
  then show ?thesis using m5(2) by blast
qed

lemma started_procs_simps [simp]:
  "process_table (started_procs b) i = (if i = 0 then idle_pcb b
     else if i < MAX_PROCESSES then zero_pcb\<lparr>p_state := TERMINATED\<rparr> else zero_pcb)"
  "process_queues (started_procs b) = (\<lambda>_. zero_queue)"
  "terminated_processes_queue (started_procs b) = zero_queue"
  "current_process (started_procs b) = 0" "next_pid (started_procs b) = 1" "process_count (started_procs b) = 1"
  "procs_initialized (started_procs b)" "system_running (started_procs b) = 1" "first_time (started_procs b)"
  by (simp_all add: started_procs_def init_table_def static_procs_def)

lemma idle_pcb_simps [simp]:
  "p_pid (idle_pcb b) = 0" "p_state (idle_pcb b) = READY" "p_previous (idle_pcb b) = TERMINATED"
  "p_priority (idle_pcb b) = 0" "p_children (idle_pcb b) = []" "p_is_foreground (idle_pcb b) = 1"
  by (simp_all add: idle_pcb_def new_pcb_def static_procs_def)

lemma started_procs_ok: "sched_ok (started_procs b)" "all_room (started_procs b)"
proof -
  show "all_room (started_procs b)" by (simp add: all_room_def q_room_def zero_queue_def)
  show "sched_ok (started_procs b)"
    by (rule sched_okI) (auto simp: queues_ok_def slot_ok_def zero_pcb_def)
qed

lemma started_free_slot: "find_free_slot (started_procs b) = Some 1"
  unfolding find_free_slot_def by (rule find_from_SomeI) simp_all

text \<open>The process tables \<open>main\<close> leaves, with the two stacks at \<open>b\<close> and \<open>c\<close>.\<close>

definition booted_procs :: "u64 \<Rightarrow> u64 \<Rightarrow> procs" where
  "booted_procs b c = launch 1 1 (entered (Some ''shell'') None 1 1 c (started_procs b))"

lemma create_shell_boot:
  assumes "full (k_heap k) c" "k_procs k = started_procs b" "c \<le> MEMORY_END"
  shows "\<exists>h. create_process (Some ''shell'') None 1 k =
    Some (1, k\<lparr>k_procs := booted_procs b c, k_heap := h\<rparr>) \<and> full h (c + 0x1000)"
proof -
  have "align8 STACK_SIZE = 0x1000" by (simp add: align8_def)
  then obtain h where h: "memory_alloc (k_heap k) STACK_SIZE = Some (c, h)" "full h (c + 0x1000)" "c \<noteq> 0"
    using full_alloc [OF assms(1,3), of STACK_SIZE] by auto
  have tf: "take_foreground 1 (started_procs b) = (1, (upd_pcb 0 (\<lambda>p. p\<lparr>p_is_foreground := 0\<rparr>) (started_procs b))\<lparr>foreground_process := 1\<rparr>)"
    by (simp add: take_foreground_def)
  have "spawn (Some ''shell'') None 1 k = Some (1, k\<lparr>k_procs := booted_procs b c, k_heap := h\<rparr>)"
    using spawn_entered [of k 1 c h "Some ''shell''" None 1] h started_free_slot [of b] assms(2)
    by (simp add: Let_def entered_def tf booted_procs_def upd_procs_def)
  then show ?thesis using h(2) assms(2) by (intro exI [of _ h]) (simp add: create_process_def)
qed

lemma booted_procs_ok: "sched_ok (booted_procs b c)"
  unfolding booted_procs_def by (rule sched_entered) (simp_all add: started_procs_ok)

definition shell_pcb :: "u64 \<Rightarrow> pcb" where
  "shell_pcb c = \<lparr>p_pid = 1, p_name = ''shell'', p_state = READY, p_previous = TERMINATED, p_priority = 0,
     p_stack_base = c, p_stack = c + 0xF50, p_fd_in = 0, p_fd_out = 1, p_father = 0, p_children = [],
     p_exit_status = -1, p_sem_wait_id = -1, p_is_foreground = 1\<rparr>"

lemma booted_procs_simps [simp]:
  "process_table (booted_procs b c) i = (if i = 1 then shell_pcb c
     else if i = 0 then (idle_pcb b)\<lparr>p_is_foreground := 0, p_children := [1]\<rparr>
     else if i < MAX_PROCESSES then zero_pcb\<lparr>p_state := TERMINATED\<rparr> else zero_pcb)"
  "process_queues (booted_procs b c) = (\<lambda>_. zero_queue)(0 := enqueued 1 zero_queue)"
  "terminated_processes_queue (booted_procs b c) = zero_queue"
  "current_process (booted_procs b c) = 0" "next_pid (booted_procs b c) = 2" "process_count (booted_procs b c) = 2"
  "procs_initialized (booted_procs b c)" "system_running (booted_procs b c) = 1" "first_time (booted_procs b c)"
  "foreground_process (booted_procs b c) = 1"
  by (simp_all add: booted_procs_def launch_def Let_def entered_def take_foreground_def shell_pcb_def new_pcb_def
      set_process_stack_def process_name_def)

lemma kernel_main_eq:
  assumes "k_procs k = static_procs"
  shows "\<exists>h. kernel_main raw hs idt k = Some (0, Some (load_idt hs idt),
    (on_screen vd_clear_screen k)\<lparr>k_procs := booted_procs 0x608040 0x609040, k_heap := h\<rparr>) \<and> full h 0x60A040"
proof -
  let ?k = "(on_screen vd_clear_screen k)\<lparr>k_heap := memory_manager_init raw MEMORY_START\<rparr>"
  have "k_procs ?k = static_procs" "full (k_heap ?k) MEMORY_START"
    using assms full_init by simp_all
  then obtain h3 where h3: "init_processes ?k = Some (0, ?k\<lparr>k_heap := h3, k_procs := started_procs 0x608040\<rparr>)"
    "full h3 0x609040"
    using init_processes_boot [of ?k MEMORY_START] by auto
  obtain h where h: "create_process (Some ''shell'') None 1 (?k\<lparr>k_heap := h3, k_procs := started_procs 0x608040\<rparr>) =
      Some (1, ?k\<lparr>k_heap := h3, k_procs := started_procs 0x608040, k_procs := booted_procs 0x608040 0x609040, k_heap := h\<rparr>)"
    "full h 0x60A040"
    using create_shell_boot [of "?k\<lparr>k_heap := h3, k_procs := started_procs 0x608040\<rparr>" "0x609040" "0x608040"] h3(2) by auto
  then show ?thesis using h3(1) by (intro exI [of _ h]) (simp add: kernel_main_def Let_def)
qed

lemma timer_no_sleepers:
  assumes "\<forall>i<MAX_PROCESSES. sl_pid (k_sleep k i) = 0"
  shows "k_procs (timer_handler k) = k_procs k"
proof -
  have "fold (wake_slot t) xs k = k" if "\<forall>i\<in>set xs. sl_pid (k_sleep k i) = 0" for t xs k
    using that by (induction xs) (simp_all add: wake_slot_def)
  then show ?thesis using assms
    by (simp add: timer_handler_def wake_up_sleeping_processes_def init_time_def Let_def)
qed

lemma first_switch:
  assumes "k_procs k = booted_procs b c" "st \<noteq> 0"
  shows "\<exists>k'. scheduler st k = Some (c + 0xF50, k') \<and> current_process (k_procs k') = 1 \<and>
    p_state (process_table (k_procs k') 1) = RUNNING"
proof -
  have e: "dequeue_process zero_queue = (None, zero_queue)"
    by (simp add: dequeue_process_def zero_queue_def)
  have fr: "free_terminated_processes k = set_terminated_queue zero_queue k"
    by (subst free_terminated_processes.simps) (simp add: e assms(1))
  have k1: "k_procs (set_terminated_queue zero_queue k) = booted_procs b c"
    by (simp add: set_terminated_queue_def assms(1))
  let ?ps = "(booted_procs b c)\<lparr>first_time := False\<rparr>"
  have sn: "set_next_process st (booted_procs b c) = ?ps" by (simp add: set_next_process_def)
  let ?k2 = "upd_procs (set_next_process st) (set_terminated_queue zero_queue k)"
  define p where "p = fst (get_random_priority ?k2)"
  have "all_room (booted_procs b c)" by (simp add: all_room_def q_room_def zero_queue_def enqueue_process_def)
  from sched_set_next_process [OF booted_procs_ok this, of st] have ok: "sched_ok ?ps" by (simp only: sn)
  have ft: "\<not> first_time ?ps" and nr: "\<And>j. j < MAX_PROCESSES \<Longrightarrow> p_state (process_table ?ps j) \<noteq> RUNNING"
    by (simp_all add: shell_pcb_def)
  have some: "\<exists>j<MAX_PROCESSES. 0 < j \<and> p_state (process_table ?ps j) = READY"
    by (rule exI [of _ 1]) (simp add: shell_pcb_def)
  obtain ps' i where ch: "choose_next p ?ps = Some ps'" "current_process ps' = i" "p_state (process_table ps' i) = RUNNING"
      "p_stack (process_table ps' i) = p_stack (process_table ?ps i)" and
      i: "first_runnable ?ps (unat (p_priority (process_table ?ps i))) = Some i"
    using choose_next_facts [OF ok ft get_random_priority_less nr, of ?k2] unfolding if_P [OF some] p_def by blast
  moreover have "q_items (enqueued 1 zero_queue) = [1]"
    using q_put(1) [of zero_queue 1] zero_queue_room by simp
  ultimately have "i = 1"
    by (auto simp: first_runnable_def split: if_splits)
  have rp: "k_procs (snd (get_random_priority ?k2)) = ?ps"
    by (simp add: get_random_priority_def split_beta sn k1)
  have "scheduler st k = Some (current_stack_of ps', (snd (get_random_priority ?k2))\<lparr>k_procs := ps'\<rparr>)"
    using assms ch(1) rp
    by (simp add: scheduler_def fr k1 processes_initialized_def Let_def get_next_process_def split_beta p_def
        has_running_processes_def)
  then show ?thesis using ch(2-4) \<open>i = 1\<close> by (simp add: current_stack_of_def shell_pcb_def)
qed

text \<open>Where the processor goes for an interrupt.\<close>

definition gate_offset :: "descr_int \<Rightarrow> u64" where
  "gate_offset d = ucast (offset_l d) OR push_bit 16 (ucast (offset_m d)) OR push_bit 32 (ucast (offset_h d))"

lemma gate_offset_setup: "gate_offset (setup_IDT_entry i a idt i) = a"
proof (rule bit_word_eqI)
  have m: "(0xFFFF :: u64) = mask 16" "(0xFFFFFFFF :: u64) = mask 32" by (simp_all add: mask_eq_exp_minus_1)
  fix n assume "n < LENGTH(64)"
  then consider "n < 16" | "16 \<le> n" "n < 32" | "32 \<le> n" "n < 64" by fastforce
  then show "bit (gate_offset (setup_IDT_entry i a idt i)) n = bit a n"
    unfolding gate_offset_def setup_IDT_entry_def m by cases (auto simp: bit_simps)
qed

lemma setup_IDT_other: "j \<noteq> i \<Longrightarrow> setup_IDT_entry i a idt j = idt j"
  by (simp add: setup_IDT_entry_def)

lemma load_idt_offsets:
  "gate_offset (fst (load_idt h idt) 0x20) = irq00Handler h" "gate_offset (fst (load_idt h idt) 0x21) = irq01Handler h"
  "gate_offset (fst (load_idt h idt) 0x22) = irq02Handler h" "gate_offset (fst (load_idt h idt) 0x80) = int80Handler h"
  by (simp_all add: load_idt_def Let_def setup_IDT_other gate_offset_setup)

text \<open>
  C9. Booting ends with a system that works. From the kernel's static data, whatever memory and
  interrupt table held, \<open>main\<close> returns 0. There are then two processes: idle, and the shell
  in slot 1 with pid 1, ready, in the foreground and on the standard descriptors; the gates of
  the timer, the keyboard, the forced switch and the system call lead to their handlers; the
  scheduler's invariant holds; and the first tick of the clock gives the processor to the shell
  on its own stack.
\<close>

theorem boot_runs_shell:
  assumes "k_procs k = static_procs" "\<forall>i<MAX_PROCESSES. sl_pid (k_sleep k i) = 0" "st \<noteq> 0"
  shows "\<exists>k' gates k''. kernel_main raw hs idt k = Some (0, Some (gates, 0xF8, 0xFF), k') \<and>
    map (\<lambda>v. gate_offset (gates v)) [0x20, 0x21, 0x22, 0x80] =
      [irq00Handler hs, irq01Handler hs, irq02Handler hs, int80Handler hs] \<and>
    process_table (k_procs k') 1 = shell_pcb 0x609040 \<and> process_count (k_procs k') = 2 \<and>
    is_foreground (k_procs k') 1 \<and> sched_ok (k_procs k') \<and>
    scheduler st (timer_handler k') = Some (p_stack (shell_pcb 0x609040), k'') \<and>
    current_process (k_procs k'') = 1 \<and> p_state (process_table (k_procs k'') 1) = RUNNING"
proof -
  obtain h where m: "kernel_main raw hs idt k = Some (0, Some (load_idt hs idt),
      (on_screen vd_clear_screen k)\<lparr>k_procs := booted_procs 0x608040 0x609040, k_heap := h\<rparr>)"
    using kernel_main_eq [OF assms(1)] by blast
  define k' where "k' = (on_screen vd_clear_screen k)\<lparr>k_procs := booted_procs 0x608040 0x609040, k_heap := h\<rparr>"
  have p: "k_procs k' = booted_procs 0x608040 0x609040" by (simp add: k'_def)
  have "k_procs (timer_handler k') = k_procs k'"
    by (rule timer_no_sleepers) (use assms(2) in \<open>simp add: k'_def on_screen_def\<close>)
  then obtain k'' where k'': "scheduler st (timer_handler k') = Some (0x609040 + 0xF50, k'')"
    "current_process (k_procs k'') = 1" "p_state (process_table (k_procs k'') 1) = RUNNING"
    using first_switch [of "timer_handler k'" "0x608040" "0x609040" st] p assms(3) by auto
  have l: "load_idt hs idt = (fst (load_idt hs idt), 0xF8, 0xFF)" by (simp add: load_idt_def Let_def)
  show ?thesis
    using m k'' p l booted_procs_ok
    by (intro exI [of _ k'] exI [of _ "fst (load_idt hs idt)"] exI [of _ k''])
      (simp add: k'_def [symmetric] load_idt_offsets is_foreground_def, simp add: shell_pcb_def)
qed

definition sample_handlers :: handlers where
  "sample_handlers = \<lparr>irq00Handler = 0x100A00, irq01Handler = 0x100B00, irq02Handler = 0x100C00, int80Handler = 0x100D00\<rparr>"

definition empty_idt :: "nat \<Rightarrow> descr_int" where
  "empty_idt _ = \<lparr>offset_l = 0, selector = 0, cero = 0, access = 0, offset_m = 0, offset_h = 0, other_cero = 0\<rparr>"

lemma boot_runs_shell_witness:
  "\<exists>k' gates k''. kernel_main raw_heap sample_handlers empty_idt static_kernel = Some (0, Some (gates, 0xF8, 0xFF), k') \<and>
    gate_offset (gates 0x80) = 0x100D00 \<and> scheduler 0x200000 (timer_handler k') = Some (0x609F90, k'') \<and>
    current_process (k_procs k'') = 1"
proof -
  have s: "k_procs static_kernel = static_procs" "\<forall>i<MAX_PROCESSES. sl_pid (k_sleep static_kernel i) = 0" "(0x200000 :: u64) \<noteq> 0"
    by (simp_all add: static_kernel_def)
  obtain k' gates k'' where "kernel_main raw_heap sample_handlers empty_idt static_kernel = Some (0, Some (gates, 0xF8, 0xFF), k')"
    "map (\<lambda>v. gate_offset (gates v)) [0x20, 0x21, 0x22, 0x80] =
      [irq00Handler sample_handlers, irq01Handler sample_handlers, irq02Handler sample_handlers, int80Handler sample_handlers]"
    "scheduler 0x200000 (timer_handler k') = Some (p_stack (shell_pcb 0x609040), k'')" "current_process (k_procs k'') = 1"
    using boot_runs_shell [OF s, of raw_heap sample_handlers empty_idt] that by (elim exE conjE)
  then show ?thesis
    by (intro exI [of _ k'] exI [of _ gates] exI [of _ k'']) (simp add: sample_handlers_def shell_pcb_def)
qed

section \<open>Every state the kernel reaches\<close>

definition boot_machine :: "kernel \<Rightarrow> machine" where
  "boot_machine k = \<lparr>m_kernel = k, m_calls = \<lambda>_. None\<rparr>"

lemma booted_room: "room_to_run k = True" if "k_procs k = booted_procs b c"
proof -
  have "{i. i < MAX_PROCESSES \<and> p_state (process_table (booted_procs b c) i) \<in> {BLOCKED, SLEEPING, RUNNING}} = {}"
    by (auto simp: shell_pcb_def)
  then have "coming (booted_procs b c) = 0" unfolding coming_def by (simp only: card.empty)
  then show ?thesis using that by (simp add: room_to_run_def room_for_def zero_queue_def enqueue_process_def)
qed



section \<open>The start-up code\<close>

text \<open>The stack it returns, and the zeroed data it leaves to \<open>main\<close>.\<close>

lemma initialize_kernel_binary_bss:
  assumes "initialize_kernel_binary l vendor m v = Some (st, m', v')"
  shows "st = at_end_of_kernel l + 0x7FF8 \<and>
    (\<forall>a. unat (a - at_bss l) < unat (at_end_of_kernel l - at_bss l) \<longrightarrow> m' a = 0)"
  using assms
  by (auto simp: initialize_kernel_binary_def Let_def Option.bind_eq_Some_conv clear_bss_def memset_fills get_stack_base_def)

end
