(* ===== verification/Context_Switch.thy ===== *)
theory Context_Switch
  imports Life_Properties Kernel_Lib
begin

text \<open>
  The machine side of a switch between processes: the stacks that \<open>set_process_stack\<close> of
  asm/scheduler-asm.asm prepares and the interrupt handlers of asm/interrupts.asm that save and
  restore the registers around the scheduler. Memory is a map of bytes. The processor itself
  appears as far as the handlers rely on it: what an interrupt pushes and \<open>iretq\<close> pops.
\<close>

section \<open>The stack in memory\<close>

definition store64 :: "u64 \<Rightarrow> u64 \<Rightarrow> memory \<Rightarrow> memory" where
  "store64 a w m = store32 (a + 4) (ucast (drop_bit 32 w)) (store32 a (ucast w) m)"

definition load64 :: "memory \<Rightarrow> u64 \<Rightarrow> u64" where
  "load64 m a = ucast (load32 m a) OR push_bit 32 (ucast (load32 m (a + 4)))"

type_synonym stack = "u64 \<times> memory"

text \<open>\<open>push\<close> moves the stack pointer down and stores, \<open>pop\<close> loads and moves it up.\<close>

definition push :: "u64 \<Rightarrow> stack \<Rightarrow> stack" where
  "push w st = (fst st - 8, store64 (fst st - 8) w (snd st))"

definition pop :: "stack \<Rightarrow> u64 \<times> stack" where
  "pop st = (load64 (snd st) (fst st), (fst st + 8, snd st))"

section \<open>The processor\<close>

datatype reg = RAX | RBX | RCX | RDX | RBP | RDI | RSI | R8 | R9 | R10 | R11 | R12 | R13 | R14 | R15

record cpu =
  c_regs :: "reg \<Rightarrow> u64"
  c_rip :: u64
  c_cs :: u64
  c_rflags :: u64
  c_rsp :: u64
  c_ss :: u64

text \<open>The order of the macros \<open>push_state\<close> and \<open>pop_state\<close>.\<close>

definition push_state :: "(reg \<Rightarrow> u64) \<Rightarrow> stack \<Rightarrow> stack" where
  "push_state r st = fold (\<lambda>x. push (r x)) [RAX, RBX, RCX, RDX, RBP, RDI, RSI, R8, R9, R10, R11, R12, R13, R14, R15] st"

definition pop_reg :: "reg \<Rightarrow> (reg \<Rightarrow> u64) \<times> stack \<Rightarrow> (reg \<Rightarrow> u64) \<times> stack" where
  "pop_reg x s = (let (v, st) = pop (snd s) in ((fst s)(x := v), st))"

definition pop_state :: "(reg \<Rightarrow> u64) \<times> stack \<Rightarrow> (reg \<Rightarrow> u64) \<times> stack" where
  "pop_state s = fold pop_reg [R15, R14, R13, R12, R11, R10, R9, R8, RSI, RDI, RBP, RDX, RCX, RBX, RAX] s"

text \<open>
  What the processor does: an interrupt aligns the stack to 16 bytes and pushes where it was,
  \<open>iretq\<close> takes that back.
\<close>

definition interrupt_entry :: "cpu \<Rightarrow> memory \<Rightarrow> stack" where
  "interrupt_entry c m =
     push (c_rip c) (push (c_cs c) (push (c_rflags c) (push (c_rsp c) (push (c_ss c) (c_rsp c AND NOT 15, m)))))"

definition iretq :: "(reg \<Rightarrow> u64) \<Rightarrow> stack \<Rightarrow> cpu" where
  "iretq r st =
     (let (rip, st1) = pop st; (cs, st2) = pop st1; (rflags, st3) = pop st2; (rsp, st4) = pop st3; (ss, st5) = pop st4
      in \<lparr>c_regs = r, c_rip = rip, c_cs = cs, c_rflags = rflags, c_rsp = rsp, c_ss = ss\<rparr>)"

section \<open>The handlers\<close>

text \<open>The first half of a handler, and the second half: the end of the interrupt is signalled through \<open>rax\<close>,
  which is pushed and popped around it.\<close>

definition save_context :: "cpu \<Rightarrow> memory \<Rightarrow> stack" where
  "save_context c m = push_state (c_regs c) (interrupt_entry c m)"

definition signal_eoi :: "u64 \<Rightarrow> stack \<Rightarrow> stack" where
  "signal_eoi rax st = snd (pop (push rax st))"

definition restore_context :: "stack \<Rightarrow> cpu" where
  "restore_context st = (let (r, st') = pop_state (\<lambda>_. 0, st) in iretq r st')"

text \<open>
  \<open>_irq02Handler\<close>; \<open>body\<close> is what the call of \<open>scheduler\<close> does: from the stack pointer and the memory to
  its result and the memory. \<open>_irq00Handler\<close> calls \<open>irq_dispatcher\<close> before, which is \<open>tick\<close>.
\<close>

definition irq02Handler :: "(u64 \<Rightarrow> memory \<Rightarrow> u64 \<times> memory) \<Rightarrow> cpu \<Rightarrow> memory \<Rightarrow> cpu \<times> memory" where
  "irq02Handler body c m =
     (let (rsp, m1) = save_context c m;
          (rax, m2) = body rsp m1;
          st = signal_eoi rax (rax, m2)
      in (restore_context st, snd st))"

definition irq00Handler ::
  "(u64 \<Rightarrow> memory \<Rightarrow> memory) \<Rightarrow> (u64 \<Rightarrow> memory \<Rightarrow> u64 \<times> memory) \<Rightarrow> cpu \<Rightarrow> memory \<Rightarrow> cpu \<times> memory" where
  "irq00Handler tick body c m =
     (let (rsp, m1) = save_context c m;
          (rax, m2) = body rsp (tick rsp m1);
          st = signal_eoi rax (rax, m2)
      in (restore_context st, snd st))"

text \<open>
  \<open>set_process_stack\<close>: the macro \<open>set_inicial_stack\<close> on the new stack, and its pointer as the result.
  \<open>rbx\<close> and \<open>rbp\<close> are those of the caller.
\<close>

definition set_initial_stack :: "u64 \<Rightarrow> u64 \<Rightarrow> u64 \<Rightarrow> u64 \<Rightarrow> u64 \<Rightarrow> u64 \<Rightarrow> memory \<Rightarrow> stack" where
  "set_initial_stack argc argv rdx rcx rbx rbp m =
     fold push [0, 0, rdx, 0x202, 0x08, rcx, 0, rbx, rcx, rdx, rbp, argc, argv, 0, 0, 0, 0, 0, 0, 0, 0] (rdx, m)"

section \<open>Loads and stores\<close>

lemma load32_store32 [simp]: "load32 (store32 a w m) a = w"
proof (rule bit_word_eqI)
  fix n assume n: "n < LENGTH(32)"
  consider "n < 8" | "8 \<le> n" "n < 16" | "16 \<le> n" "n < 24" | "24 \<le> n" by linarith
  then show "bit (load32 (store32 a w m) a) n = bit w n"
    by cases (use n in \<open>auto simp: load32_def store32_def bit_simps\<close>)
qed

lemma store32_outside: "4 \<le> unat (x - a) \<Longrightarrow> store32 a w m x = m x"
  by (auto simp: store32_def)

lemma load32_cong: "(\<And>i. i < 4 \<Longrightarrow> m' (a + of_nat i) = m (a + of_nat i)) \<Longrightarrow> load32 m' a = load32 m a"
proof -
  assume e: "\<And>i. i < 4 \<Longrightarrow> m' (a + of_nat i) = m (a + of_nat i)"
  show ?thesis using e [of 0] e [of 1] e [of 2] e [of 3] by (simp add: load32_def)
qed

lemma load64_cong:
  assumes "\<And>i. i < 8 \<Longrightarrow> m' (a + of_nat i) = m (a + of_nat i)"
  shows "load64 m' a = load64 m a"
proof -
  have "load32 m' a = load32 m a" by (rule load32_cong) (use assms in simp)
  moreover have "load32 m' (a + 4) = load32 m (a + 4)"
  proof (rule load32_cong)
    fix i :: nat assume "i < 4"
    then show "m' (a + 4 + of_nat i) = m (a + 4 + of_nat i)" using assms [of "4 + i"] by (simp add: add.assoc)
  qed
  ultimately show ?thesis by (simp add: load64_def)
qed

lemma offset_apart:
  assumes "i < 4"
  shows "4 \<le> unat (a + of_nat i - (a + 4) :: u64)"
proof -
  have e: "a + of_nat i - (a + 4) = a + of_nat (0xFFFFFFFFFFFFFFFC + i) - a" by simp
  have "0xFFFFFFFFFFFFFFFC + i < 2 ^ 64" using assms by simp
  from unat_offset [OF this, of a] show ?thesis unfolding e by linarith
qed

lemma load64_store64 [simp]: "load64 (store64 a w m) a = w"
proof -
  have "load32 (store64 a w m) a = load32 (store32 a (ucast w) m) a"
    unfolding store64_def by (rule load32_cong) (rule store32_outside, rule offset_apart)
  moreover have "load32 (store64 a w m) (a + 4) = ucast (drop_bit 32 w)" by (simp add: store64_def)
  moreover have "(ucast (ucast w :: u32) :: u64) OR push_bit 32 (ucast (ucast (drop_bit 32 w) :: u32)) = w"
    by (rule bit_word_eqI) (auto simp: bit_simps)
  ultimately show ?thesis by (simp add: load64_def)
qed

lemma store64_outside:
  assumes "8 \<le> unat (x - a)"
  shows "store64 a w m x = m x"
proof -
  have "(4 :: u64) \<le> x - a" using assms by (simp add: word_le_nat_alt)
  then have "unat (x - a - 4) = unat (x - a) - 4" by (simp add: unat_sub)
  then have "4 \<le> unat (x - (a + 4))" using assms by (simp add: algebra_simps)
  then show ?thesis using assms by (simp add: store64_def store32_outside)
qed

section \<open>Frames\<close>

text \<open>Words pushed one after the other, and what is then found above the stack pointer.\<close>

lemma fold_push:
  assumes "length ws < 2 ^ 60"
  shows "fst (fold push ws (sp, m)) = sp - 8 * of_nat (length ws) \<and>
    (\<forall>i<length ws. load64 (snd (fold push ws (sp, m))) (sp - 8 * of_nat (Suc i)) = ws ! i) \<and>
    (\<forall>a. 8 * length ws \<le> unat (a - (sp - 8 * of_nat (length ws))) \<longrightarrow> snd (fold push ws (sp, m)) a = m a)"
  using assms
proof (induction ws arbitrary: sp m)
  case (Cons w ws)
  let ?m1 = "store64 (sp - 8) w m" and ?low = "sp - 8 - 8 * of_nat (length ws)"
  let ?st = "fold push ws (sp - 8, ?m1)"
  have l: "length ws < 2 ^ 60" using Cons.prems by simp
  note ih = Cons.IH [OF l, of "sp - 8" ?m1]
  have st: "fold push (w # ws) (sp, m) = ?st" by (simp add: push_def)
  have "load64 (snd ?st) (sp - 8) = load64 ?m1 (sp - 8)"
  proof (rule load64_cong)
    fix j :: nat assume "j < 8"
    then have "unat (?low + of_nat (8 * length ws + j) - ?low) = 8 * length ws + j" using l by (intro unat_offset) simp
    moreover have "?low + of_nat (8 * length ws + j) = sp - 8 + of_nat j" by simp
    ultimately have "8 * length ws \<le> unat (sp - 8 + of_nat j - ?low)" by (simp only:)
    then show "snd ?st (sp - 8 + of_nat j) = ?m1 (sp - 8 + of_nat j)" using ih by blast
  qed
  then have first: "load64 (snd ?st) (sp - 8) = w" by simp
  have words: "load64 (snd ?st) (sp - 8 * of_nat (Suc i)) = (w # ws) ! i" if "i < Suc (length ws)" for i
  proof (cases i)
    case (Suc j)
    have "load64 (snd ?st) (sp - 8 - 8 * of_nat (Suc j)) = ws ! j" using ih Suc that by simp
    then show ?thesis using Suc by (simp add: algebra_simps)
  qed (use first in simp)
  have out: "snd ?st a = m a" if "8 * Suc (length ws) \<le> unat (a - ?low)" for a
  proof -
    have e: "unat (8 * of_nat (length ws) :: u64) = 8 * length ws"
      using l unat_offset [of "8 * length ws" 0] by simp
    then have "(8 * of_nat (length ws) :: u64) \<le> a - ?low" using that by (simp add: word_le_nat_alt)
    then have "unat (a - ?low - 8 * of_nat (length ws)) = unat (a - ?low) - 8 * length ws"
      using unat_sub e by metis
    then have "8 \<le> unat (a - (sp - 8))" using that by (simp add: algebra_simps)
    then show ?thesis using ih that by (simp add: store64_outside)
  qed
  show ?case unfolding st using ih words out by (simp add: algebra_simps)
qed simp

text \<open>The words of a context, in the order in which they are pushed, and a context that lies at an address.\<close>

definition cpu_words :: "cpu \<Rightarrow> u64 list" where
  "cpu_words c = [c_ss c, c_rsp c, c_rflags c, c_cs c, c_rip c] @
     map (c_regs c) [RAX, RBX, RCX, RDX, RBP, RDI, RSI, R8, R9, R10, R11, R12, R13, R14, R15]"

definition frame_at :: "memory \<Rightarrow> u64 \<Rightarrow> cpu \<Rightarrow> bool" where
  "frame_at m sp c \<longleftrightarrow> (\<forall>i<20. load64 m (sp + 8 * of_nat i) = cpu_words c ! (19 - i))"

lemma length_cpu_words [simp]: "length (cpu_words c) = 20"
  by (simp add: cpu_words_def)

lemma save_context_words: "save_context c m = fold push (cpu_words c) (c_rsp c AND NOT 15, m)"
  by (simp add: save_context_def push_state_def interrupt_entry_def cpu_words_def)

lemma pushed_frame:
  assumes "fold push (cpu_words c) (base, m) = (sp, m1)"
  shows "sp = base - 160" "frame_at m1 sp c" "160 \<le> unat (a - sp) \<Longrightarrow> m1 a = m a"
proof -
  have "length (cpu_words c) < 2 ^ 60" by simp
  note f = fold_push [OF this, of base m, unfolded assms fst_conv snd_conv]
  show sp: "sp = base - 160" using f by simp
  show "frame_at m1 sp c"
    unfolding frame_at_def
  proof (intro allI impI)
    fix i :: nat assume i: "i < 20"
    then have "base - 8 * of_nat (Suc (19 - i)) = sp + 8 * of_nat i" by (simp add: sp of_nat_diff algebra_simps)
    moreover have "load64 m1 (base - 8 * of_nat (Suc (19 - i))) = cpu_words c ! (19 - i)"
      using f [THEN conjunct2, THEN conjunct1, rule_format, of "19 - i"] by simp
    ultimately show "load64 m1 (sp + 8 * of_nat i) = cpu_words c ! (19 - i)" by simp
  qed
  show "160 \<le> unat (a - sp) \<Longrightarrow> m1 a = m a" using f by (simp add: sp)
qed

lemma restored_frame:
  assumes "frame_at m sp c"
  shows "restore_context (sp, m) = c"
proof -
  note e = assms [unfolded frame_at_def, rule_format]
  have r: "c_regs (restore_context (sp, m)) x = c_regs c x" for x
    using e [of 0] e [of 1] e [of 2] e [of 3] e [of 4] e [of 5] e [of 6] e [of 7] e [of 8] e [of 9] e [of 10] e [of 11] e [of 12]
      e [of 13] e [of 14]
    by (cases x) (simp_all add: restore_context_def pop_state_def pop_reg_def pop_def iretq_def cpu_words_def Let_def add.assoc)
  then have "c_regs (restore_context (sp, m)) = c_regs c" by (rule ext)
  then show ?thesis
    using e [of 15] e [of 16] e [of 17] e [of 18] e [of 19]
    by (cases c) (simp add: restore_context_def pop_state_def pop_reg_def pop_def iretq_def cpu_words_def Let_def add.assoc)
qed

lemma frame_at_cong:
  assumes "\<And>a. unat (a - sp) < 160 \<Longrightarrow> m' a = m a"
  shows "frame_at m' sp c = frame_at m sp c"
proof -
  have "load64 m' (sp + 8 * of_nat i) = load64 m (sp + 8 * of_nat i)" if "i < 20" for i
  proof (rule load64_cong)
    fix j :: nat assume "j < 8"
    then have "unat (sp + of_nat (8 * i + j) - sp) < 160" using that by (subst unat_offset) simp_all
    from assms [OF this] show "m' (sp + 8 * of_nat i + of_nat j) = m (sp + 8 * of_nat i + of_nat j)"
      by (simp add: add.assoc)
  qed
  then show ?thesis by (simp add: frame_at_def)
qed

lemma signal_eoi_stack: "signal_eoi rax (sp, m) = (sp, store64 (sp - 8) rax m)"
  by (simp add: signal_eoi_def push_def pop_def)

section \<open>New processes\<close>

lemma initial_frame:
  fixes argc argv stack entry rbx rbp :: u64
  assumes "set_initial_stack argc argv stack entry rbx rbp m = (sp, m1)"
  shows "sp = set_process_stack stack" "168 \<le> unat (a - sp) \<Longrightarrow> m1 a = m a"
    "\<exists>c. frame_at m1 sp c \<and> restore_context (sp, m1) = c \<and> c_rip c = entry \<and> c_regs c RDI = argc \<and> c_regs c RSI = argv \<and>
       c_rsp c = stack \<and> c_rflags c = 0x202 \<and> c_cs c = 0x08 \<and> c_ss c = 0"
proof -
  define r where "r x = (case x of RBX \<Rightarrow> rbx | RCX \<Rightarrow> entry | RDX \<Rightarrow> stack | RBP \<Rightarrow> rbp | RDI \<Rightarrow> argc | RSI \<Rightarrow> argv | _ \<Rightarrow> 0)" for x
  define c where "c = \<lparr>c_regs = r, c_rip = entry, c_cs = 0x08, c_rflags = 0x202, c_rsp = stack, c_ss = 0\<rparr>"
  let ?m = "store64 (stack - 8) 0 m"
  have "fold push (cpu_words c) (stack - 8, ?m) = (sp, m1)"
    using assms by (auto simp: set_initial_stack_def cpu_words_def c_def r_def push_def)
  note f = pushed_frame [OF this]
  show "sp = set_process_stack stack" by (simp add: f(1) set_process_stack_def)
  have "restore_context (sp, m1) = c" by (rule restored_frame [OF f(2)])
  then show "\<exists>c. frame_at m1 sp c \<and> restore_context (sp, m1) = c \<and> c_rip c = entry \<and> c_regs c RDI = argc \<and> c_regs c RSI = argv \<and>
       c_rsp c = stack \<and> c_rflags c = 0x202 \<and> c_cs c = 0x08 \<and> c_ss c = 0"
    using f(2) by (intro exI [of _ c]) (simp add: c_def r_def)
  assume a: "168 \<le> unat (a - sp)"
  then have "m1 a = ?m a" by (intro f(3)) simp
  moreover have "(160 :: u64) \<le> a - sp" using a by (simp add: word_le_nat_alt)
  then have "unat (a - sp - 160) = unat (a - sp) - 160" by (simp only: unat_sub) simp
  then have "8 \<le> unat (a - (stack - 8))" using a by (simp add: f(1) algebra_simps)
  ultimately show "m1 a = m a" by (simp add: store64_outside)
qed

text \<open>
  C35. The first run of a process. From the stack that \<open>set_process_stack\<close> prepares, the end of
  the handler that first switches to the process enters its function with the number of
  arguments and their address in the registers of the first two parameters, with interrupts
  enabled, on the empty stack; and the stack pointer is the one that the process table keeps.
\<close>

theorem new_process_starts:
  "let (sp, m1) = set_initial_stack argc argv stack entry rbx rbp m; c = restore_context (sp, m1)
   in sp = set_process_stack stack \<and> c_rip c = entry \<and> c_regs c RDI = argc \<and> c_regs c RSI = argv \<and>
      c_rsp c = stack \<and> c_rflags c = 0x202 \<and> c_cs c = 0x08 \<and> c_ss c = 0"
proof -
  obtain sp m1 where s: "set_initial_stack argc argv stack entry rbx rbp m = (sp, m1)" by fastforce
  from initial_frame(1,3) [OF s] show ?thesis by (auto simp: s Let_def)
qed

section \<open>The switch\<close>

text \<open>The clock interrupt is the same with the work of the tick before.\<close>

lemma irq00_irq02: "irq00Handler tick body = irq02Handler (\<lambda>sp m. body sp (tick sp m))"
  by (intro ext) (simp add: irq00Handler_def irq02Handler_def)

lemma free_terminated_stack [simp]:
  "p_stack (process_table (k_procs (free_terminated_processes k)) j) = p_stack (process_table (k_procs k) j)"
proof (induction k rule: free_terminated_processes.induct)
  case (1 k)
  obtain r q where d: "dequeue_process (terminated_processes_queue (k_procs k)) = (r, q)" by fastforce
  show ?case
  proof (cases r)
    case None
    then show ?thesis using d by (subst free_terminated_processes.simps) (simp add: set_terminated_queue_def upd_procs_def)
  next
    case (Some i)
    from 1 [OF d [symmetric] Some] d Some show ?thesis
      by (subst free_terminated_processes.simps)
        (simp add: reap_def set_terminated_queue_def upd_procs_def upd_pcb_def Let_def)
  qed
qed

lemma set_next_stack:
  "j \<noteq> current_process ps \<Longrightarrow> p_stack (process_table (set_next_process st ps) j) = p_stack (process_table ps j)"
  by (simp add: set_next_process_def Let_def)

lemma choose_next_stack:
  assumes "p < PRIORITY_LEVELS" "choose_next p ps = Some ps'"
  shows "p_stack (process_table ps' j) = p_stack (process_table ps j)"
proof -
  have t: "process_table (snd (search_queue q s)) = process_table s" for q s
    by (simp add: search_queue_def split_beta)
  then have "process_table (snd (search_from p ps)) = process_table ps" by (simp add: search_from_def Let_def)
  then show ?thesis using assms(2) by (auto simp: choose_next_def next_loop_spec [OF assms(1)] split_beta)
qed

lemma scheduler_stacks:
  assumes "scheduler st k = Some (sp, k')" "j \<noteq> current_process (k_procs k)"
    and "current_process (k_procs (free_terminated_processes k)) = current_process (k_procs k)"
  shows "p_stack (process_table (k_procs k') j) = p_stack (process_table (k_procs k) j)"
proof -
  let ?k1 = "free_terminated_processes k" and ?k2 = "upd_procs (set_next_process st) (free_terminated_processes k)"
  have rp: "k_procs (snd (get_random_priority ?k2)) = set_next_process st (k_procs ?k1)"
    by (simp add: get_random_priority_def split_beta)
  have s: "p_stack (process_table (set_next_process st (k_procs ?k1)) j) = p_stack (process_table (k_procs k) j)"
    using set_next_stack [of j "k_procs ?k1" st] assms(2,3) by simp
  have "get_next_process ?k2 = Some (sp, k') \<Longrightarrow> ?thesis"
    using choose_next_stack [OF get_random_priority_less [of ?k2], of "k_procs (snd (get_random_priority ?k2))"] s
    by (auto simp: get_next_process_def split_beta rp split: option.splits)
  then show ?thesis using assms(1)
    by (auto simp: scheduler_def Let_def stop_system_def split: if_splits)
qed

text \<open>
  What the C code of a handler leaves alone: the frames of the processes in \<open>J\<close>, also those 8 bytes below the
  new stack pointer that signalling the end of the interrupt writes.
\<close>

definition spares :: "nat set \<Rightarrow> kernel \<Rightarrow> u64 \<Rightarrow> memory \<Rightarrow> memory \<Rightarrow> bool" where
  "spares J k' sp' m1 m2 \<longleftrightarrow> (\<forall>j\<in>J. \<forall>a. unat (a - p_stack (process_table (k_procs k') j)) < 160 \<longrightarrow>
     m2 a = m1 a \<and> 8 \<le> unat (a - (sp' - 8)))"

text \<open>
  C7. The switch. While processes are left, an activation of the scheduler through interrupt 34
  gives the processor exactly the context of the process that the scheduler chose: the
  registers, flags, instruction and stack pointer that were saved when that process was
  interrupted, or those it has now if it is chosen again. The context of the process that was
  interrupted lies at its stack pointer afterwards, and those of all others are still where they
  were, as long as the C code spares their frames.
\<close>

theorem context_switch:
  assumes "procs_initialized (k_procs k)" "sched_ok (k_procs k)" "all_room (k_procs k)" "\<not> first_time (k_procs k)"
    and "has_running_processes (k_procs (free_terminated_processes k))"
    and "save_context c m = (sp, m1)" "sp \<noteq> 0" "body sp m1 = (sp', m2)" "scheduler sp k = Some (sp', k')"
    and "current_process (k_procs k') \<in> J" "spares J k' sp' m1 m2"
    and "\<forall>j\<in>J. j \<noteq> current_process (k_procs k) \<longrightarrow> frame_at m1 (p_stack (process_table (k_procs k) j)) (ctx j)"
    and "now = ctx(current_process (k_procs k) := c)"
  shows "\<exists>m'. irq02Handler body c m = (now (current_process (k_procs k')), m') \<and>
    (\<forall>j\<in>J. frame_at m' (p_stack (process_table (k_procs k') j)) (now j))"
proof -
  let ?c = "current_process (k_procs k)" and ?c' = "current_process (k_procs k')" and ?m = "store64 (sp' - 8) sp' m2"
  let ?p = "\<lambda>j. p_stack (process_table (k_procs k') j)"
  have f: "sp' = ?p ?c'" "?p ?c = sp"
    using scheduler_facts [OF assms(1,7,2,3) refl] assms(4,5,9) by auto
  have kept: "?p j = p_stack (process_table (k_procs k) j)" if "j \<noteq> ?c" for j
    by (rule scheduler_stacks [OF assms(9) that]) (use free_terminated_keeps [OF assms(2)] in simp)
  have own: "frame_at m1 sp c" using pushed_frame(2) assms(6) unfolding save_context_words by blast
  have saved: "frame_at m1 (?p j) (now j)" if "j \<in> J" for j
    using that own f(2) kept assms(12,13) by (cases "j = ?c") auto
  have frames: "frame_at ?m (?p j) (now j)" if "j \<in> J" for j
  proof -
    have "?m a = m1 a" if "unat (a - ?p j) < 160" for a
      using assms(11) that \<open>j \<in> J\<close> by (simp add: spares_def store64_outside)
    from frame_at_cong [of "?p j" ?m m1, OF this] saved [OF that] show ?thesis by blast
  qed
  have "restore_context (sp', ?m) = now ?c'" unfolding f(1) by (rule restored_frame) (use frames assms(10) f(1) in metis)
  then have "irq02Handler body c m = (now ?c', ?m)"
    using assms(6,8) by (simp add: irq02Handler_def signal_eoi_stack)
  then show ?thesis using frames by blast
qed

lemma frame_at_restored: "frame_at m sp (restore_context (sp, m))"
proof -
  have e: "i < 20 \<Longrightarrow> i \<in> set [0..<20]" for i :: nat by simp
  have "list_all (\<lambda>i. load64 m (sp + 8 * of_nat i) = cpu_words (restore_context (sp, m)) ! (19 - i)) [0..<20]"
    by (simp add: upt_rec cpu_words_def restore_context_def pop_state_def pop_reg_def pop_def iretq_def Let_def add.assoc)
  then show ?thesis unfolding list_all_iff frame_at_def using e by blast
qed

lemma context_switch_witness:
  "\<forall>r m. \<exists>k (k' :: kernel) now m'. current_process (k_procs k) = 1 \<and> now 1 = \<lparr>c_regs = r, c_rip = 0x400100, c_cs = 0x08, c_rflags = 0x202, c_rsp = 0x2000, c_ss = 0\<rparr> \<and>
     irq02Handler (\<lambda>sp m. (fst (the (scheduler sp k)), m))
       \<lparr>c_regs = r, c_rip = 0x400100, c_cs = 0x08, c_rflags = 0x202, c_rsp = 0x2000, c_ss = 0\<rparr> m = (now (current_process (k_procs k')), m') \<and>
     frame_at m' (p_stack (process_table (k_procs k') 1)) \<lparr>c_regs = r, c_rip = 0x400100, c_cs = 0x08, c_rflags = 0x202, c_rsp = 0x2000, c_ss = 0\<rparr>"
proof (intro allI)
  fix r :: "reg \<Rightarrow> u64" and m :: memory
  define c where "c = \<lparr>c_regs = r, c_rip = 0x400100, c_cs = 0x08, c_rflags = 0x202, c_rsp = 0x2000, c_ss = 0\<rparr>"
  have rsp: "c_rsp c = 0x2000" by (simp add: c_def)
  let ?t = "(\<lambda>_. plain_pcb 0 TERMINATED)(0 := plain_pcb 0 READY, 1 := plain_pcb 7 RUNNING)"
  let ?k = "upd_procs (\<lambda>ps. ps\<lparr>process_count := 2\<rparr>) (table_kernel ?t 1)"
  have e: "dequeue_process zero_queue = (None, zero_queue)"
    by (simp add: dequeue_process_def zero_queue_def)
  have f: "free_terminated_processes ?k = set_terminated_queue zero_queue ?k"
    by (subst free_terminated_processes.simps) (simp add: e)
  have ok: "sched_ok (k_procs ?k)"
    by (rule sched_okI) (auto simp: queues_ok_def slot_ok_def)
  have room: "all_room (k_procs ?k)" by (simp add: all_room_def q_room_def zero_queue_def)
  have more: "has_running_processes (k_procs (free_terminated_processes ?k))"
    unfolding f by (simp add: has_running_processes_def set_terminated_queue_def)
  have misc: "procs_initialized (k_procs ?k)" "\<not> first_time (k_procs ?k)" "current_process (k_procs ?k) = 1" by simp_all
  obtain sp m1 where s: "save_context c m = (sp, m1)" by fastforce
  have sp: "sp = 0x1F60" using pushed_frame(1) [OF s [unfolded save_context_words]] by (simp add: rsp)
  have nz: "sp \<noteq> 0" by (simp add: sp)
  obtain sp' k' where sch: "scheduler sp ?k = Some (sp', k')" using scheduler_facts [OF misc(1) nz ok room refl] by blast
  have p: "sp' = p_stack (process_table (k_procs k') (current_process (k_procs k')))" "p_stack (process_table (k_procs k') 1) = sp"
    using scheduler_facts [OF misc(1) nz ok room refl] misc(2,3) more sch by auto
  have others: "p_stack (process_table (k_procs k') j) = 0" if "j \<noteq> 1" for j
    using scheduler_stacks [OF sch, of j] free_terminated_keeps [OF ok] that by (simp add: plain_pcb_def zero_pcb_def)
  have sp': "sp' \<in> {0, 0x1F60}" using p others sp by (cases "current_process (k_procs k') = 1") auto
  have far: "8 \<le> unat (a - (sp' - 8))" if "unat (a - q) < 160" "q \<in> {0, 0x1F60}" for a q :: u64
  proof -
    have add: "8 \<le> unat (a - q + d)" if "8 \<le> unat d" "unat d < 0xFFFFFFFFFFFFFF00" for d
      using that \<open>unat (a - q) < 160\<close> unat_add_lem [of "a - q" d] by simp
    have e: "a - q + (q - (sp' - 8)) = a - (sp' - 8)" by simp
    have "8 \<le> unat (q - (sp' - 8))" "unat (q - (sp' - 8)) < 0xFFFFFFFFFFFFFF00" using sp' that(2) by auto
    from add [OF this] show ?thesis unfolding e .
  qed
  have "spares UNIV k' sp' m1 m1"
    unfolding spares_def using far others p(2) sp by (metis insertCI)
  moreover define now where "now = (\<lambda>_. restore_context (0, m1))(current_process (k_procs ?k) := c)"
  moreover have "\<forall>j\<in>UNIV. j \<noteq> current_process (k_procs ?k) \<longrightarrow>
      frame_at m1 (p_stack (process_table (k_procs ?k) j)) ((\<lambda>_. restore_context (0, m1)) j)"
    using frame_at_restored [of m1 0] by (auto simp: plain_pcb_def zero_pcb_def)
  ultimately obtain m' where r: "irq02Handler (\<lambda>sp m. (fst (the (scheduler sp ?k)), m)) c m = (now (current_process (k_procs k')), m')"
      "\<forall>j\<in>UNIV. frame_at m' (p_stack (process_table (k_procs k') j)) (now j)"
    using context_switch [OF misc(1) ok room misc(2) more s nz _ sch UNIV_I,
      of "\<lambda>sp m. (fst (the (scheduler sp ?k)), m)" m1 "\<lambda>_. restore_context (0, m1)" now] sch by auto
  have n: "now 1 = c" by (simp add: now_def)
  then have fr: "now 1 = c" "frame_at m' (p_stack (process_table (k_procs k') 1)) c" using r(2) by auto
  show "\<exists>k (k' :: kernel) now m'. current_process (k_procs k) = 1 \<and> now 1 = \<lparr>c_regs = r, c_rip = 0x400100, c_cs = 0x08, c_rflags = 0x202, c_rsp = 0x2000, c_ss = 0\<rparr> \<and>
     irq02Handler (\<lambda>sp m. (fst (the (scheduler sp k)), m))
       \<lparr>c_regs = r, c_rip = 0x400100, c_cs = 0x08, c_rflags = 0x202, c_rsp = 0x2000, c_ss = 0\<rparr> m = (now (current_process (k_procs k')), m') \<and>
     frame_at m' (p_stack (process_table (k_procs k') 1)) \<lparr>c_regs = r, c_rip = 0x400100, c_cs = 0x08, c_rflags = 0x202, c_rsp = 0x2000, c_ss = 0\<rparr>"
    unfolding c_def [symmetric]
    by (rule exI [of _ ?k], rule exI [of _ k'], rule exI [of _ now], rule exI [of _ m'])
      (intro conjI misc(3) fr r(1))
qed

end
