(* ===== verification/User_Strings.thy ===== *)
theory User_Strings
  imports Kernel_Lib "HOL-Library.List_Lexorder"
begin

text \<open>
  Userland/UserCodeModule/gna-libs/gnastring.c over the memory of the process. A \<open>char\<close> is
  signed; an \<open>int\<close> is an integer, since no string is as long as \<open>2 ^ 31\<close>. A function that scans
  for a zero byte is \<open>None\<close> where the C loop does not end.
\<close>

section \<open>Characters\<close>

definition char_int :: "u8 \<Rightarrow> int" where
  "char_int c = sint c"

definition uchar_int :: "u8 \<Rightarrow> int" where
  "uchar_int c = uint c"

definition tolower :: "int \<Rightarrow> int" where
  "tolower c = (if c \<ge> 65 \<and> c \<le> 90 then c + (97 - 65) else c)"

definition toupper :: "int \<Rightarrow> int" where
  "toupper c = (if c \<ge> 97 \<and> c \<le> 122 then c - (97 - 65) else c)"

definition isalpha :: "int \<Rightarrow> bool" where
  "isalpha c \<longleftrightarrow> (c \<ge> 65 \<and> c \<le> 90) \<or> (c \<ge> 97 \<and> c \<le> 122)"

definition isdigit :: "int \<Rightarrow> bool" where
  "isdigit c \<longleftrightarrow> c \<ge> 48 \<and> c \<le> 57"

definition isalnum :: "int \<Rightarrow> bool" where
  "isalnum c \<longleftrightarrow> isalpha c \<or> isdigit c"

definition is_vowel :: "int \<Rightarrow> bool" where
  "is_vowel c0 = (let c = tolower c0 in c = 97 \<or> c = 101 \<or> c = 105 \<or> c = 111 \<or> c = 117)"

section \<open>Strings\<close>

partial_function (option) strlen_from :: "memory \<Rightarrow> u64 \<Rightarrow> nat \<Rightarrow> nat option" where
  "strlen_from m str len = (if m (str + of_nat len) \<noteq> 0 then strlen_from m str (Suc len) else Some len)"

definition user_strlen :: "memory \<Rightarrow> u64 \<Rightarrow> nat option" where
  "user_strlen m str = strlen_from m str 0"

partial_function (option) strcpy_from :: "u64 \<Rightarrow> u64 \<Rightarrow> nat \<Rightarrow> memory \<Rightarrow> memory option" where
  "strcpy_from dest src i m =
     (let c = m (src + of_nat i); m' = m(dest + of_nat i := c)
      in if c \<noteq> 0 then strcpy_from dest src (Suc i) m' else Some m')"

definition strcpy :: "u64 \<Rightarrow> u64 \<Rightarrow> memory \<Rightarrow> memory option" where
  "strcpy dest src m = strcpy_from dest src 0 m"

text \<open>The second loop of \<open>strncpy\<close> fills up with zeros; the first one is the kernel's.\<close>

fun zero_fill :: "u64 \<Rightarrow> nat \<Rightarrow> nat \<Rightarrow> memory \<Rightarrow> memory" where
  "zero_fill dest i 0 m = m"
| "zero_fill dest i (Suc n) m = zero_fill dest (Suc i) n (m(dest + of_nat i := 0))"

definition user_strncpy :: "u64 \<Rightarrow> u64 \<Rightarrow> int \<Rightarrow> memory \<Rightarrow> memory" where
  "user_strncpy dest src n m =
     (let (i, m') = strncpy_loop dest src (nat n) 0 m in zero_fill dest i (nat n - i) m')"

partial_function (option) strcmp :: "memory \<Rightarrow> u64 \<Rightarrow> u64 \<Rightarrow> int option" where
  "strcmp m s1 s2 =
     (if m s1 \<noteq> 0 \<and> m s1 = m s2 then strcmp m (s1 + 1) (s2 + 1)
      else Some (uchar_int (m s1) - uchar_int (m s2)))"

text \<open>\<open>n--\<close> takes effect also when the loop stops.\<close>

function strncmp_loop :: "memory \<Rightarrow> u64 \<Rightarrow> u64 \<Rightarrow> int \<Rightarrow> int" where
  "strncmp_loop m s1 s2 n =
     (if n > 0 \<and> m s1 \<noteq> 0 \<and> m s1 = m s2 then strncmp_loop m (s1 + 1) (s2 + 1) (n - 1)
      else if n - 1 < 0 then 0 else uchar_int (m s1) - uchar_int (m s2))"
  by pat_completeness auto
termination
  by (relation "measure (\<lambda>(m, s1, s2, n). nat n)") auto

declare strncmp_loop.simps [simp del]

definition strncmp :: "memory \<Rightarrow> u64 \<Rightarrow> u64 \<Rightarrow> int \<Rightarrow> int" where
  "strncmp m s1 s2 n = (if n = 0 then 0 else strncmp_loop m s1 s2 n)"

partial_function (option) strchr :: "memory \<Rightarrow> u64 \<Rightarrow> int \<Rightarrow> u64 option" where
  "strchr m str c =
     (if m str \<noteq> 0 then (if char_int (m str) = c then Some str else strchr m (str + 1) c)
      else if c = 0 then Some str else Some 0)"

partial_function (option) strcasecmp :: "memory \<Rightarrow> u64 \<Rightarrow> u64 \<Rightarrow> int option" where
  "strcasecmp m s1 s2 =
     (if m s1 \<noteq> 0 \<and> tolower (char_int (m s1)) = tolower (char_int (m s2)) then strcasecmp m (s1 + 1) (s2 + 1)
      else Some (tolower (uchar_int (m s1)) - tolower (uchar_int (m s2))))"

function strncasecmp_loop :: "memory \<Rightarrow> u64 \<Rightarrow> u64 \<Rightarrow> int \<Rightarrow> int" where
  "strncasecmp_loop m s1 s2 n =
     (if n > 0 \<and> m s1 \<noteq> 0 \<and> tolower (char_int (m s1)) = tolower (char_int (m s2))
      then strncasecmp_loop m (s1 + 1) (s2 + 1) (n - 1)
      else if n - 1 < 0 then 0 else tolower (uchar_int (m s1)) - tolower (uchar_int (m s2)))"
  by pat_completeness auto
termination
  by (relation "measure (\<lambda>(m, s1, s2, n). nat n)") auto

declare strncasecmp_loop.simps [simp del]

definition strncasecmp :: "memory \<Rightarrow> u64 \<Rightarrow> u64 \<Rightarrow> int \<Rightarrow> int" where
  "strncasecmp m s1 s2 n = (if n = 0 then 0 else strncasecmp_loop m s1 s2 n)"

section \<open>Strings as lists\<close>

text \<open>The bytes of the string at an address, without the zero byte that ends it.\<close>

primrec cstring :: "memory \<Rightarrow> u64 \<Rightarrow> u8 list \<Rightarrow> bool" where
  "cstring m p [] \<longleftrightarrow> m p = 0"
| "cstring m p (c # cs) \<longleftrightarrow> m p = c \<and> c \<noteq> 0 \<and> cstring m (p + 1) cs"

lemma cstring_nth: "cstring m p xs \<Longrightarrow> i < length xs \<Longrightarrow> m (p + of_nat i) = xs ! i \<and> xs ! i \<noteq> 0"
proof (induction xs arbitrary: p i)
  case (Cons c xs)
  then show ?case using Cons.IH [of "p + 1" "i - 1"] by (cases i) (auto simp: add.assoc)
qed simp

lemma cstring_end: "cstring m p xs \<Longrightarrow> m (p + of_nat (length xs)) = 0"
proof (induction xs arbitrary: p)
  case (Cons c xs)
  then show ?case using Cons.IH [of "p + 1"] by (simp add: add.assoc)
qed simp

lemma cstring_string_at: "cstring m p xs \<Longrightarrow> string_at m p (length xs)"
  using cstring_nth cstring_end by (fastforce simp: string_at_def)

lemma cstring_append:
  "cstring m p (xs @ ys) \<longleftrightarrow> (\<forall>i<length xs. m (p + of_nat i) = xs ! i) \<and> 0 \<notin> set xs \<and> cstring m (p + of_nat (length xs)) ys"
proof (induction xs arbitrary: p)
  case (Cons c xs)
  show ?case unfolding append_Cons cstring.simps Cons.IH
    by (auto simp: add.assoc less_Suc_eq_0_disj)
qed simp

lemma cstring_cong:
  "(\<And>i. i \<le> length xs \<Longrightarrow> m' (p + of_nat i) = m (p + of_nat i)) \<Longrightarrow> cstring m' p xs = cstring m p xs"
proof (induction xs arbitrary: p)
  case Nil
  from Nil [of 0] show ?case by simp
next
  case (Cons c xs)
  have "m' p = m p" using Cons.prems [of 0] by simp
  moreover have "m' (p + 1 + of_nat i) = m (p + 1 + of_nat i)" if "i \<le> length xs" for i
    using Cons.prems [of "Suc i"] that by (simp add: add.assoc)
  ultimately show ?case using Cons.IH [of "p + 1"] by simp
qed

lemma cstring_unique: "cstring m p xs \<Longrightarrow> cstring m p ys \<Longrightarrow> xs = ys"
proof (induction xs arbitrary: p ys)
  case Nil
  then show ?case by (cases ys) auto
next
  case (Cons c xs)
  then show ?case by (cases ys) auto
qed

lemma strlen_from_eq: "cstring m (p + of_nat i) xs \<Longrightarrow> strlen_from m p i = Some (i + length xs)"
proof (induction xs arbitrary: i)
  case Nil
  then show ?case by (subst strlen_from.simps) simp
next
  case (Cons c xs)
  have "cstring m (p + of_nat (Suc i)) xs" using Cons.prems by (simp add: add_ac)
  from Cons.IH [OF this] show ?case using Cons.prems by (subst strlen_from.simps) simp
qed

lemma user_strlen_eq: "cstring m p xs \<Longrightarrow> user_strlen m p = Some (length xs)"
  using strlen_from_eq [of m p 0 xs] by (simp add: user_strlen_def)

text \<open>
  \<open>strcmp\<close> compares strings: on any two strings in memory it returns, and the sign of the
  result is their lexicographic order by unsigned bytes; in particular it is 0 exactly for
  equal strings.
\<close>

lemma strcmp_spec:
  assumes "cstring m p xs" "cstring m q ys"
  shows "\<exists>r. strcmp m p q = Some r \<and> (r = 0 \<longleftrightarrow> xs = ys) \<and> (r < 0 \<longleftrightarrow> xs < ys)"
  using assms
proof (induction xs arbitrary: p q ys)
  case Nil
  have "uint c \<ge> 0 \<and> (uint c = 0 \<longleftrightarrow> c = 0)" for c :: u8 by (simp add: unsigned_eq_0_iff)
  with Nil show ?case by (subst strcmp.simps; cases ys) (auto simp: uchar_int_def order_less_le)
next
  case (Cons c xs)
  show ?case
  proof (cases "\<exists>zs. ys = c # zs")
    case True
    then obtain zs where ys: "ys = c # zs" by blast
    with Cons.prems have "cstring m (p + 1) xs" "cstring m (q + 1) zs" "m p = c" "m q = c" "c \<noteq> 0" by auto
    with Cons.IH ys show ?thesis by (subst strcmp.simps) simp
  next
    case False
    have "m q \<noteq> c" using False Cons.prems by (cases ys) auto
    moreover have "(uint c < uint (m q)) = (c # xs < ys)" "c # xs \<noteq> ys"
      using False Cons.prems by (cases ys; auto simp: word_less_def)+
    moreover have "(uint c = uint (m q)) = (c = m q)" by (rule word_uint_eq_iff [symmetric])
    ultimately show ?thesis using Cons.prems by (subst strcmp.simps) (auto simp: uchar_int_def)
  qed
qed

lemma char_int_eq_iff [simp]: "char_int a = char_int b \<longleftrightarrow> a = b"
  by (auto simp: char_int_def intro: signed_word_eqI)

lemma strchr_found:
  "cstring m p (xs @ c # ys) \<Longrightarrow> c \<notin> set xs \<Longrightarrow> strchr m p (char_int c) = Some (p + of_nat (length xs))"
proof (induction xs arbitrary: p)
  case Nil
  then show ?case by (subst strchr.simps) simp
next
  case (Cons x xs)
  then have "strchr m (p + 1) (char_int c) = Some (p + 1 + of_nat (length xs))" by simp
  then show ?case using Cons.prems by (subst strchr.simps) (auto simp: add.assoc)
qed

lemma strchr_none:
  "cstring m p xs \<Longrightarrow> c \<notin> set xs \<Longrightarrow> c \<noteq> 0 \<Longrightarrow> strchr m p (char_int c) = Some 0"
proof (induction xs arbitrary: p)
  case Nil
  then have "char_int c \<noteq> 0" using char_int_eq_iff [of c 0] by (simp add: char_int_def)
  then show ?case using Nil by (subst strchr.simps) simp
next
  case (Cons x xs)
  then have "strchr m (p + 1) (char_int c) = Some 0" by simp
  then show ?case using Cons.prems by (subst strchr.simps) auto
qed

text \<open>
  Copying a string with its zero byte, where the destination lies outside the source: the
  memory is the old one with the string at the destination.
\<close>

definition with_bytes :: "memory \<Rightarrow> u64 \<Rightarrow> u8 list \<Rightarrow> memory" where
  "with_bytes m p xs = (\<lambda>a. if unat (a - p) < length xs then xs ! unat (a - p) else m a)"

lemma with_bytes_Nil [simp]: "with_bytes m p [] = m"
  by (simp add: with_bytes_def)

lemma with_bytes_snoc:
  assumes "length xs < 2 ^ 64"
  shows "(with_bytes m p xs)(p + of_nat (length xs) := c) = with_bytes m p (xs @ [c])"
proof (rule ext)
  fix a
  show "((with_bytes m p xs)(p + of_nat (length xs) := c)) a = with_bytes m p (xs @ [c]) a"
    using at_offset [OF assms, of a p] by (auto simp: with_bytes_def nth_append less_Suc_eq)
qed

lemma with_bytes_at:
  assumes "i < length xs" "length xs \<le> 2 ^ 64"
  shows "with_bytes m p xs (p + of_nat i) = xs ! i"
proof -
  have "unat (p + of_nat i - p :: u64) = i" by (rule unat_offset) (use assms in simp)
  then show ?thesis using assms(1) by (simp add: with_bytes_def)
qed

lemma with_bytes_outside: "length xs \<le> unat (a - p) \<Longrightarrow> with_bytes m p xs a = m a"
  by (simp add: with_bytes_def)

lemma cstring_with_bytes:
  assumes "length xs < 2 ^ 64" "0 \<notin> set xs"
  shows "cstring (with_bytes m p (xs @ [0])) p xs"
proof -
  let ?m = "with_bytes m p (xs @ [0])"
  have "?m (p + of_nat i) = (xs @ [0]) ! i" if "i < length (xs @ [0])" for i
    by (rule with_bytes_at [OF that]) (use assms(1) in simp)
  note at = this
  have "\<forall>i<length xs. ?m (p + of_nat i) = xs ! i" using at by (simp add: nth_append)
  moreover have "?m (p + of_nat (length xs)) = 0" using at [of "length xs"] by simp
  ultimately show ?thesis using cstring_append [of ?m p xs "[]"] assms(2) by simp
qed

lemma cstring_elsewhere:
  assumes "cstring m q ys" "\<And>i. i \<le> length ys \<Longrightarrow> length xs \<le> unat (q + of_nat i - p)"
  shows "cstring (with_bytes m p xs) q ys"
  using assms(1) by (subst cstring_cong [of ys _ q m]) (simp_all add: with_bytes_outside assms(2))

lemma strcpy_from_eq:
  assumes "cstring m src (xs @ ys)" "Suc (length (xs @ ys)) < 2 ^ 64"
    and "\<And>i. i \<le> length (xs @ ys) \<Longrightarrow> Suc (length (xs @ ys)) \<le> unat (src + of_nat i - dest)"
  shows "strcpy_from dest src (length xs) (with_bytes m dest xs) = Some (with_bytes m dest (xs @ ys @ [0]))"
  using assms
proof (induction ys arbitrary: xs)
  case Nil
  have src: "with_bytes m dest xs (src + of_nat (length xs)) = m (src + of_nat (length xs))"
    by (rule with_bytes_outside) (use Nil.prems(3) [of "length xs"] in simp)
  have "m (src + of_nat (length xs)) = 0" using cstring_end [OF Nil.prems(1)] by simp
  then show ?case using Nil.prems(2) src by (subst strcpy_from.simps) (simp add: with_bytes_snoc Let_def)
next
  case (Cons y ys)
  have src: "with_bytes m dest xs (src + of_nat (length xs)) = m (src + of_nat (length xs))"
    by (rule with_bytes_outside) (use Cons.prems(3) [of "length xs"] in simp)
  have y: "m (src + of_nat (length xs)) = y" "y \<noteq> 0" using Cons.prems(1) by (auto simp: cstring_append)
  have "strcpy_from dest src (length (xs @ [y])) (with_bytes m dest (xs @ [y])) = Some (with_bytes m dest ((xs @ [y]) @ ys @ [0]))"
    by (rule Cons.IH) (use Cons.prems in simp_all)
  then show ?case using Cons.prems(2) src y by (subst strcpy_from.simps) (simp add: with_bytes_snoc Let_def)
qed

lemma strcpy_eq:
  assumes "cstring m src xs" "Suc (length xs) < 2 ^ 64"
    and "\<And>i. i \<le> length xs \<Longrightarrow> Suc (length xs) \<le> unat (src + of_nat i - dest)"
  shows "strcpy dest src m = Some (with_bytes m dest (xs @ [0]))"
  using strcpy_from_eq [of m src "[]" xs dest] assms by (simp add: strcpy_def)

end
