(* ===== verification/User_Lib.thy ===== *)
theory User_Lib
  imports User_Strings Video
begin

text \<open>
  Userland/UserCodeModule/gna-libs/gnalib.c without the calls that only pass their arguments
  to the kernel: conversions, the clock and the random numbers.
\<close>

section \<open>Numbers and strings\<close>

text \<open>
  \<open>itoa\<close> is the code of the kernel's \<open>uint_to_base\<close>: the digits, the zero byte behind them and
  the reversal in place. Its last argument is not used.
\<close>

definition itoa_bytes :: "u64 \<Rightarrow> u32 \<Rightarrow> (u32 \<times> u8 list) option" where
  "itoa_bytes v base =
     (case digits_loop v base [] of
        None \<Rightarrow> None
      | Some digits \<Rightarrow> Some (of_nat (length digits), reverse_loop (digits @ [0]) 0 (length digits - 1)))"

definition itoa :: "u64 \<Rightarrow> u64 \<Rightarrow> u32 \<Rightarrow> memory \<Rightarrow> (u32 \<times> memory) option" where
  "itoa v buffer base m = map_option (\<lambda>(n, bytes). (n, with_bytes m buffer bytes)) (itoa_bytes v base)"

partial_function (option) atoi_blanks :: "memory \<Rightarrow> u64 \<Rightarrow> u64 option" where
  "atoi_blanks m str = (if m str = 32 \<or> m str = 9 then atoi_blanks m (str + 1) else Some str)"

text \<open>\<open>result\<close> is a 32 bit integer.\<close>

partial_function (option) atoi_digits :: "memory \<Rightarrow> u64 \<Rightarrow> u32 \<Rightarrow> u32 option" where
  "atoi_digits m str result =
     (if char_int (m str) \<ge> 48 \<and> char_int (m str) \<le> 57
      then atoi_digits m (str + 1) (result * 10 + (scast (m str) - 48)) else Some result)"

definition atoi :: "memory \<Rightarrow> u64 \<Rightarrow> int option" where
  "atoi m str =
     (case atoi_blanks m str of
        None \<Rightarrow> None
      | Some s \<Rightarrow>
          let (sign, s') = (if m s = 45 then (-1, s + 1) else if m s = 43 then (1, s + 1) else (1, s))
          in map_option (\<lambda>result. sint (result * sign)) (atoi_digits m s' 0))"

section \<open>Time\<close>

record user_time =
  ut_day :: int
  ut_month :: int
  ut_year :: int
  ut_hour :: int
  ut_min :: int
  ut_sec :: int

definition get_time :: user_time where
  "get_time = \<lparr>ut_day = 0, ut_month = 0, ut_year = 0, ut_hour = 0, ut_min = 0, ut_sec = 0\<rparr>"

definition IS_LEAP_YEAR :: "int \<Rightarrow> bool" where
  "IS_LEAP_YEAR year \<longleftrightarrow> year mod 4 = 0 \<and> year mod 100 \<noteq> 0 \<or> year mod 400 = 0"

definition user_days_in_month :: "int list" where
  "user_days_in_month = [0, 31, 28, 31, 30, 31, 30, 31, 31, 30, 31, 30, 31]"

definition time_of :: "user_time \<Rightarrow> u64" where
  "time_of t =
     (let total_years = word_of_int (ut_year t - 1970);
          leap_days = of_nat (length (filter IS_LEAP_YEAR [1970..ut_year t - 1]));
          months = sum_list (map (\<lambda>m. word_of_int (user_days_in_month ! nat m) +
            (if m = 2 \<and> IS_LEAP_YEAR (ut_year t) then 1 else 0)) [1..ut_month t - 1]);
          days = total_years * 365 + leap_days + months + word_of_int (ut_day t - 1)
      in days * 86400 + word_of_int (ut_hour t * 3600) + word_of_int (ut_min t * 60) + word_of_int (ut_sec t))"

definition user_clock :: u64 where
  "user_clock = time_of get_time"

definition get_ticks :: u64 where
  "get_ticks = 0"

section \<open>Random numbers\<close>

definition RAND_MAX :: u32 where "RAND_MAX = 0x7FFFFFFF"

definition srand :: "u32 \<Rightarrow> u32" where
  "srand seed = seed"

text \<open>The number is also the next state.\<close>

definition rand :: "u32 \<Rightarrow> u32" where
  "rand random_next = (random_next * 1103515245 + 12345) mod RAND_MAX"

section \<open>Round trip\<close>

lemma digits_loop_decimal:
  "digits_loop v 10 buf = Some ds \<Longrightarrow> \<forall>c\<in>set buf. 48 \<le> unat c \<and> unat c \<le> 57 \<Longrightarrow> \<forall>c\<in>set ds. 48 \<le> unat c \<and> unat c \<le> 57"
proof (induction "unat v" arbitrary: v buf rule: less_induct)
  case less
  have "unat (v mod 10) < 10" by (simp add: unat_mod)
  then have "48 \<le> unat (digit_char (v mod 10)) \<and> unat (digit_char (v mod 10)) \<le> 57"
    using unat_digit_char [of "v mod 10"] by simp
  then have buf: "\<forall>c\<in>set (buf @ [digit_char (v mod 10)]). 48 \<le> unat c \<and> unat c \<le> 57" using less.prems(2) by auto
  show ?case
  proof (cases "v div 10 = 0")
    case True
    then have "ds = buf @ [digit_char (v mod 10)]" using less.prems(1) by (simp add: digits_loop.simps [of v] Let_def)
    then show ?thesis using buf by simp
  next
    case False
    then have r: "digits_loop (v div 10) 10 (buf @ [digit_char (v mod 10)]) = Some ds"
      using less.prems(1) by (simp add: digits_loop.simps [of v] Let_def)
    have "v \<noteq> 0" using False by auto
    then have "unat (v div 10) < unat v" by (simp add: unat_div unat_gt_0)
    from less.hyps [OF this r buf] show ?thesis .
  qed
qed

lemma signed_take_bit_nat: "n < 2 ^ k \<Longrightarrow> signed_take_bit k (int n) = int n"
  by (rule signed_take_bit_int_eq_self) (auto intro: order_trans [of _ 0])

lemma sint_of_nat_small: "n < 2 ^ 31 \<Longrightarrow> sint (of_nat n :: u32) = int n"
  by (simp add: sint_uint unsigned_of_nat take_bit_nat_eq_self signed_take_bit_nat)

lemma char_int_small:
  assumes "unat c < 128"
  shows "char_int c = int (unat c)"
proof -
  have u: "uint c = int (unat c)" by simp
  show ?thesis unfolding char_int_def sint_uint u using signed_take_bit_nat [of "unat c" 7] assms by simp
qed

lemma digit_scast:
  assumes "48 \<le> unat c" "unat c \<le> 57"
  shows "48 \<le> char_int c \<and> char_int c \<le> 57" "(scast c - 48 :: u32) = of_nat (digit_value c)"
proof -
  have s: "char_int c = int (unat c)" by (rule char_int_small) (use assms in simp)
  then show "48 \<le> char_int c \<and> char_int c \<le> 57" using assms by linarith
  have "(scast c :: u32) = of_nat (unat c)"
    using s by (simp add: char_int_def scast_eq)
  moreover have "digit_value c = unat c - 48" using assms(2) by (simp add: digit_value_def)
  ultimately show "(scast c - 48 :: u32) = of_nat (digit_value c)" using assms(1) by (simp add: of_nat_diff)
qed

lemma atoi_digits_eq:
  "cstring m p ds \<Longrightarrow> \<forall>c\<in>set ds. 48 \<le> unat c \<and> unat c \<le> 57 \<Longrightarrow>
     atoi_digits m p (of_nat r) = Some (of_nat (foldl (\<lambda>n c. n * 10 + digit_value c) r ds))"
proof (induction ds arbitrary: p r)
  case Nil
  then show ?case by (subst atoi_digits.simps) (simp add: char_int_def)
next
  case (Cons c ds)
  then have c: "48 \<le> unat c" "unat c \<le> 57" by auto
  note d = digit_scast [OF c]
  have "of_nat r * 10 + (scast c - 48) = (of_nat (r * 10 + digit_value c) :: u32)" using d(2) by simp
  moreover have "atoi_digits m (p + 1) (of_nat (r * 10 + digit_value c)) =
      Some (of_nat (foldl (\<lambda>n c. n * 10 + digit_value c) (r * 10 + digit_value c) ds))"
    by (rule Cons.IH) (use Cons.prems in simp_all)
  ultimately show ?case using Cons.prems c d(1) by (subst atoi_digits.simps) simp
qed

lemma itoa_decimal:
  "\<exists>ds. itoa v p 10 m = Some (of_nat (length ds), with_bytes m p (ds @ [0])) \<and> ds \<noteq> [] \<and>
     numeral_value 10 ds = unat v \<and> (\<forall>c\<in>set ds. 48 \<le> unat c \<and> unat c \<le> 57) \<and> length ds \<le> 20"
proof -
  obtain ds where ds: "digits_loop v 10 [] = Some ds" "ds \<noteq> []" "numeral_value 10 (rev ds) = unat v"
      "10 ^ (length ds - 1) \<le> max 1 (unat v)"
    using digits_loop_spec [of 10 v "[]"] by auto
  have "length ds \<le> 20"
  proof (rule ccontr)
    assume "\<not> length ds \<le> 20"
    then have "(10 :: nat) ^ 20 \<le> 10 ^ (length ds - 1)" by (intro power_increasing) simp_all
    also have "\<dots> \<le> max 1 (unat v)" by (rule ds(4))
    also have "\<dots> < 2 ^ 64" using unsigned_less [of v] by simp
    finally show False by simp
  qed
  moreover have "itoa v p 10 m = Some (of_nat (length (rev ds)), with_bytes m p (rev ds @ [0]))"
    using ds(1) reverse_loop_rev [OF ds(2)] by (simp add: itoa_def itoa_bytes_def)
  moreover have "\<forall>c\<in>set (rev ds). 48 \<le> unat c \<and> unat c \<le> 57" using digits_loop_decimal [OF ds(1)] by simp
  ultimately show ?thesis using ds(2,3) by (intro exI [of _ "rev ds"]) simp
qed

text \<open>
  C17. What \<open>itoa\<close> writes in base ten, \<open>atoi\<close> reads back: for every number below \<open>2 ^ 31\<close> and
  every buffer the string left in memory is read as the number.
\<close>

theorem itoa_atoi:
  assumes "unat v < 2 ^ 31"
  shows "\<exists>n m'. itoa v p 10 m = Some (n, m') \<and> atoi m' p = Some (int (unat v))"
proof -
  obtain ds where ds: "itoa v p 10 m = Some (of_nat (length ds), with_bytes m p (ds @ [0]))" "ds \<noteq> []"
      "numeral_value 10 ds = unat v" "\<forall>c\<in>set ds. 48 \<le> unat c \<and> unat c \<le> 57" "length ds \<le> 20"
    using itoa_decimal by blast
  let ?m = "with_bytes m p (ds @ [0])"
  have z: "0 \<notin> set ds" using ds(4) by (metis not_numeral_le_zero unat_0)
  have c: "cstring ?m p ds" by (rule cstring_with_bytes [OF _ z]) (use ds(5) in simp)
  have "atoi_digits ?m p (of_nat 0) = Some (of_nat (foldl (\<lambda>n c. n * 10 + digit_value c) 0 ds))"
    by (rule atoi_digits_eq [OF c ds(4)])
  then have a: "atoi_digits ?m p 0 = Some (of_nat (unat v))" using ds(3) by (simp add: numeral_value_def)
  obtain d where d: "?m p = d" "48 \<le> unat d" using c ds(2,4) by (cases ds) auto
  then have nd: "d \<noteq> 32" "d \<noteq> 9" "d \<noteq> 45" "d \<noteq> 43" by auto
  have b: "atoi_blanks ?m p = Some p" using d(1) nd by (subst atoi_blanks.simps) simp
  have "sint (of_nat (unat v) :: u32) = int (unat v)" by (rule sint_of_nat_small [OF assms])
  then have "atoi ?m p = Some (int (unat v))"
    using a b d(1) nd by (simp add: atoi_def)
  then show ?thesis using ds(1) by blast
qed

theorem itoa_atoi_witness:
  "\<forall>m. \<exists>n m'. itoa 2025 0x1000 10 m = Some (n, m') \<and> atoi m' 0x1000 = Some 2025"
  using itoa_atoi [of 2025 "0x1000"] by auto

text \<open>
  The clock of the library stands still: \<open>get_time\<close> is a stub, and a year that fits into a
  \<open>char\<close> is before 1970.
\<close>

lemma user_clock_constant: "user_clock = - (1970 * 365 + 1) * 86400"
  by (simp add: user_clock_def time_of_def get_time_def Let_def)

lemma rand_below: "rand s < RAND_MAX"
proof -
  have "unat (rand s) < unat RAND_MAX" unfolding rand_def unat_mod by (rule mod_less_divisor) (simp add: RAND_MAX_def)
  then show ?thesis by (simp add: word_less_nat_alt)
qed
end
