(* ===== verification/User_IO.thy ===== *)
theory User_IO
  imports User_Lib
begin

text \<open>
  Userland/UserCodeModule/gna-libs/gnaio.c. The arguments behind a format are a list of 64 bit
  registers, of which an \<open>int\<close> takes the low half; reading more arguments than there are is
  \<open>None\<close>. A call that prints gives the bytes it hands to the \<open>write\<close> system call.
\<close>

section \<open>Formatting\<close>

text \<open>The count of characters so far and the memory; \<open>buf\<close> may be null.\<close>

type_synonym fmt_state = "u32 \<times> memory"

definition room :: "u32 \<Rightarrow> u32 \<Rightarrow> bool" where
  "room sz count \<longleftrightarrow> sz = 0 \<or> count < sz - 1"

definition store_char :: "u64 \<Rightarrow> u8 \<Rightarrow> fmt_state \<Rightarrow> fmt_state" where
  "store_char buf c st = (fst st + 1, (snd st)(buf + ucast (fst st) := c))"

definition put_char :: "u64 \<Rightarrow> u8 \<Rightarrow> fmt_state \<Rightarrow> fmt_state" where
  "put_char buf c st = (if buf \<noteq> 0 then store_char buf c st else (fst st + 1, snd st))"

fun put_chars :: "u64 \<Rightarrow> u32 \<Rightarrow> u8 list \<Rightarrow> fmt_state \<Rightarrow> fmt_state" where
  "put_chars buf sz [] st = st"
| "put_chars buf sz (c # cs) st =
     (if room sz (fst st) then put_chars buf sz cs (put_char buf c st) else st)"

partial_function (option) put_string :: "u64 \<Rightarrow> u32 \<Rightarrow> u64 \<Rightarrow> fmt_state \<Rightarrow> fmt_state option" where
  "put_string buf sz str st =
     (if snd st str \<noteq> 0 \<and> room sz (fst st)
      then put_string buf sz (str + 1) (put_char buf (snd st str) st) else Some st)"

function calc_amount_of_digits :: "int \<Rightarrow> int \<Rightarrow> nat" where
  "calc_amount_of_digits num base =
     (if 1 < base \<and> \<bar>num\<bar> > 0 then Suc (calc_amount_of_digits (\<bar>num\<bar> div base) base) else 0)"
  by pat_completeness auto
termination
proof (relation "measure (\<lambda>(num, base). nat \<bar>num\<bar>)", simp, clarify)
  fix num base :: int
  assume "1 < base" "0 < \<bar>num\<bar>"
  then have "\<bar>num\<bar> div base < \<bar>num\<bar>" "0 \<le> \<bar>num\<bar> div base"
    by (simp_all add: int_div_less_self pos_imp_zdiv_nonneg_iff)
  then show "((\<bar>num\<bar> div base, base), num, base) \<in> measure (\<lambda>(num, base). nat \<bar>num\<bar>)" using \<open>0 < \<bar>num\<bar>\<close> by simp
qed

text \<open>The digits \<open>itoa\<close> leaves in \<open>temp\<close>, of the number widened from \<open>int\<close>.\<close>

definition temp_digits :: "u32 \<Rightarrow> u32 \<Rightarrow> u8 list option" where
  "temp_digits num base = map_option (\<lambda>(len, temp). take (unat len) temp) (itoa_bytes (scast num) base)"

definition put_sign :: "u64 \<Rightarrow> u32 \<Rightarrow> fmt_state \<Rightarrow> u32 \<times> fmt_state" where
  "put_sign buf num st = (if sint num < 0 then (- num, put_char buf 45 st) else (num, st))"

definition null_text :: "u8 list" where
  "null_text = [40, 110, 117, 108, 108, 41]"

definition convert :: "u64 \<Rightarrow> u32 \<Rightarrow> u8 \<Rightarrow> u64 list \<Rightarrow> fmt_state \<Rightarrow> (u64 list \<times> fmt_state) option" where
  "convert buf sz c args st =
     (if c = 100 then
        (case args of
           [] \<Rightarrow> None
         | a # args' \<Rightarrow>
             let (num, st') = put_sign buf (ucast a) st
             in map_option (\<lambda>ds. (args', put_chars buf sz ds st')) (temp_digits num 10))
      else if c = 120 then
        (case args of
           [] \<Rightarrow> None
         | a # args' \<Rightarrow>
             let (num, st') = put_sign buf (ucast a) st; st'' = store_char buf 120 (store_char buf 48 st')
             in map_option (\<lambda>ds. (args', put_chars buf sz ds st'')) (temp_digits num 16))
      else if c = 115 then
        (case args of
           [] \<Rightarrow> None
         | str # args' \<Rightarrow>
             if str = 0 then Some (args', put_chars buf sz null_text st)
             else map_option (\<lambda>st'. (args', st')) (put_string buf sz str st))
      else if c = 99 then
        (case args of [] \<Rightarrow> None | a # args' \<Rightarrow> Some (args', put_char buf (ucast a) st))
      else if c = 37 then Some (args, put_char buf 37 st)
      else if buf \<noteq> 0 then Some (args, put_chars buf sz [c] (put_char buf 37 st))
      else Some (args, (fst st + 2, snd st)))"

partial_function (option) format_loop :: "u64 \<Rightarrow> u32 \<Rightarrow> u64 \<Rightarrow> u32 \<Rightarrow> u64 list \<Rightarrow> fmt_state \<Rightarrow> fmt_state option" where
  "format_loop buf sz format i args st =
     (let c = snd st (format + ucast i)
      in if c \<noteq> 0 \<and> room sz (fst st)
         then if c \<noteq> 37 then format_loop buf sz format (i + 1) args (put_char buf c st)
              else (case convert buf sz (snd st (format + ucast (i + 1))) args st of
                      None \<Rightarrow> None
                    | Some (args', st') \<Rightarrow> format_loop buf sz format (i + 2) args' st')
         else Some st)"

text \<open>What the function returns, what it stores in \<open>out_size\<close>, and the memory.\<close>

definition process_format :: "u64 \<Rightarrow> u32 \<Rightarrow> u64 \<Rightarrow> u64 list \<Rightarrow> memory \<Rightarrow> (int \<times> u32 \<times> memory) option" where
  "process_format buf sz0 format args m =
     (let sz = (if buf = 0 then 0 else sz0)
      in if format = 0 then Some (0, 0, m)
         else if sz > 0 \<and> sz < 2 then Some (-1, 0, m)
         else (case (if sz > 0 then user_strlen m format else Some 0) of
                 None \<Rightarrow> None
               | Some len \<Rightarrow>
                   if sz > 0 \<and> sz < of_nat len then Some (-1, 0, m)
                   else map_option (\<lambda>(count, m').
                     (sint count, count, if buf \<noteq> 0 \<and> sz > 0
                        then m'(buf + ucast (if count < sz then count else sz - 1) := 0) else m'))
                     (format_loop buf sz format 0 args (0, m))))"

section \<open>Printing\<close>

abbreviation BUFFER_SIZE :: u32 where "BUFFER_SIZE \<equiv> 5120"

definition bytes_at :: "memory \<Rightarrow> u64 \<Rightarrow> nat \<Rightarrow> u8 list" where
  "bytes_at m p n = map (\<lambda>i. m (p + of_nat i)) [0..<n]"

text \<open>\<open>output_buffer\<close> is the address of the static buffer of 5120 bytes.\<close>

definition printf :: "u64 \<Rightarrow> u64 \<Rightarrow> u64 list \<Rightarrow> memory \<Rightarrow> (int \<times> u8 list \<times> memory) option" where
  "printf output_buffer format args m =
     map_option (\<lambda>(count, sz, m'). (count, bytes_at m' output_buffer (unat sz), m'))
       (process_format output_buffer BUFFER_SIZE format args m)"

definition nprintf :: "u64 \<Rightarrow> u32 \<Rightarrow> u64 \<Rightarrow> u64 list \<Rightarrow> memory \<Rightarrow> (int \<times> u8 list \<times> memory) option" where
  "nprintf output_buffer sz format args m =
     map_option (\<lambda>(count, out_size, m'). (count, bytes_at m' output_buffer (unat sz), m'))
       (process_format output_buffer 0 format args m)"

text \<open>\<open>fprintf\<close> fills the buffer and writes nothing.\<close>

definition fprintf :: "u64 \<Rightarrow> int \<Rightarrow> u64 \<Rightarrow> u64 list \<Rightarrow> memory \<Rightarrow> (int \<times> memory) option" where
  "fprintf output_buffer fd format args m =
     map_option (\<lambda>(count, out_size, m'). (count, m')) (process_format output_buffer BUFFER_SIZE format args m)"

definition sprintf :: "u64 \<Rightarrow> u64 \<Rightarrow> u64 list \<Rightarrow> memory \<Rightarrow> (int \<times> memory) option" where
  "sprintf buf format args m = map_option (\<lambda>(count, out_size, m'). (count, m')) (process_format buf 0 format args m)"

definition snprintf :: "u64 \<Rightarrow> u32 \<Rightarrow> u64 \<Rightarrow> u64 list \<Rightarrow> memory \<Rightarrow> (int \<times> memory) option" where
  "snprintf buf sz format args m = map_option (\<lambda>(count, out_size, m'). (count, m')) (process_format buf sz format args m)"

definition puts :: "u64 \<Rightarrow> memory \<Rightarrow> u8 list option" where
  "puts str m = map_option (bytes_at m str) (user_strlen m str)"

definition putchar :: "u8 \<Rightarrow> u8 list" where
  "putchar c = [c]"

text \<open>\<open>r\<close> is the result of the \<open>read\<close> system call and \<open>c\<close> the byte behind its pointer.\<close>

definition getc :: "u64 \<Rightarrow> u8 \<Rightarrow> int" where
  "getc r c = (if r > 0 then (if char_int c = -3 \<or> char_int c = -4 then char_int c else uchar_int c) else -1)"

definition print_spaces :: "int \<Rightarrow> u8 list" where
  "print_spaces n = replicate (nat n) 32"

text \<open>The string is the format.\<close>

definition print_padded :: "u64 \<Rightarrow> u64 \<Rightarrow> int \<Rightarrow> memory \<Rightarrow> (u8 list \<times> memory) option" where
  "print_padded output_buffer str width m =
     (case user_strlen m str of
        None \<Rightarrow> None
      | Some len \<Rightarrow> map_option (\<lambda>(count, out, m'). (out @ print_spaces (width - int len), m'))
          (printf output_buffer str [] m))"

text \<open>\<open>buf\<close> is the local array of twelve zero bytes, \<open>fmt\<close> the literal \<open>%d\<close>.\<close>

definition print_int_padded :: "u64 \<Rightarrow> u64 \<Rightarrow> u64 \<Rightarrow> u32 \<Rightarrow> int \<Rightarrow> memory \<Rightarrow> (u8 list \<times> memory) option" where
  "print_int_padded output_buffer buf fmt num width m =
     (case sprintf buf fmt [ucast num] (with_bytes m buf (replicate 12 0)) of
        None \<Rightarrow> None
      | Some (len, m1) \<Rightarrow> map_option (\<lambda>(count, out, m'). (out @ print_spaces (width - len), m'))
          (printf output_buffer buf [] m1))"

section \<open>Numerals\<close>

text \<open>The numeral of a number, most significant digit first.\<close>

function numeral_digits :: "nat \<Rightarrow> nat \<Rightarrow> u8 list" where
  "numeral_digits b n =
     (if b < 2 \<or> n < b then [digit_char (of_nat n)]
      else numeral_digits b (n div b) @ [digit_char (of_nat (n mod b))])"
  by pat_completeness auto
termination
  by (relation "measure snd") auto

declare numeral_digits.simps [simp del]

lemma digits_loop_numeral:
  assumes "2 \<le> unat base" "unat base \<le> 36"
  shows "digits_loop v base buf = Some (buf @ rev (numeral_digits (unat base) (unat v)))"
proof (induction "unat v" arbitrary: v buf rule: less_induct)
  case less
  let ?b = "unat base" and ?v = "v div ucast base"
  have b0: "base \<noteq> 0" using assms by auto
  have m: "unat (v mod ucast base) = unat v mod ?b" and q: "unat ?v = unat v div ?b"
    by (simp_all add: unat_mod unat_div)
  have d: "v mod ucast base = of_nat (unat v mod ?b)" unfolding m [symmetric] by simp
  show ?case
  proof (cases "unat v < ?b")
    case True
    then have "?v = 0" using q by (simp add: unat_eq_zero)
    then show ?thesis using b0 True d by (simp add: digits_loop.simps [of v] Let_def numeral_digits.simps [of _ "unat v"])
  next
    case False
    then have "0 < unat v div ?b" using assms by (simp add: div_greater_zero_iff)
    then have "?v \<noteq> 0" using q by (metis less_irrefl unat_0)
    moreover have "unat ?v < unat v" using False q assms by simp
    ultimately show ?thesis using b0 False d less [of ?v] assms(1) q
      by (simp add: digits_loop.simps [of v] Let_def numeral_digits.simps [of _ "unat v"])
  qed
qed

lemma numeral_digits_nonempty: "numeral_digits b n \<noteq> []"
  by (subst numeral_digits.simps) simp

lemma temp_digits_eq:
  assumes "2 \<le> unat base" "unat base \<le> 36"
  shows "temp_digits num base = Some (numeral_digits (unat base) (unat (scast num :: u64)))"
proof -
  let ?v = "scast num :: u64"
  obtain ds where ds: "digits_loop ?v base [] = Some ds" "ds \<noteq> []" "unat base ^ (length ds - 1) \<le> max 1 (unat ?v)"
    using digits_loop_spec [OF assms, of ?v "[]"] by auto
  have r: "ds = rev (numeral_digits (unat base) (unat ?v))" using digits_loop_numeral [OF assms, of ?v "[]"] ds(1) by simp
  have "length ds \<le> 64"
  proof (rule ccontr)
    assume "\<not> length ds \<le> 64"
    then have "(2 :: nat) ^ 64 \<le> 2 ^ (length ds - 1)" by (intro power_increasing) simp_all
    also have "\<dots> \<le> unat base ^ (length ds - 1)" by (rule power_mono) (use assms in simp_all)
    also have "\<dots> \<le> max 1 (unat ?v)" by (rule ds(3))
    also have "\<dots> < 2 ^ 64" using unsigned_less [of ?v] by simp
    finally show False by simp
  qed
  then have "unat (of_nat (length ds) :: u32) = length ds"
    by (simp add: unsigned_of_nat take_bit_nat_eq_self)
  then have "temp_digits num base = Some (rev ds)"
    using ds(1) reverse_loop_rev [OF ds(2)] by (simp add: temp_digits_def itoa_bytes_def)
  then show ?thesis using r by simp
qed

lemma sint_neg:
  assumes "sint (num :: u32) < 0" "sint num \<noteq> - (2 ^ 31)"
  shows "sint (- num) = - sint num"
proof -
  have "sint num \<ge> - (2 ^ 31)" using sint_ge [of num] by simp
  then have "- (2 ^ 31) \<le> - sint num" "- sint num < 2 ^ 31" using assms by simp_all
  then have "signed_take_bit 31 (- sint num) = - sint num" by (intro signed_take_bit_int_eq_self) simp_all
  moreover have "sint (word_of_int k :: u32) = signed_take_bit 31 k" for k by (simp add: signed_of_int)
  moreover have "- num = word_of_int (- sint num)" by simp
  ultimately show ?thesis by (simp only:)
qed

lemma unat_scast_nonneg:
  assumes "0 \<le> sint (num :: u32)"
  shows "unat (scast num :: u64) = nat (sint num)"
proof -
  have "sint num < 2 ^ 31" using sint_lt [of num] by simp
  then have "take_bit 64 (sint num) = sint num" by (intro take_bit_int_eq_self) (use assms in simp_all)
  moreover have "uint (word_of_int k :: u64) = take_bit 64 k" for k by (simp add: unsigned_of_int)
  ultimately have u: "uint (scast num :: u64) = sint num" unfolding scast_eq by (simp only:)
  show ?thesis unfolding unat_eq_nat_uint u ..
qed

text \<open>The numeral that \<open>%d\<close> and \<open>%x\<close> produce for an \<open>int\<close> other than the least.\<close>

lemma put_sign_digits:
  assumes "sint num \<noteq> - (2 ^ 31)" "put_sign buf num st = (num', st')" "2 \<le> unat base" "unat base \<le> 36"
  shows "temp_digits num' base = Some (numeral_digits (unat base) (nat \<bar>sint num\<bar>))"
    "st' = (if sint num < 0 then put_char buf 45 st else st)"
proof -
  have "0 \<le> sint num' \<and> \<bar>sint num\<bar> = sint num'"
    using assms(1,2) sint_neg [of num] by (auto simp: put_sign_def split: if_splits)
  then show "temp_digits num' base = Some (numeral_digits (unat base) (nat \<bar>sint num\<bar>))"
    using temp_digits_eq [OF assms(3,4), of num'] unat_scast_nonneg [of num'] by simp
  show "st' = (if sint num < 0 then put_char buf 45 st else st)"
    using assms(2) by (auto simp: put_sign_def split: if_splits)
qed

section \<open>What a format means\<close>

definition conversion :: "(u64 \<Rightarrow> u8 list option) \<Rightarrow> u8 \<Rightarrow> u64 list \<Rightarrow> (u8 list \<times> u64 list) option" where
  "conversion strs c args =
     (if c = 37 then Some ([37], args)
      else if c \<in> {100, 120, 115, 99} then
        (case args of
           [] \<Rightarrow> None
         | a # args' \<Rightarrow>
             let x = sint (ucast a :: u32); sign = (if x < 0 then [45] else [])
             in if c = 99 then Some ([ucast a], args')
                else if c = 115 then map_option (\<lambda>s. (s, args')) (if a = 0 then Some null_text else strs a)
                else if x = - (2 ^ 31) then None
                else if c = 100 then Some (sign @ numeral_digits 10 (nat \<bar>x\<bar>), args')
                else Some (sign @ [48, 120] @ numeral_digits 16 (nat \<bar>x\<bar>), args'))
      else Some ([37, c], args))"

fun render :: "(u64 \<Rightarrow> u8 list option) \<Rightarrow> u8 list \<Rightarrow> u64 list \<Rightarrow> u8 list option" where
  "render strs [] args = Some []"
| "render strs [c] args = (if c = 37 then None else Some [c])"
| "render strs (c # d # cs) args =
     (if c \<noteq> 37 then map_option ((#) c) (render strs (d # cs) args)
      else (case conversion strs d args of
              None \<Rightarrow> None
            | Some (out, args') \<Rightarrow> map_option ((@) out) (render strs cs args')))"

section \<open>The buffer holds what the format means\<close>

text \<open>The state after \<open>pre\<close> has been written.\<close>

definition wrote :: "u64 \<Rightarrow> memory \<Rightarrow> u8 list \<Rightarrow> fmt_state" where
  "wrote buf m pre = (of_nat (length pre), with_bytes m buf pre)"

text \<open>\<open>fits\<close>: one byte is left for the zero. \<open>apart_from\<close>: a string outside the first \<open>n\<close> bytes.\<close>

definition fits :: "u32 \<Rightarrow> u8 list \<Rightarrow> bool" where
  "fits sz out \<longleftrightarrow> (sz = 0 \<or> length out < unat sz) \<and> length out < 2 ^ 31"

definition apart_from :: "u64 \<Rightarrow> nat \<Rightarrow> u64 \<Rightarrow> u8 list \<Rightarrow> bool" where
  "apart_from buf n p s \<longleftrightarrow> (\<forall>i\<le>length s. n \<le> unat (p + of_nat i - buf))"

lemma fits_prefix: "fits sz (pre @ out) \<Longrightarrow> fits sz pre"
  by (auto simp: fits_def)

lemma u32_small: "n < 2 ^ 31 \<Longrightarrow> unat (of_nat n :: u32) = n"
  by (simp add: unsigned_of_nat take_bit_nat_eq_self)

lemma u32_index: "n < 2 ^ 32 \<Longrightarrow> (ucast (of_nat n :: u32) :: u64) = of_nat n"
  by (rule word_unat_eq_iff [THEN iffD2]) (simp add: unsigned_ucast_eq unsigned_of_nat take_bit_nat_eq_self)

lemma room_wrote:
  assumes "fits sz (pre @ c # cs)"
  shows "room sz (of_nat (length pre))"
proof (cases "sz = 0")
  case False
  then have l: "length pre + 1 < unat sz" "length pre < 2 ^ 31" using assms by (simp_all add: fits_def)
  have "1 \<le> sz" using False by (simp add: word_le_nat_alt unat_gt_0 Suc_le_eq)
  then have "unat (sz - 1) = unat sz - 1" by (simp add: unat_sub)
  then have "length pre < unat (sz - 1)" using l(1) by linarith
  then show ?thesis using l(2) by (simp add: room_def word_less_nat_alt u32_small)
qed (simp add: room_def)

lemma put_char_wrote:
  assumes "buf \<noteq> 0" "fits sz (pre @ [c])"
  shows "put_char buf c (wrote buf m pre) = wrote buf m (pre @ [c])"
    "store_char buf c (wrote buf m pre) = wrote buf m (pre @ [c])"
proof -
  have l: "length pre < 2 ^ 31" using assms(2) by (simp add: fits_def)
  have "(ucast (of_nat (length pre) :: u32) :: u64) = of_nat (length pre)" by (rule u32_index) (use l in simp)
  moreover have "(with_bytes m buf pre)(buf + of_nat (length pre) := c) = with_bytes m buf (pre @ [c])"
    by (rule with_bytes_snoc) (use l in simp)
  ultimately show "store_char buf c (wrote buf m pre) = wrote buf m (pre @ [c])"
    by (simp add: store_char_def wrote_def)
  then show "put_char buf c (wrote buf m pre) = wrote buf m (pre @ [c])" using assms(1) by (simp add: put_char_def)
qed

lemma put_chars_wrote:
  "buf \<noteq> 0 \<Longrightarrow> fits sz (pre @ cs) \<Longrightarrow> put_chars buf sz cs (wrote buf m pre) = wrote buf m (pre @ cs)"
proof (induction cs arbitrary: pre)
  case (Cons c cs)
  have "fits sz (pre @ [c])" using fits_prefix [of sz "pre @ [c]" cs] Cons.prems(2) by simp
  then show ?case using Cons.IH [of "pre @ [c]"] Cons.prems put_char_wrote(1) [of buf sz pre c m] room_wrote [OF Cons.prems(2)]
    by (simp add: wrote_def)
qed simp

text \<open>What lies outside the bytes to be written can be read at any time.\<close>

lemma read_wrote:
  assumes "apart_from buf n p s" "length pre \<le> n" "i \<le> length s"
  shows "snd (wrote buf m pre) (p + of_nat i) = m (p + of_nat i)"
  unfolding wrote_def snd_conv
  by (rule with_bytes_outside) (use assms in \<open>auto simp: apart_from_def intro: order_trans\<close>)

lemma apart_from_tail: "apart_from buf n p (c # s) \<Longrightarrow> apart_from buf n (p + 1) s"
  unfolding apart_from_def
proof (intro allI impI)
  fix i assume a: "\<forall>i\<le>length (c # s). n \<le> unat (p + of_nat i - buf)" and i: "i \<le> length s"
  then have "n \<le> unat (p + of_nat (Suc i) - buf)" using a by (metis Suc_le_mono length_Cons)
  then show "n \<le> unat (p + 1 + of_nat i - buf)" by (simp add: add.assoc)
qed

lemma put_string_wrote:
  "buf \<noteq> 0 \<Longrightarrow> fits sz (pre @ s) \<Longrightarrow> cstring m p s \<Longrightarrow> apart_from buf n p s \<Longrightarrow> length (pre @ s) \<le> n \<Longrightarrow>
     put_string buf sz p (wrote buf m pre) = Some (wrote buf m (pre @ s))"
proof (induction s arbitrary: pre p)
  case Nil
  have "snd (wrote buf m pre) p = 0" using read_wrote [OF Nil(4), of pre 0] Nil by simp
  then show ?case by (subst put_string.simps) simp
next
  case (Cons c s)
  have r: "snd (wrote buf m pre) p = c" using read_wrote [OF Cons.prems(4), of pre 0] Cons.prems by simp
  have "fits sz (pre @ [c])" using fits_prefix [of sz "pre @ [c]" s] Cons.prems(2) by simp
  note w = put_char_wrote(1) [OF Cons.prems(1) this]
  have "put_string buf sz (p + 1) (wrote buf m (pre @ [c])) = Some (wrote buf m ((pre @ [c]) @ s))"
    by (rule Cons.IH) (use Cons.prems apart_from_tail [OF Cons.prems(4)] in simp_all)
  moreover have "room sz (fst (wrote buf m pre))" using room_wrote [OF Cons.prems(2)] by (simp add: wrote_def)
  ultimately show ?case using r Cons.prems(3) w by (subst put_string.simps) simp
qed

text \<open>The strings an argument may point to.\<close>

definition texts_ok :: "memory \<Rightarrow> u64 \<Rightarrow> nat \<Rightarrow> (u64 \<Rightarrow> u8 list option) \<Rightarrow> bool" where
  "texts_ok m buf n strs \<longleftrightarrow> (\<forall>p s. strs p = Some s \<longrightarrow> cstring m p s \<and> apart_from buf n p s)"

lemma convert_wrote:
  assumes "buf \<noteq> 0" "conversion strs c args = Some (out, args')" "fits sz (pre @ out)"
    and "texts_ok m buf n strs" "length (pre @ out) \<le> n"
  shows "convert buf sz c args (wrote buf m pre) = Some (args', wrote buf m (pre @ out))"
proof -
  have two: "2 \<le> unat (10 :: u32)" "unat (10 :: u32) \<le> 36" "2 \<le> unat (16 :: u32)" "unat (16 :: u32) \<le> 36" by simp_all
  note pc = put_chars_wrote [OF assms(1)]
  consider "c = 37" | "c = 99" | "c = 115" | "c = 100" | "c = 120" | "c \<notin> {37, 99, 115, 100, 120}" by blast
  then show ?thesis
  proof cases
    case 1
    then have "out = [37]" "args' = args" using assms(2) by (simp_all add: conversion_def)
    then show ?thesis using 1 put_char_wrote(1) [OF assms(1)] assms(3) by (simp add: convert_def)
  next
    case 2
    then obtain a where a: "args = a # args'" "out = [ucast a]" using assms(2) by (auto simp: conversion_def split: list.splits)
    then show ?thesis using 2 put_char_wrote(1) [OF assms(1)] assms(3) by (simp add: convert_def)
  next
    case 3
    then obtain a where a: "args = a # args'" "(if a = 0 then Some null_text else strs a) = Some out"
      using assms(2) by (auto simp: conversion_def split: list.splits)
    show ?thesis
    proof (cases "a = 0")
      case True
      then show ?thesis using 3 a pc [OF assms(3)] by (simp add: convert_def)
    next
      case False
      then have "cstring m a out" "apart_from buf n a out" using a(2) assms(4) by (auto simp: texts_ok_def)
      from put_string_wrote [OF assms(1,3) this assms(5)] False a(1) 3 show ?thesis by (simp add: convert_def)
    qed
  next
    case 4
    then obtain a where a: "args = a # args'" using assms(2) by (auto simp: conversion_def Let_def split: list.splits if_splits)
    define num where "num = (ucast a :: u32)"
    have o: "sint num \<noteq> - (2 ^ 31)" "out = (if sint num < 0 then [45] else []) @ numeral_digits 10 (nat \<bar>sint num\<bar>)"
      using assms(2) 4 a by (auto simp: conversion_def Let_def num_def split: if_splits)
    obtain num' st' where p: "put_sign buf num (wrote buf m pre) = (num', st')" by (cases "put_sign buf num (wrote buf m pre)")
    note ps = put_sign_digits [OF o(1) p two(1,2)]
    have "fits sz (pre @ [45])" if "sint num < 0" using o(2) assms(3) that by (auto simp: fits_def)
    then have st: "st' = wrote buf m (pre @ (if sint num < 0 then [45] else []))"
      using ps(2) put_char_wrote(1) [OF assms(1), of sz pre 45 m] by simp
    then show ?thesis using 4 a p ps(1) o(2) pc [of sz "pre @ (if sint num < 0 then [45] else [])"] assms(3)
      by (simp add: convert_def num_def)
  next
    case 5
    then obtain a where a: "args = a # args'" using assms(2) by (auto simp: conversion_def Let_def split: list.splits if_splits)
    define num where "num = (ucast a :: u32)"
    let ?s = "if sint num < 0 then [45] else []"
    have o: "sint num \<noteq> - (2 ^ 31)" "out = ?s @ [48, 120] @ numeral_digits 16 (nat \<bar>sint num\<bar>)"
      using assms(2) 5 a by (auto simp: conversion_def Let_def num_def split: if_splits)
    obtain num' st' where p: "put_sign buf num (wrote buf m pre) = (num', st')" by (cases "put_sign buf num (wrote buf m pre)")
    note ps = put_sign_digits [OF o(1) p two(3,4)]
    have "fits sz (pre @ [45])" if "sint num < 0" using o(2) assms(3) that by (auto simp: fits_def)
    then have st: "st' = wrote buf m (pre @ (if sint num < 0 then [45] else []))"
      using ps(2) put_char_wrote(1) [OF assms(1), of sz pre 45 m] by simp
    have f: "fits sz ((pre @ ?s) @ [48])" "fits sz ((pre @ ?s @ [48]) @ [120])"
      using assms(3) unfolding o(2) by (auto simp: fits_def)
    have "store_char buf 120 (store_char buf 48 st') = wrote buf m (pre @ ?s @ [48, 120])"
      unfolding st using put_char_wrote(2) [OF assms(1) f(1), of m] put_char_wrote(2) [OF assms(1) f(2), of m] by simp
    then show ?thesis using 5 a p ps(1) o(2) pc [of sz "pre @ ?s @ [48, 120]"] assms(3)
      by (simp add: convert_def num_def)
  next
    case 6
    then have o: "out = [37, c]" "args' = args" using assms(2) by (auto simp: conversion_def)
    have f: "fits sz (pre @ [37])" using fits_prefix [of sz "pre @ [37]" "[c]"] assms(3) o(1) by simp
    show ?thesis using 6 assms(1,3) o put_char_wrote(1) [OF assms(1) f, of m] pc [of sz "pre @ [37]" "[c]"]
      by (simp add: convert_def)
  qed
qed

lemma no_room:
  assumes "fits sz (pre @ out)" "\<not> room sz (of_nat (length pre))"
  shows "out = []"
  using room_wrote [of sz pre "hd out" "tl out"] assms by (cases out) auto

lemma format_loop_end:
  assumes "snd st (format + ucast i) = 0 \<or> \<not> room sz (fst st)"
  shows "format_loop buf sz format i args st = Some st"
  using assms by (subst format_loop.simps) (auto simp: Let_def)

lemma format_loop_char:
  assumes "snd st (format + ucast i) \<noteq> 0" "snd st (format + ucast i) \<noteq> 37" "room sz (fst st)"
  shows "format_loop buf sz format i args st = format_loop buf sz format (i + 1) args (put_char buf (snd st (format + ucast i)) st)"
  using assms by (subst format_loop.simps) (simp add: Let_def)

lemma format_loop_conversion:
  assumes "snd st (format + ucast i) = 37" "room sz (fst st)" "convert buf sz (snd st (format + ucast (i + 1))) args st = Some (args', st')"
  shows "format_loop buf sz format i args st = format_loop buf sz format (i + 2) args' st'"
  using assms by (subst format_loop.simps) (simp add: Let_def)

lemma format_loop_wrote:
  assumes "buf \<noteq> 0"
  shows "texts_ok m buf n strs \<Longrightarrow> render strs fs args = Some out \<Longrightarrow> cstring m (format + of_nat i) fs \<Longrightarrow> apart_from buf n (format + of_nat i) fs \<Longrightarrow>
    i + length fs < 2 ^ 31 \<Longrightarrow> fits sz (pre @ out) \<Longrightarrow> length (pre @ out) \<le> n \<Longrightarrow>
    format_loop buf sz format (of_nat i) args (wrote buf m pre) = Some (wrote buf m (pre @ out))"
proof (induction strs fs args arbitrary: i pre out rule: render.induct)
  case (1 strs args)
  have "snd (wrote buf m pre) (format + of_nat i + of_nat 0) = m (format + of_nat i + of_nat 0)"
    by (rule read_wrote [OF 1(4)]) (use 1 in simp_all)
  then show ?case using 1 u32_index [of i] by (simp add: format_loop_end)
next
  case (2 strs c args)
  then have c: "c \<noteq> 37" "out = [c]" "c \<noteq> 0" by (auto split: if_splits)
  have r: "snd (wrote buf m p) (format + of_nat i + of_nat j) = m (format + of_nat i + of_nat j)" if "length p \<le> n" "j \<le> 1" for p j
    by (rule read_wrote [OF 2(4) that(1)]) (use that in simp)
  have i: "(ucast (of_nat i :: u32) :: u64) = of_nat i" "(ucast (of_nat i + 1 :: u32) :: u64) = of_nat i + 1"
    using u32_index [of i] u32_index [of "Suc i"] 2(5) by (simp_all add: add.commute)
  have "format_loop buf sz format (of_nat i) args (wrote buf m pre) = format_loop buf sz format (of_nat i + 1) args (put_char buf c (wrote buf m pre))"
    using r [of pre 0] 2 c i(1) room_wrote [of sz pre c "[]"]
    by (subst format_loop_char) (simp_all add: wrote_def [of buf m pre])
  also have "\<dots> = Some (wrote buf m (pre @ [c]))"
    using put_char_wrote(1) [OF assms(1), of sz pre c m] r [of "pre @ [c]" 1] 2 c i(2)
    by (simp add: format_loop_end add.assoc)
  finally show ?case using c(2) by simp
next
  case (3 strs c d cs args)
  have r: "snd (wrote buf m pre) (format + of_nat i + of_nat j) = m (format + of_nat i + of_nat j)" if "j \<le> 2" for j
    by (rule read_wrote [OF 3(6)]) (use that 3 in simp_all)
  have i: "(ucast (of_nat i :: u32) :: u64) = of_nat i" "(ucast (of_nat i + 1 :: u32) :: u64) = of_nat i + 1"
    using u32_index [of i] u32_index [of "Suc i"] 3 by (simp_all add: add.commute)
  have c0: "snd (wrote buf m pre) (format + ucast (of_nat i :: u32)) = c" "c \<noteq> 0" using r [of 0] 3(5) i(1) by auto
  have d0: "snd (wrote buf m pre) (format + ucast (of_nat i + 1 :: u32)) = d" using r [of 1] 3(5) i(2) by (auto simp: add.assoc)
  have tail: "cstring m (format + of_nat (Suc i)) (d # cs)" "apart_from buf n (format + of_nat (Suc i)) (d # cs)"
    using 3(5) apart_from_tail [OF 3(6)] by (simp_all add: add_ac)
  have tail2: "cstring m (format + of_nat (Suc (Suc i))) cs" "apart_from buf n (format + of_nat (Suc (Suc i))) cs"
    using tail(1) apart_from_tail [OF tail(2)] by (simp_all add: add_ac)
  show ?case
  proof (cases "room sz (of_nat (length pre))")
    case False
    then have "out = []" by (rule no_room [OF 3(8)])
    then show ?thesis using False format_loop_end [of "wrote buf m pre"] by (simp add: wrote_def)
  next
    case room: True
    then have room': "room sz (fst (wrote buf m pre))" by (simp add: wrote_def)
    show ?thesis
    proof (cases "c = 37")
      case False
      then obtain out' where o: "render strs (d # cs) args = Some out'" "out = c # out'" using 3(4) by auto
      have "fits sz (pre @ [c])" using fits_prefix [of sz "pre @ [c]" out'] 3(8) o(2) by simp
      note w = put_char_wrote(1) [OF assms(1) this]
      have "format_loop buf sz format (of_nat (Suc i)) args (wrote buf m (pre @ [c])) = Some (wrote buf m ((pre @ [c]) @ out'))"
        by (rule 3(1) [OF False 3(3) o(1) tail]) (use 3 o(2) in simp_all)
      then show ?thesis using format_loop_char [of "wrote buf m pre" format "of_nat i", unfolded c0(1), OF c0(2) False room', of buf args]
          w o(2) by (simp add: add.commute)
    next
      case True
      then obtain o1 args' o2 where o: "conversion strs d args = Some (o1, args')" "render strs cs args' = Some o2" "out = o1 @ o2"
        using 3(4) by (auto split: option.splits)
      have f: "fits sz (pre @ o1)" "length (pre @ o1) \<le> n" using fits_prefix [of sz "pre @ o1" o2] 3(8,9) o(3) by simp_all
      have cv: "convert buf sz d args (wrote buf m pre) = Some (args', wrote buf m (pre @ o1))"
        by (rule convert_wrote [OF assms(1) o(1) f(1) 3(3) f(2)])
      have "format_loop buf sz format (of_nat (Suc (Suc i))) args' (wrote buf m (pre @ o1)) = Some (wrote buf m ((pre @ o1) @ o2))"
        by (rule 3(2) [OF _ o(1) refl 3(3) o(2) tail2]) (use 3 o(3) True in simp_all)
      moreover have "format_loop buf sz format (of_nat i) args (wrote buf m pre) =
          format_loop buf sz format (of_nat i + 2) args' (wrote buf m (pre @ o1))"
        by (rule format_loop_conversion) (use c0 d0 cv room' True in simp_all)
      ultimately show ?thesis using o(3) by (simp add: add.commute add.left_commute)
    qed
  qed
qed

lemma format_wrote:
  assumes "buf \<noteq> 0" "cstring m format fs" "render strs fs args = Some out" "fits sz out" "length fs < 2 ^ 31"
    and "apart_from buf n format fs" "texts_ok m buf n strs" "length out \<le> n"
  shows "format_loop buf sz format 0 args (0, m) = Some (of_nat (length out), with_bytes m buf out)"
  using format_loop_wrote [OF assms(1,7,3), of format 0 sz "[]"] assms by (simp add: wrote_def)

lemma sint_count: "n < 2 ^ 31 \<Longrightarrow> sint (of_nat n :: u32) = int n"
  by (rule sint_of_nat_small)

lemma process_format_wrote:
  assumes "buf \<noteq> 0" "format \<noteq> 0" "cstring m format fs" "render strs fs args = Some out" "length out < unat sz"
    and "2 \<le> unat sz" "length fs \<le> unat sz" "unat sz < 2 ^ 31" "apart_from buf (unat sz) format fs" "texts_ok m buf (unat sz) strs"
  shows "process_format buf sz format args m = Some (int (length out), of_nat (length out), with_bytes m buf (out @ [0]))"
proof -
  have l: "format_loop buf sz format 0 args (0, m) = Some (of_nat (length out), with_bytes m buf out)"
    by (rule format_wrote [OF assms(1,3,4) _ _ assms(9,10)]) (use assms in \<open>simp_all add: fits_def\<close>)
  have o: "length out < 2 ^ 31" using assms(5,8) by simp
  have c: "(of_nat (length out) :: u32) < sz" using assms(5) by (simp add: word_less_nat_alt u32_small [OF o])
  have f: "length fs < 2 ^ 31" using assms(7,8) by simp
  have k: "\<not> sz < of_nat (length fs)" "sz > 0" "\<not> sz < 2"
    using assms(6,7) by (simp_all add: word_less_nat_alt u32_small [OF f])
  have "(ucast (of_nat (length out) :: u32) :: u64) = of_nat (length out)" by (rule u32_index) (use o in simp)
  moreover have "(with_bytes m buf out)(buf + of_nat (length out) := 0) = with_bytes m buf (out @ [0])"
    by (rule with_bytes_snoc) (use o in simp)
  ultimately show ?thesis
    using assms(1,2) k l c sint_count [OF o] user_strlen_eq [OF assms(3)]
    unfolding process_format_def by (simp add: Let_def)
qed

text \<open>
  C13. Formatted output. For a format and arguments that have a meaning (every conversion has its
  argument, \<open>%s\<close> a null pointer or a string, \<open>%d\<close> and \<open>%x\<close> no least integer) whose text fits,
  \<open>snprintf\<close> returns the length of the text and leaves exactly it and a zero byte in the
  buffer; nothing else changes. The text is given by \<open>render\<close>, from decimal and hexadecimal
  numerals, with a sign where the number is negative, and from the strings and characters.
\<close>

theorem snprintf_renders:
  assumes "buf \<noteq> 0" "format \<noteq> 0" "cstring m format fs" "render strs fs args = Some out" "length out < unat sz"
    and "2 \<le> unat sz" "length fs \<le> unat sz" "unat sz < 2 ^ 31" "apart_from buf (unat sz) format fs" "texts_ok m buf (unat sz) strs"
  shows "snprintf buf sz format args m = Some (int (length out), with_bytes m buf (out @ [0]))"
  using process_format_wrote [OF assms] by (simp add: snprintf_def)

text \<open>The bytes behind a pointer, when a string was stored elsewhere.\<close>

lemma far_apart:
  assumes "unat (p - buf) + length s < 2 ^ 64" "n \<le> unat (p - buf)"
  shows "apart_from buf n p s"
  unfolding apart_from_def
proof (intro allI impI)
  fix i assume "i \<le> length s"
  then have i: "unat (p - buf) + i < 2 ^ 64" using assms(1) by simp
  have "p + of_nat i - buf = of_nat (unat (p - buf) + i)" by (simp add: algebra_simps)
  then have "unat (p + of_nat i - buf) = unat (of_nat (unat (p - buf) + i) :: u64)" by (rule arg_cong)
  also have "\<dots> = unat (p - buf) + i" using i by (simp only: unat_of_nat len_num1 len_bit0 len_num0) simp
  finally show "n \<le> unat (p + of_nat i - buf)" using assms(2) by simp
qed

lemma snprintf_renders_witness:
  "\<forall>m. snprintf 0x1000 16 0x2000 [ucast (- 42 :: u32)] (with_bytes m 0x2000 [110, 61, 37, 100, 0]) =
     Some (5, with_bytes (with_bytes m 0x2000 [110, 61, 37, 100, 0]) 0x1000 [110, 61, 45, 52, 50, 0])"
proof
  fix m
  let ?m = "with_bytes m 0x2000 [110, 61, 37, 100, 0]"
  have c: "cstring ?m 0x2000 [110, 61, 37, 100]"
    using cstring_with_bytes [of "[110, 61, 37, 100]" m "0x2000"] by simp
  have "ucast (ucast (- 42 :: u32) :: u64) = (- 42 :: u32)" by simp
  moreover have "sint (- 42 :: u32) = - 42" by simp
  ultimately have r: "render (\<lambda>_. None) [110, 61, 37, 100] [ucast (- 42 :: u32)] = Some [110, 61, 45, 52, 50]"
    by (simp add: conversion_def numeral_digits.simps digit_char_def)
  have a: "apart_from 0x1000 (unat (16 :: u32)) 0x2000 [110, 61, 37, 100]" by (rule far_apart) simp_all
  have "snprintf 0x1000 16 0x2000 [ucast (- 42 :: u32)] ?m =
      Some (int (length [110 :: u8, 61, 45, 52, 50]), with_bytes ?m 0x1000 ([110, 61, 45, 52, 50] @ [0]))"
    by (rule snprintf_renders [OF _ _ c r _ _ _ _ a]) (simp_all add: texts_ok_def)
  then show "snprintf 0x1000 16 0x2000 [ucast (- 42 :: u32)] ?m = Some (5, with_bytes ?m 0x1000 [110, 61, 45, 52, 50, 0])"
    by simp
qed

text \<open>\<open>printf\<close> writes the same text; \<open>sprintf\<close> leaves out the zero byte.\<close>

lemma bytes_at_with_bytes: "length xs < 2 ^ 64 \<Longrightarrow> n \<le> length xs \<Longrightarrow> bytes_at (with_bytes m p xs) p n = take n xs"
  unfolding bytes_at_def by (rule nth_equalityI) (simp_all add: with_bytes_at)

lemma printf_renders:
  assumes "buf \<noteq> 0" "format \<noteq> 0" "cstring m format fs" "render strs fs args = Some out" "length out < 5120"
    and "length fs \<le> 5120" "apart_from buf 5120 format fs" "texts_ok m buf 5120 strs"
  shows "printf buf format args m = Some (int (length out), out, with_bytes m buf (out @ [0]))"
proof -
  have "process_format buf 5120 format args m = Some (int (length out), of_nat (length out), with_bytes m buf (out @ [0]))"
    by (rule process_format_wrote [OF assms(1-4)]) (use assms in simp_all)
  moreover have "unat (of_nat (length out) :: u32) = length out" by (rule u32_small) (use assms(5) in simp)
  moreover have "bytes_at (with_bytes m buf (out @ [0])) buf (length out) = out"
    using bytes_at_with_bytes [of "out @ [0]" "length out"] assms(5) by simp
  ultimately show ?thesis by (simp add: printf_def)
qed

lemma sprintf_unterminated:
  assumes "buf \<noteq> 0" "format \<noteq> 0" "cstring m format fs" "render strs fs args = Some out" "length out < 2 ^ 31"
    and "length fs < 2 ^ 31" "apart_from buf (length out) format fs" "texts_ok m buf (length out) strs"
  shows "sprintf buf format args m = Some (int (length out), with_bytes m buf out)"
proof -
  have "format_loop buf 0 format 0 args (0, m) = Some (of_nat (length out), with_bytes m buf out)"
    by (rule format_wrote [OF assms(1,3,4) _ assms(6,7,8)]) (use assms in \<open>simp_all add: fits_def\<close>)
  then show ?thesis using assms(1,2) sint_count [OF assms(5)] by (simp add: sprintf_def process_format_def Let_def)
qed

section \<open>Where the formatting goes wrong\<close>

text \<open>
  C38. \<open>snprintf\<close> can write behind its buffer: a conversion stores the sign and the prefix of a
  hexadecimal number without looking at the space left. With a buffer of 8 bytes, six
  characters and a negative number behind them, the ninth byte is overwritten.
\<close>

theorem snprintf_overflow:
  assumes "buf \<noteq> 0" "format \<noteq> 0" "cstring m format [97, 98, 99, 100, 101, 102, 37, 120]"
    and "apart_from buf 8 format [97, 98, 99, 100, 101, 102, 37, 120]"
  shows "\<exists>m'. snprintf buf 8 format [0xFFFFFFFF] m = Some (9, m') \<and> m' (buf + 8) = 120"
proof -
  let ?fs = "[97, 98, 99, 100, 101, 102, 37, 120] :: u8 list" and ?pre = "[97, 98, 99, 100, 101, 102] :: u8 list"
  have rd: "snd (wrote buf m p) (format + of_nat i) = ?fs ! i" if "length p \<le> 8" "i < 8" for p i
    using read_wrote [OF assms(4) that(1), of i] cstring_nth [OF assms(3), of i] that(2) by simp
  have step: "format_loop buf 8 format (of_nat i) args (wrote buf m p) = format_loop buf 8 format (of_nat (Suc i)) args (wrote buf m (p @ [?fs ! i]))"
    if "length p = i" "i < 6" for p i args
  proof -
    have u: "(ucast (of_nat i :: u32) :: u64) = of_nat i" by (rule u32_index) (use that in simp)
    have c: "?fs ! i \<noteq> 0 \<and> ?fs ! i \<noteq> 37" using that(2) by (cases i rule: nat.exhaust) (auto simp: less_Suc_eq nth_Cons')
    have f: "fits 8 (p @ [?fs ! i])" "fits 8 (p @ ?fs ! i # [])" using that by (simp_all add: fits_def)
    show ?thesis
      using format_loop_char [of "wrote buf m p" format "of_nat i" 8 buf args] rd [of p i] c u that
        put_char_wrote(1) [OF assms(1) f(1), of m] room_wrote [OF f(2)]
      by (simp add: wrote_def [of buf m p] add.commute)
  qed
  have six: "format_loop buf 8 format 0 args (0, m) = format_loop buf 8 format 6 args (wrote buf m ?pre)" for args
    using step [of "[]" 0 args] step [of "[97]" 1 args] step [of "[97, 98]" 2 args] step [of "[97, 98, 99]" 3 args]
      step [of "[97, 98, 99, 100]" 4 args] step [of "[97, 98, 99, 100, 101]" 5 args]
    by (simp add: wrote_def)
  let ?out = "?pre @ [45, 48, 120]"
  have st: "put_char buf 45 (wrote buf m ?pre) = wrote buf m (?pre @ [45])"
      "store_char buf 48 (wrote buf m (?pre @ [45])) = wrote buf m (?pre @ [45, 48])"
      "store_char buf 120 (wrote buf m (?pre @ [45, 48])) = wrote buf m ?out"
    using put_char_wrote [OF assms(1), of 0 ?pre 45 m] put_char_wrote(2) [OF assms(1), of 0 "?pre @ [45]" 48 m]
      put_char_wrote(2) [OF assms(1), of 0 "?pre @ [45, 48]" 120 m] by (simp_all add: fits_def)
  have one: "(1 :: u32) = - 4294967295" by simp
  have "temp_digits 1 16 = Some [49]"
    using temp_digits_eq [of 16 1] by (simp add: numeral_digits.simps digit_char_def)
  then have td: "temp_digits (- 4294967295) 16 = Some [49]" by (simp only: one)
  have nr: "\<not> room 8 (fst (wrote buf m ?out))" by (simp add: room_def wrote_def)
  have "convert buf 8 120 [0xFFFFFFFF] (wrote buf m ?pre) = Some ([], wrote buf m ?out)"
    using st td nr by (simp add: convert_def put_sign_def)
  moreover have "snd (wrote buf m ?pre) (format + 6) = 37" "snd (wrote buf m ?pre) (format + 7) = 120"
    using rd [of ?pre 6] rd [of ?pre 7] by simp_all
  moreover have "room 8 (fst (wrote buf m ?pre))" by (simp add: room_def wrote_def)
  ultimately have "format_loop buf 8 format 6 [0xFFFFFFFF] (wrote buf m ?pre) = format_loop buf 8 format (6 + 2) [] (wrote buf m ?out)"
    by (intro format_loop_conversion) simp_all
  then have l: "format_loop buf 8 format 0 [0xFFFFFFFF] (0, m) = Some (9, with_bytes m buf ?out)"
    using six format_loop_end [of "wrote buf m ?out" format 8 8] nr by (simp add: wrote_def)
  have at: "with_bytes m buf ?out (buf + of_nat 8) = ?out ! 8" by (rule with_bytes_at) simp_all
  have "buf + 8 \<noteq> buf + (7 :: u64)" by simp
  then show ?thesis using l at user_strlen_eq [OF assms(3)] assms(1,2)
    by (simp add: snprintf_def process_format_def Let_def)
qed

theorem snprintf_overflow_witness:
  "\<forall>m. \<exists>m'. snprintf 0x1000 8 0x2000 [0xFFFFFFFF] (with_bytes m 0x2000 [97, 98, 99, 100, 101, 102, 37, 120, 0]) = Some (9, m') \<and>
     m' 0x1008 = 120"
proof
  fix m
  let ?m = "with_bytes m 0x2000 [97, 98, 99, 100, 101, 102, 37, 120, 0]"
  have "cstring ?m 0x2000 [97, 98, 99, 100, 101, 102, 37, 120]"
    using cstring_with_bytes [of "[97, 98, 99, 100, 101, 102, 37, 120]" m "0x2000"] by simp
  moreover have "apart_from 0x1000 8 0x2000 [97, 98, 99, 100, 101, 102, 37, 120]" by (rule far_apart) simp_all
  ultimately show "\<exists>m'. snprintf 0x1000 8 0x2000 [0xFFFFFFFF] ?m = Some (9, m') \<and> m' 0x1008 = 120"
    using snprintf_overflow [of "0x1000" "0x2000" ?m] by simp
qed

end
