(* ===== verification/Shell.thy ===== *)
theory Shell
  imports User_IO
begin

text \<open>
  Userland/UserCodeModule/shell.c and programs/process-handler.c. A line lives in a buffer of
  258 bytes in memory and is cut into arguments in place; an argument is a pointer into the
  buffer. What the shell does with a line is the list of its actions.
\<close>

section \<open>The commands\<close>

definition bytes_of :: "string \<Rightarrow> u8 list" where
  "bytes_of s = map (\<lambda>c. of_nat (of_char c)) s"

datatype handler =
    H_echo | H_loop | H_mem | H_clear | H_kill | H_nice | H_block | H_phylo | H_ps | H_sh | H_help | H_exit
  | H_cat | H_wc | H_filter | H_test

definition commands :: "(string \<times> handler) list" where
  "commands =
     [(''echo'', H_echo), (''loop'', H_loop), (''mem'', H_mem), (''clear'', H_clear), (''kill'', H_kill),
      (''nice'', H_nice), (''block'', H_block), (''phylo'', H_phylo), (''ps'', H_ps), (''sh'', H_sh),
      (''help'', H_help), (''exit'', H_exit), (''cat'', H_cat), (''wc'', H_wc), (''filter'', H_filter),
      (''test'', H_test)]"

text \<open>\<open>lit\<close> gives the address of the name of each entry.\<close>

fun find_from_command :: "memory \<Rightarrow> (nat \<Rightarrow> u64) \<Rightarrow> u64 \<Rightarrow> nat \<Rightarrow> (string \<times> handler) list \<Rightarrow> handler option option" where
  "find_from_command m lit name i [] = Some None"
| "find_from_command m lit name i (c # cs) =
     (case strcmp m (lit i) name of
        None \<Rightarrow> None
      | Some r \<Rightarrow> if r = 0 then Some (Some (snd c)) else find_from_command m lit name (Suc i) cs)"

definition find_command :: "memory \<Rightarrow> (nat \<Rightarrow> u64) \<Rightarrow> u64 \<Rightarrow> handler option option" where
  "find_command m lit name = find_from_command m lit name 0 commands"

section \<open>Reading a line\<close>

abbreviation MAX_CMD_LENGTH :: nat where "MAX_CMD_LENGTH \<equiv> 256"
abbreviation MAX_ARGS :: nat where "MAX_ARGS \<equiv> 16"

definition IS_PRINTABLE :: "int \<Rightarrow> bool" where
  "IS_PRINTABLE c \<longleftrightarrow> 32 \<le> c \<and> c \<le> 126"

definition newline :: "u8 list" where
  "newline = [10]"

text \<open>
  From the results of \<open>getchar\<close>, the memory, what was printed and the results not yet used;
  \<open>None\<close> while the line is not finished.
\<close>

fun read_chars :: "u64 \<Rightarrow> nat \<Rightarrow> nat \<Rightarrow> int list \<Rightarrow> memory \<Rightarrow> u8 list \<Rightarrow> (memory \<times> u8 list \<times> int list) option" where
  "read_chars buffer max_len pos cs m out =
     (if pos < max_len - 1 then
        (case cs of
           [] \<Rightarrow> None
         | c # cs' \<Rightarrow>
             if c = 10 then Some (m(buffer + of_nat pos := 0), out @ newline, cs')
             else if c = -3 then Some (m(buffer := 0), out @ bytes_of ''^C'' @ newline, cs')
             else if c = -4 \<and> pos = 0
             then Some (m(buffer := 0), out @ bytes_of ''^D'' @ newline @
               bytes_of ''Type 'exit' to quit the shell.'' @ newline, cs')
             else
               let (pos1, out1) = (if c = 8 \<and> pos > 0 then (pos - 1, out @ [8]) else (pos, out))
               in if IS_PRINTABLE c
                  then read_chars buffer max_len (Suc pos1) cs' (m(buffer + of_nat pos1 := word_of_int c)) (out1 @ [word_of_int c])
                  else read_chars buffer max_len pos1 cs' m out1)
      else Some (m(buffer + of_nat pos := 0), out @ newline, cs))"

declare read_chars.simps [simp del]

definition read_line :: "u64 \<Rightarrow> nat \<Rightarrow> int list \<Rightarrow> memory \<Rightarrow> (memory \<times> u8 list \<times> int list) option" where
  "read_line buffer max_len cs m = read_chars buffer max_len 0 cs m []"

section \<open>Cutting a line\<close>

partial_function (option) skip_whitespace :: "memory \<Rightarrow> u64 \<Rightarrow> u64 option" where
  "skip_whitespace m str = (if m str = 32 then skip_whitespace m (str + 1) else Some str)"

partial_function (option) token_end :: "memory \<Rightarrow> u64 \<Rightarrow> u64 option" where
  "token_end m input = (if m input \<noteq> 0 \<and> m input \<noteq> 32 then token_end m (input + 1) else Some input)"

partial_function (option) parse_loop :: "u64 \<Rightarrow> u64 list \<Rightarrow> memory \<Rightarrow> (u64 list \<times> memory) option" where
  "parse_loop input argv m =
     (if m input \<noteq> 0 \<and> length argv < MAX_ARGS - 1
      then (case token_end m input of
              None \<Rightarrow> None
            | Some e \<Rightarrow>
                let (m', e') = (if m e \<noteq> 0 then (m(e := 0), e + 1) else (m, e))
                in (case skip_whitespace m' e' of None \<Rightarrow> None | Some next \<Rightarrow> parse_loop next (argv @ [input]) m'))
      else Some (argv, m))"

text \<open>The arguments, without the null pointer behind them.\<close>

definition parse_command :: "u64 \<Rightarrow> memory \<Rightarrow> (u64 list \<times> memory) option" where
  "parse_command input m = (case skip_whitespace m input of None \<Rightarrow> None | Some s \<Rightarrow> parse_loop s [] m)"

text \<open>The two commands, or the message that is printed when -1 is returned.\<close>

datatype pipe_parse = Pipe_ok "u64 list" "u64 list" | Pipe_error "u8 list"

definition parse_simple_pipe :: "u64 \<Rightarrow> memory \<Rightarrow> (pipe_parse \<times> memory) option" where
  "parse_simple_pipe input m =
     (case strchr m input 124 of
        None \<Rightarrow> None
      | Some pipe_pos \<Rightarrow>
          if pipe_pos = 0 then Some (Pipe_error [], m)
          else (case strchr m (pipe_pos + 1) 124 of
                  None \<Rightarrow> None
                | Some second \<Rightarrow>
                    if second \<noteq> 0 then Some (Pipe_error (bytes_of ''Error: Only one pipe supported at a time'' @ newline), m)
                    else
                      let m1 = m(pipe_pos := 0); right_str = pipe_pos + 1
                      in (case user_strlen m1 right_str of
                            None \<Rightarrow> None
                          | Some right_len \<Rightarrow>
                              let r = right_str + of_nat right_len; m2 = m1(r := 32, r + 1 := 38, r + 2 := 0)
                              in (case parse_command input m2 of
                                    None \<Rightarrow> None
                                  | Some (left_cmd, m3) \<Rightarrow>
                                      if left_cmd = [] then Some (Pipe_error (bytes_of ''Error: Empty command before pipe'' @ newline), m3)
                                      else (case parse_command right_str m3 of
                                              None \<Rightarrow> None
                                            | Some (right_cmd, m4) \<Rightarrow>
                                                Some (if right_cmd = []
                                                  then Pipe_error (bytes_of ''Error: Empty command after pipe'' @ newline)
                                                  else Pipe_ok left_cmd right_cmd, m4))))))"

section \<open>Running a line\<close>

text \<open>A handler gets its arguments and, in a pipeline, its descriptors.\<close>

datatype shell_action = Print "u8 list" | Open_pipe | Close_pipe int | Call handler "u64 list" "(int \<times> int) option"

text \<open>What \<open>%s\<close> prints for a pointer.\<close>

definition text_at :: "memory \<Rightarrow> u64 \<Rightarrow> u8 list option" where
  "text_at m p = (if p = 0 then Some null_text else map_option (bytes_at m p) (user_strlen m p))"

definition unknown_command :: "memory \<Rightarrow> u64 \<Rightarrow> shell_action option" where
  "unknown_command m p = map_option (\<lambda>s. Print (bytes_of ''Unknown command: '' @ s @ newline)) (text_at m p)"

text \<open>\<open>pipe_fd\<close> is what \<open>open\<close> returns.\<close>

definition execute_pipe :: "memory \<Rightarrow> (nat \<Rightarrow> u64) \<Rightarrow> int \<Rightarrow> u64 list \<Rightarrow> u64 list \<Rightarrow> shell_action list option" where
  "execute_pipe m lit pipe_fd left_cmd right_cmd =
     (case find_command m lit (left_cmd ! 0) of
        None \<Rightarrow> None
      | Some left_command \<Rightarrow>
          (case find_command m lit (right_cmd ! 0) of
             None \<Rightarrow> None
           | Some right_command \<Rightarrow>
               (case left_command of
                  None \<Rightarrow> map_option (\<lambda>a. [a]) (unknown_command m (left_cmd ! 0))
                | Some l \<Rightarrow>
                    (case right_command of
                       None \<Rightarrow> map_option (\<lambda>a. [a]) (unknown_command m (right_cmd ! 0))
                     | Some r \<Rightarrow>
                         if pipe_fd = -1 then Some [Open_pipe, Print (bytes_of ''Error: Failed to create pipe'' @ newline)]
                         else Some [Open_pipe, Call r right_cmd (Some (pipe_fd, 1)), Call l left_cmd (Some (0, pipe_fd)),
                           Close_pipe pipe_fd]))))"

definition run_simple :: "memory \<Rightarrow> (nat \<Rightarrow> u64) \<Rightarrow> u64 \<Rightarrow> (shell_action list \<times> memory) option" where
  "run_simple m lit input =
     (case parse_command input m of
        None \<Rightarrow> None
      | Some (args, m') \<Rightarrow>
          (case (if args = [] then Some None else find_command m' lit (args ! 0)) of
             None \<Rightarrow> None
           | Some (Some h) \<Rightarrow> Some ([Call h args None], m')
           | Some None \<Rightarrow> map_option (\<lambda>a. ([a, Print (bytes_of ''Type 'help' for available commands.'' @ newline)], m'))
               (unknown_command m' (if args = [] then 0 else args ! 0))))"

text \<open>One round of the endless loop of \<open>shell\<close>, from the line in the buffer.\<close>

definition run_line :: "memory \<Rightarrow> (nat \<Rightarrow> u64) \<Rightarrow> int \<Rightarrow> u64 \<Rightarrow> (shell_action list \<times> memory) option" where
  "run_line m lit pipe_fd input =
     (case user_strlen m input of
        None \<Rightarrow> None
      | Some len \<Rightarrow>
          if len = 0 then Some ([], m)
          else (case strchr m input 124 of
                  None \<Rightarrow> None
                | Some bar \<Rightarrow>
                    if bar = 0 then run_simple m lit input
                    else (case parse_simple_pipe input m of
                            None \<Rightarrow> None
                          | Some (Pipe_ok left_args right_args, m') \<Rightarrow>
                              map_option (\<lambda>as. (as, m')) (execute_pipe m' lit pipe_fd left_args right_args)
                          | Some (Pipe_error msg, m') \<Rightarrow>
                              map_option (\<lambda>(as, m''). (Print msg # as, m'')) (run_simple m' lit input))))"

definition shell_round :: "(nat \<Rightarrow> u64) \<Rightarrow> int \<Rightarrow> u64 \<Rightarrow> int list \<Rightarrow> memory \<Rightarrow> (shell_action list \<times> int list \<times> memory) option" where
  "shell_round lit pipe_fd input cs m =
     (case read_line input MAX_CMD_LENGTH cs m of
        None \<Rightarrow> None
      | Some (m1, echoed, cs') \<Rightarrow>
          map_option (\<lambda>(as, m2). (Print (bytes_of ''gna> '' @ echoed) # as, cs', m2)) (run_line m1 lit pipe_fd input))"

section \<open>Starting a program\<close>

text \<open>
  The number of arguments and whether the new process is in the foreground: an ampersand at
  the start of the last argument sends it to the background.
\<close>

definition process_handler :: "memory \<Rightarrow> u64 list \<Rightarrow> nat \<times> bool" where
  "process_handler m argv =
     (let argc = length argv
      in if argc > 0 \<and> argv ! (argc - 1) \<noteq> 0 \<and> m (argv ! (argc - 1)) = 38 then (argc - 1, False) else (argc, True))"

section \<open>The buffer as a list\<close>

lemma with_bytes_update:
  assumes "k < length xs" "length xs \<le> 2 ^ 64"
  shows "(with_bytes m p xs)(p + of_nat k := c) = with_bytes m p (xs[k := c])"
proof (rule ext)
  fix a
  have "k < 2 ^ 64" using assms by simp
  from at_offset [OF this, of a p]
  show "((with_bytes m p xs)(p + of_nat k := c)) a = with_bytes m p (xs[k := c]) a"
    using assms(1) by (auto simp: with_bytes_def nth_list_update)
qed

text \<open>A token: a string that starts at position \<open>k\<close> of the buffer.\<close>

definition token_at :: "u8 list \<Rightarrow> nat \<Rightarrow> u8 list \<Rightarrow> bool" where
  "token_at xs k w \<longleftrightarrow> 0 \<notin> set w \<and> (\<exists>zs. drop k xs = w @ 0 # zs)"

lemma token_at_cstring:
  assumes "token_at xs k w" "length xs < 2 ^ 64"
  shows "cstring (with_bytes m p xs) (p + of_nat k) w"
proof -
  obtain zs where zs: "drop k xs = w @ 0 # zs" "0 \<notin> set w" using assms(1) by (auto simp: token_at_def)
  have "length xs - k = length w + Suc (length zs)" using arg_cong [OF zs(1), of length] by simp
  then have l: "k + length w < length xs" by linarith
  have nth: "xs ! (k + i) = (w @ 0 # zs) ! i" if "i \<le> length w" for i
    using arg_cong [OF zs(1), of "\<lambda>l. l ! i"] that l by simp
  have at: "with_bytes m p xs (p + of_nat k + of_nat i) = (w @ 0 # zs) ! i" if "i \<le> length w" for i
    using with_bytes_at [of "k + i" xs m p] that l assms(2) nth [OF that] by (simp add: add.assoc)
  show ?thesis using cstring_append [of "with_bytes m p xs" "p + of_nat k" w "[]"] at zs(2)
    by (auto simp: nth_append)
qed

lemma buffer_nth: "length (pre @ c # ys) < 2 ^ 64 \<Longrightarrow> with_bytes m p (pre @ c # ys) (p + of_nat (length pre)) = c"
  using with_bytes_at [of "length pre" "pre @ c # ys" m p] by simp

lemma buffer_set:
  "length (pre @ c # ys) < 2 ^ 64 \<Longrightarrow> (with_bytes m p (pre @ c # ys))(p + of_nat (length pre) := d) = with_bytes m p (pre @ d # ys)"
  using with_bytes_update [of "length pre" "pre @ c # ys" m p d] by simp

section \<open>Words\<close>

text \<open>The words of a line.\<close>

function words :: "u8 list \<Rightarrow> u8 list list" where
  "words s = (case dropWhile (\<lambda>c. c = 32) s of [] \<Rightarrow> []
     | c # cs \<Rightarrow> takeWhile (\<lambda>c. c \<noteq> 32) (c # cs) # words (dropWhile (\<lambda>c. c \<noteq> 32) (c # cs)))"
  by pat_completeness auto
termination
proof (relation "measure length", simp)
  fix s :: "u8 list" and c cs
  assume e: "dropWhile (\<lambda>c. c = 32) s = c # cs"
  then have "c \<noteq> 32" using hd_dropWhile [of "\<lambda>c. c = 32" s] by auto
  then have "length (dropWhile (\<lambda>c. c \<noteq> 32) (c # cs)) \<le> length cs" by (simp add: length_dropWhile_le)
  also have "\<dots> < length s" using length_dropWhile_le [of "\<lambda>c. c = 32" s] e by simp
  finally show "(dropWhile (\<lambda>c. c \<noteq> 32) (c # cs), s) \<in> measure length" by simp
qed

declare words.simps [simp del]

lemma words_blank: "words (32 # s) = words s"
  by (subst (1 2) words.simps) simp

lemma words_Nil [simp]: "words [] = []"
  by (simp add: words.simps)

lemma words_last:
  assumes "w \<noteq> []" "32 \<notin> set w"
  shows "words w = [w]"
proof -
  obtain c w' where w: "w = c # w'" using assms(1) by (cases w) auto
  have t: "takeWhile (\<lambda>c. c \<noteq> 32) w' = w'" using assms(2) w by (auto simp: takeWhile_eq_all_conv)
  have d: "dropWhile (\<lambda>c. c \<noteq> 32) w' = []" using assms(2) w unfolding dropWhile_eq_Nil_conv by auto
  show ?thesis using assms(2) unfolding w
    by (subst words.simps) (simp add: t d del: dropWhile_eq_Nil_conv)
qed

lemma words_word:
  assumes "w \<noteq> []" "32 \<notin> set w"
  shows "words (w @ 32 # s) = w # words s"
proof -
  have "takeWhile (\<lambda>c. c \<noteq> 32) (w @ 32 # s) = w" "dropWhile (\<lambda>c. c \<noteq> 32) (w @ 32 # s) = 32 # s"
    using assms(2) by (simp_all add: takeWhile_append dropWhile_append)
  moreover have "dropWhile (\<lambda>c. c = 32) (w @ 32 # s) = w @ 32 # s" using assms by (cases w) auto
  ultimately show ?thesis using assms(1) words_blank by (subst words.simps) (auto split: list.splits)
qed

lemma words_split:
  assumes "32 \<notin> set w"
  shows "words (l @ 32 # w) = words l @ words w"
proof (induction l rule: length_induct)
  case (1 l)
  show ?case
  proof (cases l)
    case Nil
    then show ?thesis by (simp add: words_blank)
  next
    case (Cons c l')
    show ?thesis
    proof (cases "c = 32")
      case True
      then show ?thesis using 1 Cons by (simp add: words_blank)
    next
      case c: False
      let ?t = "takeWhile (\<lambda>c. c \<noteq> 32) l" and ?d = "dropWhile (\<lambda>c. c \<noteq> 32) l"
      have t: "?t \<noteq> []" "32 \<notin> set ?t" "l = ?t @ ?d" using c Cons by (auto dest: set_takeWhileD)
      show ?thesis
      proof (cases ?d)
        case Nil
        then have l: "?t = l" using t(3) by simp
        show ?thesis using words_word [OF t(1,2), of w] words_last [OF t(1,2)] unfolding l by simp
      next
        case (Cons b r)
        then have b: "b = 32" using hd_dropWhile [of "\<lambda>c. c \<noteq> 32" l] by auto
        have "length r < length l" using arg_cong [OF t(3), of length] Cons t(1) by simp
        then have "words (r @ 32 # w) = words r @ words w" using 1 by blast
        moreover have "l @ 32 # w = ?t @ 32 # r @ 32 # w" "l = ?t @ 32 # r" using t(3) Cons b by (metis append.assoc append_Cons)+
        ultimately show ?thesis using words_word [OF t(1,2)] by (metis append_Cons)
      qed
    qed
  qed
qed

section \<open>Cutting into words\<close>

lemma skip_blanks:
  "length (pre @ replicate j 32 @ c # ys) < 2 ^ 64 \<Longrightarrow> c \<noteq> 32 \<Longrightarrow>
     skip_whitespace (with_bytes m p (pre @ replicate j 32 @ c # ys)) (p + of_nat (length pre)) = Some (p + of_nat (length pre + j))"
proof (induction j arbitrary: pre)
  case 0
  then show ?case using buffer_nth [of pre c ys m p] by (subst skip_whitespace.simps) simp
next
  case (Suc j)
  have "skip_whitespace (with_bytes m p ((pre @ [32]) @ replicate j 32 @ c # ys)) (p + of_nat (length (pre @ [32]))) =
      Some (p + of_nat (length (pre @ [32]) + j))"
    by (rule Suc.IH) (use Suc.prems in simp_all)
  then show ?case using buffer_nth [of pre 32 "replicate j 32 @ c # ys" m p] Suc.prems
    by (subst skip_whitespace.simps) (simp add: add_ac)
qed

lemma token_end_word:
  "length (pre @ w @ c # ys) < 2 ^ 64 \<Longrightarrow> 0 \<notin> set w \<Longrightarrow> 32 \<notin> set w \<Longrightarrow> c = 0 \<or> c = 32 \<Longrightarrow>
     token_end (with_bytes m p (pre @ w @ c # ys)) (p + of_nat (length pre)) = Some (p + of_nat (length pre + length w))"
proof (induction w arbitrary: pre)
  case Nil
  then show ?case using buffer_nth [of pre c ys m p] by (subst token_end.simps) auto
next
  case (Cons b w)
  have "token_end (with_bytes m p ((pre @ [b]) @ w @ c # ys)) (p + of_nat (length (pre @ [b]))) =
      Some (p + of_nat (length (pre @ [b]) + length w))"
    by (rule Cons.IH) (use Cons.prems in auto)
  then show ?case using buffer_nth [of pre b "w @ c # ys" m p] Cons.prems
    by (subst token_end.simps) (simp add: add_ac)
qed

text \<open>The tokens of a buffer at the positions \<open>ks\<close>, as many as there are words and room for arguments.\<close>

definition tokens :: "u8 list \<Rightarrow> nat list \<Rightarrow> u8 list list \<Rightarrow> bool" where
  "tokens xs ks ws \<longleftrightarrow> list_all2 (token_at xs) ks ws"

lemma words_cases:
  assumes "s \<noteq> []" "hd s \<noteq> (32 :: u8)"
  obtains w where "w \<noteq> []" "32 \<notin> set w" "s = w" | w j s' where "w \<noteq> []" "32 \<notin> set w" "s = w @ 32 # replicate j 32 @ s'"
    "s' = [] \<or> hd s' \<noteq> 32" "words s = w # words s'" "length s' < length s"
proof -
  let ?w = "takeWhile (\<lambda>c. c \<noteq> 32) s" and ?d = "dropWhile (\<lambda>c. c \<noteq> 32) s"
  have w: "?w \<noteq> []" "32 \<notin> set ?w" "s = ?w @ ?d" using assms by (cases s; auto dest: set_takeWhileD)+
  show ?thesis
  proof (cases ?d)
    case Nil
    have "s = ?w" using w(3) unfolding Nil append_Nil2 .
    then show ?thesis by (rule that(1) [OF w(1,2)])
  next
    case (Cons b r)
    then have b: "b = 32" using hd_dropWhile [of "\<lambda>c. c \<noteq> 32" s] by auto
    let ?j = "length (takeWhile (\<lambda>c. c = 32) r)" and ?s = "dropWhile (\<lambda>c. c = 32) r"
    have "takeWhile (\<lambda>c. c = 32) r = replicate ?j 32" by (rule replicate_eqI) (auto dest: set_takeWhileD)
    then have r: "r = replicate ?j 32 @ ?s" by (metis takeWhile_dropWhile_id)
    have eq: "s = ?w @ 32 # replicate ?j 32 @ ?s" using w(3) Cons b r by metis
    have bl: "words (replicate j 32 @ t) = words t" for j t by (induction j) (simp_all add: words_blank)
    have "words s = ?w # words (replicate ?j 32 @ ?s)" by (subst eq) (rule words_word [OF w(1,2)])
    then have "words s = ?w # words ?s" unfolding bl .
    moreover have "?s = [] \<or> hd ?s \<noteq> 32" using hd_dropWhile [of "\<lambda>c. c = 32" r] by auto
    moreover have "length ?s < length s"
    proof -
      have "length ?s \<le> length r" by (rule length_dropWhile_le)
      also have "length r < length (?w @ b # r)" by simp
      also have "?w @ b # r = s" using w(3) Cons by simp
      finally show ?thesis .
    qed
    ultimately show ?thesis using that(2) [OF w(1,2) eq] by blast
  qed
qed

lemma parse_loop_stop:
  assumes "m input = 0 \<or> \<not> length argv < MAX_ARGS - 1"
  shows "parse_loop input argv m = Some (argv, m)"
  using assms by (subst parse_loop.simps) auto

lemma parse_loop_words:
  "0 \<notin> set s \<Longrightarrow> s = [] \<or> hd s \<noteq> 32 \<Longrightarrow> length (pre @ s @ 0 # post) < 2 ^ 64 \<Longrightarrow>
   \<exists>ks s'. parse_loop (p + of_nat (length pre)) argv (with_bytes m p (pre @ s @ 0 # post)) =
       Some (argv @ map (\<lambda>k. p + of_nat k) ks, with_bytes m p (pre @ s' @ 0 # post)) \<and>
     length s' = length s \<and> tokens (pre @ s' @ 0 # post) ks (take (15 - length argv) (words s)) \<and>
     (\<forall>k\<in>set ks. k < length (pre @ s))"
proof (induction "length s" arbitrary: s pre argv rule: less_induct)
  case less
  let ?m = "with_bytes m p (pre @ s @ 0 # post)" and ?in = "p + of_nat (length pre)"
  show ?case
  proof (cases "s = [] \<or> \<not> length argv < 15")
    case True
    then have "parse_loop ?in argv ?m = Some (argv, ?m)"
      using buffer_nth [of pre 0 post m p] less.prems(3) by (intro parse_loop_stop) auto
    moreover have "take (15 - length argv) (words s) = []" using True by auto
    ultimately show ?thesis by (intro exI [of _ "[]"] exI [of _ s]) (simp add: tokens_def)
  next
    case False
    then have s: "s \<noteq> []" "hd s \<noteq> 32" "length argv < 15" using less.prems(2) by auto
    have hd: "?m ?in \<noteq> 0" using buffer_nth [of pre "hd s" "tl s @ 0 # post" m p] less.prems(1,3) s(1) by (cases s) auto
    have ta: "take (15 - length argv) (w # ws) = w # take (15 - Suc (length argv)) ws" for w :: "u8 list" and ws
      using s(3) by (simp add: take_Cons')
    from s(1,2) show ?thesis
    proof (cases rule: words_cases)
      case (1 w)
      have "token_end ?m ?in = Some (p + of_nat (length pre + length w))"
        using token_end_word [of pre w 0 post m p] less.prems 1 by simp
      moreover have z: "?m (p + of_nat (length (pre @ w))) = 0" using buffer_nth [of "pre @ w" 0 post m p] less.prems(3) 1(3) by simp
      moreover have "skip_whitespace ?m (p + of_nat (length pre + length w)) = Some (p + of_nat (length pre + length w))"
        using z by (subst skip_whitespace.simps) simp
      ultimately have "parse_loop ?in argv ?m = parse_loop (p + of_nat (length (pre @ w))) (argv @ [?in]) ?m"
        using hd s(3) by (subst parse_loop.simps) simp
      also have "\<dots> = Some (argv @ [?in], ?m)" using z by (intro parse_loop_stop) simp
      finally have r: "parse_loop ?in argv ?m = Some (argv @ [?in], ?m)" .
      have ws: "words s = [w]" using words_last [OF 1(1,2)] 1(3) by simp
      have "token_at (pre @ s @ 0 # post) (length pre) w" using less.prems(1) 1(3) by (simp add: token_at_def)
      then have "tokens (pre @ s @ 0 # post) [length pre] (take (15 - length argv) (words s))" by (simp add: tokens_def ws ta)
      then show ?thesis using r s(1) by (intro exI [of _ "[length pre]"] exI [of _ s]) simp
    next
      case (2 w j s')
      let ?pre = "pre @ w @ 0 # replicate j 32"
      have len: "length (?pre @ s' @ 0 # post) < 2 ^ 64" using less.prems(3) 2(3) by simp
      have z: "0 \<notin> set w" "0 \<notin> set s'" using less.prems(1) 2(3) by auto
      have te: "token_end ?m ?in = Some (p + of_nat (length (pre @ w)))"
        using token_end_word [of pre w 32 "replicate j 32 @ s' @ 0 # post" m p] less.prems(3) z(1) 2(2,3) by simp
      have b: "?m (p + of_nat (length (pre @ w))) = 32"
        using buffer_nth [of "pre @ w" 32 "replicate j 32 @ s' @ 0 # post" m p] less.prems(3) 2(3) by simp
      have st: "?m(p + of_nat (length (pre @ w)) := 0) = with_bytes m p (?pre @ s' @ 0 # post)"
        using buffer_set [of "pre @ w" 32 "replicate j 32 @ s' @ 0 # post" m p 0] less.prems(3) 2(3) by simp
      have sk: "skip_whitespace (with_bytes m p (?pre @ s' @ 0 # post)) (p + of_nat (length (pre @ w)) + 1) = Some (p + of_nat (length ?pre))"
      proof (cases s')
        case Nil
        have "(0 :: u8) \<noteq> 32" by simp
        from skip_blanks [OF _ this, of "pre @ w @ [0]" j post m p] Nil show ?thesis using len by (simp add: add_ac)
      next
        case (Cons c cs)
        then show ?thesis using skip_blanks [of "pre @ w @ [0]" j c "cs @ 0 # post" m p] len 2(4) by (simp add: add_ac)
      qed
      have "parse_loop ?in argv ?m = parse_loop (p + of_nat (length ?pre)) (argv @ [?in]) (with_bytes m p (?pre @ s' @ 0 # post))"
        using hd s(3) te b sk by (subst parse_loop.simps) (simp only: st Let_def option.case if_True if_False prod.case simp_thms, simp)
      moreover obtain ks t where k: "parse_loop (p + of_nat (length ?pre)) (argv @ [?in]) (with_bytes m p (?pre @ s' @ 0 # post)) =
          Some ((argv @ [?in]) @ map (\<lambda>k. p + of_nat k) ks, with_bytes m p (?pre @ t @ 0 # post))" "length t = length s'"
          "tokens (?pre @ t @ 0 # post) ks (take (15 - length (argv @ [?in])) (words s'))" "\<forall>k\<in>set ks. k < length (?pre @ s')"
        using less.hyps [OF 2(6) z(2) 2(4) len, of "argv @ [?in]"] by blast
      moreover have "token_at (?pre @ t @ 0 # post) (length pre) w" using z(1) by (simp add: token_at_def)
      ultimately show ?thesis using 2(3,5)
        by (intro exI [of _ "length pre # ks"] exI [of _ "w @ 0 # replicate j 32 @ t"]) (simp add: tokens_def ta)
    qed
  qed
qed

lemma words_blanks: "words (replicate j 32 @ s) = words s"
  by (induction j) (simp_all add: words_blank)

lemma blanks_first: "\<exists>j t. s = replicate j 32 @ t \<and> (t = [] \<or> hd t \<noteq> (32 :: u8))"
proof -
  let ?b = "takeWhile (\<lambda>c. c = 32) s" and ?t = "dropWhile (\<lambda>c. c = 32) s"
  have "?b = replicate (length ?b) 32" by (rule replicate_eqI) (auto dest: set_takeWhileD)
  then have "s = replicate (length ?b) 32 @ ?t" by (metis takeWhile_dropWhile_id)
  moreover have "?t = [] \<or> hd ?t \<noteq> 32" using hd_dropWhile [of "\<lambda>c. c = 32" s] by auto
  ultimately show ?thesis by blast
qed

lemma parse_command_tokens:
  assumes "0 \<notin> set s" "length (pre @ s @ 0 # post) < 2 ^ 64"
  shows "\<exists>ks s'. parse_command (p + of_nat (length pre)) (with_bytes m p (pre @ s @ 0 # post)) =
       Some (map (\<lambda>k. p + of_nat k) ks, with_bytes m p (pre @ s' @ 0 # post)) \<and>
     length s' = length s \<and> tokens (pre @ s' @ 0 # post) ks (take 15 (words s)) \<and> (\<forall>k\<in>set ks. k < length (pre @ s))"
proof -
  obtain j t where t: "s = replicate j 32 @ t" "t = [] \<or> hd t \<noteq> 32" using blanks_first by blast
  let ?pre = "pre @ replicate j 32"
  have z: "0 \<notin> set t" "length (?pre @ t @ 0 # post) < 2 ^ 64" using assms t(1) by auto
  have "skip_whitespace (with_bytes m p (pre @ s @ 0 # post)) (p + of_nat (length pre)) = Some (p + of_nat (length ?pre))"
  proof (cases t)
    case Nil
    have "(0 :: u8) \<noteq> 32" by simp
    from skip_blanks [OF _ this, of pre j post m p] Nil t(1) assms(2) show ?thesis by simp
  next
    case (Cons c cs)
    then show ?thesis using skip_blanks [of pre j c "cs @ 0 # post" m p] t assms(2) by simp
  qed
  moreover obtain ks t' where k: "parse_loop (p + of_nat (length ?pre)) [] (with_bytes m p (?pre @ t @ 0 # post)) =
      Some ([] @ map (\<lambda>k. p + of_nat k) ks, with_bytes m p (?pre @ t' @ 0 # post))" "length t' = length t"
      "tokens (?pre @ t' @ 0 # post) ks (take (15 - length ([] :: u64 list)) (words t))" "\<forall>k\<in>set ks. k < length (?pre @ t)"
    using parse_loop_words [OF z(1) t(2) z(2), of p "[]" m] by blast
  ultimately show ?thesis using t(1)
    by (intro exI [of _ ks] exI [of _ "replicate j 32 @ t'"]) (simp add: parse_command_def words_blanks)
qed

lemma cstring_buffer:
  assumes "cstring m p s" "length s < 2 ^ 63"
  shows "with_bytes m p (s @ [0]) = m"
proof (rule ext)
  fix a
  show "with_bytes m p (s @ [0]) a = m a"
  proof (cases "unat (a - p) < length (s @ [0])")
    case True
    define i where "i = unat (a - p)"
    have a: "a = p + of_nat i" by (simp add: i_def)
    have "i < Suc (length s)" using True by (simp add: i_def)
    then have "m a = (s @ [0]) ! i" using cstring_nth [OF assms(1), of i] cstring_end [OF assms(1)] a
      by (cases "i = length s") (auto simp: nth_append)
    then show ?thesis using True by (simp add: with_bytes_def i_def)
  qed (simp add: with_bytes_def)
qed

lemma cstring_nonzero: "cstring m p s \<Longrightarrow> 0 \<notin> set s"
  by (induction s arbitrary: p) auto

lemma tokens_cstrings:
  assumes "tokens xs ks ws" "length xs < 2 ^ 64"
  shows "list_all2 (cstring (with_bytes m p xs)) (map (\<lambda>k. p + of_nat k) ks) ws"
  using assms(1) unfolding tokens_def list_all2_map1
  by (rule list_all2_mono) (rule token_at_cstring [OF _ assms(2)])

text \<open>
  Cutting a line into arguments. For every line \<open>parse_command\<close> returns the pointers to its
  words, in order and at most fifteen: each argument is a string in the changed memory, the
  word that lies between blanks; only the line itself was changed.
\<close>

theorem parse_command_words:
  assumes "cstring m p s" "length s < 2 ^ 63"
  shows "\<exists>argv m'. parse_command p m = Some (argv, m') \<and> list_all2 (cstring m') argv (take 15 (words s)) \<and>
    (\<forall>a. length s \<le> unat (a - p) \<longrightarrow> m' a = m a)"
proof -
  have len: "length ([] @ s @ 0 # []) < 2 ^ 64" using assms(2) by simp
  note b = cstring_buffer [OF assms]
  obtain ks s' where k: "parse_command p m = Some (map (\<lambda>k. p + of_nat k) ks, with_bytes m p (s' @ [0]))" "length s' = length s"
      "tokens (s' @ [0]) ks (take 15 (words s))"
    using parse_command_tokens [OF cstring_nonzero [OF assms(1)] len, of p m] b by auto
  have "list_all2 (cstring (with_bytes m p (s' @ [0]))) (map (\<lambda>k. p + of_nat k) ks) (take 15 (words s))"
    by (rule tokens_cstrings [OF k(3)]) (use k(2) assms(2) in simp)
  moreover have "with_bytes m p (s' @ [0]) a = m a" if "length s \<le> unat (a - p)" for a
  proof (cases "unat (a - p) = length s")
    case True
    then have "a = p + of_nat (length s)" by (metis offset_word)
    then have "m a = 0" using cstring_end [OF assms(1)] by simp
    then show ?thesis using True k(2) by (simp add: with_bytes_def nth_append)
  qed (use that k(2) in \<open>simp add: with_bytes_def\<close>)
  ultimately show ?thesis using k(1) by blast
qed

lemma parse_command_words_witness:
  "\<forall>m. \<exists>argv m'. parse_command 0x1000 (with_bytes m 0x1000 [32, 107, 32, 32, 55, 0]) = Some (argv, m') \<and>
     list_all2 (cstring m') argv [[107], [55]]"
proof
  fix m
  let ?m = "with_bytes m 0x1000 [32, 107, 32, 32, 55, 0]"
  have c: "cstring ?m 0x1000 [32, 107, 32, 32, 55]" using cstring_with_bytes [of "[32, 107, 32, 32, 55]" m "0x1000"] by simp
  have "words [32, 107, 32, 32, 55] = [[107], [55]]" by (simp add: words.simps)
  with parse_command_words [OF c]
  show "\<exists>argv m'. parse_command 0x1000 ?m = Some (argv, m') \<and> list_all2 (cstring m') argv [[107], [55]]" by auto
qed

section \<open>Looking up commands\<close>

definition command_of :: "u8 list \<Rightarrow> handler option" where
  "command_of w = map_of (map (\<lambda>(n, h). (bytes_of n, h)) commands) w"

definition names_ok :: "memory \<Rightarrow> (nat \<Rightarrow> u64) \<Rightarrow> bool" where
  "names_ok m lit \<longleftrightarrow> (\<forall>i<length commands. cstring m (lit i) (bytes_of (fst (commands ! i))))"

lemma strcmp_zero:
  "cstring m p xs \<Longrightarrow> cstring m q ys \<Longrightarrow> \<exists>r. strcmp m p q = Some r \<and> (r = 0 \<longleftrightarrow> xs = ys)"
  using strcmp_spec by blast

lemma find_from_command_eq:
  "cstring m name w \<Longrightarrow> \<forall>j<length cs. cstring m (lit (i + j)) (bytes_of (fst (cs ! j))) \<Longrightarrow>
     find_from_command m lit name i cs = Some (map_of (map (\<lambda>(n, h). (bytes_of n, h)) cs) w)"
proof (induction cs arbitrary: i)
  case (Cons c cs)
  have "\<forall>j<length cs. cstring m (lit (Suc i + j)) (bytes_of (fst (cs ! j)))"
  proof (intro allI impI)
    fix j assume "j < length cs"
    then show "cstring m (lit (Suc i + j)) (bytes_of (fst (cs ! j)))" using Cons.prems(2) [rule_format, of "Suc j"] by simp
  qed
  note ih = Cons.IH [OF Cons.prems(1) this]
  have "cstring m (lit i) (bytes_of (fst c))" using Cons.prems(2) [rule_format, of 0] by simp
  from strcmp_zero [OF this Cons.prems(1)] ih show ?case by (cases c) auto
qed simp

lemma find_command_eq:
  assumes "names_ok m lit" "cstring m name w"
  shows "find_command m lit name = Some (command_of w)"
  using find_from_command_eq [OF assms(2), of commands lit 0] assms(1)
  by (simp add: find_command_def command_of_def names_ok_def)

section \<open>Pipelines\<close>

lemma token_at_prefix:
  assumes "token_at (l @ 0 # post1) k w" "k \<le> length l"
  shows "token_at (l @ 0 # post2) k w"
proof -
  obtain zs where w: "0 \<notin> set w" "drop k l @ 0 # post1 = w @ 0 # zs" using assms by (auto simp: token_at_def)
  obtain u v where uv: "drop k l @ [0] = u @ 0 # v" "0 \<notin> set u" using split_list_first [of 0 "drop k l @ [0]"] by auto
  have tw: "takeWhile (\<lambda>c. c \<noteq> 0) (x @ 0 # y) = x" if "0 \<notin> set x" for x y :: "u8 list"
    using that by (induction x) auto
  have e: "drop k l @ 0 # post = u @ 0 # (v @ post)" for post using arg_cong [OF uv(1), of "\<lambda>x. x @ post"] by simp
  have "u = w" using tw [OF uv(2), of "v @ post1"] tw [OF w(1), of zs] w(2) e [of post1] by metis
  then have "drop k (l @ 0 # post2) = w @ 0 # (v @ post2)" using e [of post2] assms(2) by simp
  then show ?thesis using w(1) by (auto simp: token_at_def)
qed

lemma tokens_prefix:
  "tokens (l @ 0 # post1) ks ws \<Longrightarrow> \<forall>k\<in>set ks. k \<le> length l \<Longrightarrow> tokens (l @ 0 # post2) ks ws"
  unfolding tokens_def list_all2_conv_all_nth using token_at_prefix by fastforce

lemma bar [simp]: "char_int 124 = 124"
  by (simp add: char_int_def)

lemma buffer_cstring:
  assumes "length (pre @ s @ 0 # post) < 2 ^ 64" "0 \<notin> set s"
  shows "cstring (with_bytes m p (pre @ s @ 0 # post)) (p + of_nat (length pre)) s"
  by (rule token_at_cstring [OF _ assms(1)]) (use assms(2) in \<open>simp add: token_at_def\<close>)

lemma pointer_nonzero:
  assumes "p \<noteq> 0" "unat p + k < 2 ^ 64"
  shows "p + of_nat k \<noteq> (0 :: u64)"
proof -
  have "unat (of_nat k :: u64) = k" using assms(2) by (simp add: unsigned_of_nat take_bit_nat_eq_self)
  then have "unat (p + of_nat k) = unat p + k" using assms(2) unat_add_lem [of p "of_nat k"] by simp
  then show ?thesis using assms(1) by (metis add_is_0 unat_0 unat_eq_zero)
qed

lemma parse_simple_pipe_eq:
  assumes "0 \<notin> set l" "0 \<notin> set r" "124 \<notin> set l" "124 \<notin> set r" "2 \<le> length post"
    and "p \<noteq> 0" "unat p + length (l @ 124 # r @ 0 # post) < 2 ^ 64" "words l \<noteq> []"
  shows "\<exists>kl kr xs. parse_simple_pipe p (with_bytes m p (l @ 124 # r @ 0 # post)) =
      Some (Pipe_ok (map (\<lambda>k. p + of_nat k) kl) (map (\<lambda>k. p + of_nat k) kr), with_bytes m p xs) \<and>
    length xs = length (l @ 124 # r @ 0 # post) \<and> tokens xs kl (take 15 (words l)) \<and>
    tokens xs kr (take 15 (words r @ [[38]])) \<and> (\<forall>k\<in>set kl \<union> set kr. k < length xs)"
proof -
  let ?xs = "l @ 124 # r @ 0 # post" and ?N = "length (l @ 124 # r @ 0 # post)"
  have N: "?N < 2 ^ 64" using assms(7) by simp
  obtain b c post' where post: "post = b # c # post'" using assms(5) by (metis Suc_le_length_iff numeral_2_eq_2)
  let ?pp = "p + of_nat (length l)"
  have pp: "?pp \<noteq> 0" by (rule pointer_nonzero [OF assms(6)]) (use assms(7) in simp)
  have c1: "cstring (with_bytes m p ?xs) p (l @ 124 # r)"
    using buffer_cstring [of "[]" "l @ 124 # r" post m p] assms N by simp
  have s1: "strchr (with_bytes m p ?xs) p 124 = Some ?pp" using strchr_found [OF c1 assms(3)] by simp
  have c2: "cstring (with_bytes m p ?xs) (?pp + 1) r"
    using buffer_cstring [of "l @ [124]" r post m p] assms(2) N by (simp add: add_ac)
  have s2: "strchr (with_bytes m p ?xs) (?pp + 1) 124 = Some 0" using strchr_none [OF c2 assms(4)] by simp
  let ?x1 = "l @ 0 # r @ 0 # post"
  have m1: "(with_bytes m p ?xs)(?pp := 0) = with_bytes m p ?x1" by (rule buffer_set) (use N in simp)
  have c3: "cstring (with_bytes m p ?x1) (?pp + 1) r"
    using buffer_cstring [of "l @ [0]" r post m p] assms(2) N by (simp add: add_ac)
  note sl = user_strlen_eq [OF c3]
  let ?r = "?pp + 1 + of_nat (length r)" and ?rr = "r @ [32, 38]"
  let ?x2 = "l @ 0 # ?rr @ 0 # post'"
  have u1: "(with_bytes m p ?x1)(?r := 32) = with_bytes m p (l @ 0 # r @ 32 # post)"
    using buffer_set [of "l @ 0 # r" 0 post m p 32] N by (simp add: add_ac)
  have u2: "(with_bytes m p (l @ 0 # r @ 32 # post))(?r + 1 := 38) = with_bytes m p (l @ 0 # r @ 32 # 38 # c # post')"
    using buffer_set [of "l @ 0 # r @ [32]" b "c # post'" m p 38] N post by (simp add: add_ac)
  have u3: "(with_bytes m p (l @ 0 # r @ 32 # 38 # c # post'))(?r + 2 := 0) = with_bytes m p ?x2"
    using buffer_set [of "l @ 0 # r @ [32, 38]" c post' m p 0] N post by (simp add: add_ac)
  have m2: "(with_bytes m p ?x1)(?r := 32, ?r + 1 := 38, ?r + 2 := 0) = with_bytes m p ?x2" unfolding u1 u2 u3 ..
  have N2: "length ([] @ l @ 0 # ?rr @ 0 # post') < 2 ^ 64" using N post by simp
  obtain kl l' where kl: "parse_command p (with_bytes m p ?x2) = Some (map (\<lambda>k. p + of_nat k) kl, with_bytes m p (l' @ 0 # ?rr @ 0 # post'))"
      "length l' = length l" "tokens (l' @ 0 # ?rr @ 0 # post') kl (take 15 (words l))" "\<forall>k\<in>set kl. k < length l"
    using parse_command_tokens [OF assms(1) N2, of p m] by auto
  have "kl \<noteq> []" using kl(3) assms(8) unfolding tokens_def by auto
  let ?pre = "l' @ [0]"
  have N3: "length (?pre @ ?rr @ 0 # post') < 2 ^ 64" using N post kl(2) by simp
  have z: "0 \<notin> set ?rr" using assms(2) by simp
  obtain kr r' where kr: "parse_command (p + of_nat (length ?pre)) (with_bytes m p (?pre @ ?rr @ 0 # post')) =
      Some (map (\<lambda>k. p + of_nat k) kr, with_bytes m p (?pre @ r' @ 0 # post'))"
      "length r' = length ?rr" "tokens (?pre @ r' @ 0 # post') kr (take 15 (words ?rr))" "\<forall>k\<in>set kr. k < length (?pre @ ?rr)"
    using parse_command_tokens [OF z N3, of p m] by blast
  have ws: "words ?rr = words r @ [[38]]" using words_split [of "[38]" r] words_last [of "[38]"] by simp
  have "kr \<noteq> []" using kr(3) unfolding ws tokens_def by auto
  let ?x = "l' @ 0 # r' @ 0 # post'"
  have tl: "tokens ?x kl (take 15 (words l))" by (rule tokens_prefix [OF kl(3)]) (use kl(2,4) in auto)
  have b1: "\<forall>k\<in>set kl \<union> set kr. k < length ?x" using kl(2,4) kr(2,4) by auto
  have tr: "tokens ?x kr (take 15 (words r @ [[38]]))" using kr(3) unfolding ws by simp
  have pr: "parse_command (?pp + 1) (with_bytes m p (l' @ 0 # ?rr @ 0 # post')) = Some (map (\<lambda>k. p + of_nat k) kr, with_bytes m p ?x)"
    using kr(1) kl(2) by (simp add: add_ac)
  have "parse_simple_pipe p (with_bytes m p ?xs) =
      Some (Pipe_ok (map (\<lambda>k. p + of_nat k) kl) (map (\<lambda>k. p + of_nat k) kr), with_bytes m p ?x)"
    unfolding parse_simple_pipe_def s1 option.case if_not_P [OF pp] s2 Let_def m1 sl m2 kl(1) prod.case pr
    using \<open>kl \<noteq> []\<close> \<open>kr \<noteq> []\<close> by simp
  moreover have "length ?x = length ?xs" using kl(2) kr(2) post by simp
  ultimately show ?thesis using tl tr b1 by blast
qed

lemma with_bytes_self: "n < 2 ^ 64 \<Longrightarrow> with_bytes m p (bytes_at m p n) = m"
  by (rule ext) (simp add: with_bytes_def bytes_at_def)

lemma line_buffer:
  assumes "cstring m p s" "length s + 3 < 2 ^ 64"
  shows "\<exists>post. length post = 2 \<and> with_bytes m p (s @ 0 # post) = m"
proof -
  let ?e = "p + of_nat (length s)"
  have "bytes_at m p (length s + 3) = s @ [0, m (?e + 1), m (?e + 2)]"
  proof (rule nth_equalityI)
    fix i assume "i < length (bytes_at m p (length s + 3))"
    then have i: "i < length s + 3" by (simp add: bytes_at_def)
    consider "i < length s" | "i = length s" | "i = length s + 1" | "i = length s + 2" using i by linarith
    then show "bytes_at m p (length s + 3) ! i = (s @ [0, m (?e + 1), m (?e + 2)]) ! i"
      using cstring_nth [OF assms(1), of i] cstring_end [OF assms(1)]
      by cases (simp_all add: bytes_at_def nth_append add_ac)
  qed (simp add: bytes_at_def)
  then have "with_bytes m p (s @ [0, m (?e + 1), m (?e + 2)]) = m"
    using with_bytes_self [OF assms(2), of m p] by simp
  then show ?thesis by (intro exI [of _ "[m (?e + 1), m (?e + 2)]"]) simp
qed

text \<open>The names of the commands lie outside the buffer.\<close>

definition names_apart :: "u64 \<Rightarrow> nat \<Rightarrow> (nat \<Rightarrow> u64) \<Rightarrow> bool" where
  "names_apart p n lit \<longleftrightarrow> (\<forall>i<length commands. apart_from p n (lit i) (bytes_of (fst (commands ! i))))"

lemma names_ok_elsewhere:
  assumes "names_ok m lit" "names_apart p n lit" "length xs \<le> n"
  shows "names_ok (with_bytes m p xs) lit"
  unfolding names_ok_def
proof (intro allI impI)
  fix i assume i: "i < length commands"
  show "cstring (with_bytes m p xs) (lit i) (bytes_of (fst (commands ! i)))"
  proof (rule cstring_elsewhere)
    show "cstring m (lit i) (bytes_of (fst (commands ! i)))" using assms(1) i by (simp add: names_ok_def)
    fix j assume "j \<le> length (bytes_of (fst (commands ! i)))"
    then show "length xs \<le> unat (lit i + of_nat j - p)"
      using assms(2,3) i unfolding names_apart_def apart_from_def by (meson order_trans)
  qed
qed


text \<open>A memory with the names from \<open>0x10000\<close> on, sixteen bytes each, and a line at \<open>0x1000\<close>.\<close>

definition names_image :: "u8 list" where
  "names_image = concat (map (\<lambda>(n, h). bytes_of n @ replicate (16 - length n) 0) commands)"

definition names_at :: "nat \<Rightarrow> u64" where
  "names_at i = 0x10000 + of_nat (16 * i)"

definition line_memory :: "u8 list \<Rightarrow> memory" where
  "line_memory s = with_bytes (with_bytes (\<lambda>_. 0) 0x10000 names_image) 0x1000 (s @ [0])"

lemma names_image_tokens:
  "list_all (\<lambda>i. let w = bytes_of (fst (commands ! i)) in take (Suc (length w)) (drop (16 * i) names_image) = w @ [0] \<and> 0 \<notin> set w \<and> length w < 16)
     [0..<length commands] \<and> length names_image = 256 \<and> length commands = 16"
  by code_simp

lemma names_line_memory:
  assumes "length s < 0xF000"
  shows "names_ok (line_memory s) names_at" "names_apart 0x1000 0xF000 names_at"
proof -
  have ap: "apart_from 0x1000 0xF000 (names_at i) w" if "i < 16" "length w < 16" for i and w :: "u8 list"
  proof (rule far_apart)
    have "unat (names_at i - 0x1000) = 0xF000 + 16 * i"
    proof -
      have e: "names_at i - 0x1000 = of_nat (0xF000 + 16 * i)" by (simp add: names_at_def)
      have l: "0xF000 + 16 * i < 2 ^ 64" using that(1) by simp
      show ?thesis unfolding e using l by (simp only: unat_of_nat len_num1 len_bit0 len_num0) simp
    qed
    then show "unat (names_at i - 0x1000) + length w < 2 ^ 64" "0xF000 \<le> unat (names_at i - 0x1000)" using that by simp_all
  qed
  have w: "take (Suc (length (bytes_of (fst (commands ! i))))) (drop (16 * i) names_image) = bytes_of (fst (commands ! i)) @ [0] \<and>
      0 \<notin> set (bytes_of (fst (commands ! i))) \<and> length (bytes_of (fst (commands ! i))) < 16" if "i < length commands" for i
    using names_image_tokens that by (simp add: list_all_iff Let_def)
  show na: "names_apart 0x1000 0xF000 names_at"
    unfolding names_apart_def
  proof (intro allI impI)
    fix i assume i: "i < length commands"
    then have "i < 16" using names_image_tokens by simp
    then show "apart_from 0x1000 0xF000 (names_at i) (bytes_of (fst (commands ! i)))" using ap w [OF i] by blast
  qed
  have "names_ok (with_bytes (\<lambda>_. 0) 0x10000 names_image) names_at"
    unfolding names_ok_def
  proof (intro allI impI)
    fix i assume "i < length commands"
    note w = w [OF this]
    let ?w = "bytes_of (fst (commands ! i))"
    have "drop (16 * i) names_image = ?w @ 0 # drop (Suc (length ?w)) (drop (16 * i) names_image)"
      using append_take_drop_id [of "Suc (length ?w)" "drop (16 * i) names_image"] w by (metis append.assoc append_Cons append_Nil)
    then have "token_at names_image (16 * i) ?w" using w unfolding token_at_def by blast
    from token_at_cstring [OF this, of "\<lambda>_. 0" "0x10000"]
    show "cstring (with_bytes (\<lambda>_. 0) 0x10000 names_image) (names_at i) ?w"
      using names_image_tokens unfolding names_at_def by simp
  qed
  then show "names_ok (line_memory s) names_at"
    unfolding line_memory_def by (rule names_ok_elsewhere [OF _ na]) (use assms in simp)
qed


text \<open>
  A line with two bars is not given up after the error message: the shell goes on with the
  line as a simple command whose arguments include the bars.
\<close>

lemma two_pipes_run_first:
  assumes "cstring m p (l @ 124 # r)" "124 \<notin> set l" "124 \<in> set r" "p \<noteq> 0" "unat p + length (l @ 124 # r) + 3 < 2 ^ 63"
    and "words (l @ 124 # r) = c # as" "command_of c = Some h"
    and "names_ok m lit" "names_apart p (length (l @ 124 # r) + 3) lit"
  shows "\<exists>args m'. run_line m lit fd p =
      Some ([Print (bytes_of ''Error: Only one pipe supported at a time'' @ newline), Call h args None], m') \<and>
    list_all2 (cstring m') args (take 15 (words (l @ 124 # r)))"
proof -
  let ?s = "l @ 124 # r" and ?pp = "p + of_nat (length l)"
  have st: "strchr m p 124 = Some ?pp" using strchr_found [OF assms(1,2)] by simp
  have nz: "?pp \<noteq> 0" by (rule pointer_nonzero [OF assms(4)]) (use assms(5) in simp)
  obtain u v where r: "r = u @ 124 # v" "124 \<notin> set u" using split_list_first [OF assms(3)] by blast
  have c2: "cstring m (?pp + 1) (u @ 124 # v)" using assms(1) r(1) by (simp add: cstring_append)
  have s2: "strchr m (?pp + 1) 124 = Some (p + of_nat (length l + 1 + length u))"
    using strchr_found [OF c2 r(2)] by (simp add: add_ac)
  have nz2: "p + of_nat (length l + 1 + length u) \<noteq> 0"
    by (rule pointer_nonzero [OF assms(4)]) (use assms(5) r(1) in simp)
  have pe: "parse_simple_pipe p m = Some (Pipe_error (bytes_of ''Error: Only one pipe supported at a time'' @ newline), m)"
    unfolding parse_simple_pipe_def st s2 option.case if_not_P [OF nz] by (simp only: nz2 if_True simp_thms)
  have len: "length ([] @ ?s @ 0 # []) < 2 ^ 64" using assms(5) by simp
  have l63: "length ?s < 2 ^ 63" using assms(5) by linarith
  note b = cstring_buffer [OF assms(1) l63]
  obtain ks s' where k: "parse_command p m = Some (map (\<lambda>k. p + of_nat k) ks, with_bytes m p (s' @ [0]))" "length s' = length ?s"
      "tokens (s' @ [0]) ks (take 15 (words ?s))"
    using parse_command_tokens [OF cstring_nonzero [OF assms(1)] len, of p m] b by auto
  let ?as = "map (\<lambda>k. p + of_nat k) ks" and ?m = "with_bytes m p (s' @ [0])"
  have la: "list_all2 (cstring ?m) ?as (take 15 (words ?s))"
    by (rule tokens_cstrings [OF k(3)]) (use k(2) l63 in simp)
  then have a: "?as \<noteq> []" "cstring ?m (?as ! 0) c" unfolding assms(6) by (cases ks; simp)+
  have nm: "names_ok ?m lit" by (rule names_ok_elsewhere [OF assms(8,9)]) (use k(2) in simp)
  have "run_simple m lit p = Some ([Call h ?as None], ?m)"
    unfolding run_simple_def k(1) option.case prod.case if_not_P [OF a(1)] find_command_eq [OF nm a(2)] assms(7) ..
  then have "run_line m lit fd p = Some ([Print (bytes_of ''Error: Only one pipe supported at a time'' @ newline), Call h ?as None], ?m)"
    unfolding run_line_def user_strlen_eq [OF assms(1)] st option.case if_not_P [OF nz] pe prod.case pipe_parse.case by simp
  then show ?thesis using la by blast
qed

section \<open>Line editing\<close>

text \<open>What a key does to the line: a backspace takes the last character away.\<close>

definition edit :: "u8 list \<Rightarrow> int \<Rightarrow> u8 list" where
  "edit line c = (if c = 8 then butlast line else if IS_PRINTABLE c then line @ [word_of_int c] else line)"

lemma length_edit: "length (edit line c) \<le> Suc (length line)"
  by (auto simp: edit_def)

lemma length_foldl_edit: "length (foldl edit line cs) \<le> length line + length cs"
proof (induction cs arbitrary: line)
  case (Cons c cs)
  have "length (foldl edit (edit line c) cs) \<le> length (edit line c) + length cs" by (rule Cons.IH)
  then show ?case using length_edit [of line c] by simp
qed simp

lemma offset_ne:
  assumes "i < n" "n < 2 ^ 64"
  shows "b + of_nat i \<noteq> (b + of_nat n :: u64)"
proof
  assume e: "b + of_nat i = b + of_nat n"
  have "i < 2 ^ 64" using assms by simp
  then have "unat (b + of_nat i - b) = i" by (rule unat_offset)
  moreover have "unat (b + of_nat n - b) = n" by (rule unat_offset [OF assms(2)])
  ultimately show False using e assms(1) by simp
qed

lemma read_chars_edit:
  "\<forall>i<length line. m (b + of_nat i) = line ! i \<Longrightarrow> 10 \<notin> set cs \<Longrightarrow> -3 \<notin> set cs \<Longrightarrow> -4 \<notin> set cs \<Longrightarrow>
   \<forall>n\<le>length cs. length (foldl edit line (take n cs)) < 255 \<Longrightarrow>
   \<exists>m' out'. read_chars b 256 (length line) (cs @ 10 # rest) m out = Some (m', out', rest) \<and>
     (\<forall>i<length (foldl edit line cs). m' (b + of_nat i) = foldl edit line cs ! i) \<and>
     m' (b + of_nat (length (foldl edit line cs))) = 0 \<and> (\<forall>a. 256 \<le> unat (a - b) \<longrightarrow> m' a = m a)"
proof (induction cs arbitrary: line m out)
  case Nil
  have l: "length line < 255" using Nil(5) by simp
  have ne: "b + of_nat i \<noteq> b + (of_nat (length line) :: u64)" if "i < length line" for i
    by (rule offset_ne [OF that]) (use l in simp)
  have far: "a \<noteq> b + of_nat (length line)" if "256 \<le> unat (a - b)" for a
    using at_offset [of "length line" a b] l that by auto
  show ?case using Nil(1) l ne far by (subst read_chars.simps) auto
next
  case (Cons c cs)
  have l: "length line < 255" using Cons.prems(5) [rule_format, of 0] by simp
  have b: "\<forall>n\<le>length cs. length (foldl edit (edit line c) (take n cs)) < 255"
  proof (intro allI impI)
    fix n assume "n \<le> length cs"
    then show "length (foldl edit (edit line c) (take n cs)) < 255" using Cons.prems(5) [rule_format, of "Suc n"] by simp
  qed
  have keys: "c \<noteq> 10" "c \<noteq> -3" "c \<noteq> -4" "10 \<notin> set cs" "-3 \<notin> set cs" "-4 \<notin> set cs" using Cons.prems(2-4) by auto
  let ?m = "if IS_PRINTABLE c then m(b + of_nat (length line) := word_of_int c) else m"
  have step: "\<exists>out1. read_chars b 256 (length line) ((c # cs) @ 10 # rest) m out = read_chars b 256 (length (edit line c)) (cs @ 10 # rest) ?m out1"
    using l keys(1-3) by (subst read_chars.simps) (auto simp: edit_def IS_PRINTABLE_def Let_def)
  have ne: "b + of_nat i \<noteq> b + (of_nat (length line) :: u64)" if "i < length line" for i
    by (rule offset_ne [OF that]) (use l in simp)
  have far: "a \<noteq> b + of_nat (length line)" if "256 \<le> unat (a - b)" for a
    using at_offset [of "length line" a b] l that by auto
  have "\<forall>i<length (edit line c). ?m (b + of_nat i) = edit line c ! i"
    using Cons.prems(1) ne by (auto simp: edit_def IS_PRINTABLE_def nth_append nth_butlast less_Suc_eq)
  from Cons.IH [OF this keys(4-6) b] step far show ?case by fastforce
qed

text \<open>
  Line editing. For any keys without an interrupt or end-of-file character, with the line
  never longer than 254 characters, and a newline, \<open>read_line\<close> leaves in the buffer the edited
  line: the printable characters in order, each backspace having removed the one before it. It
  stops at the newline and writes nothing outside the 256 bytes.
\<close>

theorem read_line_edits:
  assumes "10 \<notin> set cs" "-3 \<notin> set cs" "-4 \<notin> set cs" "\<forall>n\<le>length cs. length (foldl edit [] (take n cs)) < 255"
  shows "\<exists>m' out. read_line b MAX_CMD_LENGTH (cs @ 10 # rest) m = Some (m', out, rest) \<and>
    cstring m' b (foldl edit [] cs) \<and> (\<forall>a. 256 \<le> unat (a - b) \<longrightarrow> m' a = m a)"
proof -
  let ?l = "foldl edit [] cs"
  obtain m' out where r: "read_chars b 256 0 (cs @ 10 # rest) m [] = Some (m', out, rest)"
      "\<forall>i<length ?l. m' (b + of_nat i) = ?l ! i" "m' (b + of_nat (length ?l)) = 0" "\<forall>a. 256 \<le> unat (a - b) \<longrightarrow> m' a = m a"
    using read_chars_edit [of "[]" m b cs rest "[]"] assms by auto
  have w: "(word_of_int c :: u8) \<noteq> 0" if "IS_PRINTABLE c" for c
  proof -
    have "uint (word_of_int c :: u8) = c" using that by (simp add: IS_PRINTABLE_def uint_word_of_int)
    then show ?thesis using that by (auto simp: IS_PRINTABLE_def)
  qed
  have "0 \<notin> set line \<Longrightarrow> 0 \<notin> set (foldl edit line cs)" for line
    by (induction cs arbitrary: line) (auto simp: edit_def w [symmetric] dest: in_set_butlastD)
  then have "0 \<notin> set ?l" by simp
  then have "cstring m' b ?l" using r(2,3) cstring_append [of m' b ?l "[]"] by simp
  then show ?thesis using r(1,4) unfolding read_line_def by blast
qed

lemma read_line_edits_witness:
  "\<forall>m. \<exists>m' out. read_line 0x1000 MAX_CMD_LENGTH ([112, 120, 8, 115] @ 10 # [65]) m = Some (m', out, [65]) \<and> cstring m' 0x1000 [112, 115]"
proof
  fix m
  have "\<forall>n\<le>length [112, 120, 8, 115 :: int]. length (foldl edit [] (take n [112, 120, 8, 115])) < 255"
  proof (intro allI impI)
    fix n
    have "length (foldl edit [] (take n [112, 120, 8, 115])) \<le> length ([] :: u8 list) + length (take n [112, 120, 8, 115 :: int])"
      by (rule length_foldl_edit)
    also have "\<dots> \<le> 4" by simp
    finally show "length (foldl edit [] (take n [112, 120, 8, 115])) < 255" by simp
  qed
  from read_line_edits [OF _ _ _ this, of "0x1000" "[65]" m]
  show "\<exists>m' out. read_line 0x1000 MAX_CMD_LENGTH ([112, 120, 8, 115] @ 10 # [65]) m = Some (m', out, [65]) \<and> cstring m' 0x1000 [112, 115]"
    by (simp add: edit_def IS_PRINTABLE_def) blast
qed

end
