(* ===== verification/Gnauni.thy ===== *)
theory Gnauni
  imports Syscalls User_Strings
begin

text \<open>
  The way from the user library into the kernel: gna-libs/gnauni.c, the functions of gnalib.c and
  gnaio.c that only make a system call, \<open>sys_call\<close> of the user's assembly code and the handler of
  interrupt 0x80 in Kernel/asm/interrupts.asm, as moves between registers. A wrapper is the call
  it makes.
\<close>

section \<open>The numbers of the calls\<close>

datatype enum_syscalls =
    SYS_WRITE | SYS_READ | SYS_OPEN | SYS_CLOSE | SYS_SET_CURSOR | SYS_SET_COLOR | SYS_MMAP | SYS_MUNMAP
  | SYS_CREATE_PROCESS | SYS_EXIT | SYS_WAIT | SYS_GETPID | SYS_KILL | SYS_GETPRIORITY | SYS_SETPRIORITY
  | SYS_SCHED_YIELD | SYS_SLEEP | SYS_SEM_OPEN | SYS_SEM_CLOSE | SYS_SEM_WAIT | SYS_SEM_POST | SYS_SEM_GETVALUE
  | SYS_SHM_OPEN | SYS_SHM_UNLINK | SYS_SHM_MAP | SYS_SHM_UNMAP | SYS_MEM_INFO | SYS_BLOCK | SYS_UNBLOCK
  | SYS_TOGGLE_BLOCK | SYS_PS

definition enumerators :: "enum_syscalls list" where
  "enumerators =
     [SYS_WRITE, SYS_READ, SYS_OPEN, SYS_CLOSE, SYS_SET_CURSOR, SYS_SET_COLOR, SYS_MMAP, SYS_MUNMAP,
      SYS_CREATE_PROCESS, SYS_EXIT, SYS_WAIT, SYS_GETPID, SYS_KILL, SYS_GETPRIORITY, SYS_SETPRIORITY,
      SYS_SCHED_YIELD, SYS_SLEEP, SYS_SEM_OPEN, SYS_SEM_CLOSE, SYS_SEM_WAIT, SYS_SEM_POST, SYS_SEM_GETVALUE,
      SYS_SHM_OPEN, SYS_SHM_UNLINK, SYS_SHM_MAP, SYS_SHM_UNMAP, SYS_MEM_INFO, SYS_BLOCK, SYS_UNBLOCK,
      SYS_TOGGLE_BLOCK, SYS_PS]"

definition number :: "enum_syscalls \<Rightarrow> u64" where
  "number s = of_nat (length (takeWhile (\<lambda>x. x \<noteq> s) enumerators))"

section \<open>From a call in C to the dispatcher\<close>

record registers =
  rax :: u64  rdi :: u64  rsi :: u64  rdx :: u64  rcx :: u64  r8 :: u64  r9 :: u64  r10 :: u64  r11 :: u64

text \<open>The registers of a C call of \<open>sys_call\<close>: six arguments in registers, the seventh on the stack.\<close>

datatype user_call = Sys_call u64 u64 u64 u64 u64 u64 u64

definition c_call :: "user_call \<Rightarrow> registers \<Rightarrow> registers \<times> u64" where
  "c_call u r = (case u of Sys_call a b c d e f g \<Rightarrow> (r\<lparr>rdi := a, rsi := b, rdx := c, rcx := d, r8 := e, r9 := f\<rparr>, g))"

text \<open>\<open>sys_call\<close> up to the interrupt: \<open>ra\<close> is the return address, at \<open>rbp + 8\<close>, and \<open>stack\<close> the
  seventh argument, at \<open>rbp + 16\<close>.\<close>

definition sys_call :: "u64 \<Rightarrow> u64 \<Rightarrow> registers \<Rightarrow> registers" where
  "sys_call ra stack r =
     (let r = r\<lparr>rax := rdi r\<rparr>; r = r\<lparr>rdi := rsi r\<rparr>; r = r\<lparr>rsi := rdx r\<rparr>; r = r\<lparr>rdx := rcx r\<rparr>;
          r = r\<lparr>r10 := r8 r\<rparr>; r = r\<lparr>r8 := r9 r\<rparr>; r = r\<lparr>r9 := ra\<rparr>
      in r\<lparr>r11 := stack\<rparr>)"

text \<open>The arguments that the handler of interrupt 0x80 gives the dispatcher; the last one it pushed
  is the seventh.\<close>

definition int80_call :: "registers \<Rightarrow> u64 \<times> u64 \<times> u64 \<times> u64 \<times> u64 \<times> u64 \<times> u64" where
  "int80_call r =
     (let top = r11 r; r = r\<lparr>r9 := r8 r\<rparr>; r = r\<lparr>r8 := r10 r\<rparr>; r = r\<lparr>rcx := rdx r\<rparr>; r = r\<lparr>rdx := rsi r\<rparr>;
          r = r\<lparr>rsi := rdi r\<rparr>; r = r\<lparr>rdi := rax r\<rparr>
      in (rdi r, rsi r, rdx r, rcx r, r8 r, r9 r, top))"

definition enter_kernel :: "memory \<Rightarrow> heap_state \<Rightarrow> registers \<Rightarrow> u64 \<Rightarrow> user_call \<Rightarrow> kernel \<Rightarrow> sys_result" where
  "enter_kernel mem old r ra u k =
     (let (r', stack) = c_call u r
      in case int80_call (sys_call ra stack r') of (a, b, c, d, e, f, g) \<Rightarrow> syscall_dispatcher mem old a b c d e f g k)"

section \<open>The wrappers\<close>

definition user_create_process :: "u64 \<Rightarrow> u64 \<Rightarrow> u32 \<Rightarrow> u64 \<Rightarrow> u64 \<Rightarrow> u8 \<Rightarrow> user_call" where
  "user_create_process name function argc argv fds fg =
     Sys_call (number SYS_CREATE_PROCESS) name function (scast argc) argv fds (scast fg)"

definition get_pid :: user_call where
  "get_pid = Sys_call (number SYS_GETPID) 0 0 0 0 0 0"

definition user_wait :: "u32 \<Rightarrow> u64 \<Rightarrow> user_call" where
  "user_wait pid status = Sys_call (number SYS_WAIT) (ucast pid) status 0 0 0 0"

definition nice :: "u32 \<Rightarrow> u8 \<Rightarrow> user_call" where
  "nice pid newPriority = Sys_call (number SYS_SETPRIORITY) (ucast pid) (ucast newPriority) 0 0 0 0"

definition sem_init :: "u32 \<Rightarrow> user_call" where
  "sem_init initial_value = Sys_call (number SYS_SEM_OPEN) (ucast initial_value) 0 0 0 0 0"

definition sem_close :: "u32 \<Rightarrow> user_call" where
  "sem_close s = Sys_call (number SYS_SEM_CLOSE) (ucast s) 0 0 0 0 0"

definition user_sem_wait :: "u32 \<Rightarrow> user_call" where
  "user_sem_wait s = Sys_call (number SYS_SEM_WAIT) (ucast s) 0 0 0 0 0"

definition user_sem_post :: "u32 \<Rightarrow> user_call" where
  "user_sem_post s = Sys_call (number SYS_SEM_POST) (ucast s) 0 0 0 0 0"

definition sem_getvalue :: "u32 \<Rightarrow> user_call" where
  "sem_getvalue s = Sys_call (number SYS_SEM_GETVALUE) (ucast s) 0 0 0 0 0"

definition kill :: "u32 \<Rightarrow> user_call" where
  "kill pid = Sys_call (number SYS_KILL) (ucast pid) 0 0 0 0 0"

definition block :: "u32 \<Rightarrow> user_call" where
  "block pid = Sys_call (number SYS_BLOCK) (ucast pid) 0 0 0 0 0"

definition unblock :: "u32 \<Rightarrow> user_call" where
  "unblock pid = Sys_call (number SYS_UNBLOCK) (ucast pid) 0 0 0 0 0"

definition toggle_block :: "u32 \<Rightarrow> user_call" where
  "toggle_block pid = Sys_call (number SYS_TOGGLE_BLOCK) (ucast pid) 0 0 0 0 0"

definition sched_yield :: user_call where
  "sched_yield = Sys_call (number SYS_SCHED_YIELD) 0 0 0 0 0 0"

definition get_priority :: "u32 \<Rightarrow> user_call" where
  "get_priority pid = Sys_call (number SYS_GETPRIORITY) (ucast pid) 0 0 0 0 0"

definition open_pipe :: user_call where
  "open_pipe = Sys_call (number SYS_OPEN) 0 0 0 0 0 0"

definition close_fd :: "u32 \<Rightarrow> user_call" where
  "close_fd fd = Sys_call (number SYS_CLOSE) (scast fd) 0 0 0 0 0"

definition user_read :: "u32 \<Rightarrow> u64 \<Rightarrow> u32 \<Rightarrow> user_call" where
  "user_read fd buffer sz = Sys_call (number SYS_READ) (scast fd) buffer (ucast sz) 0 0 0"

definition user_write :: "u32 \<Rightarrow> u64 \<Rightarrow> u32 \<Rightarrow> user_call" where
  "user_write fd buffer sz = Sys_call (number SYS_WRITE) (scast fd) buffer (ucast sz) 0 0 0"

definition get_ps :: "u64 \<Rightarrow> u32 \<Rightarrow> user_call" where
  "get_ps buffer sz = Sys_call (number SYS_PS) buffer (ucast sz) 0 0 0 0"

text \<open>The calls of gnalib.c and gnaio.c. \<open>c\<close> stands for the address of the character.\<close>

definition user_sleep :: "u64 \<Rightarrow> user_call" where
  "user_sleep ticks = Sys_call (number SYS_SLEEP) ticks 0 0 0 0 0"

definition exit :: "u32 \<Rightarrow> user_call" where
  "exit status = Sys_call (number SYS_EXIT) (scast status) 0 0 0 0 0"

definition my_malloc :: "u64 \<Rightarrow> user_call" where
  "my_malloc sz = Sys_call (number SYS_MMAP) sz 0 0 0 0 0"

definition my_free :: "u64 \<Rightarrow> user_call" where
  "my_free address = Sys_call (number SYS_MUNMAP) address 0 0 0 0 0"

definition get_heap_state :: "u64 \<Rightarrow> user_call" where
  "get_heap_state state = Sys_call (number SYS_MEM_INFO) state 0 0 0 0 0"

definition putc :: "u32 \<Rightarrow> u64 \<Rightarrow> user_call" where
  "putc fd c = Sys_call (number SYS_WRITE) (scast fd) c 1 0 0 0"

definition getc_call :: "u32 \<Rightarrow> u64 \<Rightarrow> user_call" where
  "getc_call fd c = Sys_call (number SYS_READ) (scast fd) c 1 0 0 0"

definition set_cursor :: "u8 \<Rightarrow> u8 \<Rightarrow> user_call" where
  "set_cursor x y = Sys_call (number SYS_SET_CURSOR) (ucast x) (ucast y) 0 0 0 0"

definition set_color :: "u8 \<Rightarrow> u8 \<Rightarrow> user_call" where
  "set_color fg_color bg_color = Sys_call (number SYS_SET_COLOR) (ucast bg_color * 16 + ucast fg_color) 0 0 0 0 0"

text \<open>\<open>memset\<close> counts down; \<open>my_calloc\<close> clears what \<open>my_malloc\<close> returned unless it is null.\<close>

fun user_memset_loop :: "u64 \<Rightarrow> u8 \<Rightarrow> nat \<Rightarrow> memory \<Rightarrow> memory" where
  "user_memset_loop dst chr 0 m = m"
| "user_memset_loop dst chr (Suc n) m = user_memset_loop dst chr n (m(dst + of_nat n := chr))"

definition user_memset :: "u64 \<Rightarrow> int \<Rightarrow> u64 \<Rightarrow> memory \<Rightarrow> memory" where
  "user_memset destination c len m = user_memset_loop destination (word_of_int c) (unat len) m"

definition my_calloc :: "u64 \<Rightarrow> u64 \<Rightarrow> memory \<Rightarrow> memory" where
  "my_calloc sz ptr m = (if ptr \<noteq> 0 then user_memset ptr 0 sz m else m)"

section \<open>Every call arrives\<close>

lemma arguments_arrive: "enter_kernel mem old r ra (Sys_call a b c d e f g) k = syscall_dispatcher mem old a b c d e f g k"
  by (simp add: enter_kernel_def c_call_def sys_call_def int80_call_def Let_def)

lemma numbers:
  "number SYS_WRITE = 0" "number SYS_READ = 1" "number SYS_OPEN = 2" "number SYS_CLOSE = 3" "number SYS_SET_CURSOR = 4"
  "number SYS_SET_COLOR = 5" "number SYS_MMAP = 6" "number SYS_MUNMAP = 7" "number SYS_CREATE_PROCESS = 8"
  "number SYS_EXIT = 9" "number SYS_WAIT = 10" "number SYS_GETPID = 11" "number SYS_KILL = 12"
  "number SYS_GETPRIORITY = 13" "number SYS_SETPRIORITY = 14" "number SYS_SCHED_YIELD = 15" "number SYS_SLEEP = 16"
  "number SYS_SEM_OPEN = 17" "number SYS_SEM_CLOSE = 18" "number SYS_SEM_WAIT = 19" "number SYS_SEM_POST = 20"
  "number SYS_SEM_GETVALUE = 21" "number SYS_MEM_INFO = 26" "number SYS_BLOCK = 27" "number SYS_UNBLOCK = 28"
  "number SYS_TOGGLE_BLOCK = 29" "number SYS_PS = 30"
  by (simp_all add: number_def enumerators_def)

lemmas wrapper_defs = user_create_process_def get_pid_def user_wait_def nice_def sem_init_def sem_close_def user_sem_wait_def
  user_sem_post_def sem_getvalue_def kill_def block_def unblock_def toggle_block_def sched_yield_def get_priority_def
  open_pipe_def close_fd_def user_read_def user_write_def get_ps_def user_sleep_def exit_def my_malloc_def my_free_def
  get_heap_state_def putc_def getc_call_def set_cursor_def set_color_def


text \<open>A call of \<open>kill\<close> gives the processor away and returns 0, also when no process has the id: no
  caller can see that it failed.\<close>

lemma kill_returns_zero:
  "\<exists>k'. enter_kernel mem old r ra (kill pid) k = Some (Suspended k' (C_return 0)) \<and>
     (\<forall>k''. sys_resume (C_return 0) k'' = Some (Returned k'' (0, No_out)))"
  by (simp add: kill_def arguments_arrive syscall_dispatcher_def numbers sys_kill_def yield_ret_def sys_resume_def ret_def)

text \<open>So \<open>sem_wait\<close>, \<open>sem_post\<close> and \<open>sem_close\<close> never report an error.\<close>

lemma widened_back: "ucast (ucast s :: u64) = (s :: u32)"
  by (rule word_unat_eq_iff [THEN iffD2]) (simp add: unsigned_ucast_eq take_bit_word_eq_self)

lemma semaphore_calls_return_zero:
  "enter_kernel mem old r ra (user_sem_post s) k = Some (Returned (sem_post s k) (0, No_out))"
  "enter_kernel mem old r ra (sem_close s) k = Some (Returned (destroy_sem s k) (0, No_out))"
  by (simp_all add: wrapper_defs arguments_arrive syscall_dispatcher_def numbers sys_sem_post_def sys_sem_close_def ret_def widened_back)

section \<open>Cleared memory\<close>

lemma memset_loop_at:
  assumes "n < 2 ^ 64"
  shows "user_memset_loop dst c n m a = (if unat (a - dst) < n then c else m a)"
  using assms
proof (induction n arbitrary: m)
  case (Suc n)
  have n: "n < 2 ^ 64" using Suc.prems by simp
  have "a = dst + of_nat n \<longleftrightarrow> unat (a - dst) = n"
  proof
    assume "unat (a - dst) = n"
    then have "of_nat n = a - dst" by auto
    then show "a = dst + of_nat n" by simp
  qed (use n in \<open>simp add: unsigned_of_nat take_bit_nat_eq_self\<close>)
  then show ?case using Suc.IH [OF n] by (auto simp: less_Suc_eq)
qed simp

lemma memset_with_bytes: "user_memset p c n m = with_bytes m p (replicate (unat n) (word_of_int c))"
proof
  fix a
  have "unat n < 2 ^ 64" using unsigned_less [of n] by simp
  from memset_loop_at [OF this] show "user_memset p c n m a = with_bytes m p (replicate (unat n) (word_of_int c)) a"
    by (simp add: user_memset_def with_bytes_def)
qed

lemma calloc_cleared: "ptr \<noteq> 0 \<Longrightarrow> my_calloc sz ptr m a = (if unat (a - ptr) < unat sz then 0 else m a)"
  by (simp add: my_calloc_def memset_with_bytes with_bytes_def)

end
