(* ===== verification/Programs.thy ===== *)
theory Programs
  imports Shell Gnauni
begin

text \<open>
  The programs of the shell, programs/shell-programs.c and mem.c: from the arguments and the
  results of \<open>getchar\<close> to what is printed, the memory of the program and how it ends. The calls
  that colour the list of processes are in \<open>ps_row\<close>, apart from the text.
\<close>

section \<open>What a program does\<close>

abbreviation CHAR_EOF :: int where "CHAR_EOF \<equiv> -4"
abbreviation INPUT_BUFFER :: nat where "INPUT_BUFFER \<equiv> 1024"

text \<open>A function of a program ends by returning or by \<open>exit\<close>.\<close>

datatype ending = Returns | Exits int

datatype program =
    Finish "u8 list" ending
  | Calls user_call "u64 \<Rightarrow> u8 list \<times> ending"

definition say :: "string \<Rightarrow> program" where
  "say s = Finish (bytes_of s @ newline) Returns"

definition end_of_file :: "u8 list" where
  "end_of_file = putchar (word_of_int CHAR_EOF)"

text \<open>What \<open>%d\<close> prints for an argument, below its least value.\<close>

definition percent_d :: "u64 \<Rightarrow> u8 list" where
  "percent_d x = fst (the (conversion (\<lambda>_. None) 100 [x]))"

text \<open>\<open>getchar\<close> on a byte of standard input.\<close>

definition getchar :: "u8 \<Rightarrow> int" where
  "getchar c = getc 1 c"

section \<open>Programs that print\<close>

fun echo_words :: "memory \<Rightarrow> u64 list \<Rightarrow> u8 list option" where
  "echo_words m [] = Some []"
| "echo_words m [p] = text_at m p"
| "echo_words m (p # q # ps) =
     (case text_at m p of None \<Rightarrow> None | Some t \<Rightarrow> map_option (\<lambda>u. t @ putchar 32 @ u) (echo_words m (q # ps)))"

definition cmd_echo :: "memory \<Rightarrow> u64 list \<Rightarrow> program option" where
  "cmd_echo m argv = map_option (\<lambda>t. Finish (t @ putchar 10 @ end_of_file) (Exits 0)) (echo_words m (tl argv))"

text \<open>The text of each round of \<open>loop\<close>, and the call it makes before the next one.\<close>

definition cmd_loop :: "u32 \<Rightarrow> u8 list \<times> user_call" where
  "cmd_loop pid = (bytes_of ''Process '' @ percent_d (ucast pid) @ bytes_of '' started in loop mode.'' @ newline, user_sleep 1)"

definition command_descriptions :: "string list" where
  "command_descriptions =
     [''Print arguments to stdout'', ''Run a process in an infinite loop'', ''Print memory state'', ''Clear the screen'',
      ''Terminate a process by PID'', ''Change the priority of a process by PID'', ''Toggle block/unblock a process by PID'',
      ''Run the philosophers problem simulation'', ''Show current processes'', ''Start the GNA shell'',
      ''Show available commands'', ''Exit the shell'', ''Concatenate and print files to stdout'',
      ''Count lines, words, and characters in input (use 'wc -h' for options)'', ''Filter out vowels from input'',
      ''Run tests (use 'test -h' or 'test --help' for options)'']"

definition cmd_help :: program where
  "cmd_help = Finish (bytes_of ''Available commands:'' @ newline @
     concat (map (\<lambda>(c, d). bytes_of (''  '' @ fst c @ '' - '' @ d) @ newline) (zip commands command_descriptions)) @ end_of_file)
     (Exits 0)"

definition exit_shell :: program where
  "exit_shell = Finish (bytes_of ''Goodbye!'' @ newline) (Exits 0)"

text \<open>The name of the memory manager is what \<open>%s\<close> finds behind its address.\<close>

definition mem_report :: "heap_state \<Rightarrow> u8 list \<Rightarrow> u8 list" where
  "mem_report state name =
     bytes_of ''Memory manager: '' @ name @ newline @
     bytes_of ''Total memory: '' @ percent_d (total_memory state) @ newline @
     bytes_of ''Used memory:  '' @ percent_d (used_memory state) @ newline @
     bytes_of ''Free memory:  '' @ percent_d (free_memory state) @ newline"

section \<open>Commands that act on a process\<close>

text \<open>The number of a process is an argument cut to 16 bits.\<close>

definition pid_argument :: "memory \<Rightarrow> u64 \<Rightarrow> u16 option" where
  "pid_argument m p = map_option word_of_int (atoi m p)"

definition invalid_pid :: "memory \<Rightarrow> u64 \<Rightarrow> program option" where
  "invalid_pid m p = map_option (\<lambda>t. Finish (bytes_of ''Invalid PID: '' @ t @ newline) Returns) (text_at m p)"

text \<open>A report of a call: one message when it returned -1, another when not.\<close>

definition report :: "u64 \<Rightarrow> u8 list \<Rightarrow> u8 list \<Rightarrow> u8 list" where
  "report r failed done_text = (if to_int r = -1 then failed else done_text)"

definition kill_shell :: "memory \<Rightarrow> u64 list \<Rightarrow> program option" where
  "kill_shell m argv =
     (if length argv < 2 then Some (say ''Usage: kill <pid>'')
      else (case pid_argument m (argv ! 1) of
              None \<Rightarrow> None
            | Some pid \<Rightarrow>
                if pid = 0 then invalid_pid m (argv ! 1)
                else Some (Calls (kill (ucast pid)) (\<lambda>r. (report r
                  (bytes_of ''Failed to kill process '' @ percent_d (ucast pid) @ newline)
                  (bytes_of ''Process '' @ percent_d (ucast pid) @ bytes_of '' killed successfully.'' @ newline), Returns)))))"

definition toggle_block_run :: "memory \<Rightarrow> u64 list \<Rightarrow> program option" where
  "toggle_block_run m argv =
     (if length argv < 2 then Some (say ''Usage: toggle_block <pid>'')
      else (case pid_argument m (argv ! 1) of
              None \<Rightarrow> None
            | Some pid \<Rightarrow>
                if pid = 0 then invalid_pid m (argv ! 1)
                else Some (Calls (toggle_block (ucast pid)) (\<lambda>r. (report r
                  (bytes_of ''Failed to toggle block state of process '' @ percent_d (ucast pid) @ newline)
                  (bytes_of ''Process '' @ percent_d (ucast pid) @ bytes_of '' block state toggled successfully.'' @ newline) @
                  end_of_file, Returns)))))"

definition nice_cmd :: "memory \<Rightarrow> u64 list \<Rightarrow> program option" where
  "nice_cmd m argv =
     (if length argv < 3 then Some (say ''Usage: nice <pid> <priority>'')
      else (case pid_argument m (argv ! 1) of
              None \<Rightarrow> None
            | Some pid \<Rightarrow>
                (case atoi m (argv ! 2) of
                   None \<Rightarrow> None
                 | Some priority \<Rightarrow>
                     if pid = 0 \<or> priority < 0 \<or> priority > 3
                     then (case text_at m (argv ! 1) of
                             None \<Rightarrow> None
                           | Some t \<Rightarrow> map_option (\<lambda>u. Finish (bytes_of ''Invalid arguments: '' @ t @ [32] @ u @ newline) Returns)
                               (text_at m (argv ! 2)))
                     else Some (Calls (nice (ucast pid) (word_of_int priority)) (\<lambda>r. (report r
                       (bytes_of ''Failed to change priority of process '' @ percent_d (ucast pid) @ newline)
                       (bytes_of ''Process '' @ percent_d (ucast pid) @ bytes_of '' priority changed to '' @
                        percent_d (word_of_int priority) @ bytes_of '' successfully.'' @ newline) @ end_of_file, Exits 0))))))"

section \<open>The list of processes\<close>

fun process_state_to_string :: "ps_state \<Rightarrow> string" where
  "process_state_to_string PS_READY = ''READY''"
| "process_state_to_string PS_RUNNING = ''RUNNING''"
| "process_state_to_string PS_BLOCKED = ''BLOCKED''"
| "process_state_to_string PS_SLEEPING = ''SLEEPING''"
| "process_state_to_string PS_TERMINATED = ''TERMINATED''"

text \<open>A column: the text is a format, as in \<open>print_padded\<close>.\<close>

definition padded :: "u8 list \<Rightarrow> int \<Rightarrow> u8 list option" where
  "padded str width = map_option (\<lambda>t. t @ print_spaces (width - int (length str))) (render (\<lambda>_. None) str [])"

datatype colors = black | blue | green | cyan | red | magenta | brown | lightGrey | darkGrey | lightBlue
  | lightGreen | lightCyan | lightRed | lightMagenta | yellow | white

definition color_number :: "colors \<Rightarrow> u8" where
  "color_number c = of_nat (length (takeWhile (\<lambda>x. x \<noteq> c)
     [black, blue, green, cyan, red, magenta, brown, lightGrey, darkGrey, lightBlue, lightGreen, lightCyan, lightRed,
      lightMagenta, yellow, white]))"

text \<open>A line of the list: each column behind the call that sets its colour, and its text alone.\<close>

definition ps_row :: "process_info \<Rightarrow> (user_call \<times> u8 list) list option" where
  "ps_row p =
     map_option (zip (map (\<lambda>c. set_color (color_number c) (color_number black))
         [lightMagenta, lightCyan, lightGreen, lightBlue, lightRed, yellow, lightGrey]))
       (those
         [padded (percent_d (ucast (pi_pid p))) 6,
          padded (bytes_of (pi_name p)) 11,
          padded (bytes_of (process_state_to_string (pi_state p))) 10,
          padded (percent_d (ucast (pi_priority p))) 10,
          padded (percent_d (ucast (pi_parent_pid p))) 8,
          padded (percent_d (ucast (pi_is_foreground p))) 3,
          Some (putchar 10)])"

definition ps_line :: "process_info \<Rightarrow> u8 list option" where
  "ps_line p = map_option (concat \<circ> map snd) (ps_row p)"

definition cmd_ps :: "u64 \<Rightarrow> process_info list \<Rightarrow> program option" where
  "cmd_ps r processes =
     (if to_int r = -1 then Some (Finish (bytes_of ''Current processes:'' @ newline @ bytes_of ''Failed to get process list.'' @ newline) Returns)
      else map_option (\<lambda>ls. Finish (bytes_of ''Current processes:'' @ newline @
             bytes_of ''PID   Name       State     Priority  Parent  FG'' @ newline @ concat ls @ end_of_file) (Exits 0))
           (those (map (\<lambda>i. ps_line (processes ! i)) [0..<nat (to_int r)])))"

section \<open>Programs that read\<close>

text \<open>
  \<open>cat\<close>: from the results of \<open>getchar\<close>, what was printed and the memory; \<open>None\<close> while the end of
  the input has not come. \<open>buff\<close> is the address of its buffer of 1024 bytes.
\<close>

fun cat_loop :: "u64 \<Rightarrow> u16 \<Rightarrow> int list \<Rightarrow> memory \<Rightarrow> u8 list \<Rightarrow> (u8 list \<times> memory) option" where
  "cat_loop buff count [] m out = None"
| "cat_loop buff count (c # cs) m out =
     (if c = CHAR_EOF
      then let m1 = m(buff + ucast count := 0)
           in map_option (\<lambda>t. (out @ t @ newline @ end_of_file, m1)) (text_at m1 buff)
      else
        let out1 = out @ [word_of_int c]; m1 = m(buff + ucast count := word_of_int c); count1 = count + 1
        in if c = 10 \<or> int (unat count1) - 1 \<ge> int INPUT_BUFFER
           then let m2 = m1(buff + ucast count1 := 0)
                in (case text_at m2 buff of None \<Rightarrow> None | Some t \<Rightarrow> cat_loop buff 0 cs m2 (out1 @ t))
           else cat_loop buff count1 cs m1 out1)"

definition cat_cmd :: "u64 \<Rightarrow> int list \<Rightarrow> memory \<Rightarrow> (u8 list \<times> memory) option" where
  "cat_cmd buff cs m = cat_loop buff 0 cs m []"

fun filter_loop :: "u64 \<Rightarrow> u16 \<Rightarrow> int list \<Rightarrow> memory \<Rightarrow> u8 list \<Rightarrow> (u8 list \<times> memory) option" where
  "filter_loop buff count [] m out = None"
| "filter_loop buff count (c # cs) m out =
     (if c = CHAR_EOF
      then let m1 = m(buff + ucast count := 0)
           in map_option (\<lambda>t. (out @ t @ newline @ end_of_file, m1)) (text_at m1 buff)
      else if \<not> is_vowel c
           then filter_loop buff (count + 1) cs (m(buff + ucast count := word_of_int c)) (out @ [word_of_int c])
           else filter_loop buff count cs m (out @ [word_of_int c]))"

definition filter_cmd :: "u64 \<Rightarrow> int list \<Rightarrow> memory \<Rightarrow> (u8 list \<times> memory) option" where
  "filter_cmd buff cs m = filter_loop buff 0 cs m []"

text \<open>\<open>wc\<close>: its options, its counters and its loop. \<open>lit\<close> gives the address of a literal.\<close>

record wc_options =
  show_lines :: bool
  show_words :: bool
  show_chars :: bool

datatype wc_parse = Wc_count wc_options | Wc_usage | Wc_unknown "u8 list"

fun wc_parse_options :: "memory \<Rightarrow> (string \<Rightarrow> u64) \<Rightarrow> u64 list \<Rightarrow> wc_options \<Rightarrow> wc_parse option" where
  "wc_parse_options m lit [] opts = Some (Wc_count opts)"
| "wc_parse_options m lit (p # ps) opts =
     (case strcmp m p (lit ''-l'') of None \<Rightarrow> None | Some l \<Rightarrow>
      if l = 0 then wc_parse_options m lit ps (opts\<lparr>show_lines := True\<rparr>)
      else (case strcmp m p (lit ''-w'') of None \<Rightarrow> None | Some w \<Rightarrow>
      if w = 0 then wc_parse_options m lit ps (opts\<lparr>show_words := True\<rparr>)
      else (case strcmp m p (lit ''-c'') of None \<Rightarrow> None | Some c \<Rightarrow>
      if c = 0 then wc_parse_options m lit ps (opts\<lparr>show_chars := True\<rparr>)
      else (case strcmp m p (lit ''--help'') of None \<Rightarrow> None | Some h \<Rightarrow>
      if h = 0 then Some Wc_usage
      else (case strcmp m p (lit ''-h'') of None \<Rightarrow> None | Some h \<Rightarrow>
      if h = 0 then Some Wc_usage else map_option Wc_unknown (text_at m p))))))"

definition wc_arguments :: "memory \<Rightarrow> (string \<Rightarrow> u64) \<Rightarrow> u64 list \<Rightarrow> wc_parse option" where
  "wc_arguments m lit argv =
     (if length argv = 1 then Some (Wc_count \<lparr>show_lines = True, show_words = True, show_chars = True\<rparr>)
      else wc_parse_options m lit (tl argv) \<lparr>show_lines = False, show_words = False, show_chars = False\<rparr>)"

record wc_counts =
  count_lines :: u16
  count_words :: u16
  count_chars :: u16
  in_word :: bool

definition wc_char :: "int \<Rightarrow> wc_counts \<Rightarrow> wc_counts" where
  "wc_char c s =
     (let s = s\<lparr>count_chars := count_chars s + 1\<rparr>;
          s = (if c = 10 then s\<lparr>count_lines := count_lines s + 1\<rparr> else s)
      in if c = 32 \<or> c = 10 \<or> c = 9 then s\<lparr>in_word := False\<rparr>
         else if \<not> in_word s then s\<lparr>count_words := count_words s + 1, in_word := True\<rparr> else s)"

fun wc_loop :: "int list \<Rightarrow> wc_counts \<Rightarrow> u8 list \<Rightarrow> (wc_counts \<times> u8 list) option" where
  "wc_loop [] s out = None"
| "wc_loop (c # cs) s out = (if c = CHAR_EOF then Some (s, out) else wc_loop cs (wc_char c s) (out @ [word_of_int c]))"

definition wc_usage :: "u8 list" where
  "wc_usage = bytes_of ''Usage: wc [options]'' @ newline @ bytes_of ''Options:'' @ newline @
     bytes_of ''  -l    Count lines'' @ newline @ bytes_of ''  -w    Count words'' @ newline @
     bytes_of ''  -c    Count characters'' @ newline @ bytes_of ''  --help, -h    Show this help message'' @ newline"

definition wc_report :: "wc_options \<Rightarrow> wc_counts \<Rightarrow> u8 list" where
  "wc_report opts s =
     newline @
     (if show_lines opts then bytes_of ''Lines: '' @ percent_d (ucast (count_lines s)) @ [32] else []) @
     (if show_words opts then bytes_of ''Words: '' @ percent_d (ucast (count_words s)) @ [32] else []) @
     (if show_chars opts then bytes_of ''Chars: '' @ percent_d (ucast (count_chars s)) @ [32] else []) @
     newline @ end_of_file"

definition wc_cmd :: "memory \<Rightarrow> (string \<Rightarrow> u64) \<Rightarrow> u64 list \<Rightarrow> int list \<Rightarrow> program option" where
  "wc_cmd m lit argv cs =
     (case wc_arguments m lit argv of
        None \<Rightarrow> None
      | Some Wc_usage \<Rightarrow> Some (Finish (wc_usage @ end_of_file) (Exits 0))
      | Some (Wc_unknown t) \<Rightarrow> Some (Finish (bytes_of ''Unknown option: '' @ t @ newline @ end_of_file) (Exits 1))
      | Some (Wc_count opts) \<Rightarrow>
          map_option (\<lambda>(s, out). Finish (out @ wc_report opts s) (Exits 0))
            (wc_loop cs \<lparr>count_lines = 0, count_words = 0, count_chars = 0, in_word = False\<rparr> []))"

section \<open>Starting the programs\<close>

text \<open>A handler of the shell that starts a process: \<open>entry\<close> gives the address of a function, \<open>argv\<close> is
  where the arguments lie and \<open>fds\<close> the address of the descriptors.\<close>

definition start_program :: "(string \<Rightarrow> u64) \<Rightarrow> (string \<Rightarrow> u64) \<Rightarrow> string \<Rightarrow> string \<Rightarrow> memory \<Rightarrow> u64 list \<Rightarrow> u64 \<Rightarrow> u64 \<Rightarrow> user_call" where
  "start_program lit entry name function m args argv fds =
     (let (argc, foreground) = process_handler m args
      in user_create_process (lit name) (entry function) (of_nat argc) argv fds (if foreground then 1 else 0))"

definition echo where "echo lit entry = start_program lit entry ''echo'' ''cmd_echo''"
definition loop_shell where "loop_shell lit entry = start_program lit entry ''loop'' ''cmd_loop''"
definition help_shell where "help_shell lit entry = start_program lit entry ''help'' ''cmd_help''"
definition ps_shell where "ps_shell lit entry = start_program lit entry ''ps'' ''cmd_ps''"
definition shell_cmd where "shell_cmd lit entry = start_program lit entry ''shell'' ''shell''"
definition cat where "cat lit entry = start_program lit entry ''cat'' ''cat_cmd''"
definition wc where "wc lit entry = start_program lit entry ''wc'' ''wc_cmd''"
definition filter_shell where "filter_shell lit entry = start_program lit entry ''filter'' ''filter_cmd''"
definition nice_shell where "nice_shell lit entry = start_program lit entry ''nice'' ''nice_cmd''"

section \<open>Characters of the input\<close>

lemma getchar_byte [simp]: "word_of_int (getchar b) = b"
  by (simp add: getchar_def getc_def char_int_def uchar_int_def)

lemma getchar_inject: "getchar a = getchar b \<longleftrightarrow> a = b"
  by (metis getchar_byte)

lemma getchar_values [simp]: "getchar 10 = 10" "getchar 32 = 32" "getchar 9 = 9" "getchar 252 = -4"
  by (simp_all add: getchar_def getc_def char_int_def uchar_int_def)

lemma getchar_eq [simp]:
  "getchar b = CHAR_EOF \<longleftrightarrow> b = 252" "getchar b = 10 \<longleftrightarrow> b = 10" "getchar b = 32 \<longleftrightarrow> b = 32" "getchar b = 9 \<longleftrightarrow> b = 9"
  using getchar_inject [of b 252] getchar_inject [of b 10] getchar_inject [of b 32] getchar_inject [of b 9] by simp_all

lemma end_of_file_byte: "end_of_file = [252]"
  by (simp add: end_of_file_def putchar_def)

section \<open>Counting words\<close>

text \<open>The words of an input: its longest pieces without blanks.\<close>

definition blank :: "u8 \<Rightarrow> bool" where "blank b \<longleftrightarrow> b = 32 \<or> b = 10 \<or> b = 9"

function fields :: "u8 list \<Rightarrow> u8 list list" where
  "fields [] = []"
| "fields (b # bs) = (if blank b then fields bs
     else takeWhile (\<lambda>c. \<not> blank c) (b # bs) # fields (dropWhile (\<lambda>c. \<not> blank c) bs))"
  by pat_completeness auto
termination
  by (relation "measure length") (auto simp: length_dropWhile_le less_Suc_eq_le)

definition unread :: "bool \<Rightarrow> u8 list \<Rightarrow> u8 list" where
  "unread inside bs = (if inside then dropWhile (\<lambda>c. \<not> blank c) bs else bs)"

lemma fields_unread_Cons:
  "fields (unread w (b # bs)) = (if blank b then fields (unread False bs)
     else if w then fields (unread True bs) else takeWhile (\<lambda>c. \<not> blank c) (b # bs) # fields (unread True bs))"
  by (simp add: unread_def)

lemma wc_char_getchar:
  "wc_char (getchar b) s = \<lparr>count_lines = count_lines s + (if b = 10 then 1 else 0),
     count_words = count_words s + (if blank b \<or> in_word s then 0 else 1), count_chars = count_chars s + 1,
     in_word = (\<not> blank b)\<rparr>"
  by (cases s) (auto simp: wc_char_def blank_def Let_def)

lemma wc_loop_counts:
  assumes "252 \<notin> set bs"
  shows "\<exists>w. wc_loop (map getchar bs @ [CHAR_EOF]) s out = Some (\<lparr>count_lines = count_lines s + of_nat (count_list bs 10),
    count_words = count_words s + of_nat (length (fields (unread (in_word s) bs))),
    count_chars = count_chars s + of_nat (length bs), in_word = w\<rparr>, out @ bs)"
  using assms
proof (induction bs arbitrary: s out)
  case Nil
  show ?case by (cases s) (simp add: unread_def)
next
  case (Cons b bs)
  have n: "b \<noteq> 252" "252 \<notin> set bs" using Cons.prems by auto
  from Cons.IH [OF n(2), of "wc_char (getchar b) s" "out @ [b]"] n(1) show ?case
    by (auto simp: wc_char_getchar fields_unread_Cons add.assoc)
qed

text \<open>The program wc counts what it means to count, up to the width of its counters: newline characters,
  longest pieces without blank, newline or tab, and characters, each modulo 65536; and it passes
  its input on.\<close>

theorem wc_counts:
  assumes "252 \<notin> set bs"
  shows "wc_cmd m lit [name] (map getchar bs @ [CHAR_EOF]) =
    Some (Finish (bs @ newline @
      bytes_of ''Lines: '' @ percent_d (of_nat (count_list bs 10 mod 65536)) @ [32] @
      bytes_of ''Words: '' @ percent_d (of_nat (length (fields bs) mod 65536)) @ [32] @
      bytes_of ''Chars: '' @ percent_d (of_nat (length bs mod 65536)) @ [32] @ newline @ end_of_file) (Exits 0))"
proof -
  have u: "ucast (of_nat n :: u16) = (of_nat (n mod 65536) :: u64)" for n
    by (rule word_unat_eq_iff [THEN iffD2])
      (simp add: unsigned_ucast_eq unsigned_of_nat take_bit_eq_mod take_bit_nat_eq_self mod_mod_cancel)
  from wc_loop_counts [OF assms, of "\<lparr>count_lines = 0, count_words = 0, count_chars = 0, in_word = False\<rparr>" "[]"]
  show ?thesis by (auto simp: wc_cmd_def wc_arguments_def wc_report_def unread_def u)
qed

section \<open>What echo prints\<close>

fun joined :: "u8 list list \<Rightarrow> u8 list" where
  "joined [] = []"
| "joined [w] = w"
| "joined (w # v # ws) = w @ 32 # joined (v # ws)"

lemma bytes_at_cstring: "cstring m p s \<Longrightarrow> bytes_at m p (length s) = s"
  unfolding bytes_at_def by (rule nth_equalityI) (simp_all add: cstring_nth)

lemma text_at_cstring: "cstring m p s \<Longrightarrow> p \<noteq> 0 \<Longrightarrow> text_at m p = Some s"
  by (simp add: text_at_def user_strlen_eq bytes_at_cstring)

lemma echo_words_joined:
  "list_all2 (\<lambda>p w. p \<noteq> 0 \<and> cstring m p w) ps ws \<Longrightarrow> echo_words m ps = Some (joined ws)"
proof (induction m ps arbitrary: ws rule: echo_words.induct)
  case (3 m p q ps)
  then obtain w v us where ws: "ws = w # v # us" by (auto simp: list_all2_Cons1)
  then show ?case using 3 by (auto simp: text_at_cstring putchar_def)
qed (auto simp: list_all2_Cons1 text_at_cstring)

lemma takeWhile_word: "\<forall>b\<in>set w. \<not> blank b \<Longrightarrow> blank c \<Longrightarrow> takeWhile (\<lambda>c. \<not> blank c) (w @ c # r) = w"
  by (induction w) auto

lemma dropWhile_word: "\<forall>b\<in>set w. \<not> blank b \<Longrightarrow> blank c \<Longrightarrow> dropWhile (\<lambda>c. \<not> blank c) (w @ c # r) = c # r"
  by (induction w) auto

lemma fields_word:
  assumes "w \<noteq> []" "\<forall>b\<in>set w. \<not> blank b" "blank c"
  shows "fields (w @ c # r) = w # fields r"
proof -
  obtain b v where w: "w = b # v" using assms(1) by (cases w) auto
  then have v: "\<forall>b\<in>set v. \<not> blank b" "\<not> blank b" using assms(2) by auto
  show ?thesis using takeWhile_word [OF v(1) assms(3), of r] dropWhile_word [OF v(1) assms(3), of r] v(2) assms(3)
    by (simp add: w)
qed

lemma fields_joined:
  "\<forall>w\<in>set ws. w \<noteq> [] \<and> (\<forall>b\<in>set w. \<not> blank b) \<Longrightarrow> blank c \<Longrightarrow> fields (joined ws @ [c]) = ws"
proof (induction ws rule: joined.induct)
  case (3 w v ws)
  then show ?case using fields_word [of w 32 "joined (v # ws) @ [c]"] by (simp add: blank_def [of 32])
qed (auto simp: fields_word)

lemma joined_newlines: "\<forall>w\<in>set ws. 10 \<notin> set w \<Longrightarrow> count_list (joined ws) 10 = 0"
  by (induction ws rule: joined.induct) auto

lemma joined_eof: "\<forall>w\<in>set ws. 252 \<notin> set w \<Longrightarrow> 252 \<notin> set (joined ws)"
  by (induction ws rule: joined.induct) auto

lemma length_joined: "ws \<noteq> [] \<Longrightarrow> Suc (length (joined ws)) = sum_list (map length ws) + length ws"
  by (induction ws rule: joined.induct) auto


text \<open>Two words in memory, as the shell leaves them.\<close>

definition echo_line :: "u8 list" where "echo_line = [104, 111, 108, 97, 0, 103, 110, 97, 0]"


section \<open>The buffers of cat and filter\<close>

lemma u16_index: "n < 65536 \<Longrightarrow> unat (of_nat n :: u16) = n"
  by (simp add: unsigned_of_nat take_bit_nat_eq_self)

lemma u16_offset: "n < 65536 \<Longrightarrow> (ucast (of_nat n :: u16) :: u64) = of_nat n"
  by (rule word_unat_eq_iff [THEN iffD2]) (simp add: unsigned_ucast_eq unsigned_of_nat take_bit_nat_eq_self)

lemma buffer_put:
  assumes "length xs < 65536"
  shows "(with_bytes m p xs)(p + ucast (of_nat (length xs) :: u16) := c) = with_bytes m p (xs @ [c])"
  using with_bytes_snoc [of xs m p c] assms by (simp add: u16_offset)

lemma text_in_buffer:
  assumes "length xs < 65536" "0 \<notin> set xs" "p \<noteq> 0"
  shows "text_at (with_bytes m p (xs @ [0])) p = Some xs"
  by (rule text_at_cstring [OF cstring_with_bytes]) (use assms in simp_all)

lemma cat_byte:
  assumes "b \<noteq> 252" "b \<noteq> 10" "length pend < 1024"
  shows "cat_loop p (of_nat (length pend)) (getchar b # cs) (with_bytes m p pend) out =
    cat_loop p (of_nat (length (pend @ [b]))) cs (with_bytes m p (pend @ [b])) (out @ [b])"
proof -
  have "unat (of_nat (length pend) + 1 :: u16) = Suc (length pend)"
    using u16_index [of "Suc (length pend)"] assms(3) by (simp add: add.commute)
  from arg_cong [OF this, of int] have "\<not> 1024 < uint (of_nat (length pend) + 1 :: u16)" using assms(3) by simp
  then show ?thesis using assms by (simp add: buffer_put Let_def add.commute)
qed

declare cat_loop.simps(2) [simp del]

lemma cat_bytes:
  assumes "252 \<notin> set xs" "10 \<notin> set xs" "length (pend @ xs) \<le> 1024"
  shows "cat_loop p (of_nat (length pend)) (map getchar xs @ cs) (with_bytes m p pend) out =
    cat_loop p (of_nat (length (pend @ xs))) cs (with_bytes m p (pend @ xs)) (out @ xs)"
  using assms
proof (induction xs arbitrary: pend out)
  case (Cons b xs)
  then have "b \<noteq> 252" "b \<noteq> 10" "length pend < 1024" by auto
  note cat_byte [OF this, of p "map getchar xs @ cs" m out]
  also have "cat_loop p (of_nat (length (pend @ [b]))) (map getchar xs @ cs) (with_bytes m p (pend @ [b])) (out @ [b]) =
      cat_loop p (of_nat (length ((pend @ [b]) @ xs))) cs (with_bytes m p ((pend @ [b]) @ xs)) ((out @ [b]) @ xs)"
    by (rule Cons.IH) (use Cons.prems in auto)
  finally show ?case by simp
qed simp

lemma cat_newline:
  assumes "0 \<notin> set xs" "length xs < 1024" "p \<noteq> 0"
  shows "cat_loop p (of_nat (length xs)) (10 # cs) (with_bytes m p xs) out =
    cat_loop p 0 cs (with_bytes m p (xs @ [10, 0])) (out @ [10] @ xs @ [10])"
proof -
  have t: "text_at (with_bytes m p ((xs @ [10]) @ [0])) p = Some (xs @ [10])"
    by (rule text_in_buffer) (use assms in auto)
  have "(with_bytes m p (xs @ [10]))(p + ucast (of_nat (length xs) + 1 :: u16) := 0) = with_bytes m p (xs @ [10, 0])"
    using buffer_put [of "xs @ [10]" m p 0] assms(2) by (simp add: add.commute)
  then show ?thesis using t assms(2) by (simp add: buffer_put cat_loop.simps(2))
qed

lemma cat_end:
  assumes "0 \<notin> set xs" "length xs \<le> 1024" "p \<noteq> 0"
  shows "cat_loop p (of_nat (length xs)) [CHAR_EOF] (with_bytes m p xs) out =
    Some (out @ xs @ newline @ end_of_file, with_bytes m p (xs @ [0]))"
  using text_in_buffer [of xs p m] assms by (simp add: buffer_put cat_loop.simps(2))

text \<open>What cat prints for lines: each line as it is typed, and again when it is complete.\<close>

definition doubled :: "u8 list list \<Rightarrow> u8 list \<Rightarrow> u8 list" where
  "doubled ls r = concat (map (\<lambda>l. l @ [10] @ l @ [10]) ls) @ r @ r @ newline @ end_of_file"

definition typed :: "u8 list list \<Rightarrow> u8 list \<Rightarrow> int list" where
  "typed ls r = map getchar (concat (map (\<lambda>l. l @ [10]) ls) @ r) @ [CHAR_EOF]"

definition line_ok :: "u8 list \<Rightarrow> bool" where
  "line_ok l \<longleftrightarrow> {0, 10, 252} \<inter> set l = {} \<and> length l < 1023"

lemma with_bytes_frame: "length xs \<le> 1024 \<Longrightarrow> 1024 \<le> unat (a - p) \<Longrightarrow> with_bytes m p xs a = m a"
  by (simp add: with_bytes_def)

lemma cat_lines:
  assumes "\<forall>l\<in>set ls. line_ok l" "line_ok r" "p \<noteq> 0"
  shows "\<exists>m'. cat_loop p 0 (typed ls r) m out = Some (out @ doubled ls r, m') \<and> (\<forall>a. 1024 \<le> unat (a - p) \<longrightarrow> m' a = m a)"
  using assms(1)
proof (induction ls arbitrary: m out)
  case Nil
  have r: "252 \<notin> set r" "10 \<notin> set r" "0 \<notin> set r" "length r \<le> 1024" using assms(2) by (auto simp: line_ok_def)
  have "cat_loop p 0 (typed [] r) m out = Some (out @ doubled [] r, with_bytes m p (r @ [0]))"
    using cat_bytes [of r "[]" p "[CHAR_EOF]" m out] cat_end [of r p m "out @ r"] r assms(3) by (simp add: typed_def doubled_def)
  then show ?case using assms(2) by (auto simp: line_ok_def with_bytes_frame)
next
  case (Cons l ls)
  have l: "252 \<notin> set l" "10 \<notin> set l" "0 \<notin> set l" "length l < 1023" using Cons.prems by (auto simp: line_ok_def)
  let ?m = "with_bytes m p (l @ [10, 0])"
  have "cat_loop p 0 (typed (l # ls) r) m out = cat_loop p 0 (typed ls r) ?m (out @ l @ [10] @ l @ [10])"
    using cat_bytes [of l "[]" p "10 # typed ls r" m out] cat_newline [of l p "typed ls r" m "out @ l"] l assms(3)
    by (simp add: typed_def)
  moreover obtain m' where "cat_loop p 0 (typed ls r) ?m (out @ l @ [10] @ l @ [10]) =
      Some ((out @ l @ [10] @ l @ [10]) @ doubled ls r, m')" "\<forall>a. 1024 \<le> unat (a - p) \<longrightarrow> m' a = ?m a"
    using Cons.IH [of ?m "out @ l @ [10] @ l @ [10]"] Cons.prems by auto
  ultimately show ?case using l(4) by (auto simp: doubled_def with_bytes_frame)
qed

text \<open>cat repeats its input by lines: every line of less than 1023 bytes is printed while it is typed and
  once more when it is complete, and nothing outside the buffer of 1024 bytes is written.\<close>

theorem cat_doubles_lines:
  assumes "\<forall>l\<in>set ls. line_ok l" "line_ok r" "buff \<noteq> 0"
  shows "\<exists>m'. cat_cmd buff (typed ls r) m = Some (doubled ls r, m') \<and> (\<forall>a. 1024 \<le> unat (a - buff) \<longrightarrow> m' a = m a)"
  using cat_lines [OF assms, of m "[]"] by (simp add: cat_cmd_def)

theorem cat_doubles_lines_witness:
  "\<exists>m'. cat_cmd 4096 (typed [[104, 111], [97]] [98]) (\<lambda>_. 0) =
     Some ([104, 111, 10, 104, 111, 10, 97, 10, 97, 10, 98, 98] @ newline @ end_of_file, m')"
  using cat_doubles_lines [of "[[104, 111], [97]]" "[98]" 4096 "\<lambda>_. 0"] by (auto simp: line_ok_def doubled_def)

text \<open>A last line of 1024 bytes: the zero is written behind the buffer.\<close>

lemma cat_overflow:
  assumes "252 \<notin> set xs" "10 \<notin> set xs" "0 \<notin> set xs" "length xs = 1024" "buff \<noteq> 0"
  shows "\<exists>out m'. cat_cmd buff (map getchar xs @ [CHAR_EOF]) m = Some (out, m') \<and> m' (buff + 1024) = 0"
proof -
  have "cat_cmd buff (map getchar xs @ [CHAR_EOF]) m = Some (xs @ xs @ newline @ end_of_file, with_bytes m buff (xs @ [0]))"
    using cat_bytes [of xs "[]" buff "[CHAR_EOF]" m "[]"] cat_end [of xs buff m xs] assms by (simp add: cat_cmd_def)
  moreover have "with_bytes m buff (xs @ [0]) (buff + 1024) = 0"
    using with_bytes_at [of 1024 "xs @ [0]" m buff] assms(4) by (simp add: nth_append)
  ultimately show ?thesis by blast
qed

section \<open>filter\<close>

definition kept :: "u8 list \<Rightarrow> u8 list" where
  "kept xs = filter (\<lambda>b. \<not> is_vowel (getchar b)) xs"

lemma filter_bytes:
  assumes "252 \<notin> set xs" "length (pend @ kept xs) < 65536"
  shows "filter_loop p (of_nat (length pend)) (map getchar xs @ cs) (with_bytes m p pend) out =
    filter_loop p (of_nat (length (pend @ kept xs))) cs (with_bytes m p (pend @ kept xs)) (out @ xs)"
  using assms
proof (induction xs arbitrary: pend out)
  case (Cons b xs)
  have b: "b \<noteq> 252" "252 \<notin> set xs" using Cons.prems(1) by auto
  show ?case
  proof (cases "is_vowel (getchar b)")
    case True
    then show ?thesis using Cons.IH [OF b(2), of pend "out @ [b]"] Cons.prems b(1) by (simp add: kept_def)
  next
    case False
    then have k: "kept (b # xs) = b # kept xs" by (simp add: kept_def)
    have "filter_loop p (of_nat (length pend)) (map getchar (b # xs) @ cs) (with_bytes m p pend) out =
        filter_loop p (of_nat (length (pend @ [b]))) (map getchar xs @ cs) (with_bytes m p (pend @ [b])) (out @ [b])"
      using False b(1) Cons.prems(2) by (simp add: buffer_put k add.commute)
    then show ?thesis using Cons.IH [OF b(2), of "pend @ [b]" "out @ [b]"] Cons.prems(2) by (simp add: k)
  qed
qed (simp add: kept_def)

lemma filter_end:
  assumes "0 \<notin> set xs" "length xs < 65536" "p \<noteq> 0"
  shows "filter_loop p (of_nat (length xs)) [CHAR_EOF] (with_bytes m p xs) out =
    Some (out @ xs @ newline @ end_of_file, with_bytes m p (xs @ [0]))"
  using text_in_buffer [of xs p m] assms by (simp add: buffer_put)

text \<open>filter prints its input as it comes, then the input without its vowels; as long as fewer than 1024
  bytes are kept nothing outside its buffer is written, and the first byte over this is.\<close>

theorem filter_drops_vowels:
  assumes "252 \<notin> set xs" "0 \<notin> set xs" "buff \<noteq> 0" "length (kept xs) \<le> 1024"
  shows "\<exists>m'. filter_cmd buff (map getchar xs @ [CHAR_EOF]) m = Some (xs @ kept xs @ newline @ end_of_file, m') \<and>
    (length (kept xs) < 1024 \<longrightarrow> (\<forall>a. 1024 \<le> unat (a - buff) \<longrightarrow> m' a = m a)) \<and>
    (length (kept xs) = 1024 \<longrightarrow> m' (buff + 1024) = 0)"
proof -
  have z: "0 \<notin> set (kept xs)" using assms(2) by (auto simp: kept_def)
  have "filter_cmd buff (map getchar xs @ [CHAR_EOF]) m = Some (xs @ kept xs @ newline @ end_of_file, with_bytes m buff (kept xs @ [0]))"
    using filter_bytes [OF assms(1), of "[]" buff "[CHAR_EOF]" m "[]"] filter_end [OF z _ assms(3), of m xs] assms(4)
    by (simp add: filter_cmd_def)
  moreover have "with_bytes m buff (kept xs @ [0]) (buff + 1024) = 0" if "length (kept xs) = 1024"
    using with_bytes_at [of 1024 "kept xs @ [0]" m buff] that by (simp add: nth_append)
  ultimately show ?thesis by (auto simp: with_bytes_frame)
qed

theorem filter_drops_vowels_witness:
  "\<exists>m'. filter_cmd 4096 (map getchar [104, 111, 108, 97] @ [CHAR_EOF]) (\<lambda>_. 0) =
     Some ([104, 111, 108, 97, 104, 108] @ newline @ end_of_file, m')"
proof -
  have "kept [104, 111, 108, 97] = [104, 108]" by code_simp
  then show ?thesis using filter_drops_vowels [of "[104, 111, 108, 97]" 4096 "\<lambda>_. 0"] by auto
qed

section \<open>Commands about processes\<close>

text \<open>\<open>kill\<close> always reports success: the call returns 0 whether there is such a process or not.\<close>

theorem kill_says_success:
  assumes "pid_argument m p = Some pid" "pid \<noteq> 0"
  shows "\<exists>u f. kill_shell m [name, p] = Some (Calls u f) \<and>
    (\<forall>k. \<exists>k'. enter_kernel mem old r ra u k = Some (Suspended k' (C_return 0))) \<and>
    f 0 = (bytes_of ''Process '' @ percent_d (ucast pid) @ bytes_of '' killed successfully.'' @ newline, Returns)"
proof -
  have "\<exists>k'. enter_kernel mem old r ra (kill (ucast pid)) k = Some (Suspended k' (C_return 0))" for k
    using kill_returns_zero by blast
  then show ?thesis using assms by (simp add: kill_shell_def report_def to_int_def)
qed

text \<open>A number is cut to 16 bits: to kill 65537 is to kill process 1.\<close>

lemma kill_cuts_number: "pid_argument (with_bytes (\<lambda>_. 0) 2000 [54, 53, 53, 51, 55, 0]) 2000 = Some 1"
  by (simp add: pid_argument_def atoi_def atoi_blanks.simps atoi_digits.simps with_bytes_def char_int_def)

text \<open>\<open>nice\<close> lets priority 3 pass, which the kernel refuses.\<close>

lemma nice_priority_3: "enter_kernel mem old r ra (nice pid 3) k = Some (Returned k (-1, No_out))"
  by (simp add: wrapper_defs arguments_arrive syscall_dispatcher_def numbers sys_setpriority_def change_priority_def
      on_procs_def ret_def from_int_def)

section \<open>Clearing the screen\<close>

text \<open>\<open>clean_screen\<close> of gnaio.c: the cursor, what is printed between, the cursor, and the memory.\<close>

definition clean_screen :: "u64 \<Rightarrow> memory \<Rightarrow> (user_call \<times> u8 list \<times> user_call \<times> memory) option" where
  "clean_screen output_buffer m =
     map_option (\<lambda>(count, out, m'). (set_cursor 0 0, out, set_cursor 1 0, m'))
       (nprintf output_buffer BUFFER_SIZE output_buffer [] (with_bytes m output_buffer (replicate 5120 0)))"

lemma clean_screen_zeros:
  assumes "buf \<noteq> 0"
  shows "\<exists>m'. clean_screen buf m = Some (set_cursor 0 0, replicate 5120 0, set_cursor 1 0, m')"
proof -
  let ?m = "with_bytes m buf (replicate 5120 0)"
  have z: "?m buf = 0" by (simp add: with_bytes_def)
  have "process_format buf 0 buf [] ?m = Some (0, 0, ?m)"
    using assms z by (simp add: process_format_def format_loop.simps)
  moreover have "bytes_at ?m buf 5120 = replicate 5120 0"
    using bytes_at_with_bytes [of "replicate 5120 0" 5120 m buf] by simp
  ultimately show ?thesis by (simp add: clean_screen_def nprintf_def)
qed

end
