(* ===== verification/Test_Mm.thy ===== *)
theory Test_Mm
  imports Programs Buddy
begin

text \<open>
  The memory test of the user programs, tests/test_mm.c, with the generator and the checks of
  tests/test_util.c. It is a client of the heap: the lemmas about it hold for every allocator of
  the interface of Allocator. The floating point expression of \<open>GetUniform\<close> is a parameter.
\<close>

section \<open>The generator and the checks\<close>

text \<open>The two state words.\<close>

definition GetUint :: "u32 \<times> u32 \<Rightarrow> u32 \<times> u32 \<times> u32" where
  "GetUint z =
     (let m_z = 36969 * (fst z AND 65535) + drop_bit 16 (fst z);
          m_w = 18000 * (snd z AND 65535) + drop_bit 16 (snd z)
      in (push_bit 16 m_z + m_w, m_z, m_w))"

text \<open>\<open>scaled u max\<close> is the floating point product of \<open>u + 1\<close>, the constant and \<open>max\<close>, cut to 32 bits.\<close>

definition GetUniform :: "(u32 \<Rightarrow> u32 \<Rightarrow> u32) \<Rightarrow> u32 \<Rightarrow> u32 \<times> u32 \<Rightarrow> u32 \<times> u32 \<times> u32" where
  "GetUniform scaled mx z = (let (u, z') = GetUint z in (scaled u mx, z'))"

text \<open>Its exact value, without the rounding of the machine, is below \<open>max\<close>.\<close>

definition uniform_below :: "(u32 \<Rightarrow> u32 \<Rightarrow> u32) \<Rightarrow> bool" where
  "uniform_below scaled \<longleftrightarrow> (\<forall>u max. unat (scaled u max) < unat max \<or> max = 0 \<and> scaled u max = 0)"

definition scaled_exact :: "u32 \<Rightarrow> u32 \<Rightarrow> u32" where
  "scaled_exact u mx = of_nat ((unat u + 1) * 2328306435454494 * unat mx div 10 ^ 25)"

fun memcheck_from :: "memory \<Rightarrow> u64 \<Rightarrow> u8 \<Rightarrow> nat \<Rightarrow> bool" where
  "memcheck_from m p v 0 = True"
| "memcheck_from m p v (Suc n) = (m p = v \<and> memcheck_from m (p + 1) v n)"

definition memcheck :: "memory \<Rightarrow> u64 \<Rightarrow> u8 \<Rightarrow> u32 \<Rightarrow> bool" where
  "memcheck m start v sz = memcheck_from m start v (unat sz)"

partial_function (option) satoi_digits :: "memory \<Rightarrow> u64 \<Rightarrow> u64 \<Rightarrow> u64 option" where
  "satoi_digits m str res =
     (if m str = 0 then Some res
      else if char_int (m str) < 48 \<or> char_int (m str) > 57 then None
      else satoi_digits m (str + 1) (res * 10 + word_of_int (char_int (m str)) - 48))"

text \<open>A character that is no digit makes the result 0, which \<open>satoi_digits\<close> reports as \<open>None\<close>.\<close>

definition satoi :: "memory \<Rightarrow> u64 \<Rightarrow> u64" where
  "satoi m str =
     (if str = 0 then 0
      else let (neg, s) = (if char_int (m str) = 45 then (True, str + 1) else (False, str))
           in case satoi_digits m s 0 of None \<Rightarrow> 0 | Some res \<Rightarrow> (if neg then - res else res))"

section \<open>The test\<close>

abbreviation MAX_BLOCKS :: nat where "MAX_BLOCKS \<equiv> 128"

type_synonym mm_rq = "u64 \<times> u32"

text \<open>The requests until enough memory is held; a refused request is repeated with another size.\<close>

partial_function (option) request_blocks ::
  "('m \<Rightarrow> u64 \<Rightarrow> (u64 \<times> 'm) option) \<Rightarrow> (u32 \<Rightarrow> u32 \<Rightarrow> u32) \<Rightarrow> u64 \<Rightarrow> mm_rq list \<Rightarrow> u32 \<Rightarrow> u32 \<times> u32 \<Rightarrow> 'm \<Rightarrow>
   (mm_rq list \<times> (u32 \<times> u32) \<times> 'm) option" where
  "request_blocks alloc scaled max_memory rqs so_far z h =
     (if length rqs < MAX_BLOCKS \<and> ucast so_far < max_memory
      then let (u, z') = GetUniform scaled (ucast (max_memory - ucast so_far - 1)) z; sz = u + 1
           in (case alloc h (ucast sz) of
                 None \<Rightarrow> None
               | Some (p, h') \<Rightarrow>
                   if p \<noteq> 0 then request_blocks alloc scaled max_memory (rqs @ [(p, sz)]) (so_far + sz) z' h'
                   else request_blocks alloc scaled max_memory rqs so_far z' h')
      else Some (rqs, z, h))"

fun set_blocks :: "nat \<Rightarrow> mm_rq list \<Rightarrow> memory \<Rightarrow> memory" where
  "set_blocks i [] m = m"
| "set_blocks i (r # rs) m = set_blocks (Suc i) rs (user_memset (fst r) (int i) (ucast (snd r)) m)"

fun check_blocks :: "nat \<Rightarrow> mm_rq list \<Rightarrow> memory \<Rightarrow> bool" where
  "check_blocks i [] m = True"
| "check_blocks i (r # rs) m = (memcheck m (fst r) (of_nat i) (snd r) \<and> check_blocks (Suc i) rs m)"

fun free_blocks :: "('m \<Rightarrow> u64 \<Rightarrow> (int \<times> 'm) option) \<Rightarrow> mm_rq list \<Rightarrow> 'm \<Rightarrow> 'm option" where
  "free_blocks release [] h = Some h"
| "free_blocks release (r # rs) h = (case release h (fst r) of None \<Rightarrow> None | Some (_, h') \<Rightarrow> free_blocks release rs h')"

text \<open>One round of the endless loop; \<open>Inl\<close> is the return of an error.\<close>

definition test_mm_round ::
  "('m \<Rightarrow> u64 \<Rightarrow> (u64 \<times> 'm) option) \<Rightarrow> ('m \<Rightarrow> u64 \<Rightarrow> (int \<times> 'm) option) \<Rightarrow> (u32 \<Rightarrow> u32 \<Rightarrow> u32) \<Rightarrow> u64 \<Rightarrow>
   (u32 \<times> u32) \<times> 'm \<times> memory \<Rightarrow> (u8 list + ((u32 \<times> u32) \<times> 'm \<times> memory)) option" where
  "test_mm_round alloc release scaled max_memory st =
     (case st of (z, h, m) \<Rightarrow>
      (case request_blocks alloc scaled max_memory [] 0 z h of
         None \<Rightarrow> None
       | Some (rqs, z', h') \<Rightarrow>
           let m' = set_blocks 0 rqs m
           in if check_blocks 0 rqs m' then map_option (\<lambda>h''. Inr (z', h'', m')) (free_blocks release rqs h')
              else Some (Inl (bytes_of ''test_mm ERROR'' @ newline))))"

fun test_mm_rounds where
  "test_mm_rounds alloc release scaled max_memory 0 st = Some (Inr st)"
| "test_mm_rounds alloc release scaled max_memory (Suc n) st =
     (case test_mm_round alloc release scaled max_memory st of
        None \<Rightarrow> None
      | Some (Inl e) \<Rightarrow> Some (Inl e)
      | Some (Inr st') \<Rightarrow> test_mm_rounds alloc release scaled max_memory n st')"

text \<open>\<open>None\<close> for the return of -1 before the loop, or what \<open>n\<close> rounds do.\<close>

definition test_mm where
  "test_mm alloc release scaled argv n st =
     (case st of (z, h, m) \<Rightarrow>
        if length argv \<noteq> 1 \<or> satoi m (argv ! 0) = 0 then None
        else Some (test_mm_rounds alloc release scaled (satoi m (argv ! 0)) n st))"

section \<open>The blocks of a round\<close>

lemma memcheck_from_iff: "n < 2 ^ 64 \<Longrightarrow> memcheck_from m p v n \<longleftrightarrow> (\<forall>k<n. m (p + of_nat k) = v)"
  by (induction n arbitrary: p) (auto simp: less_Suc_eq_0_disj add.assoc)

text \<open>The requests and the blocks they hold.\<close>

definition holds_block :: "mm_rq \<Rightarrow> nat \<times> nat \<Rightarrow> bool" where
  "holds_block r b \<longleftrightarrow> fst b = unat (fst r) \<and> 0 < unat (snd r) \<and> unat (snd r) \<le> snd b"

lemma memset_other_block:
  assumes "holds_block r b" "holds_block q c" "blocks_disjoint b c" "fst b + snd b < 2 ^ 64" "fst c + snd c < 2 ^ 64"
    and "k < unat (snd q)"
  shows "user_memset (fst r) v (ucast (snd r)) m (fst q + of_nat k) = m (fst q + of_nat k)"
proof -
  have kc: "unat (fst q) + k < 2 ^ 64" "k < 2 ^ 64" using assms(2,5,6) by (auto simp: holds_block_def)
  then have x: "unat (fst q + of_nat k) = unat (fst q) + k"
    using unat_add_lem [of "fst q" "of_nat k"] by (simp add: unsigned_of_nat take_bit_nat_eq_self)
  have "\<not> unat (fst q + of_nat k - fst r) < unat (snd r)"
  proof
    assume l: "unat (fst q + of_nat k - fst r) < unat (snd r)"
    have "unat (fst r + (fst q + of_nat k - fst r)) = unat (fst r) + unat (fst q + of_nat k - fst r)"
      by (rule unat_add_lem [THEN iffD1]) (use l assms(1,4) in \<open>auto simp: holds_block_def\<close>)
    then have "unat (fst q) + k = unat (fst r) + unat (fst q + of_nat k - fst r)" by (simp add: x)
    then show False using l assms(1,2,3,6) by (auto simp: holds_block_def blocks_disjoint_def)
  qed
  then show ?thesis by (simp add: memset_with_bytes with_bytes_def unsigned_ucast_eq take_bit_word_eq_self)
qed

lemma set_blocks_keeps:
  assumes "list_all2 holds_block rs bs" "holds_block q c" "\<forall>b\<in>set bs. blocks_disjoint b c \<and> fst b + snd b < 2 ^ 64"
    and "fst c + snd c < 2 ^ 64" "k < unat (snd q)"
  shows "set_blocks i rs m (fst q + of_nat k) = m (fst q + of_nat k)"
  using assms(1,3)
proof (induction arbitrary: i m rule: list_all2_induct)
  case (Cons r rs b bs)
  have "set_blocks i (r # rs) m (fst q + of_nat k) = user_memset (fst r) (int i) (ucast (snd r)) m (fst q + of_nat k)"
    using Cons by simp
  also have "\<dots> = m (fst q + of_nat k)"
    by (rule memset_other_block [OF Cons.hyps(1) assms(2)]) (use Cons.prems assms(4,5) in auto)
  finally show ?case .
qed simp

lemma unat32: "unat (x :: u32) < 2 ^ 32" using unsigned_less [of x] by simp

lemma check_set_blocks:
  assumes "list_all2 holds_block rs bs" "sorted_wrt blocks_disjoint bs" "\<forall>b\<in>set bs. fst b + snd b < 2 ^ 64"
  shows "check_blocks i rs (set_blocks i rs m)"
  using assms
proof (induction arbitrary: i m rule: list_all2_induct)
  case (Cons r rs b bs)
  let ?m = "user_memset (fst r) (int i) (ucast (snd r)) m"
  have "set_blocks (Suc i) rs ?m (fst r + of_nat k) = of_nat i" if k: "k < unat (snd r)" for k
  proof -
    have "set_blocks (Suc i) rs ?m (fst r + of_nat k) = ?m (fst r + of_nat k)"
      by (rule set_blocks_keeps [OF Cons.hyps(2,1)]) (use Cons.prems k in \<open>auto simp: blocks_disjoint_def\<close>)
    also have "\<dots> = of_nat i"
    proof -
      have "k < 2 ^ 64" using k unat32 [of "snd r"] by simp
      then show ?thesis using k
        by (simp add: memset_with_bytes with_bytes_def unsigned_of_nat take_bit_nat_eq_self unsigned_ucast_eq take_bit_word_eq_self)
    qed
    finally show ?thesis .
  qed
  moreover have "unat (snd r) < 2 ^ 64" using unat32 [of "snd r"] by simp
  ultimately have "memcheck (set_blocks (Suc i) rs ?m) (fst r) (of_nat i) (snd r)"
    by (simp add: memcheck_def memcheck_from_iff)
  then show ?case using Cons by simp
qed simp

lemma size_positive:
  assumes "uniform_below scaled"
  shows "0 < unat (scaled u mx + 1)"
proof -
  have "unat (scaled u mx) < unat mx \<or> scaled u mx = 0" using assms by (auto simp: uniform_below_def)
  then have "unat (scaled u mx) < 2 ^ 32 - 1" using unat32 [of mx] by auto
  then have "scaled u mx \<noteq> - 1" by (auto simp: unsigned_minus_1_eq_mask mask_eq_exp_minus_1)
  then have "scaled u mx + 1 \<noteq> 0" by (metis add_eq_0_iff2)
  then show ?thesis by (simp add: unat_gt_0)
qed


context bounded_allocator
begin

definition held :: "'a \<Rightarrow> (nat \<times> nat) set \<Rightarrow> mm_rq list \<Rightarrow> (nat \<times> nat) list \<Rightarrow> bool" where
  "held h B rs bs \<longleftrightarrow> wf h \<and> list_all2 holds_block rs bs \<and> sorted_wrt blocks_disjoint bs \<and> blocks h = B \<union> set bs \<and>
     (\<forall>b\<in>set bs. \<forall>c\<in>B. blocks_disjoint b c) \<and> (\<forall>b\<in>set bs. 0 < snd b)"

lemma held_request:
  assumes h: "held h B rs bs" and ok: "alloc h n = Some (p, h')" "admissible n"
    and sz: "n = ucast sz" "0 < unat sz"
  shows "p = 0 \<and> held h' B rs bs \<or> p \<noteq> 0 \<and> (\<exists>b. held h' B (rs @ [(p, sz)]) (bs @ [b]))"
proof (cases "p = 0")
  case True
  then show ?thesis using alloc_null [of h n h'] h ok by (auto simp: held_def)
next
  case False
  then obtain s where s: "wf h'" "unat n \<le> s" "blocks h' = insert (unat p, s) (blocks h)" "\<forall>b\<in>blocks h. blocks_disjoint (unat p, s) b"
    using alloc_block [of h n p h'] h ok by (auto simp: held_def)
  have n: "unat n = unat sz" by (simp add: sz(1) unsigned_ucast_eq take_bit_word_eq_self)
  have "held h' B (rs @ [(p, sz)]) (bs @ [(unat p, s)])"
    using h s n sz(2) by (auto simp: held_def sorted_wrt_append holds_block_def list_all2_appendI blocks_disjoint_def)
  then show ?thesis using False by blast
qed

lemma requests_held:
  assumes "request_blocks alloc scaled mx rs t z h = Some (rs', z', h')" "held h B rs bs" "uniform_below scaled"
    and "\<And>n :: u32. admissible (ucast n)"
  shows "\<exists>bs'. held h' B rs' bs'"
proof -
  define P where "P a (sc :: u32 \<Rightarrow> u32 \<Rightarrow> u32) (mx :: u64) rs (t :: u32) (z :: u32 \<times> u32) h y \<longleftrightarrow>
    (a = alloc \<longrightarrow> sc = scaled \<longrightarrow> (\<forall>bs. held h B rs bs \<longrightarrow> (\<exists>bs'. held (snd (snd y)) B (fst y) bs')))"
    for a sc mx rs t z h and y :: "mm_rq list \<times> (u32 \<times> u32) \<times> 'a"
  have "P alloc scaled mx rs t z h (rs', z', h')"
  proof (rule request_blocks.raw_induct [of P, OF _ assms(1)])
    fix f a sc mx rs t z h and y :: "mm_rq list \<times> (u32 \<times> u32) \<times> 'a"
    assume IH: "\<And>a sc mx rs t z h y. f a sc mx rs t z h = Some y \<Longrightarrow> P a sc mx rs t z h y"
    assume body: "(if length rs < MAX_BLOCKS \<and> ucast t < mx
      then let (u, z') = GetUniform sc (ucast (mx - ucast t - 1)) z; sz = u + 1
           in (case a h (ucast sz) of
                 None \<Rightarrow> None
               | Some (p, h') \<Rightarrow>
                   if p \<noteq> 0 then f a sc mx (rs @ [(p, sz)]) (t + sz) z' h'
                   else f a sc mx rs t z' h')
      else Some (rs, z, h)) = Some y"
    show "P a sc mx rs t z h y"
      unfolding P_def
    proof (intro impI allI)
      fix bs assume a: "a = alloc" "sc = scaled" and h: "held h B rs bs"
      show "\<exists>bs'. held (snd (snd y)) B (fst y) bs'"
      proof (cases "length rs < MAX_BLOCKS \<and> ucast t < mx")
        case False
        then have "y = (rs, z, h)" using body by auto
        then show ?thesis using h by auto
      next
        case True
        obtain u z2 where g: "GetUniform sc (ucast (mx - ucast t - 1)) z = (u, z2)"
          by (cases "GetUniform sc (ucast (mx - ucast t - 1)) z") (rule that)
        define sz where "sz = u + 1"
        obtain v where "u = sc v (ucast (mx - ucast t - 1))" using g by (auto simp: GetUniform_def split: prod.splits)
        then have pos: "0 < unat sz" unfolding sz_def a(2) using size_positive [OF assms(3)] by blast
        have b: "(case alloc h (ucast sz) of None \<Rightarrow> None | Some (p, h') \<Rightarrow>
            if p \<noteq> 0 then f a sc mx (rs @ [(p, sz)]) (t + sz) z2 h' else f a sc mx rs t z2 h') = Some y"
          using body True a(1) unfolding g sz_def by (simp add: Let_def)
        then obtain p h2 where al: "alloc h (ucast sz) = Some (p, h2)" by (auto split: option.splits)
        show ?thesis
          using held_request [OF h al assms(4) refl pos] b IH [of a sc mx "rs @ [(p, sz)]" "t + sz" z2 h2 y]
            IH [of a sc mx rs t z2 h2 y] a unfolding al P_def by (auto split: if_splits)
      qed
    qed
  qed
  then show ?thesis using assms(2) by (auto simp: P_def)
qed

lemma blocks_freed:
  assumes "held h B rs bs"
  shows "\<exists>h'. free_blocks release rs h = Some h' \<and> wf h' \<and> blocks h' = B"
  using assms
proof (induction rs arbitrary: h bs)
  case Nil
  then show ?case by (simp add: held_def)
next
  case (Cons r rs)
  then obtain b bs' where bs: "bs = b # bs'" "holds_block r b" by (auto simp: held_def list_all2_Cons1)
  then have b: "b = (unat (fst r), snd b)" by (simp add: holds_block_def prod_eq_iff)
  have "(unat (fst r), snd b) \<in> blocks h" using Cons.prems bs(1) b by (auto simp: held_def)
  then obtain h2 where h2: "release h (fst r) = Some (0, h2)" "wf h2" "blocks h2 = blocks h - {b}"
    using release_live [of h "fst r" "snd b"] Cons.prems b by (auto simp: held_def)
  have self: "\<not> blocks_disjoint b b" using Cons.prems bs(1) by (auto simp: held_def blocks_disjoint_def)
  have n: "b \<notin> B" "b \<notin> set bs'" using Cons.prems bs(1) self by (auto simp: held_def)
  have "held h2 B rs bs'" using Cons.prems h2 n bs(1) by (auto simp: held_def)
  from Cons.IH [OF this] show ?case using h2(1) by simp
qed

lemma round_ok:
  assumes "wf h" "uniform_below scaled" "\<And>n :: u32. admissible (ucast n)"
    and r: "test_mm_round alloc release scaled mx (z, h, m) = Some r"
  shows "\<exists>z' h' m'. r = Inr (z', h', m') \<and> wf h' \<and> blocks h' = blocks h"
proof -
  obtain rqs z' h1 where q: "request_blocks alloc scaled mx [] 0 z h = Some (rqs, z', h1)"
    using r by (auto simp: test_mm_round_def split: option.splits)
  have "held h (blocks h) [] []" using assms(1) by (simp add: held_def)
  from requests_held [OF q this assms(2,3)] obtain bs where b: "held h1 (blocks h) rqs bs" ..
  have "check_blocks 0 rqs (set_blocks 0 rqs m)"
    by (rule check_set_blocks) (use b block_bounded in \<open>auto simp: held_def\<close>)
  moreover obtain h2 where "free_blocks release rqs h1 = Some h2" "wf h2" "blocks h2 = blocks h"
    using blocks_freed [OF b] by blast
  ultimately show ?thesis using r q by (auto simp: test_mm_round_def Let_def)
qed

lemma rounds_ok:
  assumes "wf h" "uniform_below scaled" "\<And>n :: u32. admissible (ucast n)"
    and "test_mm_rounds alloc release scaled mx k (z, h, m) = Some r"
  shows "\<exists>z' h' m'. r = Inr (z', h', m') \<and> wf h' \<and> blocks h' = blocks h"
  using assms(1,4)
proof (induction k arbitrary: z h m)
  case (Suc k)
  then obtain r1 where r1: "test_mm_round alloc release scaled mx (z, h, m) = Some r1" by (auto split: option.splits)
  from round_ok [OF Suc.prems(1) assms(2,3) r1] obtain z1 h1 m1 where "r1 = Inr (z1, h1, m1)" "wf h1" "blocks h1 = blocks h"
    by blast
  then show ?case using Suc.IH [of h1 z1 m1] Suc.prems(2) r1 by auto
qed auto

end

section \<open>The test on the default allocator\<close>

text \<open>C21. The memory test, for any number of rounds on any heap that clients have reached, never reports an
  error, and every round gives back exactly the blocks it took: a byte pattern written into one
  block is never changed through another.\<close>

theorem test_mm_never_fails:
  assumes "heap_run (memory_manager_init raw MEMORY_START) h" "uniform_below scaled"
    and "test_mm memory_alloc (\<lambda>m p. Some (memory_free m p)) scaled argv k (z, h, m) = Some (Some r)"
  shows "\<exists>z' h' m'. r = Inr (z', h', m') \<and> live h' = live h \<and> used_bytes h' = unat (used_memory (mm_info h'))"
proof -
  have "frames_ok (memory_manager_init raw MEMORY_START)" "pf.apart (memory_manager_init raw MEMORY_START)"
    using memory_manager_init_ok [of MEMORY_START raw] by (simp_all add: pf.apart_def)
  then have ok: "frames_ok h" using heap_run_ok [OF assms(1)] by blast
  have small: "small_request (ucast n)" for n :: u32
    using unat32 [of n] by (simp add: unsigned_ucast_eq take_bit_word_eq_self)
  obtain mx where "test_mm_rounds memory_alloc (\<lambda>m p. Some (memory_free m p)) scaled mx k (z, h, m) = Some r"
    using assms(3) by (auto simp: test_mm_def split: if_splits)
  from pf.rounds_ok [OF ok assms(2) small this] show ?thesis using frames_okD(7) by metis
qed

lemma scaled_exact_below: "uniform_below scaled_exact"
  unfolding uniform_below_def
proof (intro allI)
  fix u mx :: u32
  define x where "x = (unat u + 1) * 2328306435454494 * unat mx div 10 ^ 25"
  show "unat (scaled_exact u mx) < unat mx \<or> mx = 0 \<and> scaled_exact u mx = 0"
  proof (cases "mx = 0")
    case False
    then have p: "0 < unat mx" by (simp add: unat_gt_0)
    have "(unat u + 1) * 2328306435454494 \<le> 2 ^ 32 * 2328306435454494" using unat32 [of u] by simp
    also have "\<dots> < 10 ^ 25" by simp
    finally have "(unat u + 1) * 2328306435454494 * unat mx < unat mx * 10 ^ 25" using p by simp
    then have "x < unat mx" unfolding x_def by (rule less_mult_imp_div_less)
    then have "unat (of_nat x :: u32) = x" using unat32 [of mx] by (simp add: unsigned_of_nat take_bit_nat_eq_self)
    then show ?thesis using \<open>x < unat mx\<close> by (simp add: scaled_exact_def x_def)
  qed (simp add: scaled_exact_def)
qed

lemma free_blocks_total: "\<exists>h'. free_blocks (\<lambda>m p. Some (memory_free m p)) rs h = Some h'"
  by (induction rs arbitrary: h) (simp_all split: prod.split)

lemma one_byte_requested:
  "\<exists>z' h'. request_blocks memory_alloc scaled_exact 1 [] 0 z (memory_manager_init raw MEMORY_START) =
     Some ([(MEMORY_START, 1)], z', h')"
proof -
  let ?h = "memory_manager_init raw MEMORY_START"
  obtain u z' where z: "GetUint z = (u, z')" by (cases "GetUint z")
  have g: "GetUniform scaled_exact 0 z = (0, z')" by (simp add: GetUniform_def z scaled_exact_def)
  obtain h' where a: "memory_alloc ?h 1 = Some (MEMORY_START, h')" using fresh_alloc [of 1 raw] by simp
  have "request_blocks memory_alloc scaled_exact 1 [] 0 z ?h = request_blocks memory_alloc scaled_exact 1 [(MEMORY_START, 1)] 1 z' h'"
    by (subst request_blocks.simps) (simp add: g a Let_def)
  also have "\<dots> = Some ([(MEMORY_START, 1)], z', h')" by (subst request_blocks.simps) simp
  finally show ?thesis by blast
qed

theorem test_mm_never_fails_witness:
  "\<exists>r z' h' m'. test_mm memory_alloc (\<lambda>m p. Some (memory_free m p)) scaled_exact [2000] 1
     ((362436069, 521288629), memory_manager_init raw_heap MEMORY_START, with_bytes (\<lambda>_. 0) 2000 [49, 0]) = Some (Some r) \<and>
     r = Inr (z', h', m') \<and> live h' = {}"
proof -
  let ?h = "memory_manager_init raw_heap MEMORY_START" and ?m = "with_bytes (\<lambda>_. 0) 2000 [49, 0]"
  have a: "satoi ?m 2000 = 1"
    by (simp add: satoi_def satoi_digits.simps with_bytes_def char_int_def)
  obtain z1 h1 where q: "request_blocks memory_alloc scaled_exact 1 [] 0 (362436069, 521288629) ?h = Some ([(MEMORY_START, 1)], z1, h1)"
    using one_byte_requested by blast
  have "\<exists>r. test_mm memory_alloc (\<lambda>m p. Some (memory_free m p)) scaled_exact [2000] 1 ((362436069, 521288629), ?h, ?m) = Some (Some r)"
    using free_blocks_total [of "[(MEMORY_START, 1)]" h1]
    by (auto simp: test_mm_def a test_mm_round_def q Let_def simp del: free_blocks.simps split: option.split)
  then obtain r where r: "test_mm memory_alloc (\<lambda>m p. Some (memory_free m p)) scaled_exact [2000] 1 ((362436069, 521288629), ?h, ?m) = Some (Some r)" ..
  from test_mm_never_fails [OF heap_start scaled_exact_below r] show ?thesis
    using r fresh_heap(2) [of raw_heap] by auto
qed

end
