(* ===== verification/Test_Sync.thy ===== *)
theory Test_Sync
  imports Test_Mm
begin

text \<open>
  The synchronisation test of the user programs, tests/test_sync.c: processes that add to one
  variable, slowly and in any interleaving, with and without a semaphore around the addition. A
  step goes from one access of the shared variable or semaphore operation to the next; a semaphore
  is its value.
\<close>

section \<open>The processes\<close>

text \<open>Where a process is: at the head of its loop, before it reads the variable, before it writes it,
  before its \<open>sem_post\<close>, at its end.\<close>

datatype inc_pc = I_loop | I_read | I_write | I_post | I_done

record inc_proc =
  ip_pc :: inc_pc
  ip_left :: nat
  ip_inc :: u64
  ip_aux :: u64

record sync_state =
  ss_global :: u64
  ss_value :: nat
  ss_procs :: "inc_proc list"

abbreviation TOTAL_PAIR_PROCESSES :: nat where "TOTAL_PAIR_PROCESSES \<equiv> 2"

definition upd_proc :: "nat \<Rightarrow> inc_proc \<Rightarrow> sync_state \<Rightarrow> sync_state" where
  "upd_proc i p st = st\<lparr>ss_procs := (ss_procs st)[i := p]\<rparr>"

text \<open>The two halves of \<open>slowInc\<close>, before and after it yields.\<close>

definition slow_read :: "nat \<Rightarrow> sync_state \<Rightarrow> sync_state" where
  "slow_read i st = upd_proc i ((ss_procs st ! i)\<lparr>ip_aux := ss_global st, ip_pc := I_write\<rparr>) st"

definition slow_write :: "nat \<Rightarrow> sync_state \<Rightarrow> sync_state" where
  "slow_write i st = (upd_proc i ((ss_procs st ! i)\<lparr>ip_pc := I_post\<rparr>) st)
     \<lparr>ss_global := ip_aux (ss_procs st ! i) + ip_inc (ss_procs st ! i)\<rparr>"

text \<open>One step of \<open>my_process_inc\<close>; \<open>None\<close> when it waits or is over.\<close>

definition my_process_inc :: "bool \<Rightarrow> nat \<Rightarrow> sync_state \<Rightarrow> sync_state option" where
  "my_process_inc use_sem i st =
     (if i \<ge> length (ss_procs st) then None
      else let p = ss_procs st ! i
           in case ip_pc p of
                I_loop \<Rightarrow>
                  if ip_left p = 0 then Some (upd_proc i (p\<lparr>ip_pc := I_done\<rparr>) st)
                  else if \<not> use_sem then Some (upd_proc i (p\<lparr>ip_pc := I_read\<rparr>) st)
                  else if ss_value st > 0 then Some (upd_proc i (p\<lparr>ip_pc := I_read\<rparr>) (st\<lparr>ss_value := ss_value st - 1\<rparr>))
                  else None
              | I_read \<Rightarrow> Some (slow_read i st)
              | I_write \<Rightarrow> Some (slow_write i st)
              | I_post \<Rightarrow>
                  let st' = upd_proc i (p\<lparr>ip_left := ip_left p - 1, ip_pc := I_loop\<rparr>) st
                  in Some (if use_sem then st'\<lparr>ss_value := Suc (ss_value st)\<rparr> else st')
              | I_done \<Rightarrow> None)"

fun sync_run :: "bool \<Rightarrow> nat list \<Rightarrow> sync_state \<Rightarrow> sync_state option" where
  "sync_run use_sem [] st = Some st"
| "sync_run use_sem (i # is) st = (case my_process_inc use_sem i st of None \<Rightarrow> None | Some st' \<Rightarrow> sync_run use_sem is st')"

section \<open>The test\<close>

text \<open>The arguments of a process, or the status it exits with.\<close>

definition inc_arguments :: "memory \<Rightarrow> u64 list \<Rightarrow> int + (u64 \<times> u8 \<times> u8)" where
  "inc_arguments m argv =
     (if length argv \<noteq> 3 then Inl 1
      else let n = satoi m (argv ! 0); inc = ucast (satoi m (argv ! 1)) :: u8; s = ucast (satoi m (argv ! 2)) :: u8
           in if n = 0 \<or> inc = 0 \<or> sint s < 0 then Inl 1 else Inr (n, inc, s))"

definition inc_process :: "nat \<Rightarrow> u8 \<Rightarrow> inc_proc" where
  "inc_process n inc = \<lparr>ip_pc = I_loop, ip_left = n, ip_inc = scast inc, ip_aux = 0\<rparr>"

text \<open>The processes that \<open>test_sync\<close> creates when they get the arguments \<open>n\<close> and -1 or 1.\<close>

definition sync_start :: "nat \<Rightarrow> sync_state" where
  "sync_start n = \<lparr>ss_global = 0, ss_value = 1,
     ss_procs = concat (replicate TOTAL_PAIR_PROCESSES [inc_process n (-1), inc_process n 1])\<rparr>"

text \<open>\<open>test_sync\<close> up to the processes: what it returns early, or the memory with the number of the
  semaphore in its second argument. \<open>opened\<close> is what \<open>sem_init\<close> returns.\<close>

definition test_sync :: "memory \<Rightarrow> u64 list \<Rightarrow> u32 \<Rightarrow> (int + memory) option" where
  "test_sync m argv opened =
     (if length argv \<noteq> 2 then Some (Inl 1)
      else let use = ucast (satoi m (argv ! 1)) :: u32
           in if sint use < 0 then Some (Inl (-1))
              else if use \<noteq> 0 \<and> opened = -1 then Some (Inl (-1))
              else map_option (\<lambda>(digits, m'). if digits = 0 then Inl (-1) else Inr m')
                     (itoa (scast (if use \<noteq> 0 then opened else 0)) (argv ! 1) 10 m))"

definition finished :: "sync_state \<Rightarrow> bool" where
  "finished st \<longleftrightarrow> list_all (\<lambda>p. ip_pc p = I_done) (ss_procs st)"

section \<open>The semaphore makes it exact\<close>

definition busy :: "inc_proc \<Rightarrow> bool" where
  "busy p \<longleftrightarrow> ip_pc p \<in> {I_read, I_write, I_post}"

text \<open>What a process still adds.\<close>

definition todo :: "inc_proc \<Rightarrow> u64" where
  "todo p = of_nat (ip_left p - (if ip_pc p = I_post then 1 else 0)) * ip_inc p"

definition alone :: "inc_proc list \<Rightarrow> bool" where
  "alone ps \<longleftrightarrow> (\<forall>i<length ps. \<forall>j<length ps. busy (ps ! i) \<longrightarrow> busy (ps ! j) \<longrightarrow> i = j)"

definition proc_ok :: "sync_state \<Rightarrow> inc_proc \<Rightarrow> bool" where
  "proc_ok st p \<longleftrightarrow> (busy p \<longrightarrow> 0 < ip_left p) \<and> (ip_pc p = I_write \<longrightarrow> ip_aux p = ss_global st) \<and>
     (ip_pc p = I_done \<longrightarrow> ip_left p = 0)"

definition sync_ok :: "u64 \<Rightarrow> sync_state \<Rightarrow> bool" where
  "sync_ok result st \<longleftrightarrow>
     alone (ss_procs st) \<and> (\<forall>p\<in>set (ss_procs st). proc_ok st p) \<and>
     ss_value st = (if \<exists>p\<in>set (ss_procs st). busy p then 0 else 1) \<and>
     ss_global st + (\<Sum>i<length (ss_procs st). todo (ss_procs st ! i)) = result"

lemma sum_update:
  fixes f :: "inc_proc \<Rightarrow> u64"
  assumes "i < length ps"
  shows "(\<Sum>j<length ps. f (ps[i := p] ! j)) = (\<Sum>j<length ps. f (ps ! j)) - f (ps ! i) + f p"
proof -
  have "(\<Sum>j<length ps. f (ps[i := p] ! j)) = f p + (\<Sum>j\<in>{..<length ps} - {i}. f (ps[i := p] ! j))"
    using assms by (subst sum.remove [of _ i]) auto
  also have "(\<Sum>j\<in>{..<length ps} - {i}. f (ps[i := p] ! j)) = (\<Sum>j\<in>{..<length ps} - {i}. f (ps ! j))"
    by (rule sum.cong) auto
  also have "\<dots> = (\<Sum>j<length ps. f (ps ! j)) - f (ps ! i)"
    using assms by (subst (2) sum.remove [of _ i]) auto
  finally show ?thesis by simp
qed

lemma alone_others:
  "alone ps \<Longrightarrow> i < length ps \<Longrightarrow> busy (ps ! i) \<Longrightarrow> j < length ps \<Longrightarrow> j \<noteq> i \<Longrightarrow> \<not> busy (ps ! j)"
  by (auto simp: alone_def)

text \<open>What a step of a process \<open>i\<close> has to show: it enters with the semaphore free, leaves, or stays on its
  side, and the variable changes only inside.\<close>

lemma sync_okI:
  assumes ok: "sync_ok r st" and i: "i < length (ss_procs st)" and ps: "ss_procs st' = (ss_procs st)[i := p]"
    and others: "busy p \<or> busy (ss_procs st ! i) \<Longrightarrow> \<forall>j<length (ss_procs st). j \<noteq> i \<longrightarrow> \<not> busy (ss_procs st ! j)"
    and v: "ss_value st' = (if busy p then 0 else if busy (ss_procs st ! i) then 1 else ss_value st)"
    and l: "proc_ok st' p"
    and g: "ss_global st' = ss_global st \<or> busy (ss_procs st ! i)"
    and t: "ss_global st' + todo p = ss_global st + todo (ss_procs st ! i)"
  shows "sync_ok r st'"
proof -
  let ?ps = "ss_procs st" and ?q = "\<lambda>j. (ss_procs st)[i := p] ! j"
  have idx: "(\<exists>x\<in>set (?ps[i := p]). P x) \<longleftrightarrow> P p \<or> (\<exists>j<length ?ps. j \<noteq> i \<and> P (?ps ! j))" for P
  proof -
    have "(\<exists>x\<in>set (?ps[i := p]). P x) \<longleftrightarrow> (\<exists>j<length ?ps. P (?q j))" by (metis in_set_conv_nth length_list_update)
    also have "\<dots> \<longleftrightarrow> P p \<or> (\<exists>j<length ?ps. j \<noteq> i \<and> P (?ps ! j))" using i by (metis nth_list_update_eq nth_list_update_neq)
    finally show ?thesis .
  qed
  have "alone (?ps[i := p])"
    using others ok i by (auto simp: alone_def nth_list_update sync_ok_def)
  moreover have "proc_ok st' x" if x: "x \<in> set (?ps[i := p])" for x
  proof -
    from x have "x = p \<or> (\<exists>j<length ?ps. j \<noteq> i \<and> x = ?ps ! j)" using idx [of "\<lambda>y. x = y"] by blast
    then consider "x = p" | j where "j < length ?ps" "j \<noteq> i" "x = ?ps ! j" by blast
    then show ?thesis
    proof cases
      case (2 j)
      have o: "proc_ok st x" using ok 2 by (simp add: sync_ok_def)
      have "ss_global st' = ss_global st" if "ip_pc x = I_write"
      proof -
        have "busy x" using that by (simp add: busy_def)
        then show ?thesis using g others 2 by blast
      qed
      then show ?thesis using o by (simp add: proc_ok_def)
    qed (simp add: l)
  qed
  moreover have "ss_value st' = (if \<exists>x\<in>set (?ps[i := p]). busy x then 0 else 1)"
  proof (cases "busy p \<or> busy (?ps ! i)")
    case True
    then have "(\<exists>x\<in>set (?ps[i := p]). busy x) \<longleftrightarrow> busy p" using others unfolding idx by blast
    then show ?thesis using True v by (cases "busy p") simp_all
  next
    case False
    have "(\<exists>x\<in>set ?ps. busy x) \<longleftrightarrow> (\<exists>j<length ?ps. j \<noteq> i \<and> busy (?ps ! j))" using False by (metis in_set_conv_nth)
    then show ?thesis using False v ok unfolding idx by (simp add: sync_ok_def)
  qed
  moreover have "ss_global st' + (\<Sum>j<length ?ps. todo (?q j)) = r"
  proof -
    have "ss_global st' + (\<Sum>j<length ?ps. todo (?q j)) = (ss_global st' + todo p) + (\<Sum>j<length ?ps. todo (?ps ! j)) - todo (?ps ! i)"
      unfolding sum_update [OF i] by (simp add: algebra_simps)
    also have "\<dots> = ss_global st + (\<Sum>j<length ?ps. todo (?ps ! j))" unfolding t by simp
    also have "\<dots> = r" using ok by (simp add: sync_ok_def)
    finally show ?thesis .
  qed
  ultimately show ?thesis unfolding sync_ok_def ps length_list_update by blast
qed

lemma sync_okD:
  assumes "sync_ok r st" "i < length (ss_procs st)"
  shows "proc_ok st (ss_procs st ! i)"
    "busy (ss_procs st ! i) \<Longrightarrow> \<forall>j<length (ss_procs st). j \<noteq> i \<longrightarrow> \<not> busy (ss_procs st ! j)"
    "busy (ss_procs st ! i) \<Longrightarrow> ss_value st = 0"
    "0 < ss_value st \<Longrightarrow> ss_value st = 1 \<and> (\<forall>j<length (ss_procs st). \<not> busy (ss_procs st ! j))"
  using assms by (auto simp: sync_ok_def alone_def split: if_splits)

lemma sync_ok_step:
  assumes ok: "sync_ok r st" and step: "my_process_inc True i st = Some st'"
  shows "sync_ok r st'"
proof -
  let ?p = "ss_procs st ! i"
  have i: "i < length (ss_procs st)" using step by (auto simp: my_process_inc_def split: if_splits)
  note d = sync_okD [OF ok i]
  show ?thesis
  proof (cases "ip_pc ?p")
    case I_loop
    show ?thesis
    proof (cases "ip_left ?p = 0")
      case True
      then have "st' = upd_proc i (?p\<lparr>ip_pc := I_done\<rparr>) st" using step i I_loop by (simp add: my_process_inc_def)
      then show ?thesis using True I_loop by (intro sync_okI [OF ok i]) (auto simp: upd_proc_def busy_def todo_def proc_ok_def)
    next
      case False
      then have v: "0 < ss_value st" and s: "st' = upd_proc i (?p\<lparr>ip_pc := I_read\<rparr>) (st\<lparr>ss_value := ss_value st - 1\<rparr>)"
        using step i I_loop by (auto simp: my_process_inc_def split: if_splits)
      show ?thesis using False I_loop s d(4) [OF v]
        by (intro sync_okI [OF ok i]) (auto simp: upd_proc_def busy_def todo_def proc_ok_def)
    qed
  next
    case I_read
    then have b: "busy ?p" by (simp add: busy_def)
    have "st' = slow_read i st" using step i I_read by (simp add: my_process_inc_def)
    then show ?thesis using I_read d(1) d(2,3) [OF b] b
      by (intro sync_okI [OF ok i]) (auto simp: slow_read_def upd_proc_def busy_def todo_def proc_ok_def)
  next
    case I_write
    then have b: "busy ?p" by (simp add: busy_def)
    have s: "st' = slow_write i st" using step i I_write by (simp add: my_process_inc_def)
    have l: "0 < ip_left ?p" "ip_aux ?p = ss_global st" using d(1) I_write b by (simp_all add: proc_ok_def)
    then have "of_nat (ip_left ?p) = (of_nat (ip_left ?p - 1) + 1 :: u64)" by (cases "ip_left ?p") simp_all
    then have t: "(of_nat (ip_left ?p) * ip_inc ?p :: u64) = of_nat (ip_left ?p - 1) * ip_inc ?p + ip_inc ?p"
      by (simp add: distrib_right)
    show ?thesis using I_write d(2,3) [OF b] b s l t
      by (intro sync_okI [OF ok i]) (auto simp: slow_write_def upd_proc_def busy_def todo_def proc_ok_def)
  next
    case I_post
    then have b: "busy ?p" by (simp add: busy_def)
    have "st' = (upd_proc i (?p\<lparr>ip_left := ip_left ?p - 1, ip_pc := I_loop\<rparr>) st)\<lparr>ss_value := Suc (ss_value st)\<rparr>"
      using step i I_post by (simp add: my_process_inc_def Let_def)
    then show ?thesis using I_post d(2,3) [OF b] b
      by (intro sync_okI [OF ok i]) (auto simp: upd_proc_def busy_def todo_def proc_ok_def)
  qed (use step i in \<open>simp add: my_process_inc_def\<close>)
qed

lemma sync_ok_run: "sync_run True is st = Some st' \<Longrightarrow> sync_ok r st \<Longrightarrow> sync_ok r st'"
  by (induction "True" "is" st rule: sync_run.induct) (auto split: option.splits dest: sync_ok_step)

lemma sync_start_ok: "sync_ok 0 (sync_start n)"
proof -
  have t: "todo (inc_process n (-1)) + todo (inc_process n 1) = 0" by (simp add: todo_def inc_process_def)
  have ps: "ss_procs (sync_start n) = [inc_process n (-1), inc_process n 1, inc_process n (-1), inc_process n 1]"
    by (simp add: sync_start_def numeral_eq_Suc)
  have p: "\<not> busy q \<and> proc_ok st q" if "q \<in> set (ss_procs (sync_start n))" for q st
    using that unfolding ps by (auto simp: inc_process_def busy_def proc_ok_def)
  then have "alone (ss_procs (sync_start n))" by (simp add: alone_def)
  moreover have "ss_value (sync_start n) = 1" "ss_global (sync_start n) = 0" by (simp_all add: sync_start_def)
  moreover have "(\<Sum>i<length (ss_procs (sync_start n)). todo (ss_procs (sync_start n) ! i)) = 0"
    unfolding ps using t by (simp add: numeral_eq_Suc lessThan_Suc algebra_simps)
  ultimately show ?thesis using p unfolding sync_ok_def by auto
qed

text \<open>Nobody waits for ever: while a process is not at its end, one of them can go on.\<close>

lemma some_process_steps:
  assumes ok: "sync_ok r st" and n: "\<not> finished st"
  shows "\<exists>i st'. my_process_inc True i st = Some st'"
proof (cases "\<exists>i<length (ss_procs st). busy (ss_procs st ! i)")
  case True
  then obtain i where i: "i < length (ss_procs st)" "busy (ss_procs st ! i)" by blast
  then have "\<exists>st'. my_process_inc True i st = Some st'" by (auto simp: busy_def my_process_inc_def Let_def)
  then show ?thesis by blast
next
  case False
  obtain i where i: "i < length (ss_procs st)" "ip_pc (ss_procs st ! i) \<noteq> I_done"
    using n by (auto simp: finished_def list_all_iff in_set_conv_nth)
  then have l: "ip_pc (ss_procs st ! i) = I_loop" using False by (cases "ip_pc (ss_procs st ! i)") (auto simp: busy_def)
  have "ss_value st = 1" using ok False by (auto simp: sync_ok_def in_set_conv_nth)
  then have "\<exists>st'. my_process_inc True i st = Some st'" using i l by (simp add: my_process_inc_def Let_def)
  then show ?thesis by blast
qed

text \<open>Every step is one of a fixed number.\<close>

definition steps_left :: "inc_proc \<Rightarrow> nat" where
  "steps_left p =
     (case ip_pc p of I_loop \<Rightarrow> 4 * ip_left p + 1 | I_read \<Rightarrow> 4 * ip_left p | I_write \<Rightarrow> 4 * ip_left p - 1
      | I_post \<Rightarrow> 4 * ip_left p - 2 | I_done \<Rightarrow> 0)"

definition all_steps_left :: "sync_state \<Rightarrow> nat" where
  "all_steps_left st = sum_list (map steps_left (ss_procs st))"

lemma all_steps_update:
  assumes "i < length ps" "steps_left (ps ! i) = Suc (steps_left p)"
  shows "sum_list (map steps_left ps) = Suc (sum_list (map steps_left (ps[i := p])))"
proof -
  have "sum_list (map steps_left (ps[i := p])) = sum_list (map steps_left ps) + steps_left p - steps_left (ps ! i)"
    using sum_list_update [of i "map steps_left ps" "steps_left p"] assms(1) by (simp add: map_update)
  moreover have "steps_left (ps ! i) \<le> sum_list (map steps_left ps)"
    using elem_le_sum_list [of i "map steps_left ps"] assms(1) by simp
  ultimately show ?thesis using assms(2) by simp
qed

lemma step_counts:
  assumes ok: "sync_ok r st" and step: "my_process_inc True i st = Some st'"
  shows "all_steps_left st = Suc (all_steps_left st')"
proof -
  let ?p = "ss_procs st ! i"
  have i: "i < length (ss_procs st)" using step by (auto simp: my_process_inc_def split: if_splits)
  obtain p where p: "ss_procs st' = (ss_procs st)[i := p]" "steps_left ?p = Suc (steps_left p)"
  proof -
    have l: "busy ?p \<Longrightarrow> 0 < ip_left ?p" using sync_okD(1) [OF ok i] by (simp add: proc_ok_def)
    have "\<exists>p. ss_procs st' = (ss_procs st)[i := p] \<and> steps_left ?p = Suc (steps_left p)"
      using step i l
      by (cases "ip_pc ?p") (auto simp: my_process_inc_def slow_read_def slow_write_def upd_proc_def Let_def steps_left_def busy_def
        split: if_splits intro!: exI)
    then show ?thesis using that by blast
  qed
  then show ?thesis using all_steps_update [OF i p(2)] by (simp add: all_steps_left_def)
qed

lemma run_counts:
  "sync_run True is st = Some st' \<Longrightarrow> sync_ok r st \<Longrightarrow> all_steps_left st = length is + all_steps_left st'"
proof (induction "is" arbitrary: st)
  case (Cons i "is")
  then obtain u where u: "my_process_inc True i st = Some u" "sync_run True is u = Some st'" by (auto split: option.splits)
  from Cons.IH [OF u(2) sync_ok_step [OF Cons.prems(2) u(1)]] step_counts [OF Cons.prems(2) u(1)] show ?case by simp
qed simp

lemma finished_result:
  assumes ok: "sync_ok r st" and f: "finished st"
  shows "ss_global st = r \<and> all_steps_left st = 0"
proof -
  have d: "ip_pc p = I_done \<and> ip_left p = 0" if "p \<in> set (ss_procs st)" for p
    using that ok f by (auto simp: finished_def list_all_iff sync_ok_def proc_ok_def)
  have "(\<Sum>i<length (ss_procs st). todo (ss_procs st ! i)) = 0"
  proof (rule sum.neutral, rule ballI)
    fix i assume "i \<in> {..<length (ss_procs st)}"
    then show "todo (ss_procs st ! i) = 0" using d [of "ss_procs st ! i"] by (simp add: todo_def)
  qed
  moreover have "sum_list (map steps_left (ss_procs st)) = 0"
    using d by (simp add: sum_list_eq_0_iff steps_left_def)
  ultimately show ?thesis using ok by (simp add: sync_ok_def all_steps_left_def)
qed

text \<open>C20. With the semaphore the test is exact: in whatever order its four processes take their steps, a run that
  cannot go on has brought all of them to their end and leaves the variable at 0; no run stops
  earlier, and none is longer than 16 steps for each iteration and four for the ends.\<close>

theorem test_sync_exact:
  assumes "sync_run True is (sync_start n) = Some st"
  shows "(finished st \<longleftrightarrow> (\<forall>i. my_process_inc True i st = None)) \<and> (finished st \<longrightarrow> ss_global st = 0 \<and> length is = 16 * n + 4) \<and>
    length is \<le> 16 * n + 4"
proof -
  have ok: "sync_ok 0 st" by (rule sync_ok_run [OF assms sync_start_ok])
  have "all_steps_left (sync_start n) = 16 * n + 4"
    by (simp add: all_steps_left_def sync_start_def numeral_eq_Suc inc_process_def steps_left_def)
  then have c: "16 * n + 4 = length is + all_steps_left st" using run_counts [OF assms sync_start_ok] by simp
  have "my_process_inc True i st = None" if "finished st" for i
    using that by (auto simp: finished_def list_all_iff my_process_inc_def)
  then show ?thesis using some_process_steps [OF ok] finished_result [OF ok] c by fastforce
qed

text \<open>Each process in turn, all its steps.\<close>

theorem test_sync_exact_witness:
  "\<exists>is st. sync_run True is (sync_start 1) = Some st \<and> finished st \<and> ss_global st = 0 \<and> length is = 20"
proof -
  let ?is = "[0, 0, 0, 0, 0, 1, 1, 1, 1, 1, 2, 2, 2, 2, 2, 3, 3, 3, 3, 3]"
  have "case sync_run True ?is (sync_start 1) of None \<Rightarrow> False | Some st \<Rightarrow> finished st" by code_simp
  then obtain st where st: "sync_run True ?is (sync_start 1) = Some st" "finished st" by (auto split: option.splits)
  from test_sync_exact [OF st(1)] st show ?thesis by (intro exI [of _ ?is] exI [of _ st]) simp
qed

text \<open>Without the semaphore an update is lost: process 1 works between the read and the write of process 0.\<close>

lemma test_sync_race:
  "\<exists>is st. sync_run False is (sync_start 1) = Some st \<and> finished st \<and> ss_global st = -1"
proof -
  let ?is = "[0, 0, 1, 1, 1, 1, 1, 0, 0, 0, 2, 2, 2, 2, 2, 3, 3, 3, 3, 3]"
  have "case sync_run False ?is (sync_start 1) of None \<Rightarrow> False | Some st \<Rightarrow> finished st \<and> ss_global st = -1" by code_simp
  then show ?thesis by (cases "sync_run False ?is (sync_start 1)") (auto simp del: sync_run.simps)
qed

end
