(* ===== verification/Test_Programs.thy ===== *)
theory Test_Programs
  imports Test_Sync
begin

text \<open>
  The rest of the tests of the user programs: the calls of tests/test-syscalls.c, the tests of
  processes and priorities, and the commands of tests/test-programs.c that start the tests. A call
  into the kernel is a parameter where its result decides what the test does next.
\<close>

section \<open>Calls\<close>

definition my_getpid where "my_getpid = get_pid"

definition my_create_process :: "u64 \<Rightarrow> u64 \<Rightarrow> u64 \<Rightarrow> u64 \<Rightarrow> user_call" where
  "my_create_process name function argc argv = user_create_process name function (ucast argc) argv 0 0"

definition my_nice :: "u64 \<Rightarrow> u64 \<Rightarrow> user_call" where "my_nice pid newPrio = nice (ucast pid) (ucast newPrio)"

definition my_kill :: "u64 \<Rightarrow> user_call" where "my_kill pid = kill (ucast pid)"

definition my_block :: "u64 \<Rightarrow> user_call" where "my_block pid = block (ucast pid)"

definition my_unblock :: "u64 \<Rightarrow> user_call" where "my_unblock pid = unblock (ucast pid)"

definition my_sem_open :: "u64 \<Rightarrow> user_call" where "my_sem_open initialValue = sem_init (ucast initialValue)"

definition my_sem_wait :: "u32 \<Rightarrow> user_call" where "my_sem_wait s = user_sem_wait s"

definition my_sem_post :: "u32 \<Rightarrow> user_call" where "my_sem_post s = user_sem_post s"

definition my_sem_close :: "u32 \<Rightarrow> user_call" where "my_sem_close s = sem_close s"

definition my_yield where "my_yield = sched_yield"

definition my_wait :: "u64 \<Rightarrow> u64 \<Rightarrow> user_call" where "my_wait pid status = user_wait (ucast pid) status"

section \<open>Priorities\<close>

abbreviation TOTAL_PROCESSES :: nat where "TOTAL_PROCESSES \<equiv> 3"
abbreviation MINOR_WAIT :: u64 where "MINOR_WAIT \<equiv> 100000"
abbreviation WAIT :: nat where "WAIT \<equiv> 10000000"

datatype test_action = Say "u8 list" | Spin nat | Make user_call

text \<open>\<open>pids\<close> are the results of the three creations, \<open>name\<close>, \<open>entry\<close> and \<open>argv\<close> addresses.\<close>

definition test_prio :: "u64 \<Rightarrow> u64 \<Rightarrow> u64 \<Rightarrow> (nat \<Rightarrow> u64) \<Rightarrow> test_action list" where
  "test_prio name entry argv pids =
     (let each = (\<lambda>f. map (\<lambda>i. Make (f i)) [0..<TOTAL_PROCESSES])
      in each (\<lambda>i. my_create_process name entry MINOR_WAIT argv) @
         [Spin WAIT, Say (newline @ bytes_of ''CHANGING PRIORITIES...'' @ newline)] @
         each (\<lambda>i. my_nice (pids i) (of_nat i)) @
         [Spin WAIT, Say (newline @ bytes_of ''BLOCKING...'' @ newline)] @
         each (\<lambda>i. my_block (pids i)) @
         [Say (bytes_of ''CHANGING PRIORITIES WHILE BLOCKED...'' @ newline)] @
         each (\<lambda>i. my_nice (pids i) (pids (TOTAL_PROCESSES - 1 - i))) @
         [Say (bytes_of ''UNBLOCKING...'' @ newline)] @
         each (\<lambda>i. my_unblock (pids i)) @
         [Spin WAIT, Say (newline @ bytes_of ''KILLING...'' @ newline)] @
         each (\<lambda>i. my_kill (pids i)))"

text \<open>The second change of priorities passes process ids for priorities: the kernel refuses them.\<close>

lemma test_prio_second_change_refused:
  assumes "3 \<le> unat (ucast q :: u8)"
  shows "enter_kernel mem old r ra (my_nice p q) k = Some (Returned k (-1, No_out))"
proof -
  have w: "ucast (ucast (ucast q :: u8) :: u64) = (ucast q :: u8)"
    by (rule word_unat_eq_iff [THEN iffD2]) (simp add: unsigned_ucast_eq unsigned_take_bit_eq)
  show ?thesis using assms
    by (simp add: my_nice_def nice_def arguments_arrive syscall_dispatcher_def numbers sys_setpriority_def change_priority_def
        on_procs_def ret_def from_int_def w)
qed

section \<open>Processes\<close>

datatype p_state = P_RUNNING | P_BLOCKED | P_KILLED

record p_rq =
  pr_pid :: u32
  pr_state :: p_state

text \<open>\<open>call\<close> is what a call returns, as an \<open>int\<close>, and the state it leaves; \<open>Inl\<close> is the message of an error.\<close>

type_synonym 'k caller = "user_call \<Rightarrow> 'k \<Rightarrow> int \<times> 'k"

fun create_all :: "'k caller \<Rightarrow> user_call \<Rightarrow> nat \<Rightarrow> p_rq list \<Rightarrow> u8 \<Rightarrow> 'k \<Rightarrow> u8 list + (p_rq list \<times> u8 \<times> 'k)" where
  "create_all call create 0 rqs alive k = Inr (rqs, alive, k)"
| "create_all call create (Suc n) rqs alive k =
     (case call create k of (pid, k') \<Rightarrow>
        if pid = -1 then Inl (bytes_of ''test_processes: ERROR creating process'' @ newline)
        else create_all call create n (rqs @ [\<lparr>pr_pid = word_of_int pid, pr_state = P_RUNNING\<rparr>]) (alive + 1) k')"

text \<open>The two passes over the processes; the draws are those of \<open>GetUniform\<close>.\<close>

fun kill_or_block ::
  "(u32 \<Rightarrow> u32 \<Rightarrow> u32) \<Rightarrow> 'k caller \<Rightarrow> p_rq list \<Rightarrow> u8 \<Rightarrow> u32 \<times> u32 \<Rightarrow> 'k \<Rightarrow> u8 list + (p_rq list \<times> u8 \<times> (u32 \<times> u32) \<times> 'k)" where
  "kill_or_block scaled call [] alive z k = Inr ([], alive, z, k)"
| "kill_or_block scaled call (p # ps) alive z k =
     (let (u, z') = GetUniform scaled 100 z; rest = (\<lambda>p' alive' k'. case kill_or_block scaled call ps alive' z' k' of
            Inl e \<Rightarrow> Inl e | Inr (ps', r) \<Rightarrow> Inr (p' # ps', r))
      in if u mod 2 = 0
         then if pr_state p = P_RUNNING \<or> pr_state p = P_BLOCKED
              then (case call (my_kill (scast (pr_pid p))) k of (r, k') \<Rightarrow>
                      if r = -1 then Inl (bytes_of ''test_processes: ERROR killing process'' @ newline)
                      else rest (p\<lparr>pr_state := P_KILLED\<rparr>) (alive - 1) k')
              else rest p alive k
         else if pr_state p = P_RUNNING
              then (case call (my_block (scast (pr_pid p))) k of (r, k') \<Rightarrow>
                      if r = -1 then Inl (bytes_of ''test_processes: ERROR blocking process'' @ newline)
                      else rest (p\<lparr>pr_state := P_BLOCKED\<rparr>) alive k')
              else rest p alive k)"

fun unblock_some ::
  "(u32 \<Rightarrow> u32 \<Rightarrow> u32) \<Rightarrow> 'k caller \<Rightarrow> p_rq list \<Rightarrow> u32 \<times> u32 \<Rightarrow> 'k \<Rightarrow> u8 list + (p_rq list \<times> (u32 \<times> u32) \<times> 'k)" where
  "unblock_some scaled call [] z k = Inr ([], z, k)"
| "unblock_some scaled call (p # ps) z k =
     (let rest = (\<lambda>p' z' k'. case unblock_some scaled call ps z' k' of Inl e \<Rightarrow> Inl e | Inr (ps', r) \<Rightarrow> Inr (p' # ps', r))
      in if pr_state p \<noteq> P_BLOCKED then rest p z k
         else let (u, z') = GetUniform scaled 100 z
              in if u mod 2 = 0 then rest p z' k
                 else (case call (my_unblock (scast (pr_pid p))) k of (r, k') \<Rightarrow>
                         if r = -1 then Inl (bytes_of ''test_processes: ERROR unblocking process'' @ newline)
                         else rest (p\<lparr>pr_state := P_RUNNING\<rparr>) z' k'))"

text \<open>The loop that runs until every process has been killed.\<close>

partial_function (option) until_killed ::
  "(u32 \<Rightarrow> u32 \<Rightarrow> u32) \<Rightarrow> 'k caller \<Rightarrow> p_rq list \<Rightarrow> u8 \<Rightarrow> u32 \<times> u32 \<Rightarrow> 'k \<Rightarrow> (u8 list + (p_rq list \<times> (u32 \<times> u32) \<times> 'k)) option" where
  "until_killed scaled call ps alive z k =
     (if alive = 0 then Some (Inr (ps, z, k))
      else (case kill_or_block scaled call ps alive z k of
              Inl e \<Rightarrow> Some (Inl e)
            | Inr (ps1, alive1, z1, k1) \<Rightarrow>
                (case unblock_some scaled call ps1 z1 k1 of
                   Inl e \<Rightarrow> Some (Inl e)
                 | Inr (ps2, z2, k2) \<Rightarrow> until_killed scaled call ps2 alive1 z2 k2)))"

text \<open>One round of the endless loop, for at most 255 processes (the index has 8 bits).\<close>

definition test_processes_round where
  "test_processes_round scaled call create max_processes z k =
     (case create_all call create max_processes [] 0 k of
        Inl e \<Rightarrow> Some (Inl e)
      | Inr (ps, alive, k') \<Rightarrow> until_killed scaled call ps alive z k')"

definition test_processes where
  "test_processes m argv = (if length argv \<noteq> 1 \<or> satoi m (argv ! 0) = 0 then None else Some (satoi m (argv ! 0)))"

section \<open>The counter of the living\<close>

definition living :: "p_rq list \<Rightarrow> nat" where
  "living ps = length (filter (\<lambda>p. pr_state p \<noteq> P_KILLED) ps)"

lemma create_all_living:
  "create_all call create n rqs alive k = Inr (ps, alive', k') \<Longrightarrow> alive = of_nat (living rqs) \<Longrightarrow>
     alive' = of_nat (living ps) \<and> length ps = length rqs + n"
proof (induction n arbitrary: rqs alive k)
  case (Suc n)
  obtain pid k1 where c: "call create k = (pid, k1)" by (cases "call create k")
  have "create_all call create n (rqs @ [\<lparr>pr_pid = word_of_int pid, pr_state = P_RUNNING\<rparr>]) (alive + 1) k1 = Inr (ps, alive', k')"
    using Suc.prems(1) by (simp add: c split: if_splits)
  from Suc.IH [OF this] Suc.prems(2) show ?case by (simp add: living_def add.commute)
qed simp

lemma kill_or_block_living:
  "kill_or_block scaled call ps alive z k = Inr (ps', alive', z', k') \<Longrightarrow>
     alive' + of_nat (living ps) = alive + of_nat (living ps') \<and> length ps' = length ps"
proof (induction ps arbitrary: alive z k ps' alive' z' k')
  case (Cons p ps)
  obtain u z1 where g: "GetUniform scaled 100 z = (u, z1)" by (cases "GetUniform scaled 100 z")
  from Cons.prems obtain p1 alive1 k1 ps1 where
    r: "kill_or_block scaled call ps alive1 z1 k1 = Inr (ps1, alive', z', k')" "ps' = p1 # ps1"
    and c: "alive1 = alive \<and> (pr_state p1 = P_KILLED \<longleftrightarrow> pr_state p = P_KILLED) \<or>
      alive1 = alive - 1 \<and> pr_state p1 = P_KILLED \<and> pr_state p \<noteq> P_KILLED"
    by (cases "pr_state p") (auto simp: g Let_def split: if_splits prod.splits sum.splits)
  from Cons.IH [OF r(1)] c r(2) show ?case by (auto simp: living_def algebra_simps)
qed (simp add: living_def)

lemma unblock_living:
  "unblock_some scaled call ps z k = Inr (ps', z', k') \<Longrightarrow> living ps' = living ps \<and> length ps' = length ps"
proof (induction ps arbitrary: z k ps' z' k')
  case (Cons p ps)
  obtain u z1 where g: "GetUniform scaled 100 z = (u, z1)" by (cases "GetUniform scaled 100 z")
  from Cons.prems obtain p1 z2 k1 ps1 where
    r: "unblock_some scaled call ps z2 k1 = Inr (ps1, z', k')" "ps' = p1 # ps1"
    and c: "pr_state p1 = P_KILLED \<longleftrightarrow> pr_state p = P_KILLED"
    by (cases z; cases z1; auto simp: g Let_def split: if_splits prod.splits sum.splits; blast)
  from Cons.IH [OF r(1)] c r(2) show ?case by (auto simp: living_def)
qed (simp add: living_def)

lemma until_killed_kills:
  assumes "until_killed scaled call ps alive z k = Some (Inr (ps', z', k'))" "alive = of_nat (living ps)" "length ps \<le> 255"
  shows "living ps' = 0 \<and> length ps' = length ps"
proof -
  define P where "P (sc :: u32 \<Rightarrow> u32 \<Rightarrow> u32) (c :: 'a caller) ps (al :: u8) (z :: u32 \<times> u32) (k :: 'a) r \<longleftrightarrow>
    (\<forall>ps' z' k'. r = Inr (ps', z', k') \<longrightarrow> al = of_nat (living ps) \<longrightarrow> length ps \<le> 255 \<longrightarrow> living ps' = 0 \<and> length ps' = length ps)"
    for sc c ps al z k and r :: "u8 list + (p_rq list \<times> (u32 \<times> u32) \<times> 'a)"
  have "P scaled call ps alive z k (Inr (ps', z', k'))"
  proof (rule until_killed.raw_induct [of P, OF _ assms(1)])
    fix f sc c ps al z k and r :: "u8 list + (p_rq list \<times> (u32 \<times> u32) \<times> 'a)"
    assume IH: "\<And>sc c ps al z k r. f sc c ps al z k = Some r \<Longrightarrow> P sc c ps al z k r"
    assume body: "(if al = 0 then Some (Inr (ps, z, k))
      else (case kill_or_block sc c ps al z k of
              Inl e \<Rightarrow> Some (Inl e)
            | Inr (ps1, alive1, z1, k1) \<Rightarrow>
                (case unblock_some sc c ps1 z1 k1 of
                   Inl e \<Rightarrow> Some (Inl e)
                 | Inr (ps2, z2, k2) \<Rightarrow> f sc c ps2 alive1 z2 k2))) = Some r"
    show "P sc c ps al z k r"
      unfolding P_def
    proof (intro allI impI)
      fix ps' z' k' assume r: "r = Inr (ps', z', k')" and al: "al = of_nat (living ps)" and len: "length ps \<le> 255"
      show "living ps' = 0 \<and> length ps' = length ps"
      proof (cases "al = 0")
        case True
        have "living ps < 2 ^ 8" using len by (auto simp: living_def intro: le_less_trans [OF length_filter_le])
        then have "living ps = unat al" unfolding al by (simp add: unsigned_of_nat take_bit_nat_eq_self)
        then show ?thesis using body True r by simp
      next
        case False
        obtain ps1 al1 z1 k1 where 1: "kill_or_block sc c ps al z k = Inr (ps1, al1, z1, k1)"
          using body False r by (auto split: sum.splits)
        obtain ps2 z2 k2 where 2: "unblock_some sc c ps1 z1 k1 = Inr (ps2, z2, k2)"
          using body False r 1 by (auto split: sum.splits)
        have "f sc c ps2 al1 z2 k2 = Some r" using body False 1 2 by simp
        from IH [OF this] kill_or_block_living [OF 1] unblock_living [OF 2] al len show ?thesis
          by (auto simp: P_def r)
      qed
    qed
  qed
  then show ?thesis using assms(2,3) by (simp add: P_def)
qed

text \<open>A round of the test of processes ends only when every process it created has been killed, unless an
  error was reported.\<close>

theorem test_processes_kills_all:
  assumes "test_processes_round scaled call create n z k = Some (Inr (ps, z', k'))" "n \<le> 255"
  shows "length ps = n \<and> (\<forall>p\<in>set ps. pr_state p = P_KILLED)"
proof -
  obtain ps0 al k0 where 0: "create_all call create n [] 0 k = Inr (ps0, al, k0)"
    and u: "until_killed scaled call ps0 al z k0 = Some (Inr (ps, z', k'))"
    using assms(1) by (auto simp: test_processes_round_def split: sum.splits)
  from create_all_living [OF 0] have c: "al = of_nat (living ps0)" "length ps0 = n" by (simp_all add: living_def)
  from until_killed_kills [OF u c(1)] c(2) assms(2) show ?thesis by (auto simp: living_def filter_empty_conv)
qed

section \<open>The commands\<close>

text \<open>What a command says before and after its test, with the status of its \<open>exit\<close>; \<open>result\<close> is what
  the test returned.\<close>

definition usage :: "string list \<Rightarrow> program" where
  "usage ls = Finish (concat (map (\<lambda>l. bytes_of l @ newline) ls)) (Exits (-1))"

definition after_test :: "string \<Rightarrow> int \<Rightarrow> program" where
  "after_test msg result = (if result = -1 then Finish (bytes_of msg @ newline) (Exits (-1)) else Finish [] (Exits 0))"

definition cmd_test_processes :: "nat \<Rightarrow> int \<Rightarrow> program" where
  "cmd_test_processes argc result =
     (if argc < 2 then usage [''Usage: test_processes <max_processes>'',
        ''  max_processes: Maximum number of processes to create (positive integer)'']
      else after_test ''Error: Invalid argument for test_processes'' result)"

definition cmd_test_mm :: "nat \<Rightarrow> int \<Rightarrow> program" where
  "cmd_test_mm argc result =
     (if argc < 2 then usage [''Usage: test_mm <max_memory>'',
        ''  max_memory: Maximum memory to allocate in bytes (positive integer)'']
      else after_test ''Error: Invalid argument for test_mm'' result)"

definition cmd_test_sync :: "nat \<Rightarrow> int \<Rightarrow> program" where
  "cmd_test_sync argc result =
     (if argc < 3 then usage [''Usage: test_sync <n> <use_sem>'', ''  n: Number of iterations (positive integer)'',
        ''  use_sem: Use semaphore (0 or 1)'']
      else after_test ''Error: Invalid arguments for test_sync'' result)"

datatype test_type = T_processes | T_mm | T_prio | T_sync | T_mm_basic | T_help

definition test_names :: "(string \<times> test_type) list" where
  "test_names = [(''processes'', T_processes), (''mm'', T_mm), (''prio'', T_prio), (''sync'', T_sync),
     (''mm_basic'', T_mm_basic), (''-h'', T_help), (''--help'', T_help)]"

fun find_test :: "memory \<Rightarrow> (string \<Rightarrow> u64) \<Rightarrow> u64 \<Rightarrow> (string \<times> test_type) list \<Rightarrow> test_type option option" where
  "find_test m lit p [] = Some None"
| "find_test m lit p ((name, t) # ts) =
     (case strcmp m p (lit name) of
        None \<Rightarrow> None
      | Some r \<Rightarrow> if r = 0 then Some (Some t) else find_test m lit p ts)"

fun test_program :: "test_type \<Rightarrow> string \<times> string" where
  "test_program T_processes = (''test_processes'', ''cmd_test_processes'')"
| "test_program T_mm = (''test_mm'', ''cmd_test_mm'')"
| "test_program T_prio = (''test_prio'', ''cmd_test_prio'')"
| "test_program T_sync = (''test_sync'', ''cmd_test_sync'')"
| "test_program T_mm_basic = (''test_mm_basic'', ''cmd_test_mm_basic'')"
| "test_program T_help = (''test_help'', ''cmd_test_help'')"

text \<open>The command: a message, or the program that is started with the arguments from the second on.\<close>

definition test_command ::
  "(string \<Rightarrow> u64) \<Rightarrow> (string \<Rightarrow> u64) \<Rightarrow> memory \<Rightarrow> u64 list \<Rightarrow> u64 \<Rightarrow> u64 \<Rightarrow> (u8 list + user_call) option" where
  "test_command lit entry m args argv fds =
     (if length args < 2
      then Some (Inl (concat (map (\<lambda>l. bytes_of l @ newline)
        [''Usage: test <test_type> [args...]'', ''Available tests:'',
         ''  processes [max_processes] - Test process creation and management'',
         ''  mm [max_memory]          - Test memory manager allocation/deallocation'',
         ''  prio                     - Test priority-based scheduling'',
         ''  sync [iterations] [use_sem] [sem_id] - Test semaphore synchronization'',
         ''  mm_basic                 - Run basic memory test with default settings'',
         ''  -h, --help               - Show this help''])))
      else (case find_test m lit (args ! 1) test_names of
              None \<Rightarrow> None
            | Some None \<Rightarrow> map_option (\<lambda>t. Inl (bytes_of ''Unknown test type: '' @ t @ newline @
                bytes_of ''Use 'test -h' or 'test --help' to see available tests.'' @ newline)) (text_at m (args ! 1))
            | Some (Some t) \<Rightarrow> (case test_program t of (name, function) \<Rightarrow>
                Some (Inr (start_program lit entry name function m (tl args) (argv + 8) fds)))))"

section \<open>Busy loops\<close>

text \<open>The counter of the loop; what counts is that it ends, with \<open>n\<close>.\<close>

function bussy_wait_from :: "u64 \<Rightarrow> u64 \<Rightarrow> u64" where
  "bussy_wait_from i n = (if i < n then bussy_wait_from (i + 1) n else i)"
  by pat_completeness auto
termination
proof (relation "measure (\<lambda>(i, n). unat (n - i))")
  fix i n :: u64
  assume l: "i < n"
  have "unat i < unat n" "unat n < 2 ^ LENGTH(64)" using l by (simp_all only: word_less_nat_alt unsigned_less)
  then have s: "unat (i + 1) = unat i + 1" by (subst unat_add_lem [THEN iffD1]) simp_all
  from l s have "i + 1 \<le> n" "i \<le> n" by (simp_all add: word_le_nat_alt word_less_nat_alt)
  then show "((i + 1, n), i, n) \<in> measure (\<lambda>(i, n). unat (n - i))"
    using s l by (simp add: unat_sub word_less_nat_alt)
qed simp

declare bussy_wait_from.simps [simp del]

definition bussy_wait :: "u64 \<Rightarrow> u64" where
  "bussy_wait n = bussy_wait_from 0 n"

lemma bussy_wait_ends: "bussy_wait n = n"
proof -
  have "i \<le> n \<Longrightarrow> bussy_wait_from i n = n" for i
  proof (induction i n rule: bussy_wait_from.induct)
    case (1 i n)
    show ?case
    proof (cases "i < n")
      case True
      have "i + 1 \<le> n" using True by (simp add: inc_le)
      then show ?thesis using 1(1) [OF True] True by (subst bussy_wait_from.simps) simp
    qed (use 1(2) in \<open>subst bussy_wait_from.simps; simp\<close>)
  qed
  from this [of 0] show ?thesis by (simp add: bussy_wait_def)
qed

text \<open>What \<open>endless_loop_print\<close> has printed after \<open>n\<close> rounds.\<close>

definition endless_loop_print :: "u64 \<Rightarrow> nat \<Rightarrow> u8 list" where
  "endless_loop_print pid n = concat (replicate n (percent_d pid @ [32]))"

section \<open>More commands\<close>

definition cmd_test_prio where
  "cmd_test_prio name entry argv pids =
     ([Say (bytes_of ''Starting priority test...'' @ newline)] @ test_prio name entry argv pids @
      [Say (bytes_of ''Priority test completed.'' @ newline)], Exits 0)"

definition cmd_test_mm_basic :: "int \<Rightarrow> program" where
  "cmd_test_mm_basic result =
     (let start = bytes_of ''Running basic memory test with 1024 bytes...'' @ newline
      in if result = -1 then Finish (start @ bytes_of ''Error: Basic memory test failed'' @ newline) (Exits (-1))
         else Finish (start @ bytes_of ''Basic memory test completed successfully.'' @ newline) (Exits 0))"

definition cmd_test_help :: program where
  "cmd_test_help = Finish (concat (map (\<lambda>l. bytes_of l @ newline)
     [''Available test commands:'',
      ''  test processes <max_processes> - Test process creation and management'',
      ''  test mm <max_memory>           - Test memory manager allocation/deallocation'',
      ''  test prio                      - Test priority-based scheduling'',
      ''  test sync <n> <use_sem> <id>   - Test semaphore synchronization'',
      ''  test mm_basic                  - Run basic memory test with default settings'',
      ''  test --help or -h              - Show this help message'',
      '''', ''Examples:'',
      ''  test processes 5               - Create up to 5 test processes'',
      ''  test mm 2048                   - Test memory allocation up to 2048 bytes'',
      ''  test sync 100 1 mysem          - Test sync with 100 iterations, using semaphore 'mysem'' @ [CHR 0x27]]))
     (Exits 0)"

end
