(* ===== verification/User_Main.thy ===== *)
theory User_Main
  imports Programs
begin

text \<open>
  The user program as a whole: \<open>_start\<close> of _loader.c, \<open>main\<close> of userCodeModule.c and the loop of
  \<open>shell\<close> in shell.c around the rounds of the theory Shell. A session is described by the keys
  that are typed and by what the surroundings do in each round.
\<close>

section \<open>The shell\<close>

definition welcome_text :: "u8 list" where
  "welcome_text = bytes_of ''Welcome to GNA Shell!'' @ newline @ bytes_of ''Type 'help' for available commands.'' @ newline @
     bytes_of ''Use '|' to pipe one command to another (cmd1 | cmd2).'' @ newline @ newline"

text \<open>The handler of \<open>exit\<close> ends the process, so what follows it does not happen.\<close>

fun is_exit :: "shell_action \<Rightarrow> bool" where
  "is_exit (Call h args fds) \<longleftrightarrow> h = H_exit"
| "is_exit a \<longleftrightarrow> False"

fun up_to_exit :: "shell_action list \<Rightarrow> shell_action list" where
  "up_to_exit [] = []"
| "up_to_exit (a # as) = (if is_exit a then [a] else a # up_to_exit as)"

text \<open>
  What the surroundings do in a round: the result of \<open>open\<close>, should the line have a bar, and the
  effect of the handlers on the memory. The shell leaves by \<open>exit\<close>, waits for a key within a
  round that does not end, or has done all the rounds that are looked at.
\<close>

record surroundings =
  opened :: int
  effect :: "memory \<Rightarrow> memory"

datatype shell_end = Left_shell | Within_round | At_prompt

fun shell_loop ::
  "(nat \<Rightarrow> u64) \<Rightarrow> u64 \<Rightarrow> surroundings list \<Rightarrow> int list \<Rightarrow> memory \<Rightarrow> (shell_action list \<times> memory) list \<times> shell_end" where
  "shell_loop lit input [] cs m = ([], At_prompt)"
| "shell_loop lit input (s # ss) cs m =
     (case shell_round lit (opened s) input cs m of
        None \<Rightarrow> ([], Within_round)
      | Some (as, cs', m') \<Rightarrow>
          if list_ex is_exit as then ([(up_to_exit as, m')], Left_shell)
          else (case shell_loop lit input ss cs' (effect s m') of (rounds, e) \<Rightarrow> ((as, m') # rounds, e)))"

definition shell where
  "shell lit input ss cs m = (welcome_text, shell_loop lit input ss cs m)"

section \<open>The start of the user program\<close>

text \<open>\<open>main\<close> exits with 0 behind the shell, which the shell never reaches.\<close>

definition user_main where
  "user_main lit input ss cs m = shell lit input ss cs m"

definition user_start where
  "user_start bss endOfBinary lit input ss cs m = user_main lit input ss cs (user_memset bss 0 (endOfBinary - bss) m)"

section \<open>One line\<close>

text \<open>Nothing the shell does to its buffer touches the names of the commands.\<close>

lemma names_ok_outside:
  assumes "names_ok m lit" "names_apart p n lit" "\<And>a. n \<le> unat (a - p) \<Longrightarrow> m' a = m a"
  shows "names_ok m' lit"
  unfolding names_ok_def
proof (intro allI impI)
  fix i assume i: "i < length commands"
  have "cstring m (lit i) (bytes_of (fst (commands ! i)))" using assms(1) i by (simp add: names_ok_def)
  then show "cstring m' (lit i) (bytes_of (fst (commands ! i)))"
    by (subst cstring_cong) (use assms(2,3) i in \<open>auto simp: names_apart_def apart_from_def\<close>)
qed

lemma names_apart_inside:
  assumes "names_apart p n lit" "k + l \<le> n"
  shows "names_apart (p + of_nat k) l lit"
proof -
  have "l \<le> unat (a - (p + of_nat k))" if "n \<le> unat (a - p)" for a
  proof -
    have "unat (a - p) < 2 ^ LENGTH(64)" by (rule unsigned_less)
    then have "k < 2 ^ 64" using assms(2) that by simp
    then have k: "unat (of_nat k :: u64) = k" by (simp add: unsigned_of_nat take_bit_nat_eq_self)
    then have "of_nat k \<le> a - p" using that assms(2) by (simp add: word_le_nat_alt)
    then have "unat (a - p - of_nat k) = unat (a - p) - k" using k by (simp add: unat_sub)
    then show ?thesis using that assms(2) by (simp add: algebra_simps)
  qed
  then show ?thesis using assms(1) by (simp add: names_apart_def apart_from_def)
qed

text \<open>A line without a bar whose first word is a command.\<close>

definition runs :: "u8 list \<Rightarrow> handler \<Rightarrow> bool" where
  "runs line h \<longleftrightarrow> 124 \<notin> set line \<and> words line \<noteq> [] \<and> command_of (hd (words line)) = Some h"

lemma run_line_simple:
  assumes "cstring m p line" "length line \<le> 254" "runs line h" "names_ok m lit" "names_apart p 256 lit"
  shows "\<exists>args m'. run_line m lit fd p = Some ([Call h args None], m') \<and> list_all2 (cstring m') args (take 15 (words line)) \<and>
    (\<forall>a. 256 \<le> unat (a - p) \<longrightarrow> m' a = m a)"
proof -
  have "length line < 2 ^ 63" using assms(2) by simp
  from parse_command_words [OF assms(1) this] obtain argv m' where p:
    "parse_command p m = Some (argv, m')" "list_all2 (cstring m') argv (take 15 (words line))"
    "\<forall>a. length line \<le> unat (a - p) \<longrightarrow> m' a = m a" by blast
  have far: "\<forall>a. 256 \<le> unat (a - p) \<longrightarrow> m' a = m a" using p(3) assms(2) by auto
  have n: "names_ok m' lit" using names_ok_outside [OF assms(4,5)] far by blast
  obtain w ws where w: "words line = w # ws" "command_of w = Some h" "124 \<notin> set line"
    using assms(3) by (cases "words line") (auto simp: runs_def)
  obtain a as where a: "argv = a # as" "cstring m' a w" using p(2) w(1) by (cases argv) auto
  have s: "strchr m p 124 = Some 0" using strchr_none [OF assms(1) w(3)] by simp
  have "line \<noteq> []" using w(1) by auto
  then have "run_line m lit fd p = Some ([Call h argv None], m')"
    using s p(1) find_command_eq [OF n a(2)] w(2) a(1)
    by (simp add: run_line_def user_strlen_eq [OF assms(1)] run_simple_def)
  then show ?thesis using p(2) far by blast
qed

section \<open>A session\<close>

text \<open>Keys without an interrupt or end-of-file character that never make a line of more than 254 characters.\<close>

definition typeable :: "int list \<Rightarrow> bool" where
  "typeable cs \<longleftrightarrow> 10 \<notin> set cs \<and> -3 \<notin> set cs \<and> -4 \<notin> set cs \<and> (\<forall>n\<le>length cs. length (foldl edit [] (take n cs)) < 255)"

text \<open>A round that calls one handler with the words of the line that was typed.\<close>

definition ran :: "int list \<Rightarrow> handler \<Rightarrow> shell_action list \<times> memory \<Rightarrow> bool" where
  "ran cs h round \<longleftrightarrow> (\<exists>echoed args. fst round = [Print (bytes_of ''gna> '' @ echoed), Call h args None] \<and>
     list_all2 (cstring (snd round)) args (take 15 (words (foldl edit [] cs))))"

lemma shell_round_runs:
  assumes "typeable cs" "runs (foldl edit [] cs) h" "names_ok m lit" "names_apart b 256 lit"
  shows "\<exists>as m'. shell_round lit fd b (cs @ 10 # rest) m = Some (as, rest, m') \<and> ran cs h (as, m') \<and> names_ok m' lit"
proof -
  let ?l = "foldl edit [] cs"
  have len: "length ?l \<le> 254" using assms(1) by (auto simp: typeable_def dest!: spec [of _ "length cs"])
  from assms(1) obtain m1 out where r: "read_line b MAX_CMD_LENGTH (cs @ 10 # rest) m = Some (m1, out, rest)"
      "cstring m1 b ?l" "\<forall>a. 256 \<le> unat (a - b) \<longrightarrow> m1 a = m a"
    using read_line_edits [of cs b rest m] unfolding typeable_def by blast
  have n1: "names_ok m1 lit" using names_ok_outside [OF assms(3,4)] r(3) by blast
  from run_line_simple [OF r(2) len assms(2) n1 assms(4)] obtain args m' where x:
    "run_line m1 lit fd b = Some ([Call h args None], m')" "list_all2 (cstring m') args (take 15 (words ?l))"
    "\<forall>a. 256 \<le> unat (a - b) \<longrightarrow> m' a = m1 a" by blast
  have "names_ok m' lit" using names_ok_outside [OF n1 assms(4)] x(3) by blast
  then show ?thesis using r(1) x(1,2) by (auto simp: shell_round_def ran_def)
qed

lemma ran_is_exit: "ran cs h (as, m) \<Longrightarrow> list_ex is_exit as \<longleftrightarrow> h = H_exit"
  by (auto simp: ran_def)

lemma ran_up_to_exit: "ran cs h (as, m) \<Longrightarrow> up_to_exit as = as"
  by (auto simp: ran_def)

lemma shell_loop_runs:
  assumes "\<forall>(cs, h) \<in> set lines. typeable cs \<and> runs (foldl edit [] cs) h \<and> h \<noteq> H_exit"
    and "typeable xs" "runs (foldl edit [] xs) H_exit" "names_ok m lit" "names_apart b 256 lit"
    and "length lines < length ss" "\<forall>s\<in>set ss. \<forall>m. names_ok m lit \<longrightarrow> names_ok (effect s m) lit"
  shows "\<exists>rounds last. shell_loop lit b ss (concat (map (\<lambda>(cs, h). cs @ [10]) lines) @ xs @ 10 # rest) m = (rounds @ [last], Left_shell) \<and>
    list_all2 (\<lambda>(cs, h). ran cs h) lines rounds \<and> ran xs H_exit last"
  using assms(1,4,6,7)
proof (induction lines arbitrary: ss m)
  case Nil
  then obtain s ss' where ss: "ss = s # ss'" by (cases ss) auto
  from shell_round_runs [OF assms(2,3) Nil(2) assms(5)] obtain as m' where
    "shell_round lit (opened s) b (xs @ 10 # rest) m = Some (as, rest, m')" "ran xs H_exit (as, m')" by blast
  then show ?case by (simp add: ss ran_is_exit ran_up_to_exit)
next
  case (Cons l lines)
  obtain cs h where l: "l = (cs, h)" by (cases l)
  obtain s ss' where ss: "ss = s # ss'" using Cons.prems(3) by (cases ss) auto
  have c: "typeable cs" "runs (foldl edit [] cs) h" "h \<noteq> H_exit" using Cons.prems(1) l by auto
  let ?rest = "concat (map (\<lambda>(cs, h). cs @ [10]) lines) @ xs @ 10 # rest"
  from shell_round_runs [OF c(1,2) Cons.prems(2) assms(5)] obtain as m' where
    r: "shell_round lit (opened s) b (cs @ 10 # ?rest) m = Some (as, ?rest, m')" "ran cs h (as, m')" "names_ok m' lit" by blast
  have "\<exists>rounds last. shell_loop lit b ss' ?rest (effect s m') = (rounds @ [last], Left_shell) \<and>
      list_all2 (\<lambda>(cs, h). ran cs h) lines rounds \<and> ran xs H_exit last"
    by (rule Cons.IH) (use Cons.prems r(3) ss in auto)
  then obtain rounds last where
    "shell_loop lit b ss' ?rest (effect s m') = (rounds @ [last], Left_shell)" "list_all2 (\<lambda>(cs, h). ran cs h) lines rounds" "ran xs H_exit last"
    by blast
  then show ?case using r c(3) by (intro exI [of _ "(as, m') # rounds"] exI [of _ last]) (simp add: l ss ran_is_exit)
qed

text \<open>
  C15. A session. From \<open>_start\<close> on, keys typed line by line, each line without a bar and
  beginning with a command other than \<open>exit\<close>, then a line that begins with \<open>exit\<close>: the shell
  calls exactly the handlers of these commands, one for each line and in order, each with the
  words of the line as it was edited, and then leaves. The handlers may change the memory as
  long as the names of the commands stay.
\<close>

theorem user_session:
  assumes "\<forall>(cs, h) \<in> set lines. typeable cs \<and> runs (foldl edit [] cs) h \<and> h \<noteq> H_exit"
    and "typeable xs" "runs (foldl edit [] xs) H_exit" "length lines < length ss"
    and "names_ok m lit" "names_apart bss (unat (endOfBinary - bss)) lit" "names_apart b 256 lit"
    and "\<forall>s\<in>set ss. \<forall>m. names_ok m lit \<longrightarrow> names_ok (effect s m) lit"
  shows "\<exists>rounds last. user_start bss endOfBinary lit b ss (concat (map (\<lambda>(cs, h). cs @ [10]) lines) @ xs @ 10 # rest) m =
      (welcome_text, rounds @ [last], Left_shell) \<and>
    list_all2 (\<lambda>(cs, h). ran cs h) lines rounds \<and> ran xs H_exit last"
proof -
  have "names_ok (user_memset bss 0 (endOfBinary - bss) m) lit"
    unfolding memset_with_bytes by (rule names_ok_elsewhere [OF assms(5,6)]) simp
  from shell_loop_runs [OF assms(1-3) this assms(7,4,8)] show ?thesis
    by (simp add: user_start_def user_main_def shell_def)
qed

text \<open>Keys for \<open>ps\<close>, with a correction, and for \<open>exit\<close>, and a memory with the names of the commands.\<close>

lemma sample_session:
  "typeable [112, 120, 8, 115]" "typeable [101, 120, 105, 116]"
  "runs (foldl edit [] [112, 120, 8, 115]) H_ps" "runs (foldl edit [] [101, 120, 105, 116]) H_exit"
  "names_ok (line_memory []) names_at" "names_apart 0x2000 256 names_at"
  "names_apart 0x1000 (unat (0x1100 - 0x1000 :: u64)) names_at"
proof -
  have short: "length (foldl edit [] (take n cs)) < 255" if "length cs < 255" for n cs
    using length_foldl_edit [of "[]" "take n cs"] that by simp
  show "typeable [112, 120, 8, 115]" "typeable [101, 120, 105, 116]" by (simp_all add: typeable_def short)
  have e: "foldl edit [] [112, 120, 8, 115] = [112, 115]" "foldl edit [] [101, 120, 105, 116] = [101, 120, 105, 116]"
    by (simp_all add: edit_def IS_PRINTABLE_def)
  have "command_of [112, 115] = Some H_ps" "command_of [101, 120, 105, 116] = Some H_exit" by code_simp+
  then have r: "runs [112, 115] H_ps" "runs [101, 120, 105, 116] H_exit" by (simp_all add: runs_def words.simps)
  then show "runs (foldl edit [] [112, 120, 8, 115]) H_ps" "runs (foldl edit [] [101, 120, 105, 116]) H_exit" unfolding e by simp_all
  have n: "names_ok (line_memory []) names_at" "names_apart 0x1000 0xF000 names_at" using names_line_memory [of "[]"] by simp_all
  show "names_ok (line_memory []) names_at" by (rule n(1))
  show "names_apart 0x2000 256 names_at" using names_apart_inside [OF n(2), of "0x1000" 256] by simp
  show "names_apart 0x1000 (unat (0x1100 - 0x1000 :: u64)) names_at" using names_apart_inside [OF n(2), of 0 256] by simp
qed

lemma user_session_witness:
  "\<exists>rounds last. user_start 0x1000 0x1100 names_at 0x2000 [\<lparr>opened = 3, effect = id\<rparr>, \<lparr>opened = 3, effect = id\<rparr>]
      [112, 120, 8, 115, 10, 101, 120, 105, 116, 10] (line_memory []) = (welcome_text, rounds @ [last], Left_shell) \<and>
    list_all2 (\<lambda>(cs, h). ran cs h) [([112, 120, 8, 115], H_ps)] rounds \<and> ran [101, 120, 105, 116] H_exit last"
  using user_session [where lines = "[([112, 120, 8, 115], H_ps)]" and ss = "[\<lparr>opened = 3, effect = id\<rparr>, \<lparr>opened = 3, effect = id\<rparr>]"
    and rest = "[]", OF _ sample_session(2,4) _ sample_session(5,7,6)] sample_session(1,3)
  by simp

end
