(* ===== verification/Console.thy ===== *)
theory Console
  imports User_Main
begin

text \<open>
  From the keys to the shell: the keyboard interrupts of the theory Keyboard fill the pipe of
  standard input, and \<open>getchar\<close> of a process in the foreground reads it through the system call.
\<close>

section \<open>What the keys type\<close>

text \<open>The flags behind a scan code, and the byte that it types, if any.\<close>

definition flags_after :: "u8 \<Rightarrow> keyboard \<Rightarrow> keyboard" where
  "flags_after s b =
     \<lparr>kd_capslock = kd_capslock b \<noteq> (key_of s = CAPSLOCK \<and> \<not> released s),
      kd_shift = (if key_of s = LSHIFT \<or> key_of s = RSHIFT then \<not> released s else kd_shift b),
      kd_ctrl = (if key_of s = LCTRL then \<not> released s else kd_ctrl b),
      kd_alt = (if key_of s = LALT then \<not> released s else kd_alt b)\<rparr>"

definition types :: "u8 \<Rightarrow> bool" where
  "types s \<longleftrightarrow> \<not> released s \<and> \<not> kd_is_special_key (key_of s)"

definition letter :: "char \<Rightarrow> u8 \<Rightarrow> bool" where
  "letter c s \<longleftrightarrow> shifted_ascii ! nat (key_of s) = of_char c"

definition typed_byte :: "keyboard \<Rightarrow> u8 \<Rightarrow> u8" where
  "typed_byte b s =
     (if kd_ctrl b \<and> letter (CHR ''D'') s then word_of_int KEY_EOF
      else word_of_int ((if kd_shift b \<noteq> kd_capslock b then shifted_ascii else not_shifted_ascii) ! nat (key_of s)))"

fun typed_text :: "keyboard \<Rightarrow> u8 list \<Rightarrow> u8 list" where
  "typed_text b [] = []"
| "typed_text b (s # ss) = (if types s then [typed_byte b s] else []) @ typed_text (flags_after s b) ss"

text \<open>No press of control C.\<close>

fun no_interrupt :: "keyboard \<Rightarrow> u8 list \<Rightarrow> bool" where
  "no_interrupt b [] \<longleftrightarrow> True"
| "no_interrupt b (s # ss) \<longleftrightarrow> \<not> (types s \<and> kd_ctrl b \<and> letter (CHR ''C'') s) \<and> no_interrupt (flags_after s b) ss"

lemma handler_flags:
  assumes "kd_handler s k = Returned k' ()"
  shows "k_keyboard k' = flags_after s (k_keyboard k)"
proof -
  have l: "LSHIFT \<noteq> RSHIFT" by simp
  show ?thesis
    using kd_handler_flags [OF assms] by (simp add: flags_after_def held_def presses_def)
qed

lemma key_silent:
  assumes "pipe_ok 0 k" "\<not> types s"
  shows "\<exists>k'. kd_handler s k = Returned k' () \<and> pipe_ok 0 k' \<and> pipe_data (k_pipes k' 0) = pipe_data (k_pipes k 0)"
proof -
  have u: "pipe_ok 0 (upd_keyboard f k)" for f
    using pipe_ok_same [of "upd_keyboard f k" 0 k 0] assms(1) by (simp add: upd_keyboard_def)
  show ?thesis using assms(2) u assms(1)
    by (auto simp: types_def kd_handler_def Let_def kd_is_special_key_def)
qed

lemma key_types:
  assumes "pipe_ok 0 k" "types s" "\<not> (kd_ctrl (k_keyboard k) \<and> letter (CHR ''C'') s)"
  shows "\<exists>k'. kd_handler s k = Returned k' () \<and> pipe_ok 0 k' \<and>
    pipe_data (k_pipes k' 0) = take 511 (pipe_data (k_pipes k 0) @ [typed_byte (k_keyboard k) s])"
proof (rule ordinary_key [OF assms(1)])
  show "\<not> released s" "\<not> kd_is_special_key (key_of s)" using assms(2) by (simp_all add: types_def)
  show "key_char (key_of s) k = (typed_byte (k_keyboard k) s, k)"
    using assms(3) by (auto simp: key_char_def typed_byte_def letter_def Let_def)
qed

lemma keys_fill_pipe:
  assumes "pipe_ok 0 k" "no_interrupt (k_keyboard k) ss"
  shows "pipe_ok 0 (keys_run ss k) \<and>
    pipe_data (k_pipes (keys_run ss k) 0) = take 511 (pipe_data (k_pipes k 0) @ typed_text (k_keyboard k) ss)"
  using assms
proof (induction ss arbitrary: k)
  case Nil
  then have "pipe_len (k_pipes k 0) \<le> 511" by (auto simp: pipe_ok_def Let_def)
  then show ?case using Nil by simp
next
  case (Cons s ss)
  let ?b = "k_keyboard k"
  have "\<exists>k'. kd_handler s k = Returned k' () \<and> pipe_ok 0 k' \<and>
      pipe_data (k_pipes k' 0) = take 511 (pipe_data (k_pipes k 0) @ (if types s then [typed_byte ?b s] else []))"
  proof (cases "types s")
    case True
    then show ?thesis using key_types [OF Cons.prems(1) True] Cons.prems(2) by simp
  next
    case False
    have "pipe_len (k_pipes k 0) \<le> 511" using Cons.prems(1) by (auto simp: pipe_ok_def Let_def)
    then show ?thesis using key_silent [OF Cons.prems(1) False] False by auto
  qed
  then obtain k' where k': "kd_handler s k = Returned k' ()" "pipe_ok 0 k'"
      "pipe_data (k_pipes k' 0) = take 511 (pipe_data (k_pipes k 0) @ (if types s then [typed_byte ?b s] else []))" by blast
  have f: "k_keyboard k' = flags_after s ?b" by (rule handler_flags [OF k'(1)])
  have cut: "take 511 (take 511 xs @ ys) = take 511 (xs @ ys)" for xs ys :: "u8 list" by (simp add: min_def)
  from Cons.IH [OF k'(2)] Cons.prems(2) f
  have "pipe_ok 0 (keys_run ss k') \<and> pipe_data (k_pipes (keys_run ss k') 0) =
      take 511 (pipe_data (k_pipes k' 0) @ typed_text (flags_after s ?b) ss)" by simp
  then show ?case using k'(1) by (simp only: k'(3) cut append_assoc) (simp add: k'(1))
qed

section \<open>Reading\<close>

text \<open>What tells who reads from where.\<close>

definition reader :: "procs \<Rightarrow> nat \<times> u16 \<times> (u16 \<times> u16) \<times> u16" where
  "reader ps = (let p = process_table ps (current_process ps)
     in (current_process ps, p_pid p, (p_fd_in p, p_fd_out p), foreground_process ps))"

lemma reader_put_ready [simp]: "reader (put_ready i p ps) = reader ps"
  by (simp add: reader_def put_ready_def)

lemma reader_upd_pcb [simp]: "reader (upd_pcb i (\<lambda>p. p\<lparr>p_state := s\<rparr>) ps) = reader ps"
  by (simp add: reader_def upd_pcb_def Let_def)

lemma reader_restore_state [simp]: "reader (restore_state i ps) = reader ps"
  by (simp add: restore_state_def reader_def put_ready_def upd_pcb_def Let_def)

lemma reader_wake_up [simp]: "reader (k_procs (snd (wake_up_process pid k))) = reader (k_procs k)"
  by (simp add: wake_up_process_def is_sleeping_time_expired_def clear_sleep_def upd_procs_def Let_def split_beta
      split: option.split)

lemma reader_sem_post [simp]: "reader (k_procs (sem_post s k)) = reader (k_procs k)"
  by (simp add: sem_post_def sems_ready_def init_sem_manager_def Let_def split_beta split: option.split)

lemma reader_get_byte [simp]: "reader (k_procs (snd (get_byte fd k))) = reader (k_procs k)"
  by (simp add: get_byte_def Let_def)

lemma reader_decides:
  assumes "reader (k_procs k') = reader (k_procs k)"
  shows "current_fds k' = current_fds k" "is_foreground (k_procs k') (get_current_pid (k_procs k')) =
    is_foreground (k_procs k) (get_current_pid (k_procs k))"
  using assms by (auto simp: reader_def current_fds_def get_current_fds_def get_current_pid_def is_foreground_def Let_def)

text \<open>\<open>getchar\<close>, called by the running process: \<open>c\<close> is the address of its local variable.\<close>

definition getchar_call :: "memory \<Rightarrow> heap_state \<Rightarrow> registers \<Rightarrow> u64 \<Rightarrow> u64 \<Rightarrow> kernel \<Rightarrow> (int \<times> kernel) option" where
  "getchar_call mem old r ra c k =
     (case enter_kernel mem old r ra (getc_call 0 c) k of
        Some (Returned k' (v, Out_bytes bs)) \<Rightarrow> Some (getc v (hd bs), k')
      | _ \<Rightarrow> None)"

fun getchars :: "memory \<Rightarrow> heap_state \<Rightarrow> registers \<Rightarrow> u64 \<Rightarrow> u64 \<Rightarrow> nat \<Rightarrow> kernel \<Rightarrow> (int list \<times> kernel) option" where
  "getchars mem old r ra c 0 k = Some ([], k)"
| "getchars mem old r ra c (Suc n) k =
     (case getchar_call mem old r ra c k of
        None \<Rightarrow> None
      | Some (x, k') \<Rightarrow> map_option (\<lambda>(xs, k''). (x # xs, k'')) (getchars mem old r ra c n k'))"

lemma getchar_call_reads:
  assumes "pipe_ok 0 k" "pipe_data (k_pipes k 0) = b # bs" "c \<noteq> 0" "fst (current_fds k) = 0"
    and "is_foreground (k_procs k) (get_current_pid (k_procs k))"
  shows "\<exists>k'. getchar_call mem old r ra c k = Some (getchar b, k') \<and> pipe_ok 0 k' \<and> pipe_data (k_pipes k' 0) = bs \<and>
    reader (k_procs k') = reader (k_procs k)"
proof -
  let ?r = "pp_read_sem (k_pipes k 0)"
  let ?k = "snd (get_byte 0 (take_unit ?r k))"
  note g = get_byte_ok [OF assms(1,2)]
  have w: "sem_wait ?r k = Returned (take_unit ?r k) ()" using sem_wait_takes g by blast
  have "fst (get_byte 0 (take_unit ?r k)) = b" using g by blast
  then have "read_loop 0 (Suc 0) [] k = Returned ?k (1, [b])" using w by (simp add: split_beta)
  then have "read_pipe 0 True 1 k = Returned ?k (1, [b])"
    using pipe_ok_ready [OF assms(1)] by (simp add: read_pipe_def cannot_use_def)
  moreover have "number SYS_READ = 1" "\<not> (31 :: u64) \<le> 1" by (simp_all add: numbers word_le_nat_alt)
  ultimately have "\<exists>v. enter_kernel mem old r ra (getc_call 0 c) k = Some (Returned ?k (v, Out_bytes [b])) \<and> v = 1"
    using assms(3-5)
    by (auto simp: getc_call_def arguments_arrive syscall_dispatcher_def sys_read_def read_stop_def ret_out_def)
  then have "getchar_call mem old r ra c k = Some (getchar b, ?k)"
    by (auto simp: getchar_call_def getchar_def)
  then show ?thesis using g by (intro exI [of _ ?k]) simp
qed

lemma getchars_read:
  assumes "pipe_ok 0 k" "n \<le> length (pipe_data (k_pipes k 0))" "c \<noteq> 0" "fst (current_fds k) = 0"
    and "is_foreground (k_procs k) (get_current_pid (k_procs k))"
  shows "\<exists>k'. getchars mem old r ra c n k = Some (map getchar (take n (pipe_data (k_pipes k 0))), k') \<and>
    pipe_ok 0 k' \<and> pipe_data (k_pipes k' 0) = drop n (pipe_data (k_pipes k 0))"
  using assms
proof (induction n arbitrary: k)
  case (Suc n)
  obtain b bs where d: "pipe_data (k_pipes k 0) = b # bs" using Suc.prems(2) by (cases "pipe_data (k_pipes k 0)") auto
  from getchar_call_reads [OF Suc.prems(1) d Suc.prems(3-5)] obtain k1 where
    k1: "getchar_call mem old r ra c k = Some (getchar b, k1)" "pipe_ok 0 k1" "pipe_data (k_pipes k1 0) = bs"
      "reader (k_procs k1) = reader (k_procs k)" by blast
  from Suc.IH [of k1] k1(2,3) reader_decides [OF k1(4)] Suc.prems(2-5) d
  obtain k' where "getchars mem old r ra c n k1 = Some (map getchar (take n bs), k')" "pipe_ok 0 k'"
    "pipe_data (k_pipes k' 0) = drop n bs" by auto
  then show ?case using k1(1) d by simp
qed simp

text \<open>
  C31. Keys become input. Whatever keys are pressed and released, control C apart, the pipe of
  standard input holds what they type, cut at its 511 bytes: each character from the table that
  shift and caps lock select at that moment, and the end of file for control D. A process in the
  foreground that then reads from standard input gets from \<open>getchar\<close> these characters in order,
  without waiting, and the rest stays in the pipe.
\<close>

theorem typed_keys_read:
  assumes "pipe_ok 0 k" "pipe_data (k_pipes k 0) = []" "no_interrupt (k_keyboard k) ss"
    and "pipe_ok 0 k'" "k_pipes k' 0 = k_pipes (keys_run ss k) 0"
    and "fst (current_fds k') = 0" "is_foreground (k_procs k') (get_current_pid (k_procs k'))" "c \<noteq> 0"
    and "n \<le> length (typed_text (k_keyboard k) ss)" "n \<le> 511"
  shows "\<exists>k''. getchars mem old r ra c n k' = Some (map getchar (take n (typed_text (k_keyboard k) ss)), k'') \<and>
    pipe_data (k_pipes k'' 0) = drop n (take 511 (typed_text (k_keyboard k) ss))"
proof -
  have d: "pipe_data (k_pipes k' 0) = take 511 (typed_text (k_keyboard k) ss)"
    using keys_fill_pipe [OF assms(1,3)] assms(2,5) by simp
  then have "n \<le> length (pipe_data (k_pipes k' 0))" using assms(9,10) by simp
  then obtain k'' where "getchars mem old r ra c n k' = Some (map getchar (take n (take 511 (typed_text (k_keyboard k) ss))), k'')"
    "pipe_data (k_pipes k'' 0) = drop n (take 511 (typed_text (k_keyboard k) ss))"
    using getchars_read [OF assms(4) _ assms(8,6,7), of n mem old r ra] unfolding d by blast
  moreover have "min n 511 = n" using assms(10) by simp
  ultimately show ?thesis unfolding take_take by auto
qed


section \<open>An example\<close>

text \<open>Keys on an empty pipe, and then the process in slot 1 in the foreground.\<close>

definition typed_kernel :: "u8 list \<Rightarrow> kernel" where
  "typed_kernel ss = (keys_run ss (pipe_kernel 0))\<lparr>k_procs := static_procs\<lparr>current_process := 1,
     foreground_process := 2, process_table := (\<lambda>_. plain_pcb 2 RUNNING)\<rparr>\<rparr>"

lemma typed_kernel:
  "pipe_ok 0 (pipe_kernel 0)" "pipe_data (k_pipes (pipe_kernel 0) 0) = []"
  "k_keyboard (pipe_kernel 0) = \<lparr>kd_capslock = False, kd_shift = False, kd_ctrl = False, kd_alt = False\<rparr>"
  "no_interrupt (k_keyboard (pipe_kernel 0)) ss \<Longrightarrow> pipe_ok 0 (typed_kernel ss)"
  "k_pipes (typed_kernel ss) 0 = k_pipes (keys_run ss (pipe_kernel 0)) 0"
  "fst (current_fds (typed_kernel ss)) = 0"
  "is_foreground (k_procs (typed_kernel ss)) (get_current_pid (k_procs (typed_kernel ss)))"
proof -
  let ?k = "pipe_kernel 0"
  show k: "pipe_ok 0 ?k" and "pipe_data (k_pipes ?k 0) = []" using pipe_kernel_ok [of 0] by simp_all
  have "k_keyboard ?k = k_keyboard static_kernel" by (simp add: pipe_kernel_def)
  then show "k_keyboard ?k = \<lparr>kd_capslock = False, kd_shift = False, kd_ctrl = False, kd_alt = False\<rparr>"
    by (simp add: static_kernel_def)
  show "pipe_ok 0 (typed_kernel ss)" if "no_interrupt (k_keyboard ?k) ss"
    using pipe_ok_same [of "typed_kernel ss" 0 "keys_run ss ?k" 0] keys_fill_pipe [OF k that] by (simp add: typed_kernel_def)
  show "k_pipes (typed_kernel ss) 0 = k_pipes (keys_run ss ?k) 0" by (simp add: typed_kernel_def)
  show "fst (current_fds (typed_kernel ss)) = 0"
    "is_foreground (k_procs (typed_kernel ss)) (get_current_pid (k_procs (typed_kernel ss)))"
    by (simp_all add: typed_kernel_def current_fds_def get_current_fds_def get_current_pid_def is_foreground_def plain_pcb_def zero_pcb_def)
qed

lemmas key_eval = types_def typed_byte_def letter_def flags_after_def kd_is_special_key_def

text \<open>Shift, h, shift released, i, control, d: the word \<open>Hi\<close> and the end of file.\<close>

lemma typed_keys_read_witness:
  "\<forall>old r. \<exists>k''. getchars (\<lambda>_. 0) old r 0 0x1000 3 (typed_kernel [0x2A, 0x23, 0xAA, 0x17, 0x1D, 0x20]) = Some ([72, 105, -4], k'') \<and>
     pipe_data (k_pipes k'' 0) = []"
proof (intro allI)
  fix old r
  let ?ss = "[0x2A, 0x23, 0xAA, 0x17, 0x1D, 0x20] :: u8 list" and ?k = "pipe_kernel 0"
  have keys: "key_of 0x2A = 0x2A" "key_of 0x23 = 0x23" "key_of 0xAA = 0x2A" "key_of 0x17 = 0x17" "key_of 0x1D = 0x1D" "key_of 0x20 = 0x20"
    "\<not> released 0x2A" "\<not> released 0x23" "released 0xAA" "\<not> released 0x17" "\<not> released 0x1D" "\<not> released 0x20"
    by (simp_all add: key_of_def released_def)
  have tables: "shifted_ascii ! 0x23 = 72" "not_shifted_ascii ! 0x17 = 105" "shifted_ascii ! 0x20 = 68" "shifted_ascii ! 0x17 = 73"
    by (simp_all add: shifted_ascii_def not_shifted_ascii_def codes_def)
  have t: "typed_text (k_keyboard ?k) ?ss = [72, 105, 252]" "no_interrupt (k_keyboard ?k) ?ss"
    by (simp_all add: typed_kernel(3) key_eval keys tables)
  have g: "getchar 72 = 72" "getchar 105 = 105" by (simp_all add: getchar_def getc_def char_int_def uchar_int_def)
  show "\<exists>k''. getchars (\<lambda>_. 0) old r 0 0x1000 3 (typed_kernel ?ss) = Some ([72, 105, -4], k'') \<and> pipe_data (k_pipes k'' 0) = []"
    using typed_keys_read [OF typed_kernel(1,2) t(2) typed_kernel(4) [OF t(2)] typed_kernel(5-7), of "0x1000" 3 "\<lambda>_. 0" old r 0, unfolded t(1)] g
    by simp
qed


end
