(* ===== verification/Phylo.thy ===== *)
theory Phylo
  imports Prelude
begin

text \<open>
  The dining philosophers of Userland/UserCodeModule/programs/phylo.c: the philosophers and the
  process that manages them, interleaved. A step is what a process does from one semaphore
  operation to the next; the shared table is only touched inside the section that the global
  semaphore guards, so such a section is one step that ends before the final \<open>sem_post\<close>. A
  semaphore is its value. Processes are named by their seat. What is printed is in Phylo_Main.
\<close>

section \<open>The table\<close>

datatype philo_state = PHILO_NONE | PHILO_EATING | PHILO_HUNGRY | PHILO_THINKING

text \<open>Where a philosopher is: before the first statement, thinking, behind \<open>pick_up_forks\<close>'s
  section, before its wait, eating, behind \<open>put_down_forks\<close>'s section.\<close>

datatype philo_pc = P_none | P_start | P_think | P_leave_pick | P_await | P_eat | P_leave_put

text \<open>Where the manager is; the number is a seat, the flag says whether it starts up or quits.
  \<open>M_again\<close> is the second wait for the global semaphore in the loop of \<open>remove_philosopher\<close>.\<close>

datatype manager_pc = M_create nat bool | M_created nat bool | M_failed nat bool | M_idle
  | M_lock nat bool | M_again nat bool | M_check nat bool | M_wait nat bool | M_leave nat bool | M_done

record table =
  ph_states :: "nat \<Rightarrow> philo_state"
  ph_sems :: "nat \<Rightarrow> nat"
  ph_pc :: "nat \<Rightarrow> philo_pc"
  ph_count :: nat
  ph_global :: nat
  ph_manager :: manager_pc

abbreviation MAX_PHILOSOPHERS :: nat where "MAX_PHILOSOPHERS \<equiv> 13"
abbreviation MIN_PHILOSOPHERS :: nat where "MIN_PHILOSOPHERS \<equiv> 5"

definition RIGHT_OF :: "table \<Rightarrow> nat \<Rightarrow> nat" where
  "RIGHT_OF t x = (x + 1) mod ph_count t"

definition LEFT_OF :: "table \<Rightarrow> nat \<Rightarrow> nat" where
  "LEFT_OF t x = (x + ph_count t - 1) mod ph_count t"

definition state_display_char :: "philo_state \<Rightarrow> char" where
  "state_display_char s = (case s of PHILO_NONE \<Rightarrow> CHR ''0'' | PHILO_EATING \<Rightarrow> CHR ''E'' | _ \<Rightarrow> CHR ''.'')"

definition print_philosopher_states :: "table \<Rightarrow> string" where
  "print_philosopher_states t =
     (let seats = filter (\<lambda>i. ph_states t i \<noteq> PHILO_NONE) [0..<ph_count t]
      in concat (map (\<lambda>i. [state_display_char (ph_states t i), CHR '' '']) seats) @
         (if seats \<noteq> [] then [CHR 0x0A] else []))"

section \<open>Philosophers\<close>

text \<open>A seat may eat now: its state and its semaphore.\<close>

definition serve :: "nat \<Rightarrow> table \<Rightarrow> table" where
  "serve i t = t\<lparr>ph_states := (ph_states t)(i := PHILO_EATING), ph_sems := (ph_sems t)(i := Suc (ph_sems t i))\<rparr>"

definition set_state :: "nat \<Rightarrow> philo_state \<Rightarrow> table \<Rightarrow> table" where
  "set_state i s t = t\<lparr>ph_states := (ph_states t)(i := s)\<rparr>"

definition put_down_forks :: "nat \<Rightarrow> table \<Rightarrow> table" where
  "put_down_forks idx t =
     (let t1 = set_state idx PHILO_THINKING t;
          l = LEFT_OF t idx;
          t2 = (if ph_states t1 l = PHILO_HUNGRY \<and> ph_states t1 (LEFT_OF t l) \<noteq> PHILO_EATING then serve l t1 else t1);
          r = RIGHT_OF t idx
      in if ph_states t2 r = PHILO_HUNGRY \<and> ph_states t2 (RIGHT_OF t r) \<noteq> PHILO_EATING then serve r t2 else t2)"

definition pick_up_forks :: "nat \<Rightarrow> table \<Rightarrow> table" where
  "pick_up_forks idx t =
     (let t1 = set_state idx PHILO_HUNGRY t
      in if ph_states t1 (LEFT_OF t idx) \<noteq> PHILO_EATING \<and> ph_states t1 (RIGHT_OF t idx) \<noteq> PHILO_EATING
         then serve idx t1 else t1)"

definition goto :: "nat \<Rightarrow> philo_pc \<Rightarrow> table \<Rightarrow> table" where
  "goto i p t = t\<lparr>ph_pc := (ph_pc t)(i := p)\<rparr>"

text \<open>The wait for the global semaphore, which only goes on when its value is positive, and the post.\<close>

definition lock :: "table \<Rightarrow> table option" where
  "lock t = (if ph_global t > 0 then Some (t\<lparr>ph_global := ph_global t - 1\<rparr>) else None)"

definition unlock :: "table \<Rightarrow> table" where
  "unlock t = t\<lparr>ph_global := Suc (ph_global t)\<rparr>"

definition philosopher_process :: "nat \<Rightarrow> table \<Rightarrow> table option" where
  "philosopher_process i t =
     (case ph_pc t i of
        P_none \<Rightarrow> None
      | P_start \<Rightarrow> Some (goto i P_think (set_state i PHILO_THINKING t))
      | P_think \<Rightarrow> map_option (\<lambda>t'. goto i P_leave_pick (pick_up_forks i t')) (lock t)
      | P_leave_pick \<Rightarrow> Some (goto i P_await (unlock t))
      | P_await \<Rightarrow> if ph_sems t i > 0 then Some (goto i P_eat (t\<lparr>ph_sems := (ph_sems t)(i := ph_sems t i - 1)\<rparr>)) else None
      | P_eat \<Rightarrow> map_option (\<lambda>t'. goto i P_leave_put (put_down_forks i t')) (lock t)
      | P_leave_put \<Rightarrow> Some (goto i P_think (unlock t)))"

section \<open>The manager\<close>

definition at :: "manager_pc \<Rightarrow> table \<Rightarrow> table" where
  "at p t = t\<lparr>ph_manager := p\<rparr>"

text \<open>The descending loop of \<open>remove_all_philosophers\<close>, which looks at the states without the semaphore.\<close>

fun remove_all_philosophers :: "nat \<Rightarrow> table \<Rightarrow> manager_pc" where
  "remove_all_philosophers 0 t = M_done"
| "remove_all_philosophers (Suc i) t =
     (if ph_states t i \<noteq> PHILO_NONE then M_lock i True else remove_all_philosophers i t)"

definition create_philosopher :: "bool \<Rightarrow> nat \<Rightarrow> bool \<Rightarrow> table \<Rightarrow> table option" where
  "create_philosopher ok idx start t =
     map_option (\<lambda>t'. if ok
       then at (M_created idx start) (goto idx P_start (t'\<lparr>ph_sems := (ph_sems t')(idx := 0), ph_count := Suc (ph_count t')\<rparr>))
       else at (M_failed idx start) t') (lock t)"

text \<open>The check of \<open>remove_philosopher\<close>, and the removal when it does not hold.\<close>

definition remove_philosopher :: "nat \<Rightarrow> bool \<Rightarrow> table \<Rightarrow> table" where
  "remove_philosopher idx all t =
     (if ph_states t (LEFT_OF t idx) = PHILO_EATING \<and> ph_states t (RIGHT_OF t idx) = PHILO_EATING
      then at (M_wait idx all) (unlock t)
      else at (M_leave idx all) (goto idx P_none (set_state idx PHILO_NONE
        (t\<lparr>ph_sems := (ph_sems t)(idx := 0), ph_count := ph_count t - 1\<rparr>))))"

text \<open>\<open>ok\<close> is whether a semaphore and a process can be had, when a philosopher is created.\<close>

definition manager_process :: "bool \<Rightarrow> table \<Rightarrow> table option" where
  "manager_process ok t =
     (case ph_manager t of
        M_create i start \<Rightarrow> create_philosopher ok i start t
      | M_created i start \<Rightarrow> Some (at (if start \<and> Suc i < MIN_PHILOSOPHERS then M_create (Suc i) True else M_idle) (unlock t))
      | M_failed i start \<Rightarrow> Some (at (if start then remove_all_philosophers i t else M_idle) (unlock t))
      | M_lock i all \<Rightarrow> map_option (at (M_check i all)) (lock t)
      | M_again i all \<Rightarrow> map_option (at (M_check i all)) (lock t)
      | M_check i all \<Rightarrow> Some (remove_philosopher i all t)
      | M_wait i all \<Rightarrow>
          if ph_sems t i > 0 then Some (at (M_again i all) (t\<lparr>ph_sems := (ph_sems t)(i := ph_sems t i - 1)\<rparr>)) else None
      | M_leave i all \<Rightarrow> Some (at (if all then remove_all_philosophers i t else M_idle) (unlock t))
      | M_idle \<Rightarrow> None
      | M_done \<Rightarrow> None)"

definition command :: "char \<Rightarrow> table \<Rightarrow> manager_pc" where
  "command cmd t =
     (if cmd = CHR ''q'' then remove_all_philosophers (ph_count t) t
      else if cmd = CHR ''a'' then (if ph_count t < MAX_PHILOSOPHERS then M_create (ph_count t) False else M_idle)
      else if cmd = CHR ''r'' then (if ph_count t > MIN_PHILOSOPHERS then M_lock (ph_count t - 1) False else M_idle)
      else M_idle)"

section \<open>Runs\<close>

datatype philo_event = Philosopher nat | Manager bool | Key char

text \<open>Behind \<open>sem_close\<close> of the global semaphore the program prints a newline and exits: see \<open>phylo_program\<close>.\<close>

definition philo_step :: "philo_event \<Rightarrow> table \<Rightarrow> table option" where
  "philo_step e t =
     (if ph_manager t = M_done then None
      else case e of
        Philosopher i \<Rightarrow> philosopher_process i t
      | Manager ok \<Rightarrow> manager_process ok t
      | Key c \<Rightarrow> if ph_manager t = M_idle then Some (at (command c t) t) else None)"

definition run_philosophers :: table where
  "run_philosophers = \<lparr>ph_states = \<lambda>_. PHILO_NONE, ph_sems = \<lambda>_. 0, ph_pc = \<lambda>_. P_none, ph_count = 0, ph_global = 1,
     ph_manager = M_create 0 True\<rparr>"

fun philo_run :: "philo_event list \<Rightarrow> table \<Rightarrow> table option" where
  "philo_run [] t = Some t"
| "philo_run (e # es) t = (case philo_step e t of None \<Rightarrow> None | Some t' \<Rightarrow> philo_run es t')"

section \<open>The ring\<close>

lemma right_of: "x < ph_count t \<Longrightarrow> RIGHT_OF t x = (if Suc x = ph_count t then 0 else Suc x)"
  by (auto simp: RIGHT_OF_def)

lemma left_of: "x < ph_count t \<Longrightarrow> LEFT_OF t x = (if x = 0 then ph_count t - 1 else x - 1)"
proof (cases x)
  case (Suc y)
  moreover assume "x < ph_count t"
  ultimately have "y + ph_count t = x + ph_count t - 1" "y < ph_count t" by simp_all
  then show ?thesis using Suc by (simp add: LEFT_OF_def)
qed (simp add: LEFT_OF_def)

lemma ring [simp]:
  assumes "x < ph_count t"
  shows "RIGHT_OF t x < ph_count t" "LEFT_OF t x < ph_count t" "RIGHT_OF t (LEFT_OF t x) = x" "LEFT_OF t (RIGHT_OF t x) = x"
proof -
  show r: "RIGHT_OF t x < ph_count t" and l: "LEFT_OF t x < ph_count t"
    using assms by (auto simp: RIGHT_OF_def LEFT_OF_def intro: mod_less_divisor)
  show "RIGHT_OF t (LEFT_OF t x) = x" using right_of [OF l] left_of [OF assms] assms by (auto split: if_splits)
  show "LEFT_OF t (RIGHT_OF t x) = x" using left_of [OF r] right_of [OF assms] assms by (auto split: if_splits)
qed

lemma ring_ne:
  assumes "x < ph_count t" "2 \<le> ph_count t"
  shows "RIGHT_OF t x \<noteq> x" "LEFT_OF t x \<noteq> x"
  using assms by (auto simp: right_of left_of)

section \<open>What the operations leave alone\<close>

lemma sections_frame [simp]:
  "ph_count (serve i t) = ph_count t" "ph_pc (serve i t) = ph_pc t" "ph_global (serve i t) = ph_global t"
  "ph_manager (serve i t) = ph_manager t"
  "ph_count (set_state i s t) = ph_count t" "ph_pc (set_state i s t) = ph_pc t" "ph_global (set_state i s t) = ph_global t"
  "ph_manager (set_state i s t) = ph_manager t" "ph_sems (set_state i s t) = ph_sems t"
  "ph_states (set_state i s t) = (ph_states t)(i := s)" "ph_states (serve i t) = (ph_states t)(i := PHILO_EATING)"
  by (simp_all add: serve_def set_state_def)

lemma ring_frame [simp]:
  "RIGHT_OF (serve i t) x = RIGHT_OF t x" "LEFT_OF (serve i t) x = LEFT_OF t x"
  "RIGHT_OF (set_state i s t) x = RIGHT_OF t x" "LEFT_OF (set_state i s t) x = LEFT_OF t x"
  by (simp_all add: RIGHT_OF_def LEFT_OF_def)

lemma pick_up_frame [simp]:
  "ph_count (pick_up_forks i t) = ph_count t" "ph_pc (pick_up_forks i t) = ph_pc t" "ph_global (pick_up_forks i t) = ph_global t"
  "ph_manager (pick_up_forks i t) = ph_manager t"
  by (simp_all add: pick_up_forks_def Let_def)

lemma put_down_frame [simp]:
  "ph_count (put_down_forks i t) = ph_count t" "ph_pc (put_down_forks i t) = ph_pc t" "ph_global (put_down_forks i t) = ph_global t"
  "ph_manager (put_down_forks i t) = ph_manager t"
  by (simp_all add: put_down_forks_def Let_def)

section \<open>The invariant\<close>

text \<open>What the state and the semaphore of a seat are while its philosopher is somewhere.\<close>

fun seat_fits :: "philo_pc \<Rightarrow> philo_state \<Rightarrow> nat \<Rightarrow> bool" where
  "seat_fits P_none s n = (s = PHILO_NONE \<and> n = 0)"
| "seat_fits P_start s n = (s = PHILO_NONE \<and> n = 0)"
| "seat_fits P_think s n = (s = PHILO_THINKING \<and> n = 0)"
| "seat_fits P_leave_pick s n = (s = PHILO_HUNGRY \<and> n = 0 \<or> s = PHILO_EATING \<and> n \<le> 1)"
| "seat_fits P_await s n = (s = PHILO_HUNGRY \<and> n = 0 \<or> s = PHILO_EATING \<and> n \<le> 1)"
| "seat_fits P_eat s n = (s = PHILO_EATING \<and> n = 0)"
| "seat_fits P_leave_put s n = (s = PHILO_THINKING \<and> n = 0)"

definition seat_ok :: "table \<Rightarrow> nat \<Rightarrow> bool" where
  "seat_ok t i \<longleftrightarrow> seat_fits (ph_pc t i) (ph_states t i) (ph_sems t i)"

definition no_clash :: "table \<Rightarrow> bool" where
  "no_clash t \<longleftrightarrow> (2 \<le> ph_count t \<longrightarrow>
     (\<forall>i<ph_count t. ph_states t i = PHILO_EATING \<longrightarrow> ph_states t (RIGHT_OF t i) \<noteq> PHILO_EATING))"

text \<open>Who is inside the section of the global semaphore.\<close>

definition inside :: "table \<Rightarrow> nat option set" where
  "inside t = Some ` {i. ph_pc t i = P_leave_pick \<or> ph_pc t i = P_leave_put} \<union>
     (case ph_manager t of M_created _ _ \<Rightarrow> {None} | M_failed _ _ \<Rightarrow> {None} | M_check _ _ \<Rightarrow> {None} | M_leave _ _ \<Rightarrow> {None} | _ \<Rightarrow> {})"

definition mutex :: "table \<Rightarrow> bool" where
  "mutex t \<longleftrightarrow> ph_global t = 1 \<and> inside t = {} \<or> ph_global t = 0 \<and> (\<exists>h. inside t = {h})"

definition manager_ok :: "table \<Rightarrow> bool" where
  "manager_ok t \<longleftrightarrow>
     (case ph_manager t of
        M_create i start \<Rightarrow> i = ph_count t \<and> i < MAX_PHILOSOPHERS
      | M_created i start \<Rightarrow> Suc i = ph_count t
      | M_lock i all \<Rightarrow> Suc i = ph_count t \<and> MIN_PHILOSOPHERS \<le> i
      | M_again i all \<Rightarrow> Suc i = ph_count t \<and> MIN_PHILOSOPHERS \<le> i
      | M_check i all \<Rightarrow> Suc i = ph_count t \<and> MIN_PHILOSOPHERS \<le> i
      | M_wait i all \<Rightarrow> Suc i = ph_count t \<and> MIN_PHILOSOPHERS \<le> i
      | _ \<Rightarrow> True)"

definition quitting :: "table \<Rightarrow> bool" where
  "quitting t \<longleftrightarrow>
     (case ph_manager t of M_lock _ all \<Rightarrow> all | M_again _ all \<Rightarrow> all | M_check _ all \<Rightarrow> all | M_wait _ all \<Rightarrow> all | M_leave _ all \<Rightarrow> all
      | M_done \<Rightarrow> True | _ \<Rightarrow> False)"

definition ring_ok :: "table \<Rightarrow> bool" where
  "ring_ok t \<longleftrightarrow> (\<forall>i. ph_pc t i \<noteq> P_none \<longleftrightarrow> i < ph_count t) \<and> ph_count t \<le> MAX_PHILOSOPHERS \<and>
     no_clash t \<and> manager_ok t"

text \<open>Once the manager removes everybody, it may skip seats, and the ring is lost.\<close>

definition phylo_ok :: "table \<Rightarrow> bool" where
  "phylo_ok t \<longleftrightarrow> (\<forall>i. seat_ok t i) \<and> mutex t \<and> (quitting t \<or> ring_ok t)"

section \<open>Critical sections\<close>

lemma no_clash_left:
  assumes "no_clash t" "2 \<le> ph_count t" "i < ph_count t" "ph_states t i = PHILO_EATING"
  shows "ph_states t (LEFT_OF t i) \<noteq> PHILO_EATING"
  using assms(1,2,3,4) ring(2,3) [OF assms(3)] unfolding no_clash_def by metis

lemma no_clash_serve:
  assumes "no_clash t" "i < ph_count t" "2 \<le> ph_count t \<Longrightarrow> ph_states t (LEFT_OF t i) \<noteq> PHILO_EATING"
    and "2 \<le> ph_count t \<Longrightarrow> ph_states t (RIGHT_OF t i) \<noteq> PHILO_EATING"
  shows "no_clash (serve i t)"
  unfolding no_clash_def
proof (intro impI allI)
  fix j assume n: "2 \<le> ph_count (serve i t)" "j < ph_count (serve i t)" "ph_states (serve i t) j = PHILO_EATING"
  then have n': "2 \<le> ph_count t" "j < ph_count t" by (simp_all add: serve_def)
  have "ph_states t (RIGHT_OF t j) \<noteq> PHILO_EATING \<and> RIGHT_OF t j \<noteq> i"
  proof (cases "j = i")
    case True
    then show ?thesis using assms(4) n' ring_ne(1) [OF n'(2,1)] by simp
  next
    case False
    then have e: "ph_states t j = PHILO_EATING" using n(3) by (simp add: serve_def)
    then have "RIGHT_OF t j \<noteq> i" using assms(3) n' ring(4) [OF n'(2)] by metis
    then show ?thesis using assms(1) e n' by (simp add: no_clash_def)
  qed
  then show "ph_states (serve i t) (RIGHT_OF (serve i t) j) \<noteq> PHILO_EATING" by simp
qed

lemma no_clash_set: "no_clash t \<Longrightarrow> s \<noteq> PHILO_EATING \<Longrightarrow> no_clash (set_state i s t)"
  by (auto simp: no_clash_def)

lemma pick_up_no_clash:
  assumes "no_clash t" "i < ph_count t"
  shows "no_clash (pick_up_forks i t)"
proof -
  have "no_clash (set_state i PHILO_HUNGRY t)" by (rule no_clash_set [OF assms(1)]) simp
  then show ?thesis using assms(2) no_clash_serve [of "set_state i PHILO_HUNGRY t" i]
    by (auto simp: pick_up_forks_def Let_def)
qed

text \<open>One of the two halves of \<open>put_down_forks\<close>: a seat is served when it is hungry and the seat
  beyond it does not eat.\<close>

definition offer :: "nat \<Rightarrow> nat \<Rightarrow> table \<Rightarrow> table" where
  "offer i beyond t = (if ph_states t i = PHILO_HUNGRY \<and> ph_states t beyond \<noteq> PHILO_EATING then serve i t else t)"

lemma put_down_offers:
  "put_down_forks i t = offer (RIGHT_OF t i) (RIGHT_OF t (RIGHT_OF t i))
     (offer (LEFT_OF t i) (LEFT_OF t (LEFT_OF t i)) (set_state i PHILO_THINKING t))"
  by (simp add: put_down_forks_def offer_def Let_def)

lemma offer_frame [simp]:
  "ph_count (offer i b t) = ph_count t" "ph_pc (offer i b t) = ph_pc t"
  "RIGHT_OF (offer i b t) x = RIGHT_OF t x" "LEFT_OF (offer i b t) x = LEFT_OF t x"
  by (simp_all add: offer_def)

lemma offer_other [simp]: "j \<noteq> i \<Longrightarrow> ph_states (offer i b t) j = ph_states t j"
  by (simp add: offer_def)

lemma put_down_no_clash:
  assumes c: "no_clash t" and i: "i < ph_count t"
  shows "no_clash (put_down_forks i t)"
proof -
  let ?t1 = "set_state i PHILO_THINKING t" and ?l = "LEFT_OF t i" and ?r = "RIGHT_OF t i"
  let ?t2 = "offer ?l (LEFT_OF t ?l) ?t1"
  have 1: "no_clash ?t1" by (rule no_clash_set [OF c]) simp
  have 2: "no_clash ?t2"
    unfolding offer_def using no_clash_serve [OF 1, of ?l] i 1 by simp
  have "no_clash (serve ?r ?t2)" if h: "ph_states ?t2 (RIGHT_OF t ?r) \<noteq> PHILO_EATING"
  proof (rule no_clash_serve [OF 2])
    show "?r < ph_count ?t2" using i by simp
    show "ph_states ?t2 (RIGHT_OF ?t2 ?r) \<noteq> PHILO_EATING" using h by simp
    assume "2 \<le> ph_count ?t2"
    then have "i \<noteq> ?l" using ring_ne(2) [OF i] by simp
    then have "ph_states ?t2 i = PHILO_THINKING" by simp
    then show "ph_states ?t2 (LEFT_OF ?t2 ?r) \<noteq> PHILO_EATING" using i by simp
  qed
  then show ?thesis unfolding put_down_offers offer_def [of ?r] using 2 by simp
qed

text \<open>A section leaves every other seat consistent with where its philosopher is.\<close>

lemma seat_ok_cong:
  "ph_pc t' i = ph_pc t i \<Longrightarrow> ph_states t' i = ph_states t i \<Longrightarrow> ph_sems t' i = ph_sems t i \<Longrightarrow> seat_ok t' i = seat_ok t i"
  by (simp add: seat_ok_def)

lemma seat_ok_hungry: "seat_ok t i \<Longrightarrow> ph_states t i = PHILO_HUNGRY \<Longrightarrow> ph_sems t i = 0 \<and> ph_pc t i \<in> {P_leave_pick, P_await}"
  by (cases "ph_pc t i") (simp_all add: seat_ok_def)

lemma serve_sems [simp]: "ph_sems (serve i t) = (ph_sems t)(i := Suc (ph_sems t i))"
  by (simp add: serve_def)

lemma seat_ok_serve: "seat_ok t i \<Longrightarrow> ph_states t i = PHILO_HUNGRY \<Longrightarrow> seat_ok (serve i t) i"
  using seat_ok_hungry [of t i] by (auto simp: seat_ok_def)

lemma seat_ok_offer: "seat_ok t j \<Longrightarrow> seat_ok (offer i b t) j"
  using seat_ok_serve [of t i] seat_ok_cong [of "serve i t" j t] by (cases "j = i") (auto simp: offer_def)

lemma put_down_others: "seat_ok t j \<Longrightarrow> j \<noteq> i \<Longrightarrow> seat_ok (put_down_forks i t) j"
  unfolding put_down_offers by (intro seat_ok_offer) (simp add: seat_ok_def)

lemma offer_thinking: "ph_states t j = PHILO_THINKING \<Longrightarrow> ph_states (offer i b t) j = PHILO_THINKING \<and> ph_sems (offer i b t) j = ph_sems t j"
  by (cases "j = i") (auto simp: offer_def)

lemma put_down_self: "ph_states (put_down_forks i t) i = PHILO_THINKING \<and> ph_sems (put_down_forks i t) i = ph_sems t i"
  unfolding put_down_offers using offer_thinking [of "set_state i PHILO_THINKING t" i]
  by (metis fun_upd_same offer_thinking sections_frame(9,10))

lemma pick_up_others: "seat_ok t j \<Longrightarrow> j \<noteq> i \<Longrightarrow> seat_ok (pick_up_forks i t) j"
  by (simp add: pick_up_forks_def Let_def seat_ok_def)

lemma pick_up_self:
  "ph_sems t i = 0 \<Longrightarrow> ph_states (pick_up_forks i t) i = PHILO_HUNGRY \<and> ph_sems (pick_up_forks i t) i = 0 \<or>
     ph_states (pick_up_forks i t) i = PHILO_EATING \<and> ph_sems (pick_up_forks i t) i = 1"
  by (simp add: pick_up_forks_def Let_def)

section \<open>The global semaphore\<close>

lemma inside_goto:
  "inside (goto i p t) = (if p \<in> {P_leave_pick, P_leave_put} then insert (Some i) (inside t) else inside t - {Some i})"
  by (auto simp: inside_def goto_def split: manager_pc.splits if_splits)

lemma inside_at:
  "inside (at p t) = (case p of M_created _ _ \<Rightarrow> insert None (inside t) | M_failed _ _ \<Rightarrow> insert None (inside t)
     | M_check _ _ \<Rightarrow> insert None (inside t) | M_leave _ _ \<Rightarrow> insert None (inside t) | _ \<Rightarrow> inside t - {None})"
  by (auto simp: inside_def at_def split: manager_pc.splits)


lemma mutex_cong: "inside t' = inside t \<Longrightarrow> ph_global t' = ph_global t \<Longrightarrow> mutex t \<Longrightarrow> mutex t'"
  by (simp add: mutex_def)

lemma mutex_enter:
  "mutex t \<Longrightarrow> 0 < ph_global t \<Longrightarrow> inside t' = insert h (inside t) \<Longrightarrow> ph_global t' = ph_global t - 1 \<Longrightarrow> mutex t'"
  by (auto simp: mutex_def)

lemma mutex_leave:
  "mutex t \<Longrightarrow> h \<in> inside t \<Longrightarrow> inside t' = inside t - {h} \<Longrightarrow> ph_global t' = Suc (ph_global t) \<Longrightarrow> mutex t'"
  by (auto simp: mutex_def)

lemma manager_inside: "None \<in> inside t \<longleftrightarrow>
    (case ph_manager t of M_created _ _ \<Rightarrow> True | M_failed _ _ \<Rightarrow> True | M_check _ _ \<Rightarrow> True | M_leave _ _ \<Rightarrow> True | _ \<Rightarrow> False)"
  by (auto simp: inside_def split: manager_pc.splits)

lemma philosopher_inside: "Some i \<in> inside t \<longleftrightarrow> ph_pc t i \<in> {P_leave_pick, P_leave_put}"
  by (auto simp: inside_def split: manager_pc.splits)

lemma goto_fields [simp]:
  "ph_pc (goto i p t) = (ph_pc t)(i := p)" "ph_states (goto i p t) = ph_states t" "ph_sems (goto i p t) = ph_sems t"
  "ph_count (goto i p t) = ph_count t" "ph_global (goto i p t) = ph_global t" "ph_manager (goto i p t) = ph_manager t"
  by (simp_all add: goto_def)

lemma at_fields [simp]:
  "ph_pc (at p t) = ph_pc t" "ph_states (at p t) = ph_states t" "ph_sems (at p t) = ph_sems t"
  "ph_count (at p t) = ph_count t" "ph_global (at p t) = ph_global t" "ph_manager (at p t) = p"
  by (simp_all add: at_def)

lemma unlock_fields [simp]:
  "ph_pc (unlock t) = ph_pc t" "ph_states (unlock t) = ph_states t" "ph_sems (unlock t) = ph_sems t"
  "ph_count (unlock t) = ph_count t" "ph_global (unlock t) = Suc (ph_global t)" "ph_manager (unlock t) = ph_manager t"
  by (simp_all add: unlock_def)

lemma lock_SomeE:
  assumes "lock t = Some t'"
  obtains "0 < ph_global t" "t' = t\<lparr>ph_global := ph_global t - 1\<rparr>"
  using assms by (auto simp: lock_def split: if_splits)

lemma inside_frame [simp]:
  "inside (unlock t) = inside t" "inside (t\<lparr>ph_global := n\<rparr>) = inside t" "inside (t\<lparr>ph_sems := f\<rparr>) = inside t"
  "inside (t\<lparr>ph_count := n\<rparr>) = inside t" "inside (set_state i s t) = inside t" "inside (pick_up_forks i t) = inside t"
  "inside (put_down_forks i t) = inside t"
  by (simp_all add: inside_def)

text \<open>The seven steps of a philosopher.\<close>

lemma philosopher_seats:
  assumes ok: "\<And>j. seat_ok t j" and step: "philosopher_process i t = Some t'"
  shows "seat_ok t' j"
proof (cases "j = i")
  case True
  show ?thesis using ok [of i] step put_down_self [of i "t\<lparr>ph_global := ph_global t - 1\<rparr>"]
      pick_up_self [of "t\<lparr>ph_global := ph_global t - 1\<rparr>" i] True
    by (cases "ph_pc t i") (auto simp: philosopher_process_def seat_ok_def split: if_splits elim!: lock_SomeE)
next
  case False
  let ?t = "t\<lparr>ph_global := ph_global t - 1\<rparr>"
  have s: "seat_ok ?t j" using ok [of j] by (simp add: seat_ok_def)
  show ?thesis using ok [of j] step put_down_others [OF s False] pick_up_others [OF s False] False
    by (cases "ph_pc t i") (auto simp: philosopher_process_def seat_ok_def split: if_splits elim!: lock_SomeE)
qed

lemma philosopher_mutex:
  assumes m: "mutex t" and step: "philosopher_process i t = Some t'"
  shows "mutex t'"
proof (cases "ph_pc t i \<in> {P_think, P_eat}")
  case True
  show ?thesis
  proof (rule mutex_enter [OF m])
    show "0 < ph_global t" "inside t' = insert (Some i) (inside t)" "ph_global t' = ph_global t - 1"
      using step True by (auto simp: philosopher_process_def inside_goto elim!: lock_SomeE)
  qed
next
  case False
  show ?thesis
  proof (cases "ph_pc t i \<in> {P_leave_pick, P_leave_put}")
    case True
    show ?thesis
      by (rule mutex_leave [OF m, of "Some i"])
        (use step True in \<open>auto simp: philosopher_process_def inside_goto philosopher_inside\<close>)
  next
    case out: False
    then have "Some i \<notin> inside t" by (simp add: philosopher_inside)
    then have "inside t' = inside t" "ph_global t' = ph_global t"
      using step False out by (cases "ph_pc t i"; auto simp: philosopher_process_def inside_goto split: if_splits)+
    then show ?thesis using m by (rule mutex_cong)
  qed
qed

lemma no_clash_frame [simp]:
  "no_clash (goto i p t) = no_clash t" "no_clash (at m t) = no_clash t" "no_clash (unlock t) = no_clash t"
  "no_clash (t\<lparr>ph_global := n\<rparr>) = no_clash t" "no_clash (t\<lparr>ph_sems := f\<rparr>) = no_clash t"
  by (simp_all add: no_clash_def RIGHT_OF_def)

lemma manager_ok_cong: "ph_manager t' = ph_manager t \<Longrightarrow> ph_count t' = ph_count t \<Longrightarrow> manager_ok t' = manager_ok t"
  by (cases "ph_manager t") (simp_all add: manager_ok_def)

lemma philosopher_frame:
  assumes "philosopher_process i t = Some t'"
  shows "ph_count t' = ph_count t" "ph_manager t' = ph_manager t" "ph_pc t i \<noteq> P_none"
    "(ph_pc t' j = P_none) = (ph_pc t j = P_none)"
  using assms by (cases "ph_pc t i"; auto simp: philosopher_process_def split: if_splits elim!: lock_SomeE)+

lemma philosopher_ring:
  assumes r: "ring_ok t" and step: "philosopher_process i t = Some t'"
  shows "ring_ok t'"
proof -
  let ?t = "t\<lparr>ph_global := ph_global t - 1\<rparr>"
  have i: "i < ph_count ?t" using r philosopher_frame(3) [OF step] by (simp add: ring_ok_def)
  have c: "no_clash t" using r by (simp add: ring_ok_def)
  then have c': "no_clash ?t" by simp
  have "no_clash t'"
    using c step pick_up_no_clash [OF c' i] put_down_no_clash [OF c' i] no_clash_set [OF c, of PHILO_THINKING i]
    by (cases "ph_pc t i"; auto simp: philosopher_process_def split: if_splits elim!: lock_SomeE)
  moreover have "manager_ok t'"
    using r philosopher_frame(1,2) [OF step] by (simp add: ring_ok_def manager_ok_cong [of t' t])
  ultimately show ?thesis using r philosopher_frame(1) [OF step] philosopher_frame(4) [OF step]
    by (simp add: ring_ok_def)
qed

text \<open>The steps of the manager.\<close>

lemma removal_result: "remove_all_philosophers n t = M_done \<or> (\<exists>i<n. remove_all_philosophers n t = M_lock i True)"
  by (induction n) (auto simp: less_Suc_eq)

lemma removal_outside [simp]: "inside (at (remove_all_philosophers n t) t') = inside t' - {None}"
  using removal_result [of n t] by (auto simp: inside_at)

lemma removal_quits [simp]: "quitting (at (remove_all_philosophers n t) t')"
  using removal_result [of n t] by (auto simp: quitting_def)

lemma manager_mutex:
  assumes m: "mutex t" and step: "manager_process ok t = Some t'"
  shows "mutex t'"
proof (cases "\<exists>i f. ph_manager t = M_create i f \<or> ph_manager t = M_lock i f \<or> ph_manager t = M_again i f")
  case True
  have g: "inside t - A = inside t" if "0 < ph_global t" for A using m that by (auto simp: mutex_def)
  show ?thesis
  proof (rule mutex_enter [OF m])
    show "0 < ph_global t" "inside t' = insert None (inside t)" "ph_global t' = ph_global t - 1"
      using step True g
      by (auto simp: manager_process_def create_philosopher_def inside_at inside_goto elim!: lock_SomeE split: if_splits)
  qed
next
  case out: False
  show ?thesis
  proof (cases "None \<in> inside t")
    case False
    then obtain i all where w: "ph_manager t = M_wait i all"
      using step out by (cases "ph_manager t") (auto simp: manager_inside manager_process_def)
    have "inside t' = inside t" "ph_global t' = ph_global t"
      using step w False by (auto simp: manager_process_def inside_at split: if_splits)
    then show ?thesis using m by (rule mutex_cong)
  next
    case True
    then have one: "inside t = {None}" using m by (auto simp: mutex_def)
    let ?out = "inside t' = inside t - {None} \<and> ph_global t' = Suc (ph_global t)"
    let ?in = "inside t' = inside t \<and> ph_global t' = ph_global t"
    have "?in \<or> ?out"
    proof (cases "\<exists>i all. ph_manager t = M_check i all")
      case True
      then obtain i all where "t' = remove_philosopher i all t" using step by (auto simp: manager_process_def)
      then show ?thesis using one
        by (cases "ph_states t (LEFT_OF t i) = PHILO_EATING \<and> ph_states t (RIGHT_OF t i) = PHILO_EATING")
          (simp_all add: remove_philosopher_def inside_at inside_goto)
    next
      case False
      then have "\<exists>i f. ph_manager t = M_created i f \<or> ph_manager t = M_failed i f \<or> ph_manager t = M_leave i f"
        using True by (cases "ph_manager t") (simp_all add: manager_inside)
      then obtain p where "t' = at p (unlock t)" "p = M_idle \<or> (\<exists>i f. p = M_create i f) \<or> (\<exists>n. p = remove_all_philosophers n t)"
        using step by (fastforce simp: manager_process_def split: if_splits)
      then have "?out" by (elim disjE exE) (simp_all add: inside_at [of M_idle] inside_at [of "M_create _ _"])
      then show ?thesis ..
    qed
    then show ?thesis using mutex_leave [OF m True] mutex_cong m by metis
  qed
qed

lemma create_seats:
  assumes ok: "\<And>j. seat_ok t j" and none: "ph_pc t i = P_none" and step: "create_philosopher ok' i start t = Some t'"
  shows "seat_ok t' j"
  using ok [of j] ok [of i] none step
  by (cases "j = i") (auto simp: create_philosopher_def seat_ok_def elim!: lock_SomeE split: if_splits)

lemma manager_seats:
  assumes ok: "\<And>j. seat_ok t j" and new: "\<And>i start. ph_manager t = M_create i start \<Longrightarrow> ph_pc t i = P_none"
    and step: "manager_process ok' t = Some t'"
  shows "seat_ok t' j"
proof (cases "\<exists>i start. ph_manager t = M_create i start")
  case True
  then show ?thesis using create_seats [OF ok new] step by (auto simp: manager_process_def)
next
  case create: False
  show ?thesis
  proof (cases "\<exists>i all. ph_manager t = M_check i all")
    case True
    then show ?thesis using step ok [of j]
      by (auto simp: manager_process_def remove_philosopher_def seat_ok_def)
  next
    case False
    then show ?thesis using step ok [of j] create
    proof (cases "ph_manager t")
      case (M_wait i all)
      then have "0 < ph_sems t i" "t' = at (M_again i all) (t\<lparr>ph_sems := (ph_sems t)(i := ph_sems t i - 1)\<rparr>)"
        using step by (auto simp: manager_process_def split: if_splits)
      then show ?thesis using ok [of j] ok [of i]
        by (cases "j = i"; cases "ph_pc t i") (auto simp: seat_ok_def)
    qed (auto simp: manager_process_def seat_ok_def elim!: lock_SomeE split: if_splits)
  qed
qed

lemma manager_quits:
  "manager_process ok t = Some t' \<Longrightarrow> quitting t \<Longrightarrow> quitting t'"
proof (cases "ph_manager t")
  case (M_leave i all)
  assume "manager_process ok t = Some t'" "quitting t"
  then show ?thesis using M_leave by (auto simp: manager_process_def quitting_def [of t])
qed (auto simp: manager_process_def quitting_def remove_philosopher_def split: if_splits elim!: lock_SomeE)

text \<open>A philosopher who joins or leaves at the end of the ring makes no two neighbours eat: the new
  one does not eat, and the two that become neighbours are the ones the check looked at.\<close>

lemma join_no_clash:
  assumes c: "no_clash t" and n: "ph_states t (ph_count t) = PHILO_NONE"
  shows "no_clash (t\<lparr>ph_count := Suc (ph_count t)\<rparr>)"
  unfolding no_clash_def
proof (intro impI allI)
  let ?t = "t\<lparr>ph_count := Suc (ph_count t)\<rparr>"
  fix j assume j: "2 \<le> ph_count ?t" "j < ph_count ?t" "ph_states ?t j = PHILO_EATING"
  then have "j < ph_count t" using n by (cases "j = ph_count t") auto
  show "ph_states ?t (RIGHT_OF ?t j) \<noteq> PHILO_EATING"
  proof (cases "Suc j = ph_count t")
    case True
    then show ?thesis using n j right_of [OF j(2)] by simp
  next
    case False
    then have "2 \<le> ph_count t" "RIGHT_OF ?t j = RIGHT_OF t j"
      using \<open>j < ph_count t\<close> right_of [OF j(2)] right_of [of j t] by simp_all
    then show ?thesis using c j \<open>j < ph_count t\<close> by (simp add: no_clash_def)
  qed
qed

lemma leave_no_clash:
  assumes c: "no_clash t" and i: "Suc i = ph_count t" "2 \<le> i"
    and ends: "\<not> (ph_states t (LEFT_OF t i) = PHILO_EATING \<and> ph_states t (RIGHT_OF t i) = PHILO_EATING)"
  shows "no_clash (set_state i PHILO_NONE (t\<lparr>ph_count := i\<rparr>))"
  unfolding no_clash_def
proof (intro impI allI)
  let ?t = "set_state i PHILO_NONE (t\<lparr>ph_count := i\<rparr>)"
  fix j assume j: "2 \<le> ph_count ?t" "j < ph_count ?t" "ph_states ?t j = PHILO_EATING"
  then have j': "j < i" "ph_states t j = PHILO_EATING" by simp_all
  have e: "LEFT_OF t i = i - 1" "RIGHT_OF t i = 0" using left_of [of i t] right_of [of i t] i by auto
  show "ph_states ?t (RIGHT_OF ?t j) \<noteq> PHILO_EATING"
  proof (cases "Suc j = i")
    case True
    then have "RIGHT_OF ?t j = 0" "j = i - 1" using right_of [OF j(2)] by auto
    then show ?thesis using ends e j' i by simp
  next
    case False
    then have "RIGHT_OF ?t j = Suc j" "RIGHT_OF t j = Suc j" using right_of [OF j(2)] right_of [of j t] i j' by auto
    moreover have "j < ph_count t" "2 \<le> ph_count t" using i j' by simp_all
    ultimately show ?thesis using c j' False by (auto simp: no_clash_def)
  qed
qed

lemma no_clash_same: "no_clash t \<Longrightarrow> ph_states t' = ph_states t \<Longrightarrow> ph_count t' = ph_count t \<Longrightarrow> no_clash t'"
  by (simp add: no_clash_def RIGHT_OF_def)

lemma ring_okD:
  assumes "ring_ok t"
  shows "no_clash t" "manager_ok t" "ph_count t \<le> MAX_PHILOSOPHERS" "(ph_pc t i = P_none) = (ph_count t \<le> i)"
  using assms by (simp_all add: ring_ok_def not_less [symmetric]) blast

lemma ring_okI:
  assumes "no_clash t" "manager_ok t" "ph_count t \<le> MAX_PHILOSOPHERS" "\<And>i. (ph_pc t i = P_none) = (ph_count t \<le> i)"
  shows "ring_ok t"
  using assms by (simp add: ring_ok_def not_le)

lemma create_ring:
  assumes r: "ring_ok t" and s: "seat_ok t i" and i: "i = ph_count t" "i < MAX_PHILOSOPHERS"
    and step: "create_philosopher ok i start t = Some t'"
  shows "ring_ok t'"
proof -
  have "ph_pc t i = P_none" using ring_okD(4) [OF r] i by simp
  then have n: "ph_states t (ph_count t) = PHILO_NONE" using s i by (simp add: seat_ok_def)
  have c: "no_clash (t\<lparr>ph_count := Suc (ph_count t)\<rparr>)" by (rule join_no_clash [OF ring_okD(1) [OF r] n])
  obtain "0 < ph_global t" and t': "t' = (if ok
       then at (M_created i start) (goto i P_start (t\<lparr>ph_global := ph_global t - 1, ph_sems := (ph_sems t)(i := 0),
              ph_count := Suc (ph_count t)\<rparr>))
       else at (M_failed i start) (t\<lparr>ph_global := ph_global t - 1\<rparr>))"
    using step by (auto simp: create_philosopher_def elim!: lock_SomeE)
  show ?thesis
  proof (cases ok)
    case True
    then have "no_clash t'" using t' by (auto intro: no_clash_same [OF c])
    then show ?thesis 
    proof (rule ring_okI)
      fix j show "(ph_pc t' j = P_none) = (ph_count t' \<le> j)"
        using ring_okD(4) [OF r, of j] i(1) by (cases "j = i") (simp_all add: t' True, arith)
    qed (use i t' True in \<open>simp_all add: manager_ok_def\<close>)
  next
    case False
    then have "no_clash t'" using t' by (auto intro: no_clash_same [OF ring_okD(1) [OF r]])
    then show ?thesis using ring_okD(3,4) [OF r] False by (intro ring_okI) (simp_all add: manager_ok_def t')
  qed
qed

lemma remove_ring:
  assumes r: "ring_ok t" and m: "ph_manager t = M_check i False"
  shows "ring_ok (remove_philosopher i False t)"
proof (cases "ph_states t (LEFT_OF t i) = PHILO_EATING \<and> ph_states t (RIGHT_OF t i) = PHILO_EATING")
  case True
  then show ?thesis using ring_okD [OF r] m by (intro ring_okI) (simp_all add: remove_philosopher_def manager_ok_def)
next
  case False
  have i: "Suc i = ph_count t" "2 \<le> i" using ring_okD(2) [OF r] m by (simp_all add: manager_ok_def)
  have c: "no_clash (set_state i PHILO_NONE (t\<lparr>ph_count := i\<rparr>))"
    by (rule leave_no_clash [OF ring_okD(1) [OF r] i False])
  have t': "remove_philosopher i False t = at (M_leave i False) (goto i P_none (set_state i PHILO_NONE
        (t\<lparr>ph_sems := (ph_sems t)(i := 0), ph_count := ph_count t - 1\<rparr>)))"
    using False by (auto simp: remove_philosopher_def)
  have "no_clash (remove_philosopher i False t)"
    by (rule no_clash_same [OF c]) (use t' i(1) in simp_all)
  then show ?thesis
  proof (rule ring_okI)
    fix j show "(ph_pc (remove_philosopher i False t) j = P_none) = (ph_count (remove_philosopher i False t) \<le> j)"
      using ring_okD(4) [OF r, of j] i(1) by (cases "j = i") (simp_all add: t', arith)
  qed (use ring_okD(3) [OF r] in \<open>simp_all add: manager_ok_def t'\<close>)
qed

lemma manager_ring:
  assumes r: "ring_ok t" and s: "\<And>i. seat_ok t i" and q: "\<not> quitting t" and step: "manager_process ok t = Some t'"
  shows "quitting t' \<or> ring_ok t'"
proof (cases "ph_manager t")
  case (M_create i start)
  then show ?thesis using create_ring [OF r s] step ring_okD(2) [OF r] by (simp add: manager_process_def manager_ok_def)
next
  case (M_check i all)
  then show ?thesis using remove_ring [OF r] step q by (cases all) (simp_all add: manager_process_def quitting_def)
next
  case (M_failed i start)
  then have "quitting t' \<or> t' = at M_idle (unlock t)" using step by (auto simp: manager_process_def)
  then show ?thesis using ring_okD [OF r] by (auto intro!: ring_okI simp: manager_ok_def)
next
  case (M_leave i all)
  then have "quitting t' \<or> t' = at M_idle (unlock t)" using step by (auto simp: manager_process_def)
  then show ?thesis using ring_okD [OF r] by (auto intro!: ring_okI simp: manager_ok_def)
next
  case (M_created i start)
  then have "t' = at (if start \<and> Suc i < MIN_PHILOSOPHERS then M_create (Suc i) True else M_idle) (unlock t)"
    using step by (simp add: manager_process_def)
  then show ?thesis using ring_okD [OF r] M_created by (intro disjI2 ring_okI) (simp_all add: manager_ok_def)
next
  case (M_lock i all)
  then have "t' = at (M_check i all) (t\<lparr>ph_global := ph_global t - 1\<rparr>)"
    using step by (auto simp: manager_process_def elim!: lock_SomeE)
  then show ?thesis using ring_okD [OF r] M_lock by (intro disjI2 ring_okI) (simp_all add: manager_ok_def)
next
  case (M_again i all)
  then have "t' = at (M_check i all) (t\<lparr>ph_global := ph_global t - 1\<rparr>)"
    using step by (auto simp: manager_process_def elim!: lock_SomeE)
  then show ?thesis using ring_okD [OF r] M_again by (intro disjI2 ring_okI) (simp_all add: manager_ok_def)
next
  case (M_wait i all)
  then have "t' = at (M_again i all) (t\<lparr>ph_sems := (ph_sems t)(i := ph_sems t i - 1)\<rparr>)"
    using step by (simp add: manager_process_def split: if_splits)
  then show ?thesis using ring_okD [OF r] M_wait by (intro disjI2 ring_okI) (simp_all add: manager_ok_def)
qed (use step in \<open>simp_all add: manager_process_def\<close>)

text \<open>Every event keeps the invariant.\<close>

lemma phylo_ok_step:
  assumes ok: "phylo_ok t" and step: "philo_step e t = Some t'"
  shows "phylo_ok t'"
proof -
  have s: "\<And>i. seat_ok t i" and m: "mutex t" and q: "quitting t \<or> ring_ok t" using ok by (simp_all add: phylo_ok_def)
  show ?thesis
  proof (cases e)
    case (Philosopher i)
    then have p: "philosopher_process i t = Some t'" using step by (simp add: philo_step_def split: if_splits)
    then have "quitting t' = quitting t" using philosopher_frame(2) [OF p] by (simp add: quitting_def)
    then show ?thesis using philosopher_seats [OF s p] philosopher_mutex [OF m p] philosopher_ring [OF _ p] q
      by (auto simp: phylo_ok_def)
  next
    case (Manager good)
    then have p: "manager_process good t = Some t'" using step by (simp add: philo_step_def split: if_splits)
    have "ph_pc t i = P_none" if "ph_manager t = M_create i start" for i start
      using q that by (auto simp: quitting_def ring_ok_def manager_ok_def)
    from manager_seats [OF s this p] show ?thesis
      using manager_mutex [OF m p] manager_ring [OF _ s _ p] manager_quits [OF p] q by (auto simp: phylo_ok_def)
  next
    case (Key c)
    then have idle: "ph_manager t = M_idle" and t': "t' = at (command c t) t"
      using step by (auto simp: philo_step_def split: if_splits)
    have r: "ring_ok t" using q idle by (simp add: quitting_def)
    have "None \<notin> inside t" using idle by (simp add: manager_inside)
    then have i: "inside t' = inside t" using t' by (auto simp: command_def inside_at [of M_idle] inside_at [of "M_create _ _"] inside_at [of "M_lock _ _"])
    have "mutex t'" by (rule mutex_cong [OF i _ m]) (simp add: t')
    moreover have "quitting t' \<or> ring_ok t'"
    proof (cases "c = CHR ''q''")
      case False
      then show ?thesis using ring_okD [OF r] t' by (intro disjI2 ring_okI) (auto simp: command_def manager_ok_def)
    qed (simp add: t' command_def)
    ultimately show ?thesis using s t' by (simp add: phylo_ok_def seat_ok_def)
  qed
qed

lemma phylo_ok_start: "phylo_ok run_philosophers"
  by (simp add: phylo_ok_def run_philosophers_def seat_ok_def mutex_def inside_def ring_ok_def no_clash_def manager_ok_def)

lemma philo_run_invariant:
  assumes "philo_run es t = Some t'" "I t" "\<And>e t t'. I t \<Longrightarrow> philo_step e t = Some t' \<Longrightarrow> I t'"
  shows "I t'"
  using assms(1,2) by (induction es t rule: philo_run.induct) (auto split: option.splits intro: assms(3))

lemma phylo_ok_reached: "philo_run es run_philosophers = Some t \<Longrightarrow> phylo_ok t"
  by (rule philo_run_invariant [where I = phylo_ok, OF _ phylo_ok_start phylo_ok_step])

section \<open>Nobody is forgotten while the ring stays\<close>

definition served :: "table \<Rightarrow> nat \<Rightarrow> bool" where
  "served t j \<longleftrightarrow> (ph_states t j = PHILO_HUNGRY \<longrightarrow>
     ph_states t (LEFT_OF t j) = PHILO_EATING \<or> ph_states t (RIGHT_OF t j) = PHILO_EATING)"

lemma ring_field_frame [simp]:
  "LEFT_OF (goto i p t) x = LEFT_OF t x" "RIGHT_OF (goto i p t) x = RIGHT_OF t x"
  "LEFT_OF (unlock t) x = LEFT_OF t x" "RIGHT_OF (unlock t) x = RIGHT_OF t x"
  "LEFT_OF (t\<lparr>ph_global := n\<rparr>) x = LEFT_OF t x" "RIGHT_OF (t\<lparr>ph_global := n\<rparr>) x = RIGHT_OF t x"
  "LEFT_OF (t\<lparr>ph_sems := f\<rparr>) x = LEFT_OF t x" "RIGHT_OF (t\<lparr>ph_sems := f\<rparr>) x = RIGHT_OF t x"
  by (simp_all add: LEFT_OF_def RIGHT_OF_def)

lemma served_frame [simp]:
  "served (goto i p t) j = served t j" "served (unlock t) j = served t j"
  "served (t\<lparr>ph_global := n\<rparr>) j = served t j" "served (t\<lparr>ph_sems := f\<rparr>) j = served t j"
  by (simp_all add: served_def)

lemma served_serve: "served t j \<Longrightarrow> served (serve i t) j" by (simp add: served_def)

lemma served_offer: "served t j \<Longrightarrow> served (offer i b t) j" by (simp add: offer_def served_serve)

lemma offer_served: "b = LEFT_OF t i \<or> b = RIGHT_OF t i \<Longrightarrow> served (offer i b t) i"
  by (auto simp: offer_def served_def)

lemma pick_up_served:
  assumes "served t j" "ph_states t i \<noteq> PHILO_EATING"
  shows "served (pick_up_forks i t) j"
proof -
  have "served (set_state i PHILO_HUNGRY t) j \<or>
      j = i \<and> ph_states t (LEFT_OF t i) \<noteq> PHILO_EATING \<and> ph_states t (RIGHT_OF t i) \<noteq> PHILO_EATING"
    using assms by (auto simp: served_def)
  then show ?thesis
    using served_serve [of "set_state i PHILO_HUNGRY t" j i] by (auto simp: pick_up_forks_def Let_def served_def)
qed

lemma put_down_served:
  assumes s: "\<And>j. j < ph_count t \<Longrightarrow> served t j" and i: "i < ph_count t" and j: "j < ph_count t"
  shows "served (put_down_forks i t) j"
proof -
  let ?t1 = "set_state i PHILO_THINKING t" and ?l = "LEFT_OF t i" and ?r = "RIGHT_OF t i"
  let ?t2 = "offer ?l (LEFT_OF t ?l) ?t1"
  consider "j = ?l" | "j = ?r" | "j \<noteq> ?l" "j \<noteq> ?r" by blast
  then show ?thesis
  proof cases
    case 1
    have "served ?t2 ?l" by (rule offer_served) simp
    then show ?thesis unfolding put_down_offers 1 by (rule served_offer)
  next
    case 2
    show ?thesis unfolding put_down_offers 2 by (rule offer_served) simp
  next
    case 3
    then have "LEFT_OF t j \<noteq> i" "RIGHT_OF t j \<noteq> i" using ring(3,4) [OF j] by auto
    then have "served ?t1 j" using s [OF j] by (simp add: served_def)
    then show ?thesis unfolding put_down_offers by (intro served_offer)
  qed
qed

lemma philosopher_served:
  assumes s: "\<And>j. j < ph_count t \<Longrightarrow> served t j" and r: "ring_ok t" and ok: "seat_ok t i"
    and step: "philosopher_process i t = Some t'" and j: "j < ph_count t"
  shows "served t' j"
proof -
  let ?t = "t\<lparr>ph_global := ph_global t - 1\<rparr>"
  have i: "i < ph_count t" using ring_okD(4) [OF r, of i] philosopher_frame(3) [OF step] by simp
  show ?thesis
  proof (cases "ph_pc t i")
    case P_start
    then have "ph_states t i = PHILO_NONE" using ok by (simp add: seat_ok_def)
    then have "served (set_state i PHILO_THINKING t) j" using s [OF j] by (auto simp: served_def)
    then show ?thesis using step P_start by (auto simp: philosopher_process_def)
  next
    case P_think
    then have "ph_states ?t i \<noteq> PHILO_EATING" using ok by (simp add: seat_ok_def)
    from pick_up_served [OF _ this, of j] show ?thesis
      using s [OF j] step P_think by (auto simp: philosopher_process_def elim!: lock_SomeE)
  next
    case P_eat
    show ?thesis using put_down_served [of ?t i j] s i j step P_eat by (auto simp: philosopher_process_def elim!: lock_SomeE)
  qed (use s [OF j] step in \<open>auto simp: philosopher_process_def split: if_splits\<close>)
qed

lemma philosophers_served:
  assumes "philo_run (map Philosopher xs) t = Some t'" "ring_ok t" "\<And>i. seat_ok t i" "\<And>j. j < ph_count t \<Longrightarrow> served t j"
  shows "ph_count t' = ph_count t \<and> (\<forall>j<ph_count t. served t' j)"
  using assms
proof (induction xs arbitrary: t)
  case (Cons i xs)
  from Cons.prems(1) obtain u where u: "philosopher_process i t = Some u" "philo_run (map Philosopher xs) u = Some t'"
    by (auto simp: philo_step_def split: option.splits if_splits)
  have "ph_count t' = ph_count u \<and> (\<forall>j<ph_count u. served t' j)"
  proof (rule Cons.IH [OF u(2) philosopher_ring [OF Cons.prems(2) u(1)]])
    show "seat_ok u j" for j by (rule philosopher_seats [OF Cons.prems(3) u(1)])
    show "served u j" if "j < ph_count u" for j
      using philosopher_served [OF Cons.prems(4,2,3) u(1)] that philosopher_frame(1) [OF u(1)] by simp
  qed
  then show ?case using philosopher_frame(1) [OF u(1)] by simp
qed simp

section \<open>Quitting\<close>

text \<open>The last philosopher, and the manager who waits for its semaphore: it is posted when the
  philosopher begins to eat, so the manager finds it eating again.\<close>

definition stuck :: "table \<Rightarrow> bool" where
  "stuck t \<longleftrightarrow> ph_count t = 1 \<and> seat_ok t 0 \<and> mutex t \<and> (\<forall>i>0. ph_pc t i = P_none) \<and>
     (ph_manager t = M_wait 0 True \<or>
      ph_manager t = M_check 0 True \<and> ph_states t 0 = PHILO_EATING \<or>
      ph_manager t = M_again 0 True \<and> ph_states t 0 = PHILO_EATING \<and> ph_sems t 0 = 0 \<and> ph_pc t 0 \<in> {P_leave_pick, P_await})"

lemma one_seat: "ph_count t = 1 \<Longrightarrow> LEFT_OF t 0 = 0" "ph_count t = 1 \<Longrightarrow> RIGHT_OF t 0 = 0"
  by (simp_all add: LEFT_OF_def RIGHT_OF_def)

lemma stuck_philosopher:
  assumes s: "stuck t" and step: "philosopher_process i t = Some t'"
  shows "stuck t'"
proof -
  have i: "i = 0" using s philosopher_frame(3) [OF step] by (auto simp: stuck_def)
  have c: "ph_count t = 1" and ok: "seat_ok t 0" and m: "mutex t" using s by (simp_all add: stuck_def)
  have "seat_ok t' 0"
  proof -
    let ?u = "t\<lparr>ph_global := ph_global t - 1\<rparr>"
    show ?thesis using ok step put_down_self [of 0 ?u] pick_up_self [of ?u 0] i
      by (cases "ph_pc t i") (auto simp: philosopher_process_def seat_ok_def split: if_splits elim!: lock_SomeE)
  qed
  moreover have "\<forall>i>0. ph_pc t' i = P_none" using s philosopher_frame(4) [OF step] by (simp add: stuck_def)
  moreover have "ph_states t' 0 = PHILO_EATING" if "ph_manager t = M_check 0 True" "ph_states t 0 = PHILO_EATING"
  proof -
    have "None \<in> inside t" using that by (simp add: manager_inside)
    then have "ph_global t = 0" using m by (auto simp: mutex_def)
    then show ?thesis using step that ok i
      by (cases "ph_pc t 0") (auto simp: philosopher_process_def lock_def seat_ok_def split: if_splits)
  qed
  moreover have "ph_states t' 0 = PHILO_EATING \<and> ph_sems t' 0 = 0 \<and> ph_pc t' 0 \<in> {P_leave_pick, P_await}"
    if "ph_states t 0 = PHILO_EATING" "ph_sems t 0 = 0" "ph_pc t 0 \<in> {P_leave_pick, P_await}"
    using step that i by (auto simp: philosopher_process_def)
  ultimately show ?thesis using s c philosopher_frame(1,2) [OF step] philosopher_mutex [OF m step]
    unfolding stuck_def by metis
qed

lemma stuck_manager:
  assumes s: "stuck t" and step: "manager_process ok t = Some t'"
  shows "stuck t'"
proof -
  have c: "ph_count t = 1" and seat: "seat_ok t 0" and m: "mutex t" and others: "\<forall>i>0. ph_pc t i = P_none"
    using s by (simp_all add: stuck_def)
  have m': "mutex t'" by (rule manager_mutex [OF m step])
  from s consider "ph_manager t = M_wait 0 True" | "ph_manager t = M_check 0 True" "ph_states t 0 = PHILO_EATING"
    | "ph_manager t = M_again 0 True" "ph_states t 0 = PHILO_EATING" by (auto simp: stuck_def)
  then show ?thesis
  proof cases
    case 1
    then have t': "0 < ph_sems t 0" "t' = at (M_again 0 True) (t\<lparr>ph_sems := (ph_sems t)(0 := ph_sems t 0 - 1)\<rparr>)"
      using step by (auto simp: manager_process_def split: if_splits)
    then show ?thesis using seat c others m' by (cases "ph_pc t 0") (auto simp: stuck_def seat_ok_def)
  next
    case 2
    then have "t' = at (M_wait 0 True) (unlock t)"
      using step by (simp add: manager_process_def remove_philosopher_def one_seat [OF c])
    then show ?thesis using seat c others m' by (simp add: stuck_def seat_ok_def)
  next
    case 3
    then have "t' = at (M_check 0 True) (t\<lparr>ph_global := ph_global t - 1\<rparr>)"
      using step by (auto simp: manager_process_def elim!: lock_SomeE)
    then show ?thesis using seat c others m' 3 by (simp add: stuck_def seat_ok_def)
  qed
qed

lemma stuck_step: "stuck t \<Longrightarrow> philo_step e t = Some t' \<Longrightarrow> stuck t'"
proof (cases e)
  case (Key c)
  assume "stuck t" "philo_step e t = Some t'"
  then show ?thesis using Key by (auto simp: philo_step_def stuck_def split: if_splits)
next
  case (Philosopher i)
  assume s: "stuck t" and "philo_step e t = Some t'"
  then have "philosopher_process i t = Some t'" using Philosopher by (simp add: philo_step_def split: if_splits)
  then show ?thesis by (rule stuck_philosopher [OF s])
next
  case (Manager ok)
  assume s: "stuck t" and "philo_step e t = Some t'"
  then have "manager_process ok t = Some t'" using Manager by (simp add: philo_step_def split: if_splits)
  then show ?thesis by (rule stuck_manager [OF s])
qed

lemma remove_all_done: "remove_all_philosophers n t = M_done \<longleftrightarrow> (\<forall>i<n. ph_states t i = PHILO_NONE)"
  by (induction n) (auto simp: less_Suc_eq)

text \<open>Philosophers who were created but did not yet run are not removed.\<close>

lemma quit_leaves_new_philosophers:
  assumes "ph_manager t = M_idle" "\<And>i. seat_ok t i" "\<forall>i<ph_count t. ph_pc t i = P_start"
  shows "philo_step (Key (CHR ''q'')) t = Some (at M_done t)"
proof -
  have "\<forall>i<ph_count t. ph_states t i = PHILO_NONE"
  proof (intro allI impI)
    fix i assume "i < ph_count t"
    then show "ph_states t i = PHILO_NONE" using assms(2) [of i] assms(3) by (simp add: seat_ok_def)
  qed
  then show ?thesis using assms(1) by (simp add: philo_step_def command_def remove_all_done)
qed

section \<open>Properties\<close>

text \<open>C22. However the philosophers and the manager are interleaved, and whatever keys are pressed, as
  long as the manager does not quit: no two neighbours eat, who is past the wait of
  \<open>pick_up_forks\<close> is recorded as eating, at most one process is inside the section of the global
  semaphore, and the table never has more than 13 seats.\<close>

theorem phylo_neighbours_never_eat:
  assumes "philo_run es run_philosophers = Some t" "\<not> quitting t"
  shows "(\<forall>i<ph_count t. 2 \<le> ph_count t \<longrightarrow> ph_states t i = PHILO_EATING \<longrightarrow> ph_states t (RIGHT_OF t i) \<noteq> PHILO_EATING) \<and>
    (\<forall>i. ph_pc t i = P_eat \<longrightarrow> ph_states t i = PHILO_EATING \<and> i < ph_count t) \<and>
    (ph_global t = 1 \<and> inside t = {} \<or> ph_global t = 0 \<and> (\<exists>h. inside t = {h})) \<and>
    ph_count t \<le> MAX_PHILOSOPHERS"
proof -
  have ok: "phylo_ok t" by (rule phylo_ok_reached [OF assms(1)])
  then have r: "ring_ok t" and m: "mutex t" and s: "\<And>i. seat_ok t i" using assms(2) by (simp_all add: phylo_ok_def)
  have "ph_states t i = PHILO_EATING \<and> i < ph_count t" if "ph_pc t i = P_eat" for i
    using s [of i] ring_okD(4) [OF r, of i] that by (simp add: seat_ok_def)
  then show ?thesis using ring_okD(1,3) [OF r] m by (auto simp: no_clash_def mutex_def)
qed


text \<open>C24. Well-formedness of the table in every run, also while the manager removes the philosophers: what
  a seat's state and semaphore are is determined by where its philosopher is, and no seat's
  semaphore ever exceeds one.\<close>

theorem phylo_seats_fit:
  assumes "philo_run es run_philosophers = Some t"
  shows "seat_fits (ph_pc t i) (ph_states t i) (ph_sems t i) \<and> ph_sems t i \<le> 1 \<and> ph_global t \<le> 1"
proof -
  have "seat_ok t i" "mutex t" using phylo_ok_reached [OF assms] by (simp_all add: phylo_ok_def)
  then show ?thesis by (cases "ph_pc t i") (auto simp: seat_ok_def mutex_def)
qed

text \<open>C25. Quitting can hang: when only one philosopher is left and eats while the manager checks its
  neighbours (the seat is its own neighbour), the manager never finishes, however the run goes on.\<close>

theorem phylo_quit_hangs:
  assumes "philo_run es run_philosophers = Some t" "ph_manager t = M_check 0 True" "ph_count t = 1"
    and "ph_states t 0 = PHILO_EATING" "\<forall>i>0. ph_pc t i = P_none" "philo_run es' t = Some t'"
  shows "ph_manager t' \<noteq> M_done"
proof -
  have "phylo_ok t" by (rule phylo_ok_reached [OF assms(1)])
  then have "stuck t" using assms(2-5) by (simp add: stuck_def phylo_ok_def)
  then have "stuck t'" by (rule philo_run_invariant [where I = stuck, OF assms(6) _ stuck_step])
  then show ?thesis by (auto simp: stuck_def)
qed

section \<open>Witnesses\<close>

text \<open>The start-up of the five first philosophers, and the removal of all but one.\<close>

definition start_up :: "philo_event list" where
  "start_up = replicate 10 (Manager True) @ map Philosopher [0..<5]"

definition last_one_eats :: "philo_event list" where
  "last_one_eats = start_up @ Key (CHR ''q'') # replicate 12 (Manager True) @ [Philosopher 0, Philosopher 0, Manager True]"

definition first_eats :: "nat list" where "first_eats = [0, 0, 0]"

lemma no_seat_beyond:
  assumes "philo_run es run_philosophers = Some t" "MAX_PHILOSOPHERS \<le> i"
  shows "ph_pc t i = P_none"
proof -
  have "phylo_ok t \<and> ph_pc t i = P_none"
  proof (rule philo_run_invariant [where I = "\<lambda>t. phylo_ok t \<and> ph_pc t i = P_none", OF assms(1)])
    show "phylo_ok run_philosophers \<and> ph_pc run_philosophers i = P_none"
      using phylo_ok_start by (simp add: run_philosophers_def)
    fix e t t' assume t: "phylo_ok t \<and> ph_pc t i = P_none" and step: "philo_step e t = Some t'"
    have new: "j < MAX_PHILOSOPHERS" if "ph_manager t = M_create j start" for j start
      using t that by (auto simp: phylo_ok_def quitting_def ring_ok_def manager_ok_def)
    have "ph_pc t' i = P_none"
    proof (cases e)
      case (Philosopher j)
      then have "philosopher_process j t = Some t'" using step by (simp add: philo_step_def split: if_splits)
      from philosopher_frame(4) [OF this] show ?thesis using t by simp
    next
      case (Manager ok)
      then have p: "manager_process ok t = Some t'" using step by (simp add: philo_step_def split: if_splits)
      show ?thesis using p t new assms(2)
        by (cases "ph_manager t") (fastforce simp: manager_process_def create_philosopher_def remove_philosopher_def
          split: if_splits elim!: lock_SomeE)+
    next
      case (Key c)
      then show ?thesis using step t by (auto simp: philo_step_def split: if_splits)
    qed
    then show "phylo_ok t' \<and> ph_pc t' i = P_none" using phylo_ok_step [OF _ step] t by simp
  qed
  then show ?thesis ..
qed

lemma last_one_eats_run:
  "case philo_run last_one_eats run_philosophers of None \<Rightarrow> False | Some t \<Rightarrow> ph_manager t = M_check 0 True \<and> ph_count t = 1 \<and>
     ph_states t 0 = PHILO_EATING \<and> list_all (\<lambda>i. ph_pc t i = P_none) [1..<13]"
  by code_simp

theorem phylo_quit_hangs_witness:
  "\<exists>t. philo_run last_one_eats run_philosophers = Some t \<and>
     (\<forall>es' t'. philo_run es' t = Some t' \<longrightarrow> ph_manager t' \<noteq> M_done)"
proof -
  obtain t where t: "philo_run last_one_eats run_philosophers = Some t" "ph_manager t = M_check 0 True" "ph_count t = 1"
      "ph_states t 0 = PHILO_EATING" "list_all (\<lambda>i. ph_pc t i = P_none) [1..<13]"
    using last_one_eats_run by (auto split: option.splits)
  have "\<forall>i>0. ph_pc t i = P_none"
  proof (intro allI impI)
    fix i :: nat assume "0 < i"
    then show "ph_pc t i = P_none"
      using t(5) no_seat_beyond [OF t(1), of i] by (cases "i < 13") (auto simp: list_all_iff)
  qed
  from phylo_quit_hangs [OF t(1,2,3,4) this] show ?thesis using t(1) by blast
qed

definition seated :: "table \<Rightarrow> bool" where
  "seated t \<longleftrightarrow> ph_manager t = M_idle \<and> ph_count t = 5 \<and> list_all (\<lambda>i. ph_pc t i = P_think) [0..<5]"

definition eats :: "table \<Rightarrow> bool" where
  "eats t \<longleftrightarrow> ph_manager t = M_idle \<and> ph_count t = 5 \<and> ph_pc t 0 = P_eat"

lemma start_up_run:
  "case philo_run start_up run_philosophers of None \<Rightarrow> False | Some t \<Rightarrow> seated t \<and>
     (case philo_run (map Philosopher first_eats) t of None \<Rightarrow> False | Some t' \<Rightarrow> eats t')"
  by code_simp

lemma case_Some_ex: "(case x of None \<Rightarrow> False | Some t \<Rightarrow> P t) \<Longrightarrow> \<exists>t. x = Some t \<and> P t"
  by (cases x) simp_all

lemma start_up_reached:
  obtains t t' where "philo_run start_up run_philosophers = Some t" "seated t"
    "philo_run (map Philosopher first_eats) t = Some t'" "eats t'"
proof -
  from case_Some_ex [OF start_up_run] obtain t where t: "philo_run start_up run_philosophers = Some t" "seated t"
    "case philo_run (map Philosopher first_eats) t of None \<Rightarrow> False | Some t' \<Rightarrow> eats t'" by blast
  from case_Some_ex [OF t(3)] obtain t' where "philo_run (map Philosopher first_eats) t = Some t'" "eats t'" by blast
  then show ?thesis by (rule that [OF t(1,2)])
qed

lemma seatedD:
  assumes "seated t" "\<And>i. seat_ok t i"
  shows "\<not> quitting t" "ph_count t = 5" "\<forall>j<ph_count t. served t j"
proof -
  show "\<not> quitting t" using assms(1) by (simp add: quitting_def seated_def)
  show c: "ph_count t = 5" using assms(1) unfolding seated_def by (elim conjE)
  have "list_all (\<lambda>i. ph_pc t i = P_think) [0..<5]" using assms(1) unfolding seated_def by (elim conjE)
  then have "ph_pc t j = P_think" if "j < 5" for j using that by (simp add: list_all_iff del: upt_conv_Cons upt.simps)
  then have "ph_states t j = PHILO_THINKING" if "j < 5" for j using that assms(2) [of j] by (simp add: seat_ok_def)
  then show "\<forall>j<ph_count t. served t j" unfolding c by (simp add: served_def)
qed


lemma philo_run_append:
  "philo_run (es @ es') t = (case philo_run es t of None \<Rightarrow> None | Some u \<Rightarrow> philo_run es' u)"
  by (induction es t rule: philo_run.induct) (auto split: option.splits)

theorem phylo_neighbours_never_eat_witness:
  "\<exists>t. philo_run (start_up @ map Philosopher first_eats) run_philosophers = Some t \<and> ph_pc t 0 = P_eat \<and>
     ph_states t (RIGHT_OF t 0) \<noteq> PHILO_EATING"
proof -
  obtain u t where u: "philo_run start_up run_philosophers = Some u" "seated u"
      "philo_run (map Philosopher first_eats) u = Some t" "eats t" by (rule start_up_reached)
  have run: "philo_run (start_up @ map Philosopher first_eats) run_philosophers = Some t"
    by (simp only: philo_run_append u(1,3) option.case)
  have q: "\<not> quitting t" using u(4) by (simp add: eats_def quitting_def)
  have p: "ph_pc t 0 = P_eat" and c: "ph_count t = 5" using u(4) by (simp_all only: eats_def)
  note safe = phylo_neighbours_never_eat [OF run q, unfolded c]
  have "ph_states t 0 = PHILO_EATING" using safe p by blast
  moreover have "(0::nat) < 5" "(2::nat) \<le> 5" by simp_all
  ultimately have "ph_states t (RIGHT_OF t 0) \<noteq> PHILO_EATING" using safe by blast
  then show ?thesis using run p by blast
qed

theorem phylo_seats_fit_witness:
  "\<exists>t. philo_run start_up run_philosophers = Some t \<and> ph_pc t 0 = P_think \<and> ph_states t 0 = PHILO_THINKING"
proof -
  obtain t t' where t: "philo_run start_up run_philosophers = Some t" "seated t" by (rule start_up_reached)
  have "list_all (\<lambda>i. ph_pc t i = P_think) [0..<5]" using t(2) unfolding seated_def by (elim conjE)
  then have "ph_pc t 0 = P_think" by (simp add: list_all_iff del: upt_conv_Cons upt.simps)
  then show ?thesis using phylo_seats_fit [OF t(1), of 0] t(1) by auto
qed

end
