(* ===== verification/Phylo_Main.thy ===== *)
theory Phylo_Main
  imports Phylo Shell
begin

text \<open>
  The rest of programs/phylo.c: what the philosophers and their manager print, the program from
  its opening message to its end, and the command \<open>phylo\<close> that starts it. Phylo has the steps.
\<close>

section \<open>Messages\<close>

definition philosopher_names :: "string list" where
  "philosopher_names = [''Jesus'', ''Mateo'', ''Juan'', ''Pedro'', ''Simon'', ''Santiago'', ''Jacobo'', ''Andres'',
     ''Tomas'', ''Tadeo'', ''Felipe'', ''Bartolome'', ''Judas'']"

definition line :: "string \<Rightarrow> string" where
  "line s = s @ [CHR 0x0A]"

text \<open>The states are printed inside the section of the global semaphore, whenever somebody is served.\<close>

definition put_down_prints :: "nat \<Rightarrow> table \<Rightarrow> string" where
  "put_down_prints idx t =
     (let t1 = set_state idx PHILO_THINKING t;
          l = LEFT_OF t idx;
          serves_l = (ph_states t1 l = PHILO_HUNGRY \<and> ph_states t1 (LEFT_OF t l) \<noteq> PHILO_EATING);
          t2 = (if serves_l then serve l t1 else t1);
          r = RIGHT_OF t idx;
          serves_r = (ph_states t2 r = PHILO_HUNGRY \<and> ph_states t2 (RIGHT_OF t r) \<noteq> PHILO_EATING)
      in (if serves_l then print_philosopher_states t2 else '''') @
         (if serves_r then print_philosopher_states (serve r t2) else ''''))"

definition pick_up_prints :: "nat \<Rightarrow> table \<Rightarrow> string" where
  "pick_up_prints idx t =
     (let t1 = set_state idx PHILO_HUNGRY t
      in if ph_states t1 (LEFT_OF t idx) \<noteq> PHILO_EATING \<and> ph_states t1 (RIGHT_OF t idx) \<noteq> PHILO_EATING
         then print_philosopher_states (serve idx t1) else '''')"

definition philosopher_prints :: "nat \<Rightarrow> table \<Rightarrow> string" where
  "philosopher_prints i t =
     (case ph_pc t i of
        P_start \<Rightarrow> line (philosopher_names ! i @ '' joined the table.'')
      | P_think \<Rightarrow> pick_up_prints i t
      | P_eat \<Rightarrow> put_down_prints i t
      | _ \<Rightarrow> '''')"

text \<open>A new philosopher has no state yet when the states are printed.\<close>

definition manager_prints :: "bool \<Rightarrow> table \<Rightarrow> string" where
  "manager_prints ok t =
     (case ph_manager t of
        M_create i start \<Rightarrow> if ok then print_philosopher_states (t\<lparr>ph_count := Suc (ph_count t)\<rparr>) else ''''
      | M_failed i start \<Rightarrow> line (if start then ''Failed to start philosopher.'' else ''Failed to add philosopher.'')
      | M_lock i all \<Rightarrow> line (philosopher_names ! i @ '' leaves the table.'')
      | _ \<Rightarrow> '''')"

definition command_prints :: "char \<Rightarrow> table \<Rightarrow> string" where
  "command_prints cmd t =
     (if cmd = CHR ''q'' then ''''
      else line '''' @
        (if cmd = CHR ''a'' \<and> \<not> ph_count t < MAX_PHILOSOPHERS then line ''Maximum number of philosophers reached.''
         else if cmd = CHR ''r'' \<and> \<not> ph_count t > MIN_PHILOSOPHERS then line ''Minimum number of philosophers reached.''
         else ''''))"

definition philo_prints :: "philo_event \<Rightarrow> table \<Rightarrow> string" where
  "philo_prints e t =
     (case e of Philosopher i \<Rightarrow> philosopher_prints i t | Manager ok \<Rightarrow> manager_prints ok t | Key c \<Rightarrow> command_prints c t)"

fun philo_output :: "philo_event list \<Rightarrow> table \<Rightarrow> string" where
  "philo_output [] t = ''''"
| "philo_output (e # es) t = (case philo_step e t of None \<Rightarrow> '''' | Some t' \<Rightarrow> philo_prints e t @ philo_output es t')"

section \<open>The program\<close>

definition opening_text :: string where
  "opening_text = line ''Dining Philosophers Problem.'' @ line ''Each philosopher needs two forks to eat.'' @
     line ''Press 'a' to add a philosopher, 'r' to remove one, or 'q' to quit.''"

text \<open>
  \<open>global\<close> is the result of \<open>sem_init\<close>. The program ends with status -1 when the semaphore or one
  of the first philosophers cannot be had, and with 0 behind the key that quits.
\<close>

definition phylo_program :: "int \<Rightarrow> philo_event list \<Rightarrow> (string \<times> int option) option" where
  "phylo_program global es =
     (if global = -1 then Some (opening_text @ line ''Failed to initialize global semaphore.'', Some (-1))
      else case philo_run es run_philosophers of
             None \<Rightarrow> None
           | Some t \<Rightarrow>
               let out = opening_text @ philo_output es run_philosophers
               in if ph_manager t \<noteq> M_done then Some (out, None)
                  else if Key (CHR ''q'') \<in> set es then Some (out @ line '''', Some 0)
                  else Some (out, Some (-1)))"

text \<open>The command: the arguments it passes on, and what \<open>process_handler\<close> makes of them: how many and
  whether the program runs in the foreground.\<close>

definition phylo :: "memory \<Rightarrow> u64 list \<Rightarrow> string \<times> nat \<times> bool" where
  "phylo m argv =
     (let argc = length argv;
          amp = argc > 0 \<and> argv ! (argc - 1) \<noteq> 0 \<and> m (argv ! (argc - 1)) = 38 \<and> m (argv ! (argc - 1) + 1) = 0
      in (if amp then line ''phylo: Cannot run in background. Running in foreground instead.'' else '''',
          process_handler m (if amp then butlast argv else argv)))"

section \<open>What can go wrong\<close>

lemma phylo_foreground:
  assumes "argv = as @ [p]" "p \<noteq> 0" "m p = 38" "m (p + 1) = 0" "as = [] \<or> m (last as) \<noteq> 38"
  shows "snd (phylo m argv) = (length as, True)"
  using assms by (cases as rule: rev_cases) (simp_all add: phylo_def process_handler_def Let_def nth_append butlast_append)

text \<open>Only an argument that is exactly an ampersand is refused, while one that begins with an ampersand
  is enough for the background, where reading a key fails at once.\<close>

lemma phylo_in_background:
  assumes "argv \<noteq> []" "last argv \<noteq> 0" "m (last argv) = 38" "m (last argv + 1) \<noteq> 0"
  shows "phylo m argv = ('''', length argv - 1, False)"
proof -
  have "argv ! (length argv - Suc 0) = last argv" using assms(1) by (simp add: last_conv_nth)
  then show ?thesis using assms by (simp add: phylo_def process_handler_def)
qed

text \<open>
  A philosopher who is removed while it eats does not hand on its forks: its neighbour that waited
  for it is hungry afterwards between two neighbours who do not eat, unless the next one eats.
\<close>

lemma removal_forgets_hungry:
  assumes "ph_manager t = M_check (Suc (Suc i)) all" "ph_count t = Suc (Suc (Suc i))" "1 \<le> i"
    and "ph_states t (Suc (Suc i)) = PHILO_EATING" "ph_states t (Suc i) = PHILO_HUNGRY"
    and "ph_states t i \<noteq> PHILO_EATING" "ph_states t 0 \<noteq> PHILO_EATING"
  shows "\<exists>t'. philo_step (Manager ok) t = Some t' \<and> ph_count t' = Suc (Suc i) \<and> \<not> served t' (Suc i)"
proof -
  let ?t = "remove_philosopher (Suc (Suc i)) all t"
  have "ph_states t (LEFT_OF t (Suc (Suc i))) = PHILO_HUNGRY" using assms(2,5) by (simp add: left_of)
  then have e: "ph_count ?t = Suc (Suc i)" "ph_states ?t = (ph_states t)(Suc (Suc i) := PHILO_NONE)"
    using assms(2) by (simp_all add: remove_philosopher_def)
  have n: "LEFT_OF ?t (Suc i) = i" "RIGHT_OF ?t (Suc i) = 0"
    using left_of [of "Suc i" ?t] right_of [of "Suc i" ?t] e(1) by simp_all
  then have "\<not> served ?t (Suc i)" using assms(3,5-7) e(2) by (simp add: served_def)
  then show ?thesis using assms(1) e(1) by (simp add: philo_step_def manager_process_def)
qed

text \<open>A run up to a key that asks for too much, as it is seen on the screen.\<close>

lemma phylo_screen:
  "phylo_program 7 (replicate 10 (Manager True) @ [Philosopher 1, Philosopher 1, Key (CHR ''r'')]) =
     Some (opening_text @ line ''Mateo joined the table.'' @ line ''E '' @ line '''' @
       line ''Minimum number of philosophers reached.'', None)"
  by code_simp

end
