(* ===== verification/Bmfs.thy ===== *)
theory Bmfs
  imports Modules
begin

text \<open>
  Bootloader/BMFS/bmfs.c, the host tool that makes the disk image and keeps files in it. A disk
  is a sequence of bytes of known length. The directory and the disk information are arrays of
  bytes, as functions from their indices, so that the fields of a record, a name that is copied
  over the end of its field and what goes to the disk are all the same bytes. Names and what is
  printed are lists of bytes; the local files are a map from names. The progress of
  \<open>initialize\<close> in percent is not printed here.
\<close>

section \<open>Disks and records\<close>

record disk =
  d_size :: nat
  d_byte :: "nat \<Rightarrow> u8"

type_synonym bytes = "nat \<Rightarrow> u8"

text \<open>\<open>fseek\<close> and \<open>fwrite\<close> of \<open>n\<close> bytes; a write behind the end makes the file longer.\<close>

definition disk_write :: "nat \<Rightarrow> nat \<Rightarrow> bytes \<Rightarrow> disk \<Rightarrow> disk" where
  "disk_write off n src d =
     \<lparr>d_size = (if n = 0 then d_size d else max (d_size d) (off + n)),
      d_byte = (\<lambda>i. if off \<le> i \<and> i < off + n then src (i - off) else d_byte d i)\<rparr>"

text \<open>\<open>fread\<close> into a buffer: what is behind the end of the file stays as it was in the buffer.\<close>

definition disk_read :: "nat \<Rightarrow> nat \<Rightarrow> disk \<Rightarrow> bytes \<Rightarrow> bytes" where
  "disk_read off n d buf = (\<lambda>i. if i < n \<and> off + i < d_size d then d_byte d (off + i) else buf i)"

text \<open>A number of the little endian host.\<close>

fun get_bytes :: "nat \<Rightarrow> bytes \<Rightarrow> nat \<Rightarrow> u64" where
  "get_bytes 0 b off = 0"
| "get_bytes (Suc n) b off = ucast (b off) OR push_bit 8 (get_bytes n b (off + 1))"

definition get64 :: "bytes \<Rightarrow> nat \<Rightarrow> u64" where
  "get64 b off = get_bytes 8 b off"

definition set64 :: "nat \<Rightarrow> u64 \<Rightarrow> bytes \<Rightarrow> bytes" where
  "set64 off w b = (\<lambda>i. if off \<le> i \<and> i < off + 8 then ucast (drop_bit (8 * (i - off)) w) else b i)"

definition set_bytes :: "nat \<Rightarrow> u8 list \<Rightarrow> bytes \<Rightarrow> bytes" where
  "set_bytes off xs b = (\<lambda>i. if off \<le> i \<and> i < off + length xs then xs ! (i - off) else b i)"

text \<open>The string at an offset of an array of \<open>n\<close> bytes.\<close>

definition text_in :: "bytes \<Rightarrow> nat \<Rightarrow> nat \<Rightarrow> u8 list" where
  "text_in b off n = takeWhile (\<lambda>c. c \<noteq> 0) (map b [off..<off + n])"

text \<open>\<open>struct BMFSEntry\<close>: 64 bytes. A name without a zero in its record would be read further by the code.\<close>

abbreviation ENTRIES :: nat where "ENTRIES \<equiv> 64"

definition FileName :: "bytes \<Rightarrow> nat \<Rightarrow> u8 list" where
  "FileName dir t = text_in dir (64 * t) 64"

definition StartingBlock :: "bytes \<Rightarrow> nat \<Rightarrow> u64" where
  "StartingBlock dir t = get64 dir (64 * t + 32)"

definition ReservedBlocks :: "bytes \<Rightarrow> nat \<Rightarrow> u64" where
  "ReservedBlocks dir t = get64 dir (64 * t + 40)"

definition FileSize :: "bytes \<Rightarrow> nat \<Rightarrow> u64" where
  "FileSize dir t = get64 dir (64 * t + 48)"

abbreviation end_mark :: "bytes \<Rightarrow> nat \<Rightarrow> bool" where "end_mark dir t \<equiv> dir (64 * t) = 0"
abbreviation deleted :: "bytes \<Rightarrow> nat \<Rightarrow> bool" where "deleted dir t \<equiv> dir (64 * t) = 1"

text \<open>The variables of the program.\<close>

record bmfs =
  bm_disk :: disk
  bm_info :: bytes
  bm_dir :: bytes
  bm_disksize :: u32

definition flush_dir :: "bmfs \<Rightarrow> bmfs" where
  "flush_dir s = s\<lparr>bm_disk := disk_write 4096 4096 (bm_dir s) (bm_disk s)\<rparr>"

section \<open>Looking up and listing\<close>

function findfile_from :: "u8 list \<Rightarrow> bytes \<Rightarrow> nat \<Rightarrow> nat option" where
  "findfile_from name dir t =
     (if ENTRIES \<le> t \<or> end_mark dir t then None
      else if \<not> deleted dir t \<and> name = FileName dir t then Some t
      else findfile_from name dir (Suc t))"
  by pat_completeness auto
termination
  by (relation "measure (\<lambda>(name, dir, t). ENTRIES - t)") auto

declare findfile_from.simps [simp del]

definition findfile :: "u8 list \<Rightarrow> bytes \<Rightarrow> nat option" where
  "findfile name dir = findfile_from name dir 0"

definition msg :: "string \<Rightarrow> u8 list" where
  "msg s = text_of s @ [10]"

fun decimal :: "nat \<Rightarrow> u8 list" where
  "decimal n = (if n < 10 then [of_nat (48 + n)] else decimal (n div 10) @ [of_nat (48 + n mod 10)])"

declare decimal.simps [simp del]

text \<open>The conversions \<open>%-32s\<close>, \<open>%20lld\<close> and \<open>%d\<close>.\<close>

definition left_justified :: "nat \<Rightarrow> u8 list \<Rightarrow> u8 list" where
  "left_justified n s = s @ replicate (n - length s) 32"

definition right_justified :: "nat \<Rightarrow> u8 list \<Rightarrow> u8 list" where
  "right_justified n s = replicate (n - length s) 32 @ s"

definition signed_decimal :: "int \<Rightarrow> u8 list" where
  "signed_decimal x = (if x < 0 then 45 # decimal (nat (- x)) else decimal (nat x))"

definition list_line :: "bytes \<Rightarrow> nat \<Rightarrow> u8 list" where
  "list_line dir t = left_justified 32 (FileName dir t) @ [32] @ right_justified 20 (signed_decimal (sint (FileSize dir t))) @ [32] @
     right_justified 20 (signed_decimal (sint (ReservedBlocks dir t * 2))) @ [10]"

function list_from :: "bytes \<Rightarrow> nat \<Rightarrow> u8 list" where
  "list_from dir t =
     (if ENTRIES \<le> t \<or> end_mark dir t then []
      else (if deleted dir t then [] else list_line dir t) @ list_from dir (Suc t))"
  by pat_completeness auto
termination
  by (relation "measure (\<lambda>(dir, t). ENTRIES - t)") auto

declare list_from.simps [simp del]

definition bmfs_list :: "u8 list \<Rightarrow> bmfs \<Rightarrow> u8 list" where
  "bmfs_list diskname s =
     diskname @ [10] @ text_of ''Disk Size: '' @ signed_decimal (sint (bm_disksize s)) @ msg '' MiB'' @
     msg ''Name                            |            Size (B)|      Reserved (MiB)'' @
     msg ''=========================================================================='' @ list_from (bm_dir s) 0"

section \<open>Formatting\<close>

definition bmfs_format :: "bmfs \<Rightarrow> u8 list \<times> bmfs" where
  "bmfs_format s =
     (let info = set_bytes 0 (text_of ''BMFS'') (\<lambda>i. if i < 512 then 0 else bm_info s i);
          dir = (\<lambda>i. if i < 4096 then 0 else bm_dir s i);
          s1 = s\<lparr>bm_info := info, bm_dir := dir, bm_disk := disk_write 1024 512 info (bm_disk s)\<rparr>
      in (msg ''Format complete.'', flush_dir s1))"

section \<open>Creating\<close>

text \<open>The comparison of \<open>qsort\<close>: the difference of the blocks, cut to the 32 bits of its result.\<close>

definition StartingBlockCmp :: "bytes \<Rightarrow> nat \<Rightarrow> nat \<Rightarrow> int" where
  "StartingBlockCmp dir a b =
     (if deleted dir a then 1 else if deleted dir b then -1
      else sint (ucast (StartingBlock dir a - StartingBlock dir b) :: u32))"

text \<open>
  \<open>qsort\<close> on the copy of the directory, as the order of the slots. The comparison is an order
  on the files whose first blocks are different and below \<open>2 ^ 31\<close>; for these every sort gives
  this order.
\<close>

fun insert_slot :: "bytes \<Rightarrow> nat \<Rightarrow> nat list \<Rightarrow> nat list" where
  "insert_slot dir x [] = [x]"
| "insert_slot dir x (y # ys) = (if StartingBlockCmp dir x y \<le> 0 then x # y # ys else y # insert_slot dir x ys)"

definition sorted_slots :: "bytes \<Rightarrow> nat \<Rightarrow> nat list" where
  "sorted_slots dir n = foldr (insert_slot dir) [0..<n] []"

text \<open>
  The number of used entries and the first free one. Without an end mark the number stays 0.
\<close>

function count_entries :: "bytes \<Rightarrow> nat option \<Rightarrow> nat \<Rightarrow> nat \<times> nat option" where
  "count_entries dir first t =
     (if ENTRIES \<le> t then (0, first)
      else if end_mark dir t then (t, if first = None then Some t else first)
      else if deleted dir t then count_entries dir (if first = None then Some t else first) (Suc t)
      else count_entries dir first (Suc t))"
  by pat_completeness auto
termination
  by (relation "measure (\<lambda>(dir, first, t). ENTRIES - t)") auto

declare count_entries.simps [simp del]

text \<open>The first gap that is large enough, between the files and before the last block; 0 if there is none.\<close>

fun find_gap :: "bytes \<Rightarrow> u64 \<Rightarrow> u64 \<Rightarrow> nat list \<Rightarrow> u64 \<Rightarrow> u64" where
  "find_gap dir num_blocks requested [] prev_file_end =
     (if num_blocks - 1 - prev_file_end \<ge> requested then prev_file_end else 0)"
| "find_gap dir num_blocks requested (t # ts) prev_file_end =
     (let this_file_start = (if deleted dir t then num_blocks - 1 else StartingBlock dir t)
      in if this_file_start - prev_file_end \<ge> requested then prev_file_end
         else find_gap dir num_blocks requested ts (StartingBlock dir t + ReservedBlocks dir t))"

text \<open>The new record: the name is copied last, with its zero, whatever its length.\<close>

definition new_entry :: "nat \<Rightarrow> u8 list \<Rightarrow> u64 \<Rightarrow> u64 \<Rightarrow> bytes \<Rightarrow> bytes" where
  "new_entry t name start reserved dir =
     set_bytes (64 * t) (name @ [0]) (set64 (64 * t + 48) 0 (set64 (64 * t + 40) reserved (set64 (64 * t + 32) start dir)))"

definition bmfs_create :: "u8 list \<Rightarrow> u64 \<Rightarrow> bmfs \<Rightarrow> u8 list \<times> bmfs" where
  "bmfs_create name maxsize0 s =
     (let maxsize = (if maxsize0 mod 2 \<noteq> 0 then maxsize0 + 1 else maxsize0); dir = bm_dir s
      in if findfile name dir \<noteq> None then (msg ''Error: File already exists.'', s)
         else
           let blocks_requested = maxsize div 2;
               num_blocks = ucast (bm_disksize s div 2);
               (num_used, first_free) = count_entries dir None 0
           in case first_free of
                None \<Rightarrow> (msg ''Creating new file...'' @ msg ''Cannot create file: no free directory entries.'', s)
              | Some free \<Rightarrow>
                  let start = find_gap dir num_blocks blocks_requested (sorted_slots dir num_used) 1
                  in if start = 0
                     then (msg ''Creating new file...'' @ text_of ''Cannot create file of size '' @
                       signed_decimal (sint maxsize) @ msg '' MiB.'', s)
                     else
                       let dir1 = new_entry free name start blocks_requested dir;
                           dir2 = (if free = num_used \<and> num_used + 1 < ENTRIES then dir1(64 * (num_used + 1) := 0) else dir1)
                       in (msg ''Creating new file...'' @ msg ''Complete'', flush_dir (s\<lparr>bm_dir := dir2\<rparr>)))"

section \<open>Reading, writing, deleting\<close>

abbreviation BLOCK :: nat where "BLOCK \<equiv> 2097152"

text \<open>
  What goes into the local file; \<open>getc\<close> behind the end of the disk gives -1. The counter of the
  copying loops of \<open>read\<close> and \<open>write\<close> is an \<open>int\<close>: the model is for files of less than 2 GiB,
  with more the counter overflows, which C leaves undefined.
\<close>

definition file_content :: "bmfs \<Rightarrow> nat \<Rightarrow> u8 list" where
  "file_content s t =
     (let off = unat (StartingBlock (bm_dir s) t * 2097152)
      in map (\<lambda>i. if off + i < d_size (bm_disk s) then d_byte (bm_disk s) (off + i) else 255)
           [0..<unat (FileSize (bm_dir s) t)])"

text \<open>\<open>can_create\<close> is whether the local file can be opened; the second result is what it then holds.\<close>

definition bmfs_read :: "bool \<Rightarrow> u8 list \<Rightarrow> bmfs \<Rightarrow> u8 list \<times> (u8 list \<times> u8 list) option" where
  "bmfs_read can_create name s =
     (case findfile name (bm_dir s) of
        None \<Rightarrow> (msg ''Error: File not found in BMFS.'', None)
      | Some t \<Rightarrow>
          let head = text_of ''Reading '' @ [39] @ name @ [39] @ text_of '' from BMFS to local file... ''
          in if \<not> can_create
             then (head @ text_of ''Error: Could not open local file '' @ [39] @ FileName (bm_dir s) t @ [39, 10], None)
             else (head @ msg ''Complete'', Some (FileName (bm_dir s) t, file_content s t)))"

definition bmfs_write :: "u8 list option \<Rightarrow> u8 list \<Rightarrow> bmfs \<Rightarrow> u8 list \<times> bmfs" where
  "bmfs_write file name s =
     (case findfile name (bm_dir s) of
        None \<Rightarrow> (msg ''Error: File not found in BMFS. A file entry must first be created.'', s)
      | Some t \<Rightarrow>
          let head = text_of ''Writing local file '' @ [39] @ name @ [39] @ text_of '' to BMFS... ''
          in case file of
               None \<Rightarrow> (head @ text_of ''Error: Could not open local file '' @ [39] @ FileName (bm_dir s) t @ [39, 10], s)
             | Some bs \<Rightarrow>
                 if ReservedBlocks (bm_dir s) t * 2097152 < of_nat (length bs)
                 then (head @ msg ''Not enough reserved space in BMFS.'', s)
                 else
                   let off = unat (StartingBlock (bm_dir s) t * 2097152);
                       s1 = s\<lparr>bm_disk := disk_write off (length bs) (\<lambda>i. bs ! i) (bm_disk s),
                              bm_dir := set64 (64 * t + 48) (of_nat (length bs)) (bm_dir s)\<rparr>
                   in (head @ msg ''Complete'', flush_dir s1))"

definition bmfs_delete :: "u8 list \<Rightarrow> bmfs \<Rightarrow> u8 list \<times> bmfs" where
  "bmfs_delete name s =
     (case findfile name (bm_dir s) of
        None \<Rightarrow> (msg ''Error: File not found in BMFS.'', s)
      | Some t \<Rightarrow>
          (text_of ''Deleting file '' @ [39] @ name @ [39] @ text_of '' from BMFS... '' @ msg ''Complete'',
           flush_dir (s\<lparr>bm_dir := (bm_dir s)(64 * t := 1)\<rparr>)))"

section \<open>Initializing\<close>

text \<open>
  The size in bytes that the string gives, with the number of factors of 1024, or the message
  about it. \<open>first\<close> is whether this is the first character.
\<close>

definition digit_of :: "u8 \<Rightarrow> u64 option" where
  "digit_of c = (if 48 \<le> c \<and> c \<le> 57 then Some (ucast (c - 48)) else None)"

definition upper_case :: "u8 \<Rightarrow> u8" where
  "upper_case c = (if 97 \<le> c \<and> c \<le> 122 then c - 32 else c)"

definition size_factor :: "u8 \<Rightarrow> nat option" where
  "size_factor c = map_of (zip (text_of ''KMGTP'') [1, 2, 3, 4, 5]) (upper_case c)"

fun size_loop :: "u8 list \<Rightarrow> bool \<Rightarrow> u8 list \<Rightarrow> u64 \<Rightarrow> nat \<Rightarrow> u8 list + u64 \<times> nat" where
  "size_loop str first [] disk_size factor = Inr (disk_size, factor)"
| "size_loop str first (c # cs) disk_size factor =
     (case digit_of c of
        Some n \<Rightarrow>
          if disk_size * 10 > disk_size then size_loop str False cs (disk_size * 10 + n) factor
          else if disk_size = 0 then size_loop str False cs (disk_size + n) factor
          else Inl (msg ''Error: Disk size is too large'')
      | None \<Rightarrow>
          let invalid = text_of ''Error: Invalid disk size string: '' @ [39] @ str @ [39, 10]
          in if first then Inl (msg ''Error: A numeric disk size must be specified'')
             else (case size_factor c of
                     None \<Rightarrow> Inl invalid
                   | Some f \<Rightarrow> if cs \<noteq> [] then Inl invalid else size_loop str False cs disk_size f))"

text \<open>The multiplications by 1024; the loop goes on behind an overflow. The messages and the str.\<close>

fun scale :: "nat \<Rightarrow> u64 \<Rightarrow> u8 list \<times> u64" where
  "scale 0 disk_size = ([], disk_size)"
| "scale (Suc n) disk_size =
     (if disk_size * 1024 > disk_size then scale n (disk_size * 1024)
      else let (out, r) = scale n disk_size in (msg ''Error: Disk size is too large'' @ out, r))"

definition minimumDiskSize :: u64 where
  "minimumDiskSize = 6 * 1024 * 1024"

definition parse_size :: "u8 list \<Rightarrow> u8 list + u64" where
  "parse_size str =
     (case size_loop str True str 0 0 of
        Inl e \<Rightarrow> Inl e
      | Inr (n, factor) \<Rightarrow>
          let (errors, disk_size) = (if n > 0 then scale factor n else ([], n))
          in if errors \<noteq> [] then Inl errors
             else if disk_size < minimumDiskSize
             then Inl (msg ''Error: Disk size must be at least 6291456 bytes (6MiB)'')
             else Inr disk_size)"

text \<open>A file that is opened for reading if it is named: its name and its bytes.\<close>

type_synonym local_files = "u8 list \<Rightarrow> u8 list option"

definition quoted :: "u8 list \<Rightarrow> u8 list" where
  "quoted n = [39] @ n @ [39, 10]"

definition open_file :: "local_files \<Rightarrow> string \<Rightarrow> u8 list option \<Rightarrow> u8 list + (u8 list \<times> u8 list) option" where
  "open_file fs kind name =
     (case name of
        None \<Rightarrow> Inr None
      | Some n \<Rightarrow>
          (case fs n of
             None \<Rightarrow> Inl (text_of ''Error: Unable to open '' @ text_of kind @ text_of '' file '' @ quoted n)
           | Some bs \<Rightarrow> Inr (Some (n, bs))))"

text \<open>
  \<open>room\<close> is the number of bytes that the device of the disk image can hold: an \<open>fwrite\<close> that
  would go behind it fails. The loop that fills the image with zeros, from \<open>written\<close> on.
\<close>

function fill_zeros :: "nat \<Rightarrow> nat \<Rightarrow> nat \<Rightarrow> disk \<Rightarrow> bool \<times> disk" where
  "fill_zeros room disk_size written d =
     (if written < disk_size then
        let chunk = min (50 * 1024) (disk_size - written)
        in if written + chunk \<le> room
           then fill_zeros room disk_size (written + chunk) (disk_write written chunk (\<lambda>_. 0) d)
           else (False, d)
      else (True, d))"
  by pat_completeness auto
termination
  by (relation "measure (\<lambda>(room, disk_size, written, d). disk_size - written)") auto

declare fill_zeros.simps [simp del]

text \<open>
  The loop that copies a file in chunks, from a position of the disk on: how many writes failed,
  the position behind what was written, and the disk.
\<close>

function copy_file :: "nat \<Rightarrow> nat \<Rightarrow> u8 list \<Rightarrow> disk \<Rightarrow> nat \<times> nat \<times> disk" where
  "copy_file room pos bs d =
     (if bs = [] then (0, pos, d)
      else let chunk = take (50 * 1024) bs; rest = drop (50 * 1024) bs
           in if pos + length chunk \<le> room
              then copy_file room (pos + length chunk) rest (disk_write pos (length chunk) (\<lambda>i. chunk ! i) d)
              else let (n, r) = copy_file room pos rest d in (Suc n, r))"
  by pat_completeness auto
termination
  by (relation "measure (\<lambda>(room, pos, bs, d). length bs)") auto

declare copy_file.simps [simp del]

text \<open>
  One of the two files behind the directory. The check behind the loop asks the disk, not the
  file, for an error, so a failed write is reported as a failed read too.
\<close>

definition write_part :: "nat \<Rightarrow> u8 list \<Rightarrow> u8 list \<Rightarrow> u8 list \<times> u8 list \<Rightarrow> nat \<Rightarrow> disk \<Rightarrow> u8 list \<times> bool \<times> nat \<times> disk" where
  "write_part room diskname header file pos d =
     (let (failures, pos', d') = copy_file room pos (snd file) d
      in (header @ concat (replicate failures (text_of ''Error: Failed to write disk '' @ quoted diskname)) @
            (if failures > 0 then text_of ''Error: Failed to read file '' @ quoted (fst file) else []),
          failures = 0, pos', d'))"

definition write_boot_files ::
  "nat \<Rightarrow> u8 list \<Rightarrow> (u8 list \<times> u8 list) option \<Rightarrow> string \<Rightarrow> (u8 list \<times> u8 list) option \<Rightarrow> nat \<Rightarrow> disk \<Rightarrow> u8 list \<times> bool \<times> disk" where
  "write_boot_files room diskname boot boot_type kern pos0 d0 =
     (let (out1, ok1, pos1, d1) = (case boot of
             None \<Rightarrow> ([], True, pos0, d0)
           | Some f \<Rightarrow> write_part room diskname (msg (''Writing '' @ boot_type @ '' file.'')) f 8192 d0)
      in case kern of
           Some f \<Rightarrow>
             if ok1 then (let (out2, ok2, pos2, d2) = write_part room diskname (msg ''Writing kernel.'') f pos1 d1
                          in (out1 @ out2, ok2, d2))
             else (out1, ok1, d1)
         | None \<Rightarrow> (out1, ok1, d1))"

text \<open>
  \<open>initialize\<close> behind its checks: the result, what is printed and the state. The image has the
  room for the master boot record by then.
\<close>

definition write_image ::
  "nat \<Rightarrow> u8 list \<Rightarrow> u64 \<Rightarrow> (u8 list \<times> u8 list) option \<Rightarrow> (u8 list \<times> u8 list) option \<Rightarrow> string \<Rightarrow>
   (u8 list \<times> u8 list) option \<Rightarrow> bmfs \<Rightarrow> int \<times> u8 list \<times> bmfs" where
  "write_image room diskname disk_size mbr boot boot_type kern s =
     (let (ok, d) = fill_zeros room (unat disk_size) 0 \<lparr>d_size = 0, d_byte = \<lambda>_. 0\<rparr>
      in if \<not> ok then (1, text_of ''Error: Failed to write disk '' @ quoted diskname, s\<lparr>bm_disk := d\<rparr>)
         else
           let (out, s1) = bmfs_format (s\<lparr>bm_disk := d\<rparr>);
               header = (if mbr = None then [] else msg ''Writing master boot record.'')
           in case mbr of
                Some (name, bs) \<Rightarrow>
                  if length bs < 512
                  then (1, out @ header @ text_of ''Error: Failed to read file '' @ quoted name, s1)
                  else
                    let (out2, ok2, d2) = write_boot_files room diskname boot boot_type kern 512 (disk_write 0 512 (\<lambda>i. bs ! i) (bm_disk s1))
                    in (if ok2 then 0 else 1, out @ header @ out2 @ (if ok2 then msg ''Disk initialization complete.'' else []),
                        s1\<lparr>bm_disk := d2\<rparr>)
              | None \<Rightarrow>
                  let (out2, ok2, d2) = write_boot_files room diskname boot boot_type kern 8192 (bm_disk s1)
                  in (if ok2 then 0 else 1, out @ out2 @ (if ok2 then msg ''Disk initialization complete.'' else []), s1\<lparr>bm_disk := d2\<rparr>))"

text \<open>\<open>can_create\<close> is whether the image can be opened for writing, \<open>malloc_ok\<close> whether there is a buffer.\<close>

definition bmfs_initialize ::
  "local_files \<Rightarrow> nat \<Rightarrow> bool \<Rightarrow> bool \<Rightarrow> u8 list \<Rightarrow> u8 list \<Rightarrow> u8 list option \<Rightarrow> u8 list option \<Rightarrow> u8 list option \<Rightarrow> bmfs \<Rightarrow> int \<times> u8 list \<times> bmfs" where
  "bmfs_initialize fs room can_create malloc_ok diskname str mbr boot kern s =
     (let boot_type = (if kern = None then ''system'' else ''boot loader'')
      in case parse_size str of Inl e \<Rightarrow> (1, e, s)
         | Inr disk_size \<Rightarrow>
        (case open_file fs ''MBR'' mbr of Inl e \<Rightarrow> (1, e, s)
         | Inr mbr_file \<Rightarrow>
        (case open_file fs boot_type boot of Inl e \<Rightarrow> (1, e, s)
         | Inr boot_file \<Rightarrow>
        (case open_file fs ''kernel'' kern of Inl e \<Rightarrow> (1, e, s)
         | Inr kernel_file \<Rightarrow>
             if \<not> malloc_ok then (1, msg ''Error: Failed to allocate buffer'', s)
             else if \<not> can_create then (1, text_of ''Error: Unable to open disk '' @ quoted diskname, s)
             else write_image room diskname disk_size mbr_file boot_file boot_type kernel_file s))))"

section \<open>The command line\<close>

definition lower_case :: "u8 \<Rightarrow> u8" where
  "lower_case c = (if 65 \<le> c \<and> c \<le> 90 then c + 32 else c)"

definition strcasecmp_eq :: "u8 list \<Rightarrow> string \<Rightarrow> bool" where
  "strcasecmp_eq a b \<longleftrightarrow> map lower_case a = map lower_case (text_of b)"

text \<open>\<open>atoi\<close> of the C library, for numbers that fit into an \<open>int\<close>.\<close>

fun digits_value :: "int \<Rightarrow> u8 list \<Rightarrow> int" where
  "digits_value n [] = n"
| "digits_value n (c # cs) = (if 48 \<le> c \<and> c \<le> 57 then digits_value (10 * n + (uint c - 48)) cs else n)"

definition host_atoi :: "u8 list \<Rightarrow> int" where
  "host_atoi s =
     (let t = dropWhile (\<lambda>c. c = 32 \<or> (9 \<le> c \<and> c \<le> 13)) s
      in if t \<noteq> [] \<and> hd t = 45 then - digits_value 0 (tl t)
         else if t \<noteq> [] \<and> hd t = 43 then digits_value 0 (tl t)
         else digits_value 0 t)"

text \<open>
  \<open>main\<close>. The host: the disk, if it can be opened, the local files, whether a file can be opened
  for writing, whether there is memory, the room for an image and the standard input. The result
  is the status, what is printed, the variables and the local file that is written; \<open>None\<close> is a
  comparison with the null pointer.
\<close>

record host =
  env_disk :: "disk option"
  env_files :: local_files
  env_can_create :: bool
  env_malloc :: bool
  env_room :: nat
  env_stdin :: "u8 list"

definition start_bmfs :: bmfs where
  "start_bmfs = \<lparr>bm_disk = \<lparr>d_size = 0, d_byte = \<lambda>_. 0\<rparr>, bm_info = \<lambda>_. 0, bm_dir = \<lambda>_. 0, bm_disksize = 0\<rparr>"

definition load_disk :: "disk \<Rightarrow> bmfs" where
  "load_disk d = \<lparr>bm_disk = d, bm_info = disk_read 1024 512 d (\<lambda>_. 0), bm_dir = disk_read 4096 4096 d (\<lambda>_. 0),
     bm_disksize = of_nat (d_size d div 1048576)\<rparr>"

definition is_bmfs :: "bmfs \<Rightarrow> bool" where
  "is_bmfs s \<longleftrightarrow> strcasecmp_eq (text_in (bm_info s) 0 512) ''BMFS''"

text \<open>The line that \<open>fgets\<close> reads: at most 31 characters.\<close>

definition fgets :: "u8 list \<Rightarrow> u8 list" where
  "fgets inp = (let l = take 31 inp; k = length (takeWhile (\<lambda>c. c \<noteq> 10) l) in take (Suc k) l)"

type_synonym bmfs_result = "int \<times> u8 list \<times> bmfs \<times> (u8 list \<times> u8 list) option"

text \<open>The size from the command line is an \<open>int\<close>, the one that is typed an \<open>unsigned int\<close>.\<close>

definition create_command :: "host \<Rightarrow> u8 list list \<Rightarrow> bmfs \<Rightarrow> bmfs_result" where
  "create_command env argv s =
     (if length argv < 4 then (0, msg ''Error: File name not specified.'', s, None)
      else if length argv > 4
      then (let filesize = host_atoi (argv ! 4)
            in if filesize \<ge> 1
               then (let (out, s') = bmfs_create (argv ! 3) (word_of_int filesize) s in (0, out, s', None))
               else (0, msg ''Error: Invalid file size.'', s, None))
      else
        let prompt = text_of ''Maximum file size in MiB: '';
            filesize = (word_of_int (host_atoi (fgets (env_stdin env))) :: u32)
        in if filesize \<ge> 1
           then (let (out, s') = bmfs_create (argv ! 3) (ucast filesize) s in (0, prompt @ out, s', None))
           else (0, prompt @ msg ''Error: Invalid file size.'', s, None))"

text \<open>A command with the name of a file. Without one the name is the null pointer, which is only
  looked at when there is a file to compare it with.\<close>

definition named_command :: "(u8 list \<Rightarrow> bmfs_result) \<Rightarrow> u8 list \<Rightarrow> u8 list list \<Rightarrow> bmfs \<Rightarrow> bmfs_result option" where
  "named_command f missing argv s =
     (if length argv > 3 then Some (f (argv ! 3))
      else if list_from (bm_dir s) 0 = [] then Some (0, missing, s, None)
      else None)"

definition run_command :: "host \<Rightarrow> u8 list list \<Rightarrow> bmfs \<Rightarrow> bmfs_result option" where
  "run_command env argv s =
     (let command = argv ! 2
      in if strcasecmp_eq command ''list'' then Some (0, bmfs_list (argv ! 1) s, s, None)
         else if strcasecmp_eq command ''format''
         then (if length argv > 3 \<and> strcasecmp_eq (argv ! 3) ''/FORCE''
               then (let (out, s') = bmfs_format s in Some (0, out, s', None))
               else Some (0, msg ''Format aborted!'', s, None))
         else if strcasecmp_eq command ''create'' then Some (create_command env argv s)
         else if strcasecmp_eq command ''read''
         then named_command (\<lambda>n. case bmfs_read (env_can_create env) n s of (out, f) \<Rightarrow> (0, out, s, f))
                (msg ''Error: File not found in BMFS.'') argv s
         else if strcasecmp_eq command ''write''
         then named_command (\<lambda>n. case bmfs_write (env_files env n) n s of (out, s') \<Rightarrow> (0, out, s', None))
                (msg ''Error: File not found in BMFS. A file entry must first be created.'') argv s
         else if strcasecmp_eq command ''delete''
         then named_command (\<lambda>n. case bmfs_delete n s of (out, s') \<Rightarrow> (0, out, s', None))
                (msg ''Error: File not found in BMFS.'') argv s
         else Some (0, msg ''Unknown command'', s, None))"

definition bmfs_usage :: "u8 list \<Rightarrow> u8 list" where
  "bmfs_usage program =
     msg ''BareMetal File System Utility v1.0 (2013 04 10)'' @
     msg ''Written by Ian Seyler @ Return Infinity (ian.seyler@returninfinity.com)'' @ [10] @
     text_of ''Usage: '' @ program @ msg '' disk function file'' @ msg ''Disk: the name of the disk file'' @
     msg ''Function: list, read, write, create, delete, format, initialize'' @ msg ''File: (if applicable)''"

definition bmfs_main :: "host \<Rightarrow> u8 list list \<Rightarrow> bmfs_result option" where
  "bmfs_main env argv =
     (let arg = (\<lambda>i. if i < length argv then Some (argv ! i) else None)
      in if length argv < 3 then Some (0, bmfs_usage (argv ! 0), start_bmfs, None)
         else if strcasecmp_eq (argv ! 2) ''initialize''
         then (if length argv \<ge> 4
               then (case bmfs_initialize (env_files env) (env_room env) (env_can_create env) (env_malloc env)
                       (argv ! 1) (argv ! 3) (arg 4) (arg 5) (arg 6) start_bmfs of
                       (r, out, s) \<Rightarrow> Some (r, out, s, None))
               else Some (1, text_of ''Usage: '' @ argv ! 0 @ text_of '' disk '' @ argv ! 2 @ text_of '' size [mbr_file] '' @
                 msg ''[bootloader_file] [kernel_file]'', start_bmfs, None))
         else (case env_disk env of
                 None \<Rightarrow> Some (0, text_of ''Error: Unable to open disk '' @ quoted (argv ! 1), start_bmfs, None)
               | Some d \<Rightarrow>
                   let s = load_disk d
                   in if is_bmfs s then run_command env argv s
                      else if strcasecmp_eq (argv ! 2) ''format''
                      then (let (out, s') = bmfs_format s in Some (0, out, s', None))
                      else Some (0, msg ''Error: Not a valid BMFS drive (Disk is not BMFS formatted).'', s, None)))"

end
