(* ===== verification/Bmfs_Files.thy ===== *)
theory Bmfs_Files
  imports Bmfs
begin

text \<open>
  The directory of a BMFS disk: its fields, the records up to the end mark, the order in which
  \<open>create\<close> looks at them, the gaps between the files, and the contents of the files on a disk.
\<close>

section \<open>Fields\<close>

lemma bit_get_bytes: "bit (get_bytes k b a) n \<longleftrightarrow> n < 8 * k \<and> n < 64 \<and> bit (b (a + n div 8)) (n mod 8)"
proof (induction k arbitrary: a n)
  case (Suc k)
  show ?case
  proof (cases "n < 8")
    case False
    then obtain m where n: "n = m + 8" by (metis add.commute le_Suc_ex not_less)
    have "\<not> bit (b a) n" using False bit_imp_le_length [of "b a" n] by auto
    moreover have "(m + 8) div 8 = Suc (m div 8)" "(m + 8) mod 8 = m mod 8" by simp_all
    ultimately show ?thesis using Suc.IH [of "a + 1" m] n by (auto simp: bit_simps simp del: div_add_self2)
  qed (simp add: bit_simps)
qed simp

lemma get64_set64 [simp]: "get64 (set64 a w b) a = w"
proof (rule bit_word_eqI)
  fix n assume n: "n < LENGTH(64)"
  then have "n div 8 < 8" "8 * (n div 8) + n mod 8 = n" by simp_all
  then show "bit (get64 (set64 a w b) a) n = bit w n" using n
    by (simp add: get64_def bit_get_bytes set64_def bit_simps)
qed

lemma get64_cong:
  assumes "\<And>i. i < 8 \<Longrightarrow> b' (a + i) = b (a + i)"
  shows "get64 b' a = get64 b a"
proof (rule bit_word_eqI)
  fix n assume "n < LENGTH(64)"
  then show "bit (get64 b' a) n = bit (get64 b a) n" using assms [of "n div 8"] by (simp add: get64_def bit_get_bytes)
qed

lemma text_in_cong: "(\<And>i. i < n \<Longrightarrow> b' (a + i) = b (a + i)) \<Longrightarrow> text_in b' a n = text_in b a n"
proof -
  assume e: "\<And>i. i < n \<Longrightarrow> b' (a + i) = b (a + i)"
  have "map b' [a..<a + n] = map b [a..<a + n]"
  proof (rule map_cong [OF refl])
    fix x assume "x \<in> set [a..<a + n]"
    then have "a \<le> x" "x - a < n" by auto
    then show "b' x = b x" using e [of "x - a"] by simp
  qed
  then show ?thesis by (simp only: text_in_def)
qed

text \<open>What tells a record: two directories agree on slot \<open>t\<close>.\<close>

definition same_slot :: "bytes \<Rightarrow> bytes \<Rightarrow> nat \<Rightarrow> bool" where
  "same_slot dir' dir t \<longleftrightarrow> (\<forall>i<64. dir' (64 * t + i) = dir (64 * t + i))"

lemma same_slotD:
  assumes "same_slot dir' dir t"
  shows "FileName dir' t = FileName dir t" "StartingBlock dir' t = StartingBlock dir t"
    "ReservedBlocks dir' t = ReservedBlocks dir t" "FileSize dir' t = FileSize dir t" "dir' (64 * t) = dir (64 * t)"
proof -
  have e: "dir' (64 * t + i) = dir (64 * t + i)" if "i < 64" for i using assms that by (simp add: same_slot_def)
  show "FileName dir' t = FileName dir t" unfolding FileName_def by (rule text_in_cong) (rule e)
  show "StartingBlock dir' t = StartingBlock dir t" unfolding StartingBlock_def
    by (rule get64_cong) (use e [of "32 + _"] in \<open>simp add: add.assoc\<close>)
  show "ReservedBlocks dir' t = ReservedBlocks dir t" unfolding ReservedBlocks_def
    by (rule get64_cong) (use e [of "40 + _"] in \<open>simp add: add.assoc\<close>)
  show "FileSize dir' t = FileSize dir t" unfolding FileSize_def
    by (rule get64_cong) (use e [of "48 + _"] in \<open>simp add: add.assoc\<close>)
  show "dir' (64 * t) = dir (64 * t)" using e [of 0] by simp
qed

lemma new_entry_other:
  assumes "length name < 64" "u \<noteq> t"
  shows "same_slot (new_entry t name start r dir) dir u"
  unfolding same_slot_def
proof (intro allI impI)
  fix i :: nat assume i: "i < 64"
  have "64 * u + i < 64 * t \<or> 64 * t + 64 \<le> 64 * u + i" using assms(2) i by (cases "u < t") auto
  then show "new_entry t name start r dir (64 * u + i) = dir (64 * u + i)"
    using assms(1) by (auto simp: new_entry_def set_bytes_def set64_def)
qed

lemma text_in_set_bytes:
  assumes "0 \<notin> set name" "length name < n"
  shows "text_in (set_bytes a (name @ [0]) b) a n = name"
proof -
  let ?b = "set_bytes a (name @ [0]) b"
  have l: "[a..<a + n] = [a..<a + length name] @ (a + length name) # [Suc (a + length name)..<a + n]"
    using assms(2) upt_add_eq_append [of a "a + length name" "n - length name"] by (simp add: upt_conv_Cons)
  have m: "map ?b [a..<a + length name] = name"
    by (rule nth_equalityI) (simp_all add: set_bytes_def nth_append)
  have z: "?b (a + length name) = 0" by (simp add: set_bytes_def nth_append)
  have "map ?b [a..<a + n] = name @ 0 # map ?b [Suc (a + length name)..<a + n]" by (simp only: l map_append m list.map z)
  moreover have "takeWhile (\<lambda>c. c \<noteq> 0) (name @ 0 # xs) = name" for xs using assms(1) by (induction name) auto
  ultimately show ?thesis by (simp only: text_in_def)
qed

lemma new_entry_self:
  assumes "0 \<notin> set name" "length name < 32"
  shows "FileName (new_entry t name start r dir) t = name" "StartingBlock (new_entry t name start r dir) t = start"
    "ReservedBlocks (new_entry t name start r dir) t = r" "FileSize (new_entry t name start r dir) t = 0"
    "new_entry t name start r dir (64 * t) = hd (name @ [0])"
proof -
  let ?d = "set64 (64 * t + 48) 0 (set64 (64 * t + 40) r (set64 (64 * t + 32) start dir))"
  show "FileName (new_entry t name start r dir) t = name"
    unfolding FileName_def new_entry_def using assms by (intro text_in_set_bytes) simp_all
  have n: "get64 (new_entry t name start r dir) a = get64 ?d a" if "64 * t + 32 \<le> a" for a
    using assms(2) that by (intro get64_cong) (simp add: new_entry_def set_bytes_def)
  have o: "get64 (set64 a w b) a' = get64 b a'" if "a + 8 \<le> a' \<or> a' + 8 \<le> a" for a a' w b
    using that by (intro get64_cong) (auto simp: set64_def)
  show "StartingBlock (new_entry t name start r dir) t = start" "ReservedBlocks (new_entry t name start r dir) t = r"
    "FileSize (new_entry t name start r dir) t = 0"
    by (simp_all add: StartingBlock_def ReservedBlocks_def FileSize_def n o)
  show "new_entry t name start r dir (64 * t) = hd (name @ [0])"
    by (cases name) (simp_all add: new_entry_def set_bytes_def)
qed

lemma first_byte_other:
  assumes "u \<noteq> t"
  shows "same_slot (dir(64 * t := c)) dir u"
  using assms by (auto simp: same_slot_def)

lemma set_size_other: "u \<noteq> t \<Longrightarrow> same_slot (set64 (64 * t + 48) n dir) dir u"
  by (cases "u < t") (auto simp: same_slot_def set64_def)

lemma set_size_self:
  assumes "\<exists>i<48. dir (64 * t + i) = 0"
  shows "FileName (set64 (64 * t + 48) n dir) t = FileName dir t" "StartingBlock (set64 (64 * t + 48) n dir) t = StartingBlock dir t"
    "ReservedBlocks (set64 (64 * t + 48) n dir) t = ReservedBlocks dir t" "FileSize (set64 (64 * t + 48) n dir) t = n"
    "set64 (64 * t + 48) n dir (64 * t) = dir (64 * t)"
proof -
  show "StartingBlock (set64 (64 * t + 48) n dir) t = StartingBlock dir t" "ReservedBlocks (set64 (64 * t + 48) n dir) t = ReservedBlocks dir t"
    unfolding StartingBlock_def ReservedBlocks_def by (rule get64_cong, simp add: set64_def)+
  show "FileSize (set64 (64 * t + 48) n dir) t = n" by (simp add: FileSize_def)
  show "set64 (64 * t + 48) n dir (64 * t) = dir (64 * t)" by (simp add: set64_def)
  let ?d = "set64 (64 * t + 48) n dir"
  obtain i where i: "i < 48" "dir (64 * t + i) = 0" using assms by blast
  have tw: "takeWhile P xs = takeWhile P ys" if "take k xs = take k ys" "k \<le> length xs" "k \<le> length ys" "\<exists>x\<in>set (take k xs). \<not> P x"
    for P :: "u8 \<Rightarrow> bool" and xs ys k
  proof -
    have "takeWhile P zs = takeWhile P (take k zs)" if "\<exists>x\<in>set (take k zs). \<not> P x" for zs
    proof -
      have "takeWhile P (take k zs @ drop k zs) = takeWhile P (take k zs)" using that by (metis takeWhile_append1)
      then show ?thesis by simp
    qed
    from this [of xs] this [of ys] that show ?thesis by metis
  qed
  show "FileName ?d t = FileName dir t"
    unfolding FileName_def text_in_def
  proof (rule tw [of 48])
    show "take 48 (map ?d [64 * t..<64 * t + 64]) = take 48 (map dir [64 * t..<64 * t + 64])"
      by (rule nth_equalityI) (simp_all add: set64_def)
    have "take 48 (map ?d [64 * t..<64 * t + 64]) ! i = 0" using i by (simp add: set64_def)
    then show "\<exists>x\<in>set (take 48 (map ?d [64 * t..<64 * t + 64])). \<not> x \<noteq> 0" using i(1) nth_mem [of i "take 48 (map ?d [64 * t..<64 * t + 64])"] by simp
  qed simp_all
qed

section \<open>The directory as a list of files\<close>

text \<open>The first \<open>n\<close> slots hold files, the next one is the end mark.\<close>

definition files_up_to :: "bytes \<Rightarrow> nat \<Rightarrow> bool" where
  "files_up_to dir n \<longleftrightarrow> n \<le> ENTRIES \<and> (\<forall>t<n. \<not> end_mark dir t \<and> \<not> deleted dir t) \<and> (n < ENTRIES \<longrightarrow> end_mark dir n)"

lemma findfile_from_eq:
  assumes "files_up_to dir n" "t \<le> n"
  shows "findfile_from name dir t = find_from (\<lambda>u. FileName dir u = name) t n"
  using assms(2)
proof (induction "n - t" arbitrary: t)
  case 0
  then have "t = n" by simp
  then show ?case using assms(1) by (subst findfile_from.simps, subst find_from.simps) (auto simp: files_up_to_def)
next
  case (Suc k)
  then have "t < n" "findfile_from name dir (Suc t) = find_from (\<lambda>u. FileName dir u = name) (Suc t) n" by simp_all
  then show ?case using assms(1) by (subst findfile_from.simps, subst find_from.simps) (auto simp: files_up_to_def)
qed

lemma findfile_eq: "files_up_to dir n \<Longrightarrow> findfile name dir = find_from (\<lambda>u. FileName dir u = name) 0 n"
  by (simp add: findfile_def findfile_from_eq)

lemma count_entries_eq:
  assumes "files_up_to dir n"
  shows "count_entries dir None 0 = (if n = ENTRIES then (0, None) else (n, Some n))"
proof -
  have "count_entries dir None t = (if n = ENTRIES then (0, None) else (n, Some n))" if "t \<le> n" for t
    using that
  proof (induction "n - t" arbitrary: t)
    case 0
    then show ?case using assms by (subst count_entries.simps) (auto simp: files_up_to_def)
  next
    case (Suc k)
    then have "t < n" "count_entries dir None (Suc t) = (if n = ENTRIES then (0, None) else (n, Some n))" by simp_all
    then show ?case using assms by (subst count_entries.simps) (auto simp: files_up_to_def)
  qed
  then show ?thesis by simp
qed

section \<open>The order of the files\<close>

definition first_block :: "bytes \<Rightarrow> nat \<Rightarrow> nat" where
  "first_block dir t = unat (StartingBlock dir t)"

definition end_block :: "bytes \<Rightarrow> nat \<Rightarrow> nat" where
  "end_block dir t = first_block dir t + unat (ReservedBlocks dir t)"

lemma cmp_le:
  assumes "\<not> deleted dir a" "\<not> deleted dir b" "first_block dir a < 2 ^ 31" "first_block dir b < 2 ^ 31"
  shows "StartingBlockCmp dir a b \<le> 0 \<longleftrightarrow> first_block dir a \<le> first_block dir b"
proof -
  let ?x = "StartingBlock dir a" and ?y = "StartingBlock dir b"
  have w: "(ucast (word_of_int k :: u64) :: u32) = word_of_int k" for k
    by (rule bit_word_eqI) (simp add: bit_simps)
  let ?k = "int (first_block dir a) - int (first_block dir b)"
  have "(ucast (?x - ?y) :: u32) = word_of_int ?k"
    unfolding word_sub_wi uint_nat first_block_def by (rule w)
  then have c: "sint (ucast (?x - ?y) :: u32) = signed_take_bit 31 ?k" by (simp only: signed_of_int) simp
  have "int (first_block dir a) < 2 ^ 31" "int (first_block dir b) < 2 ^ 31" using assms(3,4) by simp_all
  then have "- (2 ^ 31) \<le> ?k" "?k < 2 ^ 31" by linarith+
  then have "signed_take_bit 31 ?k = ?k" by (rule signed_take_bit_int_eq_self)
  then show ?thesis using assms(1,2) by (simp add: StartingBlockCmp_def c)
qed

lemma insert_slot_insort:
  assumes "\<forall>t\<in>set (x # xs). \<not> deleted dir t \<and> first_block dir t < 2 ^ 31"
  shows "insert_slot dir x xs = insort_key (first_block dir) x xs"
  using assms by (induction xs) (simp_all add: cmp_le)

lemma sorted_slots_sort:
  assumes "\<forall>t<n. \<not> deleted dir t \<and> first_block dir t < 2 ^ 31"
  shows "sorted_slots dir n = sort_key (first_block dir) [0..<n]"
proof -
  have "foldr (insert_slot dir) xs [] = sort_key (first_block dir) xs" if "set xs \<subseteq> {..<n}" for xs
    using that
  proof (induction xs)
    case (Cons x xs)
    then have "foldr (insert_slot dir) xs [] = sort_key (first_block dir) xs" by simp
    moreover have "\<forall>t\<in>set (x # sort_key (first_block dir) xs). \<not> deleted dir t \<and> first_block dir t < 2 ^ 31"
      using Cons.prems assms by auto
    ultimately show ?case by (simp add: insert_slot_insort)
  qed simp
  moreover have "set [0..<n] \<subseteq> {..<n}" by auto
  ultimately show ?thesis unfolding sorted_slots_def by blast
qed

section \<open>Gaps\<close>

definition dir_ok :: "nat \<Rightarrow> bytes \<Rightarrow> nat \<Rightarrow> bool" where
  "dir_ok lb dir n \<longleftrightarrow> files_up_to dir n \<and>
     (\<forall>t<n. 1 \<le> first_block dir t \<and> first_block dir t < end_block dir t \<and> end_block dir t \<le> lb \<and>
        unat (FileSize dir t) \<le> unat (ReservedBlocks dir t) * BLOCK \<and> (\<exists>i<32. dir (64 * t + i) = 0)) \<and>
     (\<forall>t<n. \<forall>u<n. t \<noteq> u \<longrightarrow> end_block dir t \<le> first_block dir u \<or> end_block dir u \<le> first_block dir t) \<and>
     inj_on (FileName dir) {..<n}"

text \<open>The blocks from \<open>x\<close> on touch a file.\<close>

definition taken :: "bytes \<Rightarrow> nat set \<Rightarrow> nat \<Rightarrow> nat \<Rightarrow> bool" where
  "taken dir ts x blocks \<longleftrightarrow> (\<exists>t\<in>ts. first_block dir t < x + blocks \<and> x < end_block dir t)"

definition lowest_gap :: "bytes \<Rightarrow> nat set \<Rightarrow> nat \<Rightarrow> nat \<Rightarrow> nat \<Rightarrow> nat \<Rightarrow> bool" where
  "lowest_gap dir ts p lb blocks g \<longleftrightarrow> p \<le> g \<and> g + blocks \<le> lb \<and> \<not> taken dir ts g blocks \<and>
     (\<forall>x. p \<le> x \<longrightarrow> x < g \<longrightarrow> taken dir ts x blocks)"

lemma block_sum:
  assumes "end_block dir t < 2 ^ 63"
  shows "StartingBlock dir t + ReservedBlocks dir t = of_nat (end_block dir t)"
  by (simp add: end_block_def first_block_def)

lemma taken_insert: "taken dir (insert t ts) x k \<longleftrightarrow> first_block dir t < x + k \<and> x < end_block dir t \<or> taken dir ts x k"
  by (simp add: taken_def)

text \<open>A gap in front of file \<open>t\<close> that is too small: the search goes on behind the file.\<close>

lemma gap_behind:
  assumes "p \<le> first_block dir t" "first_block dir t < end_block dir t" "first_block dir t < p + k"
  shows "lowest_gap dir ts (end_block dir t) lb k g \<Longrightarrow> lowest_gap dir (insert t ts) p lb k g"
    and "\<forall>x. end_block dir t \<le> x \<longrightarrow> x + k \<le> lb \<longrightarrow> taken dir ts x k \<Longrightarrow>
      \<forall>x. p \<le> x \<longrightarrow> x + k \<le> lb \<longrightarrow> taken dir (insert t ts) x k"
  using assms by (fastforce simp: lowest_gap_def taken_insert not_le)+

definition gap_found :: "bytes \<Rightarrow> nat set \<Rightarrow> nat \<Rightarrow> nat \<Rightarrow> nat \<Rightarrow> nat \<Rightarrow> bool" where
  "gap_found dir ts p lb k g \<longleftrightarrow>
     g = 0 \<and> (\<forall>x. p \<le> x \<longrightarrow> x + k \<le> lb \<longrightarrow> taken dir ts x k) \<or> 1 \<le> g \<and> lowest_gap dir ts p lb k g"

lemma fits_between:
  assumes "p \<le> unat w" "unat w < 2 ^ 63"
  shows "req \<le> w - of_nat p \<longleftrightarrow> unat req \<le> unat (w :: u64) - p"
proof -
  have p: "unat (of_nat p :: u64) = p" using assms by (simp add: unsigned_of_nat take_bit_nat_eq_self)
  then have "of_nat p \<le> w" using assms(1) by (simp add: word_le_nat_alt)
  then show ?thesis using p by (simp add: word_le_nat_alt unat_sub)
qed

lemma find_gap_finds:
  assumes "sorted_wrt (\<lambda>t u. end_block dir t \<le> first_block dir u) ts"
    and "\<forall>t\<in>set ts. \<not> deleted dir t \<and> p \<le> first_block dir t \<and> first_block dir t < end_block dir t \<and> end_block dir t \<le> lb"
    and "p \<le> lb" "lb < 2 ^ 63" "nb = of_nat (Suc lb)" "0 < unat req" "1 \<le> p"
  shows "gap_found dir (set ts) p lb (unat req) (unat (find_gap dir nb req ts (of_nat p)))"
  using assms(1,2,3,7)
proof (induction ts arbitrary: p)
  case Nil
  have u: "unat (of_nat p :: u64) = p" "unat (of_nat lb :: u64) = lb"
    using Nil assms(4) by (simp_all add: unsigned_of_nat take_bit_nat_eq_self)
  have "req \<le> of_nat lb - of_nat p \<longleftrightarrow> unat req \<le> lb - p" using fits_between [of p "of_nat lb" req] Nil assms(4) u by simp
  then show ?case using Nil.prems u assms(5) by (auto simp: gap_found_def lowest_gap_def taken_def)
next
  case (Cons t ts)
  let ?a = "first_block dir t" and ?e = "end_block dir t"
  have t: "\<not> deleted dir t" "p \<le> ?a" "?a < ?e" "?e \<le> lb" using Cons.prems(2) by simp_all
  have p: "unat (of_nat p :: u64) = p" using Cons.prems(3) assms(4) by (simp add: unsigned_of_nat take_bit_nat_eq_self)
  have fits: "req \<le> StartingBlock dir t - of_nat p \<longleftrightarrow> unat req \<le> ?a - p"
    using fits_between [of p "StartingBlock dir t" req] t assms(4) by (simp add: first_block_def)
  show ?case
  proof (cases "unat req \<le> ?a - p")
    case True
    have "?e \<le> first_block dir u" if "u \<in> set ts" for u using Cons.prems(1) that by simp
    then have "\<not> taken dir (set (t # ts)) p (unat req)" using True t(2,3) by (fastforce simp: taken_def)
    moreover have "find_gap dir nb req (t # ts) (of_nat p) = of_nat p" using True fits t(1) by simp
    ultimately show ?thesis using True p t Cons.prems(4) by (simp add: gap_found_def lowest_gap_def)
  next
    case False
    have "find_gap dir nb req (t # ts) (of_nat p) = find_gap dir nb req ts (of_nat ?e)"
      using False fits t(1,4) assms(4) by (simp add: block_sum)
    moreover have "gap_found dir (set ts) ?e lb (unat req) (unat (find_gap dir nb req ts (of_nat ?e)))"
      by (rule Cons.IH) (use Cons.prems t in auto)
    moreover have "?a < p + unat req" using False by linarith
    ultimately show ?thesis using gap_behind [OF t(2,3)] by (auto simp: gap_found_def)
  qed
qed

section \<open>Creating a file\<close>

lemma dir_okD:
  assumes "dir_ok lb dir n"
  shows "files_up_to dir n" "n \<le> ENTRIES"
    and "\<And>t. t < n \<Longrightarrow> \<not> deleted dir t \<and> \<not> end_mark dir t \<and> 1 \<le> first_block dir t \<and> first_block dir t < end_block dir t \<and>
      end_block dir t \<le> lb \<and> unat (FileSize dir t) \<le> unat (ReservedBlocks dir t) * BLOCK \<and> (\<exists>i<32. dir (64 * t + i) = 0)"
    and "\<And>t u. t < n \<Longrightarrow> u < n \<Longrightarrow> t \<noteq> u \<Longrightarrow> end_block dir t \<le> first_block dir u \<or> end_block dir u \<le> first_block dir t"
    and "inj_on (FileName dir) {..<n}"
  using assms by (simp_all add: dir_ok_def files_up_to_def)

lemma sorted_files:
  assumes "dir_ok lb dir n" "lb < 2 ^ 31"
  shows "set (sorted_slots dir n) = {..<n}" "sorted_wrt (\<lambda>t u. end_block dir t \<le> first_block dir u) (sorted_slots dir n)"
proof -
  note d = dir_okD [OF assms(1)]
  have "first_block dir t < 2 ^ 31" if "t < n" for t using d(3) [OF that] assms(2) by linarith
  then have s: "sorted_slots dir n = sort_key (first_block dir) [0..<n]" using d(3) by (intro sorted_slots_sort) blast
  then show st: "set (sorted_slots dir n) = {..<n}" by auto
  have "sorted (map f xs) \<Longrightarrow> distinct xs \<Longrightarrow> sorted_wrt (\<lambda>t u. f t \<le> f u \<and> t \<noteq> u) xs" for f :: "nat \<Rightarrow> nat" and xs
    by (induction xs) auto
  moreover have "sorted (map (first_block dir) (sorted_slots dir n))" "distinct (sorted_slots dir n)" by (simp_all add: s)
  ultimately have "sorted_wrt (\<lambda>t u. first_block dir t \<le> first_block dir u \<and> t \<noteq> u) (sorted_slots dir n)" by blast
  then show "sorted_wrt (\<lambda>t u. end_block dir t \<le> first_block dir u) (sorted_slots dir n)"
  proof (rule sorted_wrt_mono_rel [rotated])
    fix t u assume "t \<in> set (sorted_slots dir n)" "u \<in> set (sorted_slots dir n)" and o: "first_block dir t \<le> first_block dir u \<and> t \<noteq> u"
    then have "t < n" "u < n" using st by auto
    with d(4) [OF this] d(3) [of u] o show "end_block dir t \<le> first_block dir u" by fastforce
  qed
qed

definition good_name :: "u8 list \<Rightarrow> bool" where
  "good_name name \<longleftrightarrow> name \<noteq> [] \<and> 0 \<notin> set name \<and> hd name \<noteq> 1 \<and> length name < 32"

text \<open>The directory with a new file in slot \<open>n\<close>.\<close>

definition added :: "bytes \<Rightarrow> nat \<Rightarrow> u8 list \<Rightarrow> u64 \<Rightarrow> u64 \<Rightarrow> bytes" where
  "added dir n name start blocks =
     (let dir1 = new_entry n name start blocks dir in if n + 1 < ENTRIES then dir1(64 * (n + 1) := 0) else dir1)"

lemma added_other:
  assumes "good_name name" "u \<noteq> n" "u \<noteq> Suc n"
  shows "same_slot (added dir n name start blocks) dir u"
proof -
  have "same_slot (new_entry n name start blocks dir) dir u"
    using assms by (intro new_entry_other) (simp_all add: good_name_def)
  then show ?thesis using first_byte_other [of u "Suc n" "new_entry n name start blocks dir" 0] assms(3)
    by (simp add: added_def Let_def same_slot_def)
qed

lemma added_self:
  assumes "good_name name"
  shows "FileName (added dir n name start blocks) n = name" "StartingBlock (added dir n name start blocks) n = start"
    "ReservedBlocks (added dir n name start blocks) n = blocks" "FileSize (added dir n name start blocks) n = 0"
    "added dir n name start blocks (64 * n) = hd name" "\<exists>i<32. added dir n name start blocks (64 * n + i) = 0"
    "n + 1 < ENTRIES \<Longrightarrow> end_mark (added dir n name start blocks) (Suc n)"
proof -
  let ?d1 = "new_entry n name start blocks dir"
  have g: "0 \<notin> set name" "length name < 32" "name \<noteq> []" using assms by (simp_all add: good_name_def)
  have s: "same_slot (added dir n name start blocks) ?d1 n"
    using first_byte_other [of n "Suc n" ?d1 0] by (simp add: added_def Let_def same_slot_def)
  note e = new_entry_self [OF g(1,2), of n start blocks dir]
  show "FileName (added dir n name start blocks) n = name" "StartingBlock (added dir n name start blocks) n = start"
    "ReservedBlocks (added dir n name start blocks) n = blocks" "FileSize (added dir n name start blocks) n = 0"
    "added dir n name start blocks (64 * n) = hd name"
    using same_slotD [OF s] e g(3) by simp_all
  have "?d1 (64 * n + length name) = 0" using g(2) by (simp add: new_entry_def set_bytes_def nth_append)
  moreover have "length name < 64" using g(2) by simp
  ultimately have "added dir n name start blocks (64 * n + length name) = 0" using s by (simp only: same_slot_def)
  then show "\<exists>i<32. added dir n name start blocks (64 * n + i) = 0" using g(2) by blast
  show "n + 1 < ENTRIES \<Longrightarrow> end_mark (added dir n name start blocks) (Suc n)" by (simp add: added_def Let_def)
qed

lemma added_ok:
  assumes d: "dir_ok lb dir n" and n: "n < ENTRIES" and name: "good_name name" "name \<notin> FileName dir ` {..<n}"
    and gap: "lowest_gap dir {..<n} 1 lb (unat blocks) (unat start)" and b: "0 < unat blocks"
  shows "dir_ok lb (added dir n name start blocks) (Suc n)"
proof -
  let ?d = "added dir n name start blocks"
  note d' = dir_okD [OF d] and self = added_self [OF name(1), where dir = dir and n = n and start = start and blocks = blocks]
  have same: "same_slot ?d dir t" if "t < n" for t using that by (intro added_other [OF name(1)]) simp_all
  note old = same_slotD [OF same]
  have blocks: "first_block ?d t = first_block dir t" "end_block ?d t = end_block dir t" if "t < n" for t
    using old [OF that] by (simp_all add: first_block_def end_block_def)
  have new: "first_block ?d n = unat start" "end_block ?d n = unat start + unat blocks"
    using self by (simp_all add: first_block_def end_block_def)
  have g: "1 \<le> unat start" "unat start + unat blocks \<le> lb"
    "\<And>t. t < n \<Longrightarrow> unat start + unat blocks \<le> first_block dir t \<or> end_block dir t \<le> unat start"
    using gap by (fastforce simp: lowest_gap_def taken_def not_less)+
  have hd: "hd name \<noteq> 0" "hd name \<noteq> 1" using name(1) by (cases name; auto simp: good_name_def)+
  show ?thesis
    unfolding dir_ok_def
  proof (intro conjI)
    show "files_up_to ?d (Suc n)"
      using n d'(3) old(5) self(5,7) hd by (auto simp: files_up_to_def less_Suc_eq)
    show "\<forall>t<Suc n. 1 \<le> first_block ?d t \<and> first_block ?d t < end_block ?d t \<and> end_block ?d t \<le> lb \<and>
        unat (FileSize ?d t) \<le> unat (ReservedBlocks ?d t) * BLOCK \<and> (\<exists>i<32. ?d (64 * t + i) = 0)"
    proof (intro allI impI)
      fix t assume "t < Suc n"
      then consider "t < n" | "t = n" by linarith
      then show "1 \<le> first_block ?d t \<and> first_block ?d t < end_block ?d t \<and> end_block ?d t \<le> lb \<and>
        unat (FileSize ?d t) \<le> unat (ReservedBlocks ?d t) * BLOCK \<and> (\<exists>i<32. ?d (64 * t + i) = 0)"
      proof cases
        case 1
        obtain i where i: "i < 32" "dir (64 * t + i) = 0" using d'(3) [OF 1] by blast
        have "i < 64" using i(1) by simp
        then have "?d (64 * t + i) = 0" using same [OF 1] i(2) by (simp only: same_slot_def)
        then show ?thesis using d'(3) [OF 1] blocks [OF 1] old(3,4) [OF 1] i(1) by auto
      next
        case 2
        show ?thesis unfolding 2 using g b new self by simp
      qed
    qed
    show "\<forall>t<Suc n. \<forall>u<Suc n. t \<noteq> u \<longrightarrow> end_block ?d t \<le> first_block ?d u \<or> end_block ?d u \<le> first_block ?d t"
    proof (intro allI impI)
      fix t u assume "t < Suc n" "u < Suc n" "t \<noteq> u"
      then consider "t < n" "u < n" | "t < n" "u = n" | "t = n" "u < n" by linarith
      then show "end_block ?d t \<le> first_block ?d u \<or> end_block ?d u \<le> first_block ?d t"
      proof cases
        case 1
        then show ?thesis using d'(4) [OF 1 \<open>t \<noteq> u\<close>] blocks [OF 1(1)] blocks [OF 1(2)] by simp
      next
        case 2
        then show ?thesis using g(3) [OF 2(1)] blocks [OF 2(1)] new by auto
      next
        case 3
        then show ?thesis using g(3) [OF 3(2)] blocks [OF 3(2)] new by auto
      qed
    qed
    have "inj_on (FileName ?d) {..<n}" using d'(5) old(1) by (simp add: inj_on_def)
    moreover have "FileName ?d n \<notin> FileName ?d ` {..<n}" using name(2) self(1) old(1) by auto
    ultimately show "inj_on (FileName ?d) {..<Suc n}" by (simp add: lessThan_Suc)
  qed
qed

text \<open>The number of blocks for a size in MiB.\<close>

definition blocks_for :: "u64 \<Rightarrow> nat" where
  "blocks_for m = (unat m + 1) div 2"

lemma blocks_requested:
  assumes "unat m < 2 ^ 64 - 1"
  shows "unat ((if m mod 2 \<noteq> 0 then m + 1 else m) div 2) = blocks_for m"
proof -
  have one: "unat (m + 1) = unat m + 1" using assms by (simp add: unat_add_lem [THEN iffD1])
  have o: "m mod 2 \<noteq> 0 \<longleftrightarrow> unat m mod 2 = 1" by (simp add: word_unat_eq_iff unat_mod)
  show ?thesis
  proof (cases "unat m mod 2 = 1")
    case True
    then show ?thesis using o one by (simp add: unat_div blocks_for_def)
  next
    case False
    then have "even (unat m)" by presburger
    then have "(unat m + 1) div 2 = unat m div 2" by simp
    then show ?thesis using o False by (simp add: unat_div blocks_for_def)
  qed
qed

lemma create_cases:
  assumes d: "dir_ok lb (bm_dir s) n" and lb: "Suc lb = unat (bm_disksize s) div 2" "1 \<le> lb"
    and name: "good_name name" and m: "1 \<le> unat m" "unat m < 2 ^ 64 - 1"
  defines "dir \<equiv> bm_dir s" and "r \<equiv> bmfs_create name m s"
  shows "name \<in> FileName dir ` {..<n} \<Longrightarrow> r = (msg ''Error: File already exists.'', s)"
    and "name \<notin> FileName dir ` {..<n} \<Longrightarrow> n = ENTRIES \<Longrightarrow>
      r = (msg ''Creating new file...'' @ msg ''Cannot create file: no free directory entries.'', s)"
    and "name \<notin> FileName dir ` {..<n} \<Longrightarrow> n < ENTRIES \<Longrightarrow>
      snd r = s \<and> (\<forall>x. 1 \<le> x \<longrightarrow> x + blocks_for m \<le> lb \<longrightarrow> taken dir {..<n} x (blocks_for m)) \<or>
      (\<exists>start blocks. unat blocks = blocks_for m \<and> lowest_gap dir {..<n} 1 lb (blocks_for m) (unat start) \<and>
         r = (msg ''Creating new file...'' @ msg ''Complete'', flush_dir (s\<lparr>bm_dir := added dir n name start blocks\<rparr>)))"
proof -
  note d' = dir_okD [OF d, folded dir_def]
  have f: "findfile name dir = find_from (\<lambda>u. FileName dir u = name) 0 n" by (rule findfile_eq [OF d'(1)])
  have no: "findfile name dir = None \<longleftrightarrow> name \<notin> FileName dir ` {..<n}"
    unfolding f using find_from_NoneD [of "\<lambda>u. FileName dir u = name" 0 n] by (auto intro!: find_from_NoneI)
  have c: "count_entries dir None 0 = (if n = ENTRIES then (0, None) else (n, Some n))" by (rule count_entries_eq [OF d'(1)])
  define req where "req = (if m mod 2 \<noteq> 0 then m + 1 else m) div 2"
  define gp where "gp = find_gap dir (ucast (bm_disksize s div 2)) req (sorted_slots dir n) 1"
  let ?nb = "ucast (bm_disksize s div 2) :: u64"
  have req: "unat req = blocks_for m" unfolding req_def by (rule blocks_requested [OF m(2)])
  have rpos: "0 < unat req" unfolding req using m(1) by (simp add: blocks_for_def)
  have "unat (bm_disksize s) < 2 ^ LENGTH(32)" by (rule unsigned_less)
  then have l31: "lb < 2 ^ 31" using lb(1) by simp
  have "unat ?nb = Suc lb"
    using lb(1) l31 by (simp add: unsigned_ucast_eq unat_div take_bit_nat_eq_self)
  moreover have "?nb = of_nat (unat ?nb)" by simp
  ultimately have nb: "?nb = of_nat (Suc lb)" by (simp only:)
  note s = sorted_files [OF d [folded dir_def] l31]
  have "gap_found dir (set (sorted_slots dir n)) 1 lb (unat req) (unat gp)"
    using find_gap_finds [OF s(2) _ lb(2) _ nb rpos] d'(3) s(1) l31 by (simp add: gp_def)
  then have gap: "gp = 0 \<and> (\<forall>x. 1 \<le> x \<longrightarrow> x + blocks_for m \<le> lb \<longrightarrow> taken dir {..<n} x (blocks_for m)) \<or>
    gp \<noteq> 0 \<and> lowest_gap dir {..<n} 1 lb (blocks_for m) (unat gp)"
    unfolding req s(1) gap_found_def by (auto simp: unat_eq_0)
  show "name \<in> FileName dir ` {..<n} \<Longrightarrow> r = (msg ''Error: File already exists.'', s)"
    using no by (simp add: r_def bmfs_create_def Let_def dir_def)
  show "name \<notin> FileName dir ` {..<n} \<Longrightarrow> n = ENTRIES \<Longrightarrow>
      r = (msg ''Creating new file...'' @ msg ''Cannot create file: no free directory entries.'', s)"
    using no c by (simp add: r_def bmfs_create_def Let_def dir_def)
  assume new: "name \<notin> FileName dir ` {..<n}" and n: "n < ENTRIES"
  have e: "findfile name (bm_dir s) = None" "count_entries (bm_dir s) None 0 = (n, Some n)" using new n no c by (simp_all add: dir_def)
  show "snd r = s \<and> (\<forall>x. 1 \<le> x \<longrightarrow> x + blocks_for m \<le> lb \<longrightarrow> taken dir {..<n} x (blocks_for m)) \<or>
      (\<exists>start blocks. unat blocks = blocks_for m \<and> lowest_gap dir {..<n} 1 lb (blocks_for m) (unat start) \<and>
         r = (msg ''Creating new file...'' @ msg ''Complete'', flush_dir (s\<lparr>bm_dir := added dir n name start blocks\<rparr>)))"
  proof -
    have eq: "r = (if gp = 0
      then (msg ''Creating new file...'' @ text_of ''Cannot create file of size '' @
        signed_decimal (sint (if m mod 2 \<noteq> 0 then m + 1 else m)) @ msg '' MiB.'', s)
      else (msg ''Creating new file...'' @ msg ''Complete'', flush_dir (s\<lparr>bm_dir := added dir n name gp req\<rparr>)))"
      unfolding r_def bmfs_create_def gp_def req_def dir_def added_def Let_def e by simp
    then show ?thesis using gap req by (cases "gp = 0") auto
  qed
qed

section \<open>Commands on a disk\<close>

text \<open>Each run of the tool loads the directory from the disk and leaves it there.\<close>

datatype bmfs_op = Create "u8 list" u64 | Write "u8 list" "u8 list" | Delete "u8 list"

fun tool :: "bmfs_op \<Rightarrow> disk \<Rightarrow> disk" where
  "tool (Create name m) d = bm_disk (snd (bmfs_create name m (load_disk d)))"
| "tool (Write name bs) d = bm_disk (snd (bmfs_write (Some bs) name (load_disk d)))"
| "tool (Delete name) d = bm_disk (snd (bmfs_delete name (load_disk d)))"

definition dir_of :: "disk \<Rightarrow> bytes" where
  "dir_of d = bm_dir (load_disk d)"

definition stored :: "disk \<Rightarrow> u8 list \<Rightarrow> u8 list option" where
  "stored d name = map_option snd (snd (bmfs_read True name (load_disk d)))"

definition last_block :: "disk \<Rightarrow> nat" where
  "last_block d = d_size d div BLOCK - 1"

definition disk_ok :: "disk \<Rightarrow> nat \<Rightarrow> bool" where
  "disk_ok d n \<longleftrightarrow> dir_ok (last_block d) (dir_of d) n \<and> 2 * BLOCK \<le> d_size d \<and> d_size d < 2 ^ 52"

lemma dir_ok_cong:
  assumes "\<And>i. i < 4096 \<Longrightarrow> dir' i = dir i" "dir_ok lb dir n"
  shows "dir_ok lb dir' n"
proof -
  note d = dir_okD [OF assms(2)]
  have s: "same_slot dir' dir t" if "t < ENTRIES" for t using assms(1) that by (simp add: same_slot_def)
  have n: "t < n \<Longrightarrow> t < ENTRIES" for t using d(2) by linarith
  note e = same_slotD [OF s]
  have f: "files_up_to dir' n" using d(1) e(5) n by (auto simp: files_up_to_def)
  have z: "\<exists>i<32. dir' (64 * t + i) = 0" if "t < n" for t
  proof -
    obtain i where i: "i < 32" "dir (64 * t + i) = 0" using d(3) \<open>t < n\<close> by blast
    then have "64 * t + i < 4096" using n [OF that] by linarith
    then show ?thesis using i assms(1) by auto
  qed
  have b: "first_block dir' t = first_block dir t" "end_block dir' t = end_block dir t" if "t < n" for t
    using e(2,3) n [OF that] by (simp_all add: first_block_def end_block_def)
  have "inj_on (FileName dir') {..<n}" using d(5) e(1) n by (simp add: inj_on_def)
  then show ?thesis using f z b d(3,4) e(3,4) n by (simp add: dir_ok_def)
qed

lemma loaded_dir:
  "i < 4096 \<Longrightarrow> dir_of (bm_disk (flush_dir s)) i = bm_dir s i"
  by (simp add: dir_of_def load_disk_def flush_dir_def disk_read_def disk_write_def less_max_iff_disj)

lemma disksize_blocks:
  assumes "2 * BLOCK \<le> d_size d" "d_size d < 2 ^ 52"
  shows "Suc (last_block d) = unat (bm_disksize (load_disk d)) div 2" "1 \<le> last_block d" "last_block d < 2 ^ 31"
    "Suc (last_block d) * BLOCK \<le> d_size d"
proof -
  have "d_size d div 1048576 < 2 ^ 32" using assms(2) by (simp add: div_less_iff_less_mult)
  then have "unat (bm_disksize (load_disk d)) = d_size d div 1048576"
    by (simp add: load_disk_def unsigned_of_nat take_bit_nat_eq_self)
  then have u: "unat (bm_disksize (load_disk d)) div 2 = d_size d div BLOCK" by (simp add: div_mult2_eq [symmetric])
  have "2 \<le> d_size d div BLOCK" using assms(1) by (simp add: less_eq_div_iff_mult_less_eq)
  then show "Suc (last_block d) = unat (bm_disksize (load_disk d)) div 2" "1 \<le> last_block d"
    using u by (simp_all add: last_block_def)
  show "Suc (last_block d) * BLOCK \<le> d_size d" using \<open>2 \<le> d_size d div BLOCK\<close> by (simp add: last_block_def)
  have "d_size d div BLOCK < 2 ^ 31" using assms(2) by (simp add: div_less_iff_less_mult)
  then show "last_block d < 2 ^ 31" by (simp add: last_block_def)
qed

lemma findfile_iff:
  assumes "dir_ok lb dir n"
  shows "findfile name dir = Some t \<longleftrightarrow> t < n \<and> FileName dir t = name"
proof -
  note d = dir_okD [OF assms]
  have f: "findfile name dir = find_from (\<lambda>u. FileName dir u = name) 0 n" by (rule findfile_eq [OF d(1)])
  show ?thesis
  proof
    assume "findfile name dir = Some t"
    then show "t < n \<and> FileName dir t = name" using find_from_SomeD [of _ 0 n t] f by auto
  next
    assume t: "t < n \<and> FileName dir t = name"
    show "findfile name dir = Some t"
    proof (cases "findfile name dir")
      case None
      then show ?thesis using find_from_NoneD [of "\<lambda>u. FileName dir u = name" 0 n t] f t by simp
    next
      case (Some u)
      then have "u < n" "FileName dir u = name" using find_from_SomeD [of _ 0 n u] f by auto
      then show ?thesis using d(5) t Some by (auto simp: inj_on_def)
    qed
  qed
qed

section \<open>Contents\<close>

definition content :: "disk \<Rightarrow> nat \<Rightarrow> u8 list" where
  "content d t = map (\<lambda>i. d_byte d (first_block (dir_of d) t * BLOCK + i)) [0..<unat (FileSize (dir_of d) t)]"

lemma block_address:
  assumes "unat w < 2 ^ 31"
  shows "unat (w * 2097152 :: u64) = unat w * BLOCK"
proof -
  have "unat w < 2147483648" using assms by simp
  then have "unat w * 2097152 < 2147483648 * 2097152" by (rule mult_strict_right_mono) simp
  then have "unat w * 2097152 < 2 ^ 64" by simp
  then show ?thesis by (simp add: unat_word_ariths)
qed

lemma file_bounds:
  assumes "disk_ok d n" "t < n"
  shows "unat (StartingBlock (dir_of d) t * 2097152) = first_block (dir_of d) t * BLOCK"
    "unat (ReservedBlocks (dir_of d) t * 2097152) = unat (ReservedBlocks (dir_of d) t) * BLOCK"
    "first_block (dir_of d) t * BLOCK + unat (ReservedBlocks (dir_of d) t) * BLOCK \<le> last_block d * BLOCK"
    "BLOCK \<le> first_block (dir_of d) t * BLOCK"
    "first_block (dir_of d) t * BLOCK + unat (FileSize (dir_of d) t) \<le> d_size d"
proof -
  have ok: "dir_ok (last_block d) (dir_of d) n" and sz: "2 * BLOCK \<le> d_size d" "d_size d < 2 ^ 52"
    using assms(1) by (simp_all add: disk_ok_def)
  note b = disksize_blocks [OF sz]
  let ?a = "first_block (dir_of d) t" and ?r = "unat (ReservedBlocks (dir_of d) t)"
  have f: "1 \<le> ?a" "?a + ?r \<le> last_block d" "unat (FileSize (dir_of d) t) \<le> ?r * BLOCK"
    using dir_okD(3) [OF ok assms(2)] by (simp_all add: end_block_def)
  have "?a < 2 ^ 31" "?r < 2 ^ 31" using f(2) b(3) by linarith+
  then show "unat (StartingBlock (dir_of d) t * 2097152) = ?a * BLOCK" "unat (ReservedBlocks (dir_of d) t * 2097152) = ?r * BLOCK"
    by (simp_all only: first_block_def block_address)
  show e: "?a * BLOCK + ?r * BLOCK \<le> last_block d * BLOCK" using mult_le_mono1 [OF f(2), of BLOCK] by (simp only: distrib_right)
  show "BLOCK \<le> ?a * BLOCK" using f(1) by simp
  show "?a * BLOCK + unat (FileSize (dir_of d) t) \<le> d_size d" using e f(3) b(4) by simp
qed

lemma stored_eq:
  assumes "disk_ok d n"
  shows "stored d name = (case findfile name (dir_of d) of None \<Rightarrow> None | Some t \<Rightarrow> Some (content d t))"
proof (cases "findfile name (dir_of d)")
  case (Some t)
  then have t: "t < n" using findfile_iff assms by (metis disk_ok_def)
  have "file_content (load_disk d) t = content d t"
    using file_bounds(1,5) [OF assms t]
    by (auto simp: file_content_def content_def dir_of_def load_disk_def Let_def intro!: map_cong)
  then show ?thesis using Some by (simp add: stored_def bmfs_read_def dir_of_def Let_def)
qed (simp add: stored_def bmfs_read_def dir_of_def)

text \<open>What a name finds in a directory that agrees on the files but for one more.\<close>

lemma content_same:
  assumes "FileSize (dir_of d') t = FileSize (dir_of d) t" "first_block (dir_of d') t = first_block (dir_of d) t"
    and "\<And>i. i < unat (FileSize (dir_of d) t) \<Longrightarrow>
      d_byte d' (first_block (dir_of d) t * BLOCK + i) = d_byte d (first_block (dir_of d) t * BLOCK + i)"
  shows "content d' t = content d t"
  using assms by (simp add: content_def)

end
