(* ===== verification/Bmfs_Runs.thy ===== *)
theory Bmfs_Runs
  imports Bmfs_Files
begin

text \<open>
  Runs of the BMFS tool: what each command does to the contents of all files, which disks the
  commands reach, and where \<open>create\<close> puts a file.
\<close>

section \<open>One command\<close>

lemma flushed_bytes: "8192 \<le> i \<Longrightarrow> d_byte (bm_disk (flush_dir s)) i = d_byte (bm_disk s) i"
  by (simp add: flush_dir_def disk_write_def)

lemma flushed_size: "8192 \<le> d_size (bm_disk s) \<Longrightarrow> d_size (bm_disk (flush_dir s)) = d_size (bm_disk s)"
  by (simp add: flush_dir_def disk_write_def)

lemma loaded_slot: "t < ENTRIES \<Longrightarrow> same_slot (dir_of (bm_disk (flush_dir s))) (bm_dir s) t"
  unfolding same_slot_def by (intro allI impI, rule loaded_dir) simp

text \<open>A directory is replaced by one that is well-formed too; the files that it keeps keep their
  contents if their blocks were not written.\<close>

lemma flushed_ok:
  assumes "disk_ok d n" "dir_ok (last_block d) (bm_dir s) n'" "d_size (bm_disk s) = d_size d"
  shows "disk_ok (bm_disk (flush_dir s)) n'"
proof -
  have sz: "2 * BLOCK \<le> d_size d" "d_size d < 2 ^ 52" using assms(1) by (simp_all add: disk_ok_def)
  then have "d_size (bm_disk (flush_dir s)) = d_size d" using assms(3) by (simp add: flushed_size)
  moreover have "dir_ok (last_block d) (dir_of (bm_disk (flush_dir s))) n'"
    by (rule dir_ok_cong [OF _ assms(2)]) (rule loaded_dir)
  ultimately show ?thesis using sz by (simp add: disk_ok_def last_block_def)
qed

lemma kept_content:
  assumes "disk_ok d n" "t < n" "same_slot (bm_dir s) (dir_of d) t \<or> FileSize (bm_dir s) t = FileSize (dir_of d) t \<and>
      StartingBlock (bm_dir s) t = StartingBlock (dir_of d) t"
    and "\<And>i. first_block (dir_of d) t * BLOCK \<le> i \<Longrightarrow> i < end_block (dir_of d) t * BLOCK \<Longrightarrow> d_byte (bm_disk s) i = d_byte d i"
  shows "content (bm_disk (flush_dir s)) t = content d t"
proof -
  have ok: "dir_ok (last_block d) (dir_of d) n" using assms(1) by (simp add: disk_ok_def)
  have "t < ENTRIES" using dir_okD(2) [OF ok] assms(2) by linarith
  note l = same_slotD [OF loaded_slot [OF this], of s]
  have e: "FileSize (bm_dir s) t = FileSize (dir_of d) t" "StartingBlock (bm_dir s) t = StartingBlock (dir_of d) t"
    using assms(3) same_slotD(2,4) by blast+
  show ?thesis
  proof (rule content_same)
    show "FileSize (dir_of (bm_disk (flush_dir s))) t = FileSize (dir_of d) t"
      "first_block (dir_of (bm_disk (flush_dir s))) t = first_block (dir_of d) t"
      using e l by (simp_all add: first_block_def)
    fix i assume i: "i < unat (FileSize (dir_of d) t)"
    let ?a = "first_block (dir_of d) t * BLOCK + i"
    have "unat (FileSize (dir_of d) t) \<le> unat (ReservedBlocks (dir_of d) t) * BLOCK" using dir_okD(3) [OF ok assms(2)] by blast
    then have "?a < end_block (dir_of d) t * BLOCK" using i by (simp add: end_block_def distrib_right)
    moreover have "8192 \<le> ?a" using file_bounds(4) [OF assms(1,2)] by linarith
    ultimately show "d_byte (bm_disk (flush_dir s)) ?a = d_byte d ?a" using assms(4) by (simp add: flushed_bytes)
  qed
qed

text \<open>Only the size of one record is new.\<close>

lemma resized:
  assumes d: "dir_ok lb dir n" and t: "t < n"
  shows "FileName (set64 (64 * t + 48) k dir) u = FileName dir u" "StartingBlock (set64 (64 * t + 48) k dir) u = StartingBlock dir u"
    "ReservedBlocks (set64 (64 * t + 48) k dir) u = ReservedBlocks dir u" "set64 (64 * t + 48) k dir (64 * u) = dir (64 * u)"
    "FileSize (set64 (64 * t + 48) k dir) u = (if u = t then k else FileSize dir u)"
    "first_block (set64 (64 * t + 48) k dir) u = first_block dir u" "end_block (set64 (64 * t + 48) k dir) u = end_block dir u"
    "i < 48 \<Longrightarrow> set64 (64 * t + 48) k dir (64 * u + i) = dir (64 * u + i)"
proof -
  obtain j where "j < 32" "dir (64 * t + j) = 0" using dir_okD(3) [OF d t] by blast
  then have z: "\<exists>j<48. dir (64 * t + j) = 0" by (intro exI [of _ j]) simp
  note e = set_size_self [OF z, of k] same_slotD [OF set_size_other [of u t k dir]]
  show f: "FileName (set64 (64 * t + 48) k dir) u = FileName dir u" "StartingBlock (set64 (64 * t + 48) k dir) u = StartingBlock dir u"
    "ReservedBlocks (set64 (64 * t + 48) k dir) u = ReservedBlocks dir u" "set64 (64 * t + 48) k dir (64 * u) = dir (64 * u)"
    "FileSize (set64 (64 * t + 48) k dir) u = (if u = t then k else FileSize dir u)"
    using e by (cases "u = t"; simp)+
  then show "first_block (set64 (64 * t + 48) k dir) u = first_block dir u" "end_block (set64 (64 * t + 48) k dir) u = end_block dir u"
    by (simp_all only: first_block_def end_block_def)
  assume i: "i < 48"
  show "set64 (64 * t + 48) k dir (64 * u + i) = dir (64 * u + i)"
    using i by (cases "u < t"; cases "u = t") (auto simp: set64_def)
qed

lemma resized_ok:
  assumes d: "dir_ok lb dir n" and t: "t < n" and k: "unat k \<le> unat (ReservedBlocks dir t) * BLOCK"
  shows "dir_ok lb (set64 (64 * t + 48) k dir) n"
proof -
  note D = dir_okD [OF d] and r = resized [OF d t]
  have z: "\<exists>i<32. set64 (64 * t + 48) k dir (64 * u + i) = 0" if u: "u < n" for u
  proof -
    obtain i where i: "i < 32" "dir (64 * u + i) = 0" using D(3) [OF u] by blast
    then show ?thesis using r(8) [of i k u] by (intro exI [of _ i]) simp
  qed
  show ?thesis
    unfolding dir_ok_def
  proof (intro conjI)
    show "files_up_to (set64 (64 * t + 48) k dir) n" using D(1) by (simp add: files_up_to_def r(4))
    show "inj_on (FileName (set64 (64 * t + 48) k dir)) {..<n}" using D(5) by (simp add: inj_on_def r(1))
  qed (use D(3,4) z k in \<open>simp_all add: r\<close>)
qed

lemma findfile_same:
  assumes "dir_ok lb dir n" "dir_ok lb' dir' n" "\<And>u. u < n \<Longrightarrow> FileName dir' u = FileName dir u"
  shows "findfile name dir' = findfile name dir"
proof -
  have "findfile name dir' = Some u \<longleftrightarrow> findfile name dir = Some u" for u
    using findfile_iff [OF assms(1)] findfile_iff [OF assms(2)] assms(3) by metis
  then show ?thesis by (metis option.exhaust)
qed

lemma written_state:
  assumes ok: "disk_ok d n" and f: "findfile name (dir_of d) = Some t" and fit: "length bs \<le> unat (ReservedBlocks (dir_of d) t) * BLOCK"
    and len: "length bs < 2 ^ 31"
  shows "tool (Write name bs) d = bm_disk (flush_dir ((load_disk d)\<lparr>
      bm_disk := disk_write (first_block (dir_of d) t * BLOCK) (length bs) (\<lambda>i. bs ! i) d,
      bm_dir := set64 (64 * t + 48) (of_nat (length bs)) (dir_of d)\<rparr>))"
proof -
  have "t < n" using findfile_iff f ok by (metis disk_ok_def)
  note b = file_bounds [OF ok this]
  have "unat (of_nat (length bs) :: u64) = length bs" using len by (simp add: unsigned_of_nat take_bit_nat_eq_self)
  then have "\<not> ReservedBlocks (dir_of d) t * 2097152 < of_nat (length bs)"
    using fit b(2) by (simp add: word_less_nat_alt)
  then show ?thesis
    using f b(1) by (simp add: bmfs_write_def dir_of_def Let_def load_disk_def)
qed

lemma write_refused:
  assumes ok: "disk_ok d n" and len: "length bs < 2 ^ 31"
    and no: "\<And>t. findfile name (dir_of d) = Some t \<Longrightarrow> unat (ReservedBlocks (dir_of d) t) * BLOCK < length bs"
  shows "tool (Write name bs) d = d"
proof (cases "findfile name (dir_of d)")
  case (Some t)
  then have "t < n" using findfile_iff ok by (metis disk_ok_def)
  note b = file_bounds(2) [OF ok this]
  have "unat (of_nat (length bs) :: u64) = length bs" using len by (simp add: unsigned_of_nat take_bit_nat_eq_self)
  then have "ReservedBlocks (dir_of d) t * 2097152 < of_nat (length bs)"
    using no [OF Some] b by (simp add: word_less_nat_alt)
  then show ?thesis using Some by (simp add: bmfs_write_def dir_of_def Let_def) (simp add: load_disk_def)
qed (simp add: bmfs_write_def dir_of_def, simp add: load_disk_def)

text \<open>The bytes that are written to one file are not in the blocks of another.\<close>

lemma files_apart:
  assumes "disk_ok d n" "t < n" "u < n" "u \<noteq> t" "k \<le> unat (ReservedBlocks (dir_of d) t) * BLOCK"
  shows "end_block (dir_of d) u * BLOCK \<le> first_block (dir_of d) t * BLOCK \<or>
    first_block (dir_of d) t * BLOCK + k \<le> first_block (dir_of d) u * BLOCK"
proof -
  have "end_block (dir_of d) u \<le> first_block (dir_of d) t \<or> end_block (dir_of d) t \<le> first_block (dir_of d) u"
    using dir_okD(4) [of _ "dir_of d" n u t] assms(1-4) unfolding disk_ok_def by blast
  then show ?thesis
  proof
    assume "end_block (dir_of d) t \<le> first_block (dir_of d) u"
    from mult_le_mono1 [OF this, of BLOCK] show ?thesis using assms(5) by (simp add: end_block_def distrib_right)
  qed (blast intro: mult_le_mono1)
qed

text \<open>A write that fits: the file holds the bytes, the other files are as they were.\<close>

lemma write_fits:
  assumes ok: "disk_ok d n" and f: "findfile name (dir_of d) = Some t" and fit: "length bs \<le> unat (ReservedBlocks (dir_of d) t) * BLOCK"
    and len: "length bs < 2 ^ 31"
  shows "disk_ok (tool (Write name bs) d) n" "stored (tool (Write name bs) d) name = Some bs"
    "name' \<noteq> name \<Longrightarrow> stored (tool (Write name bs) d) name' = stored d name'"
proof -
  have dok: "dir_ok (last_block d) (dir_of d) n" and sz: "2 * BLOCK \<le> d_size d" "d_size d < 2 ^ 52"
    using ok by (simp_all add: disk_ok_def)
  have t: "t < n" "FileName (dir_of d) t = name" using findfile_iff [OF dok] f by blast+
  let ?a = "first_block (dir_of d) t * BLOCK" and ?k = "of_nat (length bs) :: u64"
  have k: "unat ?k = length bs" using len by (simp add: unsigned_of_nat take_bit_nat_eq_self)
  note D = dir_okD [OF dok] and r = resized [OF dok t(1), where k = ?k] and b = file_bounds [OF ok t(1)]
  define s where "s = (load_disk d)\<lparr>bm_disk := disk_write ?a (length bs) (\<lambda>i. bs ! i) d, bm_dir := set64 (64 * t + 48) ?k (dir_of d)\<rparr>"
  define d' where "d' = tool (Write name bs) d"
  have d': "d' = bm_disk (flush_dir s)" unfolding d'_def s_def by (rule written_state [OF ok f fit len])
  have s: "bm_dir s = set64 (64 * t + 48) ?k (dir_of d)" "d_byte (bm_disk s) i = (if ?a \<le> i \<and> i < ?a + length bs then bs ! (i - ?a) else d_byte d i)" for i
    by (simp_all add: s_def disk_write_def)
  have "?a + length bs \<le> d_size d" using fit b(3) disksize_blocks(4) [OF sz] by simp
  then have size: "d_size (bm_disk s) = d_size d" by (simp add: s_def disk_write_def)
  have "dir_ok (last_block d) (bm_dir s) n" unfolding s(1) by (rule resized_ok [OF dok t(1)]) (use fit k in simp)
  then have ok': "disk_ok d' n" unfolding d' by (intro flushed_ok [OF ok _ size])
  then have dok': "dir_ok (last_block d') (dir_of d') n" by (simp add: disk_ok_def)
  have load: "same_slot (dir_of d') (bm_dir s) u" if "u < n" for u
    using that D(2) unfolding d' by (intro loaded_slot) simp
  have find: "findfile x (dir_of d') = findfile x (dir_of d)" for x
    using same_slotD(1) [OF load] r(1) by (intro findfile_same [OF dok dok']) (simp add: s(1))
  have "content d' t = bs"
  proof (rule nth_equalityI)
    have l: "FileSize (dir_of d') t = ?k" "first_block (dir_of d') t = first_block (dir_of d) t"
      using same_slotD [OF load [OF t(1)]] r(2,5) by (simp_all add: s(1) first_block_def)
    then show "length (content d' t) = length bs" by (simp add: content_def k)
    fix i assume "i < length (content d' t)"
    then have i: "i < length bs" by (simp add: content_def l k)
    have "8192 \<le> ?a + i" using b(4) by linarith
    then have "d_byte d' (?a + i) = bs ! i" using i by (simp add: d' flushed_bytes s(2))
    then show "content d' t ! i = bs ! i" using i by (simp add: content_def l k)
  qed
  then have "stored d' name = Some bs" using stored_eq [OF ok'] find f by simp
  moreover have other: "content d' u = content d u" if u: "u < n" "u \<noteq> t" for u
    unfolding d'
  proof (rule kept_content [OF ok u(1)])
    show "same_slot (bm_dir s) (dir_of d) u \<or> FileSize (bm_dir s) u = FileSize (dir_of d) u \<and> StartingBlock (bm_dir s) u = StartingBlock (dir_of d) u"
      using r(2,5) u(2) by (simp add: s(1))
    fix i assume "first_block (dir_of d) u * BLOCK \<le> i" "i < end_block (dir_of d) u * BLOCK"
    then show "d_byte (bm_disk s) i = d_byte d i" using files_apart [OF ok t(1) u fit] by (auto simp: s(2))
  qed
  moreover have "stored d' name' = stored d name'" if "name' \<noteq> name"
  proof (cases "findfile name' (dir_of d)")
    case (Some u)
    then have "u < n" "u \<noteq> t" using findfile_iff [OF dok] t that by auto
    then show ?thesis using other Some by (simp add: stored_eq [OF ok'] stored_eq [OF ok] find)
  qed (simp add: stored_eq [OF ok'] stored_eq [OF ok] find)
  ultimately show "disk_ok (tool (Write name bs) d) n" "stored (tool (Write name bs) d) name = Some bs"
    "name' \<noteq> name \<Longrightarrow> stored (tool (Write name bs) d) name' = stored d name'"
    using ok' unfolding d'_def by blast+
qed

text \<open>A file is made: it is empty, the other files are as they were.\<close>

lemma create_fits:
  assumes ok: "disk_ok d n" and n: "n < ENTRIES" and name: "good_name name" "name \<notin> FileName (dir_of d) ` {..<n}"
    and gap: "lowest_gap (dir_of d) {..<n} 1 (last_block d) (unat blocks) (unat start)" and b: "0 < unat blocks"
  defines "s \<equiv> (load_disk d)\<lparr>bm_dir := added (dir_of d) n name start blocks\<rparr>"
  shows "disk_ok (bm_disk (flush_dir s)) (Suc n)" "stored (bm_disk (flush_dir s)) name = Some []"
    "name' \<noteq> name \<Longrightarrow> stored (bm_disk (flush_dir s)) name' = stored d name'"
    "u < n \<Longrightarrow> same_slot (dir_of (bm_disk (flush_dir s))) (dir_of d) u"
proof -
  have dok: "dir_ok (last_block d) (dir_of d) n" using ok by (simp add: disk_ok_def)
  note self = added_self [OF name(1)] and same = added_other [OF name(1)]
  have s: "bm_dir s = added (dir_of d) n name start blocks" "bm_disk s = d" by (simp_all add: s_def load_disk_def)
  let ?d = "bm_disk (flush_dir s)"
  have "dir_ok (last_block d) (bm_dir s) (Suc n)" unfolding s(1) by (rule added_ok [OF dok n name gap b])
  then show ok': "disk_ok ?d (Suc n)" by (intro flushed_ok [OF ok]) (simp_all add: s(2))
  then have dok': "dir_ok (last_block ?d) (dir_of ?d) (Suc n)" by (simp add: disk_ok_def)
  have load: "same_slot (dir_of ?d) (bm_dir s) u" if "u \<le> n" for u using that n by (intro loaded_slot) simp
  note l = same_slotD [OF load]
  have old: "same_slot (bm_dir s) (dir_of d) u" if "u < n" for u unfolding s(1) using that by (intro same) simp_all
  show "u < n \<Longrightarrow> same_slot (dir_of ?d) (dir_of d) u" using load [of u] old [of u] by (simp add: same_slot_def)
  have names: "FileName (dir_of ?d) n = name" "u < n \<Longrightarrow> FileName (dir_of ?d) u = FileName (dir_of d) u" for u
    using l(1) self(1) same_slotD(1) [OF old] by (simp_all add: s(1))
  have "findfile name (dir_of ?d) = Some n" using findfile_iff [OF dok'] names(1) by simp
  moreover have "content ?d n = []" using l(4) [of n] self(4) by (simp add: content_def s(1))
  ultimately show "stored ?d name = Some []" by (simp add: stored_eq [OF ok'])
  assume other: "name' \<noteq> name"
  have find: "findfile name' (dir_of ?d) = findfile name' (dir_of d)"
  proof -
    have "findfile name' (dir_of ?d) = Some u \<longleftrightarrow> findfile name' (dir_of d) = Some u" for u
      using names other findfile_iff [OF dok] findfile_iff [OF dok'] by (auto simp: less_Suc_eq)
    then show ?thesis by (metis option.exhaust)
  qed
  show "stored ?d name' = stored d name'"
  proof (cases "findfile name' (dir_of d)")
    case (Some u)
    then have u: "u < n" using findfile_iff [OF dok] by blast
    then have "content ?d u = content d u" by (intro kept_content [OF ok]) (use old in \<open>simp_all add: s(2)\<close>)
    then show ?thesis using Some by (simp add: stored_eq [OF ok'] stored_eq [OF ok] find)
  qed (simp add: stored_eq [OF ok'] stored_eq [OF ok] find)
qed

lemma stored_None: "disk_ok d n \<Longrightarrow> stored d name = None \<longleftrightarrow> name \<notin> FileName (dir_of d) ` {..<n}"
proof -
  assume ok: "disk_ok d n"
  then have "findfile name (dir_of d) = Some u \<longleftrightarrow> u < n \<and> FileName (dir_of d) u = name" for u
    using findfile_iff unfolding disk_ok_def by blast
  then have "findfile name (dir_of d) = None \<longleftrightarrow> name \<notin> FileName (dir_of d) ` {..<n}"
    by (cases "findfile name (dir_of d)") (auto, metis image_eqI lessThan_iff)
  then show ?thesis by (cases "findfile name (dir_of d)") (simp_all add: stored_eq [OF ok])
qed

text \<open>Everything that a run of \<open>create\<close> can do.\<close>

lemma create_step:
  assumes ok: "disk_ok d n" and name: "good_name name" and m: "1 \<le> unat m" "unat m < 2 ^ 64 - 1"
  defines "d' \<equiv> tool (Create name m) d"
  shows "d' = d \<and> (stored d name \<noteq> None \<or> n = ENTRIES \<or>
      (\<forall>x. 1 \<le> x \<longrightarrow> x + blocks_for m \<le> last_block d \<longrightarrow> taken (dir_of d) {..<n} x (blocks_for m))) \<or>
    disk_ok d' (Suc n) \<and> stored d name = None \<and> stored d' name = Some [] \<and> (\<forall>x. x \<noteq> name \<longrightarrow> stored d' x = stored d x) \<and>
      lowest_gap (dir_of d) {..<n} 1 (last_block d) (blocks_for m) (first_block (dir_of d') n) \<and>
      end_block (dir_of d') n = first_block (dir_of d') n + blocks_for m \<and> FileName (dir_of d') n = name \<and>
      (\<forall>u<n. same_slot (dir_of d') (dir_of d) u)"
proof -
  have dok: "dir_ok (last_block d) (bm_dir (load_disk d)) n" and sz: "2 * BLOCK \<le> d_size d" "d_size d < 2 ^ 52"
    using ok by (simp_all add: disk_ok_def dir_of_def)
  note b = disksize_blocks [OF sz]
  note c = create_cases [OF dok b(1,2) name m, folded dir_of_def]
  have same: "snd (bmfs_create name m (load_disk d)) = load_disk d \<Longrightarrow> d' = d" by (simp add: d'_def load_disk_def)
  show ?thesis
  proof (cases "name \<in> FileName (dir_of d) ` {..<n} \<or> n = ENTRIES")
    case True
    then have "snd (bmfs_create name m (load_disk d)) = load_disk d" using c(1,2) by (metis snd_conv)
    then show ?thesis using True same stored_None [OF ok, of name] by blast
  next
    case False
    then have new: "name \<notin> FileName (dir_of d) ` {..<n}" "n < ENTRIES" using dir_okD(2) [OF dok] by auto
    from c(3) [OF this] show ?thesis
    proof (elim disjE conjE exE)
      assume "snd (bmfs_create name m (load_disk d)) = load_disk d"
        "\<forall>x. 1 \<le> x \<longrightarrow> x + blocks_for m \<le> last_block d \<longrightarrow> taken (dir_of d) {..<n} x (blocks_for m)"
      then show ?thesis using same by blast
    next
      fix start blocks
      assume bl: "unat blocks = blocks_for m" and gap: "lowest_gap (dir_of d) {..<n} 1 (last_block d) (blocks_for m) (unat start)"
        and r: "bmfs_create name m (load_disk d) = (msg ''Creating new file...'' @ msg ''Complete'',
          flush_dir ((load_disk d)\<lparr>bm_dir := added (dir_of d) n name start blocks\<rparr>))"
      let ?s = "(load_disk d)\<lparr>bm_dir := added (dir_of d) n name start blocks\<rparr>"
      have d': "d' = bm_disk (flush_dir ?s)" by (simp add: d'_def r)
      have pos: "0 < unat blocks" using bl m(1) by (simp add: blocks_for_def)
      note f = create_fits [OF ok new(2) name new(1) gap [folded bl] pos, folded d']
      have l: "same_slot (dir_of d') (added (dir_of d) n name start blocks) n"
        using loaded_slot [OF new(2), of ?s] by (simp add: d')
      have "first_block (dir_of d') n = unat start" "end_block (dir_of d') n = unat start + blocks_for m" "FileName (dir_of d') n = name"
        using same_slotD [OF l] added_self [OF name] bl by (simp_all add: first_block_def end_block_def)
      then show ?thesis using f gap stored_None [OF ok] new(1) by simp
    qed
  qed
qed

section \<open>The disks of a run\<close>

definition formatted :: "disk \<Rightarrow> disk" where
  "formatted d = bm_disk (snd (bmfs_format (load_disk d)))"

lemma formatted_dir: "i < 4096 \<Longrightarrow> dir_of (formatted d) i = 0"
  by (simp add: formatted_def bmfs_format_def Let_def loaded_dir)

lemma formatted_ok:
  assumes "2 * BLOCK \<le> d_size d" "d_size d < 2 ^ 52"
  shows "disk_ok (formatted d) 0" "is_bmfs (load_disk (formatted d))" "d_size (formatted d) = d_size d"
proof -
  show size: "d_size (formatted d) = d_size d"
    using assms(1) by (simp add: formatted_def bmfs_format_def Let_def flush_dir_def disk_write_def load_disk_def)
  have "files_up_to (dir_of (formatted d)) 0" by (simp add: files_up_to_def formatted_dir)
  then show "disk_ok (formatted d) 0" using assms size by (simp add: disk_ok_def dir_ok_def)
  define info where "info = set_bytes 0 (text_of ''BMFS'') (\<lambda>i. if i < 512 then 0 else bm_info (load_disk d) i)"
  have i: "bm_info (load_disk (formatted d)) i = info i" if "i < 512" for i
    using that assms(1)
    by (simp add: load_disk_def disk_read_def formatted_def bmfs_format_def Let_def flush_dir_def disk_write_def info_def set_bytes_def)
  have "text_in (bm_info (load_disk (formatted d))) 0 512 = text_in info 0 512" by (rule text_in_cong) (simp add: i)
  also have "\<dots> = text_of ''BMFS''"
  proof -
    have "text_in info 0 512 = text_in (set_bytes 0 (text_of ''BMFS'' @ [0]) (\<lambda>i. if i < 512 then 0 else bm_info (load_disk d) i)) 0 512"
      by (rule text_in_cong) (auto simp: info_def set_bytes_def text_of_def nth_append less_Suc_eq)
    also have "\<dots> = text_of ''BMFS''" by (rule text_in_set_bytes) (simp_all add: text_of_def)
    finally show ?thesis .
  qed
  finally show "is_bmfs (load_disk (formatted d))" by (simp add: is_bmfs_def strcasecmp_eq_def)
qed

text \<open>What \<open>create\<close> and \<open>write\<close> leave of the block with the name of the file system.\<close>

lemma flushed_info:
  assumes "8192 \<le> d_size d" "d_size (bm_disk s) = d_size d" "\<And>i. i < 8192 \<Longrightarrow> d_byte (bm_disk s) i = d_byte d i"
  shows "bm_info (load_disk (bm_disk (flush_dir s))) = bm_info (load_disk d)"
  using assms by (auto simp: load_disk_def disk_read_def flush_dir_def disk_write_def fun_eq_iff)

lemma create_disk:
  "tool (Create name m) d = d \<or> (\<exists>dir. tool (Create name m) d = bm_disk (flush_dir ((load_disk d)\<lparr>bm_dir := dir\<rparr>)))"
proof -
  have "snd (bmfs_create name m s) = s \<or> (\<exists>dir. snd (bmfs_create name m s) = flush_dir (s\<lparr>bm_dir := dir\<rparr>))" for s
    by (simp add: bmfs_create_def Let_def split: prod.split option.split) blast
  from this [of "load_disk d"] show ?thesis by (auto simp: load_disk_def)
qed

lemma create_info:
  assumes "8192 \<le> d_size d"
  shows "bm_info (load_disk (tool (Create name m) d)) = bm_info (load_disk d)"
  using create_disk [of name m d] flushed_info [OF assms, of "(load_disk d)\<lparr>bm_dir := _\<rparr>"] by (auto simp: load_disk_def)

lemma create_size: "8192 \<le> d_size d \<Longrightarrow> d_size (tool (Create name m) d) = d_size d"
  using create_disk [of name m d] flushed_size [of "(load_disk d)\<lparr>bm_dir := _\<rparr>"] by (auto simp: load_disk_def)

lemma write_info:
  assumes ok: "disk_ok d n" and len: "length bs < 2 ^ 31"
  shows "bm_info (load_disk (tool (Write name bs) d)) = bm_info (load_disk d)"
proof (cases "\<exists>t. findfile name (dir_of d) = Some t \<and> length bs \<le> unat (ReservedBlocks (dir_of d) t) * BLOCK")
  case True
  then obtain t where f: "findfile name (dir_of d) = Some t" and fit: "length bs \<le> unat (ReservedBlocks (dir_of d) t) * BLOCK" by blast
  have t: "t < n" using findfile_iff f ok by (metis disk_ok_def)
  have sz: "2 * BLOCK \<le> d_size d" "d_size d < 2 ^ 52" using ok by (simp_all add: disk_ok_def)
  note b = file_bounds [OF ok t]
  have "first_block (dir_of d) t * BLOCK + length bs \<le> d_size d" using fit b(3) disksize_blocks(4) [OF sz] by simp
  then show ?thesis
    unfolding written_state [OF ok f fit len]
    by (intro flushed_info) (use sz(1) b(4) in \<open>simp_all add: disk_write_def\<close>)
next
  case False
  then have "tool (Write name bs) d = d" by (intro write_refused [OF ok len]) (auto simp: not_le)
  then show ?thesis by simp
qed

text \<open>
  The disks that \<open>format\<close>, \<open>create\<close> and \<open>write\<close> reach. A name has at most 31 bytes and its
  first byte is neither of the two marks; \<open>create\<close> gets a size of at least 1 MiB. What is
  written has less than 2 GiB, so that the counter of the copying loop does not overflow.
\<close>

inductive bmfs_run :: "disk \<Rightarrow> bool" where
  run_format: "2 * BLOCK \<le> d_size d \<Longrightarrow> d_size d < 2 ^ 52 \<Longrightarrow> bmfs_run (formatted d)"
| run_create: "bmfs_run d \<Longrightarrow> good_name name \<Longrightarrow> 1 \<le> unat m \<Longrightarrow> unat m < 2 ^ 64 - 1 \<Longrightarrow> bmfs_run (tool (Create name m) d)"
| run_write: "bmfs_run d \<Longrightarrow> length bs < 2 ^ 31 \<Longrightarrow> bmfs_run (tool (Write name bs) d)"

lemma write_step:
  assumes "disk_ok d n" "length bs < 2 ^ 31"
  shows "disk_ok (tool (Write name bs) d) n" "name' \<noteq> name \<Longrightarrow> stored (tool (Write name bs) d) name' = stored d name'"
proof -
  have "disk_ok (tool (Write name bs) d) n \<and> (name' \<noteq> name \<longrightarrow> stored (tool (Write name bs) d) name' = stored d name')"
  proof (cases "\<exists>t. findfile name (dir_of d) = Some t \<and> length bs \<le> unat (ReservedBlocks (dir_of d) t) * BLOCK")
    case True
    then show ?thesis using write_fits(1,3) [OF assms(1) _ _ assms(2)] by blast
  next
    case False
    then have "tool (Write name bs) d = d" by (intro write_refused [OF assms]) (auto simp: not_le)
    then show ?thesis using assms(1) by simp
  qed
  then show "disk_ok (tool (Write name bs) d) n" "name' \<noteq> name \<Longrightarrow> stored (tool (Write name bs) d) name' = stored d name'"
    by blast+
qed

lemma bmfs_run_ok: "bmfs_run d \<Longrightarrow> (\<exists>n. disk_ok d n) \<and> is_bmfs (load_disk d)"
proof (induction rule: bmfs_run.induct)
  case (run_format d)
  then show ?case using formatted_ok by blast
next
  case (run_create d name m)
  then obtain n where n: "disk_ok d n" by blast
  then have "8192 \<le> d_size d" by (simp add: disk_ok_def)
  moreover have "\<exists>n. disk_ok (tool (Create name m) d) n" using create_step [OF n run_create.hyps(2-4)] n by metis
  ultimately show ?case using run_create.IH create_info unfolding is_bmfs_def by metis
next
  case (run_write d bs name)
  then obtain n where n: "disk_ok d n" by blast
  then show ?case using run_write.IH write_step(1) [OF n run_write.hyps(2)] write_info [OF n run_write.hyps(2)]
    unfolding is_bmfs_def by metis
qed

text \<open>The commands of the program are these steps.\<close>

lemma main_create:
  assumes "env_disk env = Some d" "is_bmfs (load_disk d)" "1 \<le> host_atoi size_arg"
  shows "\<exists>out s. bmfs_main env [prog, disk_name, text_of ''create'', name, size_arg] = Some (0, out, s, None) \<and>
    bm_disk s = tool (Create name (word_of_int (host_atoi size_arg))) d"
  using assms by (simp add: bmfs_main_def run_command_def create_command_def strcasecmp_eq_def text_of_def lower_case_def Let_def split: prod.split)

lemma main_write:
  assumes "env_disk env = Some d" "is_bmfs (load_disk d)" "env_files env name = Some bs"
  shows "\<exists>out s. bmfs_main env [prog, disk_name, text_of ''write'', name] = Some (0, out, s, None) \<and> bm_disk s = tool (Write name bs) d"
  using assms by (simp add: bmfs_main_def run_command_def named_command_def strcasecmp_eq_def text_of_def lower_case_def Let_def split: prod.split)

lemma findfile_from_name: "findfile_from name dir t = Some u \<Longrightarrow> FileName dir u = name"
proof (induction name dir t rule: findfile_from.induct)
  case (1 name dir t)
  from 1(2) show ?case by (subst (asm) findfile_from.simps) (use 1(1) in \<open>auto split: if_splits\<close>)
qed

lemma main_read:
  assumes "env_disk env = Some d" "is_bmfs (load_disk d)" "env_can_create env" "stored d name = Some bs"
  shows "\<exists>out. bmfs_main env [prog, disk_name, text_of ''read'', name] = Some (0, out, load_disk d, Some (name, bs))"
proof -
  obtain t where t: "findfile name (bm_dir (load_disk d)) = Some t" using assms(4) by (cases "findfile name (bm_dir (load_disk d))") (simp_all add: stored_def bmfs_read_def)
  have "FileName (bm_dir (load_disk d)) t = name"
    using t by (auto simp: findfile_def dest: findfile_from_name)
  then show ?thesis using assms t
    by (simp add: bmfs_main_def run_command_def named_command_def strcasecmp_eq_def text_of_def lower_case_def Let_def stored_def bmfs_read_def)
qed

text \<open>A file that is made when there is a gap for it.\<close>

lemma created:
  assumes ok: "disk_ok d n" and new: "stored d name = None" "n \<noteq> ENTRIES" and name: "good_name name" and m: "1 \<le> unat m" "unat m < 2 ^ 64 - 1"
    and g: "1 \<le> x" "x + blocks_for m \<le> last_block d" "\<not> taken (dir_of d) {..<n} x (blocks_for m)"
  shows "disk_ok (tool (Create name m) d) (Suc n)" "lowest_gap (dir_of d) {..<n} 1 (last_block d) (blocks_for m) (first_block (dir_of (tool (Create name m) d)) n)"
    "end_block (dir_of (tool (Create name m) d)) n = first_block (dir_of (tool (Create name m) d)) n + blocks_for m"
    "findfile name (dir_of (tool (Create name m) d)) = Some n" "u < n \<Longrightarrow> same_slot (dir_of (tool (Create name m) d)) (dir_of d) u"
proof -
  let ?d = "tool (Create name m) d"
  show "u < n \<Longrightarrow> same_slot (dir_of ?d) (dir_of d) u" using create_step [OF ok name m] new g by blast
  show c: "disk_ok ?d (Suc n)" "lowest_gap (dir_of d) {..<n} 1 (last_block d) (blocks_for m) (first_block (dir_of ?d) n)"
    "end_block (dir_of ?d) n = first_block (dir_of ?d) n + blocks_for m"
    using create_step [OF ok name m] new g by blast+
  have "FileName (dir_of ?d) n = name" using create_step [OF ok name m] new g by blast
  then show "findfile name (dir_of ?d) = Some n" using findfile_iff [of _ "dir_of ?d" "Suc n"] c(1) unfolding disk_ok_def by blast
qed


text \<open>
  C11. On a disk that was formatted and then only written to with \<open>create\<close> and \<open>write\<close>,
  \<open>create\<close> keeps the directory well-formed: the files have different names and lie in disjoint
  blocks between the first and the last one. It refuses only a name that is there, a full
  directory or a size for which no gap is left. Otherwise the new file is empty, it gets the
  lowest gap that is large enough, in blocks of 2 MiB, and every other file is as it was.
\<close>

theorem bmfs_create_first_fit:
  assumes "bmfs_run d" "good_name name" "1 \<le> unat m" "unat m < 2 ^ 64 - 1"
  shows "\<exists>n. disk_ok d n \<and>
    (tool (Create name m) d = d \<and> (stored d name \<noteq> None \<or> n = ENTRIES \<or>
       (\<forall>x. 1 \<le> x \<longrightarrow> x + blocks_for m \<le> last_block d \<longrightarrow> taken (dir_of d) {..<n} x (blocks_for m))) \<or>
     disk_ok (tool (Create name m) d) (Suc n) \<and> stored d name = None \<and> stored (tool (Create name m) d) name = Some [] \<and>
       (\<forall>x. x \<noteq> name \<longrightarrow> stored (tool (Create name m) d) x = stored d x) \<and>
       lowest_gap (dir_of d) {..<n} 1 (last_block d) (blocks_for m) (first_block (dir_of (tool (Create name m) d)) n) \<and>
       end_block (dir_of (tool (Create name m) d)) n = first_block (dir_of (tool (Create name m) d)) n + blocks_for m \<and>
       FileName (dir_of (tool (Create name m) d)) n = name)"
proof -
  obtain n where "disk_ok d n" using bmfs_run_ok assms(1) by blast
  then show ?thesis using create_step [OF _ assms(2-4)] by blast
qed

definition blank_disk :: "nat \<Rightarrow> disk" where
  "blank_disk n = \<lparr>d_size = n, d_byte = \<lambda>_. 0\<rparr>"

lemma blank_run: "2 * BLOCK \<le> n \<Longrightarrow> n < 2 ^ 52 \<Longrightarrow> bmfs_run (formatted (blank_disk n))"
  by (rule run_format) (simp_all add: blank_disk_def)

text \<open>The first file on a formatted disk.\<close>

lemma empty_files: "disk_ok (formatted d) n \<Longrightarrow> n = 0"
proof (rule ccontr)
  assume ok: "disk_ok (formatted d) n" and n: "n \<noteq> 0"
  then have "\<not> end_mark (dir_of (formatted d)) 0" using dir_okD(3) [of _ _ n 0] by (auto simp: disk_ok_def)
  then show False by (simp add: formatted_dir)
qed

lemma first_file_fits:
  assumes "2 * BLOCK \<le> d_size d" "d_size d < 2 ^ 52" "1 + blocks_for m \<le> last_block (formatted d)"
  shows "stored (formatted d) name = None" "\<not> (\<forall>x. 1 \<le> x \<longrightarrow> x + blocks_for m \<le> last_block (formatted d) \<longrightarrow> taken dir {..<0} x (blocks_for m))"
  using stored_None [OF formatted_ok(1) [OF assms(1,2)]] assms(3) by (auto simp: taken_def)

theorem bmfs_create_first_fit_witness:
  "stored (tool (Create (text_of ''a'') 2) (formatted (blank_disk (6 * 1048576)))) (text_of ''a'') = Some []"
proof -
  let ?d = "formatted (blank_disk (6 * 1048576))"
  have sz: "2 * BLOCK \<le> d_size (blank_disk (6 * 1048576))" "d_size (blank_disk (6 * 1048576)) < 2 ^ 52" by (simp_all add: blank_disk_def)
  have g: "good_name (text_of ''a'')" by (simp add: good_name_def text_of_def)
  have "1 + blocks_for 2 \<le> last_block ?d"
    using formatted_ok(3) [OF sz] by (simp add: blocks_for_def last_block_def blank_disk_def)
  note f = first_file_fits [OF sz this]
  have "bmfs_run ?d" by (rule blank_run) simp_all
  from bmfs_create_first_fit [OF this g, of 2] f empty_files show ?thesis by fastforce
qed

text \<open>
  C12. What \<open>bmfs disk write name\<close> puts on a disk, \<open>bmfs disk read name\<close> gets back: if a file
  of that name was created with enough blocks, the command stores the bytes of the local file,
  reading then writes the same bytes to the local file of that name, and no other file on the
  disk changes.
\<close>

theorem bmfs_write_read:
  assumes "bmfs_run d" "findfile name (dir_of d) = Some t" "length bs \<le> unat (ReservedBlocks (dir_of d) t) * BLOCK" "length bs < 2 ^ 31"
    and "env_disk env = Some d" "env_files env name = Some bs" "env_can_create env'"
  shows "\<exists>out s. bmfs_main env [prog, disk_name, text_of ''write'', name] = Some (0, out, s, None) \<and> bmfs_run (bm_disk s) \<and>
    (\<exists>out'. bmfs_main (env'\<lparr>env_disk := Some (bm_disk s)\<rparr>) [prog', disk_name', text_of ''read'', name] =
       Some (0, out', load_disk (bm_disk s), Some (name, bs))) \<and>
    (\<forall>x. x \<noteq> name \<longrightarrow> stored (bm_disk s) x = stored d x)"
proof -
  obtain n where ok: "disk_ok d n" and b: "is_bmfs (load_disk d)" using bmfs_run_ok assms(1) by blast
  obtain out s where w: "bmfs_main env [prog, disk_name, text_of ''write'', name] = Some (0, out, s, None)" "bm_disk s = tool (Write name bs) d"
    using main_write [OF assms(5) b assms(6)] by blast
  note f = write_fits [OF ok assms(2-4), folded w(2)]
  have r: "bmfs_run (bm_disk s)" unfolding w(2) by (rule run_write [OF assms(1,4)])
  then have "is_bmfs (load_disk (bm_disk s))" using bmfs_run_ok by blast
  then have "\<exists>out'. bmfs_main (env'\<lparr>env_disk := Some (bm_disk s)\<rparr>) [prog', disk_name', text_of ''read'', name] =
       Some (0, out', load_disk (bm_disk s), Some (name, bs))"
    by (intro main_read) (simp_all add: f(2) assms(7))
  then show ?thesis using w(1) r f(3) by blast
qed

theorem bmfs_write_read_witness:
  "\<exists>s. (\<exists>out. bmfs_main \<lparr>env_disk = Some (tool (Create (text_of ''a'') 2) (formatted (blank_disk (6 * 1048576)))),
        env_files = (\<lambda>_. Some [104, 105]), env_can_create = True, env_malloc = True, env_room = 0, env_stdin = []\<rparr>
        [[], [], text_of ''write'', text_of ''a''] = Some (0, out, s, None)) \<and>
     (\<exists>out'. bmfs_main \<lparr>env_disk = Some (bm_disk s), env_files = (\<lambda>_. None), env_can_create = True, env_malloc = True, env_room = 0, env_stdin = []\<rparr>
        [[], [], text_of ''read'', text_of ''a''] = Some (0, out', load_disk (bm_disk s), Some (text_of ''a'', [104, 105])))"
proof -
  let ?d = "formatted (blank_disk (6 * 1048576))" and ?a = "text_of ''a''"
  have sz: "2 * BLOCK \<le> d_size (blank_disk (6 * 1048576))" "d_size (blank_disk (6 * 1048576)) < 2 ^ 52" by (simp_all add: blank_disk_def)
  have g: "good_name ?a" by (simp add: good_name_def text_of_def)
  have l: "1 + blocks_for 2 \<le> last_block ?d"
    using formatted_ok(3) [OF sz] by (simp add: blocks_for_def last_block_def blank_disk_def)
  have r: "bmfs_run ?d" by (rule blank_run) simp_all
  have c: "end_block (dir_of (tool (Create ?a 2) ?d)) 0 = first_block (dir_of (tool (Create ?a 2) ?d)) 0 + blocks_for 2"
    "findfile ?a (dir_of (tool (Create ?a 2) ?d)) = Some 0"
    by (rule created [OF formatted_ok(1) [OF sz] first_file_fits(1) [OF sz l] _ g, where x = 1]; use l in \<open>simp add: taken_def\<close>)+
  have r1: "bmfs_run (tool (Create ?a 2) ?d)" by (rule run_create [OF r g]) simp_all
  have u: "unat (ReservedBlocks (dir_of (tool (Create ?a 2) ?d)) 0) = 1" using c(1) by (simp add: end_block_def blocks_for_def)
  have "length [104, 105 :: u8] \<le> unat (ReservedBlocks (dir_of (tool (Create ?a 2) ?d)) 0) * BLOCK" unfolding u by simp
  from bmfs_write_read [OF r1 c(2) this, where env = "\<lparr>env_disk = Some (tool (Create ?a 2) ?d),
        env_files = (\<lambda>_. Some [104, 105]), env_can_create = True, env_malloc = True, env_room = 0, env_stdin = []\<rparr>" and
      env' = "\<lparr>env_disk = None, env_files = (\<lambda>_. None), env_can_create = True, env_malloc = True, env_room = 0, env_stdin = []\<rparr>"]
  show ?thesis by fastforce
qed

section \<open>After a deletion\<close>

lemma first_byte_fields:
  "StartingBlock (dir(64 * t := c)) t = StartingBlock dir t" "ReservedBlocks (dir(64 * t := c)) t = ReservedBlocks dir t"
  unfolding StartingBlock_def ReservedBlocks_def by (rule get64_cong, simp)+

text \<open>
  The first of two files is deleted. The entry of a deleted file is sorted behind the others, and
  the gap behind it is measured from its own old end, not from the end of the files before it.
\<close>

lemma gap_after_deletion:
  assumes "deleted dir 0" "\<not> deleted dir 1" "\<not> end_mark dir 0" "\<not> end_mark dir 1" "end_mark dir 2"
  shows "count_entries dir None 0 = (2, Some 0)" "sorted_slots dir 2 = [1, 0]"
    "findfile name dir = (if name = FileName dir 1 then Some 1 else None)"
proof -
  have "count_entries dir (Some 0) 1 = (2, Some 0)"
    using assms by (subst count_entries.simps, subst count_entries.simps) (simp add: numeral_2_eq_2)
  then show "count_entries dir None 0 = (2, Some 0)" using assms by (subst count_entries.simps) simp
  have "findfile_from name dir 2 = None" using assms by (subst findfile_from.simps) simp
  then have "findfile_from name dir 1 = (if name = FileName dir 1 then Some 1 else None)"
    using assms by (subst findfile_from.simps) (simp add: numeral_2_eq_2)
  then show "findfile name dir = (if name = FileName dir 1 then Some 1 else None)"
    unfolding findfile_def using assms by (subst findfile_from.simps) simp
  show "sorted_slots dir 2 = [1, 0]"
    using assms by (simp add: sorted_slots_def numeral_2_eq_2 StartingBlockCmp_def)
qed

declare tool.simps [simp del]

lemma lowest_gap_unique: "lowest_gap dir ts p lb k g \<Longrightarrow> lowest_gap dir ts p lb k h \<Longrightarrow> g = h"
  unfolding lowest_gap_def by (metis linorder_neqE_nat)

lemma disk_find: "disk_ok d n \<Longrightarrow> findfile x (dir_of d) = Some u \<longleftrightarrow> u < n \<and> FileName (dir_of d) u = x"
  unfolding disk_ok_def using findfile_iff by blast

text \<open>Files of 2 and 4 MiB on a formatted disk of 10 MiB.\<close>

lemma two_files:
  defines "d \<equiv> tool (Create (text_of ''b'') 4) (tool (Create (text_of ''a'') 2) (formatted (blank_disk (10485760))))"
  shows "disk_ok d 2" "findfile (text_of ''a'') (dir_of d) = Some 0" "findfile (text_of ''b'') (dir_of d) = Some 1"
    "first_block (dir_of d) 0 = 1" "end_block (dir_of d) 0 = 2" "first_block (dir_of d) 1 = 2" "end_block (dir_of d) 1 = 4"
    "d_size d = 10485760"
proof -
  let ?d0 = "formatted (blank_disk (10485760))" and ?a = "text_of ''a''" and ?b = "text_of ''b''"
  let ?d1 = "tool (Create ?a 2) ?d0"
  have sz: "2 * BLOCK \<le> d_size (blank_disk (10485760))" "d_size (blank_disk (10485760)) < 2 ^ 52" by (simp_all add: blank_disk_def)
  have g: "good_name ?a" "good_name ?b" by (simp_all add: good_name_def text_of_def)
  note ok0 = formatted_ok(1) [OF sz]
  have size: "d_size ?d0 = 10485760" "d_size ?d1 = 10485760" "d_size d = 10485760"
    using formatted_ok(3) [OF sz] by (simp_all add: blank_disk_def create_size d_def)
  then have l: "last_block ?d0 = 4" "last_block ?d1 = 4" by (simp_all add: last_block_def)
  have b: "blocks_for 2 = 1" "blocks_for 4 = 2" by (simp_all add: blocks_for_def)
  have n0: "stored ?d0 ?a = None" using stored_None [OF ok0] by simp
  note c1 = created [OF ok0 n0 _ g(1), of 2 1, unfolded l b, simplified, simplified taken_def, simplified]
  have s1: "first_block (dir_of ?d1) 0 = 1"
    by (rule lowest_gap_unique [OF c1(2)]) (simp add: lowest_gap_def taken_def)
  have e1: "end_block (dir_of ?d1) 0 = 2" using c1(3) s1 by simp
  have f1: "findfile x (dir_of ?d1) = Some u \<longleftrightarrow> u < 1 \<and> FileName (dir_of ?d1) u = x" for x u
    using disk_find [OF c1(1)] by simp
  have "FileName (dir_of ?d1) ` {..<1} = {?a}" using f1 [of ?a 0] c1(4) by auto
  then have n1: "stored ?d1 ?b = None" using stored_None [of ?d1 1 ?b] c1(1) by (simp add: text_of_def)
  have gap2: "lowest_gap (dir_of ?d1) {..<1} 1 4 2 2"
    using s1 e1 by (auto simp: lowest_gap_def taken_def)
  then have "\<not> taken (dir_of ?d1) {..<1} 2 2" by (simp add: lowest_gap_def)
  note c2 = created [OF c1(1) n1 _ g(2), of 4 2, unfolded l b, simplified, OF this [simplified], folded d_def]
  show "disk_ok d 2" using c2(1) by (simp add: numeral_2_eq_2)
  show "first_block (dir_of d) 1 = 2" using lowest_gap_unique [OF c2(2) gap2 [simplified]] by simp
  then show "end_block (dir_of d) 1 = 4" using c2(3) by simp
  show "findfile ?b (dir_of d) = Some 1" using c2(4) by simp
  have old: "FileName (dir_of d) 0 = ?a" "StartingBlock (dir_of d) 0 = StartingBlock (dir_of ?d1) 0"
    "ReservedBlocks (dir_of d) 0 = ReservedBlocks (dir_of ?d1) 0"
    using same_slotD [OF c2(5) [of 0]] f1 [of ?a 0] c1(4) by simp_all
  show "first_block (dir_of d) 0 = 1" "end_block (dir_of d) 0 = 2"
    using s1 e1 old by (simp_all add: first_block_def end_block_def)
  show "findfile ?a (dir_of d) = Some 0"
    using disk_find [OF \<open>disk_ok d 2\<close>] old(1) by simp
  show "d_size d = 10485760" by (rule size(3))
qed

lemma block_words:
  assumes "first_block dir t = a" "end_block dir t = e"
  shows "StartingBlock dir t = of_nat a" "ReservedBlocks dir t = of_nat (e - a)"
  using assms by (auto simp: first_block_def end_block_def)

text \<open>The directory when the file in slot 0 is gone.\<close>

lemma deleted_file:
  assumes ok: "disk_ok d 2" and f: "findfile name (dir_of d) = Some 0"
  defines "d' \<equiv> tool (Delete name) d"
  shows "deleted (dir_of d') 0" "StartingBlock (dir_of d') 0 = StartingBlock (dir_of d) 0" "ReservedBlocks (dir_of d') 0 = ReservedBlocks (dir_of d) 0"
    "same_slot (dir_of d') (dir_of d) 1" "\<not> deleted (dir_of d') 1" "\<not> end_mark (dir_of d') 1" "end_mark (dir_of d') 2" "d_size d' = d_size d"
proof -
  let ?s = "(load_disk d)\<lparr>bm_dir := (dir_of d)(0 := 1)\<rparr>"
  have d': "d' = bm_disk (flush_dir ?s)" using f by (simp add: d'_def tool.simps bmfs_delete_def dir_of_def)
  have l: "same_slot (dir_of d') ((dir_of d)(0 := 1)) t" if "t < 64" for t
    using loaded_slot [OF that, of ?s] by (simp add: d')
  have first: "same_slot ((dir_of d)(0 := 1)) (dir_of d) t" if "t \<noteq> 0" for t
    using that by (simp add: same_slot_def)
  have k: "same_slot (dir_of d') (dir_of d) t" if "t < 64" "t \<noteq> 0" for t
    using l [OF that(1)] first [OF that(2)] by (simp add: same_slot_def)
  have dok: "dir_ok (last_block d) (dir_of d) 2" and sz: "2 * BLOCK \<le> d_size d" using ok by (simp_all add: disk_ok_def)
  show "deleted (dir_of d') 0" using same_slotD(5) [OF l [of 0]] by simp
  show "StartingBlock (dir_of d') 0 = StartingBlock (dir_of d) 0" "ReservedBlocks (dir_of d') 0 = ReservedBlocks (dir_of d) 0"
    using same_slotD(2,3) [OF l [of 0]] first_byte_fields [of "dir_of d" 0 1] by simp_all
  show "same_slot (dir_of d') (dir_of d) 1" by (rule k) simp_all
  have "dir_of d' (64 * 1) = dir_of d (64 * 1)" "dir_of d' (64 * 2) = dir_of d (64 * 2)" by (rule same_slotD(5) [OF k], simp, simp)+
  then show "\<not> deleted (dir_of d') 1" "\<not> end_mark (dir_of d') 1" "end_mark (dir_of d') 2"
    using dir_okD(1) [OF dok] dir_okD(3) [OF dok, of 1] by (simp_all add: files_up_to_def)
  show "d_size d' = d_size d" using flushed_size [of ?s] sz unfolding d' by (simp add: load_disk_def)
qed

lemma create_after_deletion:
  assumes d: "deleted (dir_of d) 0" "\<not> deleted (dir_of d) 1" "\<not> end_mark (dir_of d) 1" "end_mark (dir_of d) 2" "d_size d = 10485760"
    and w: "StartingBlock (dir_of d) 0 = 1" "ReservedBlocks (dir_of d) 0 = 1" "StartingBlock (dir_of d) 1 = 2" "ReservedBlocks (dir_of d) 1 = 2"
    and name: "good_name name" "name \<noteq> FileName (dir_of d) 1"
  shows "tool (Create name 4) d = bm_disk (flush_dir ((load_disk d)\<lparr>bm_dir := new_entry 0 name 2 2 (dir_of d)\<rparr>))"
proof -
  note g = gap_after_deletion [OF d(1,2) _ d(3,4)]
  have c: "count_entries (dir_of d) None 0 = (2, Some 0)" "sorted_slots (dir_of d) 2 = [1, 0]" "findfile name (dir_of d) = None"
    using g d(1) name(2) by simp_all
  have size: "bm_disksize (load_disk d) = 10" by (simp add: load_disk_def d(5))
  have "find_gap (dir_of d) 5 2 [1, 0] 1 = 2" using d(1,2) w by (simp add: word_le_nat_alt)
  then have "snd (bmfs_create name 4 (load_disk d)) = flush_dir ((load_disk d)\<lparr>bm_dir := new_entry 0 name 2 2 (dir_of d)\<rparr>)"
    using c unfolding dir_of_def by (simp add: bmfs_create_def size Let_def del: find_gap.simps One_nat_def)
  then show ?thesis by (simp add: tool.simps)
qed

text \<open>
  After a deletion \<open>create\<close> can give out the blocks of a file that is still there. On a
  disk of 10 MiB with the files \<open>a\<close> of 2 MiB and \<open>b\<close> of 4 MiB, \<open>a\<close> is deleted; a new file \<open>c\<close>
  of 4 MiB is then put on the blocks of \<open>b\<close>: the entry of \<open>a\<close> is sorted behind \<open>b\<close>, and the
  end of the last file is taken from it.
\<close>

lemma bmfs_create_overlaps:
  "\<exists>t u. t \<noteq> u \<and>
    (let dir = dir_of (fold tool [Create (text_of ''a'') 2, Create (text_of ''b'') 4, Delete (text_of ''a''), Create (text_of ''c'') 4]
           (formatted (blank_disk 10485760)))
     in findfile (text_of ''b'') dir = Some t \<and> first_block dir t = 2 \<and> end_block dir t = 4 \<and>
       findfile (text_of ''c'') dir = Some u \<and> first_block dir u = 2 \<and> end_block dir u = 4)"
proof -
  define d where "d = tool (Create (text_of ''b'') 4) (tool (Create (text_of ''a'') 2) (formatted (blank_disk 10485760)))"
  define d3 where "d3 = tool (Delete (text_of ''a'')) d"
  let ?c = "text_of ''c''" and ?b = "text_of ''b''"
  note t = two_files [folded d_def] and del = deleted_file [OF two_files(1,2), folded d_def d3_def]
  note w = block_words [OF t(4,5)] block_words [OF t(6,7)] and k = same_slotD [OF del(4)]
  have b: "FileName (dir_of d) 1 = ?b" using disk_find [OF t(1)] t(3) by blast
  have name: "good_name ?c" "?c \<noteq> FileName (dir_of d3) 1" unfolding k(1) b by (simp_all add: good_name_def text_of_def)
  let ?s = "(load_disk d3)\<lparr>bm_dir := new_entry 0 ?c 2 2 (dir_of d3)\<rparr>"
  have e: "tool (Create ?c 4) d3 = bm_disk (flush_dir ?s)"
    by (rule create_after_deletion [OF del(1,5,6,7)]) (use t(8) del(2,3,8) w k name in simp_all)
  define dir where "dir = dir_of (bm_disk (flush_dir ?s))"
  have l: "same_slot dir (new_entry 0 ?c 2 2 (dir_of d3)) u" if "u < 64" for u
    using loaded_slot [OF that, of ?s] by (simp add: dir_def)
  have o: "same_slot dir (dir_of d3) u" if "u < 64" "u \<noteq> 0" for u
    using l [OF that(1)] new_entry_other [of ?c u 0 2 2 "dir_of d3"] that(2) by (simp add: same_slot_def text_of_def)
  have n: "FileName dir 0 = ?c" "StartingBlock dir 0 = 2" "ReservedBlocks dir 0 = 2" "dir 0 = hd (?c @ [0])"
    using same_slotD [OF l [of 0]] new_entry_self [of ?c 0 2 2 "dir_of d3"] by (simp_all add: text_of_def)
  have m: "FileName dir 1 = ?b" "StartingBlock dir 1 = 2" "ReservedBlocks dir 1 = 2" "\<not> deleted dir 1" "\<not> end_mark dir 1"
    using same_slotD [OF o [of 1]] k b w del(5,6) by simp_all
  have "findfile ?c dir = Some 0" "findfile ?b dir = Some 1"
    unfolding findfile_def using n m by (simp_all add: findfile_from.simps [of _ _ 0] findfile_from.simps [of _ _ "Suc 0"] text_of_def)
  then show ?thesis using n m
    by (intro exI [of _ 1] exI [of _ 0])
      (simp add: d_def [symmetric] d3_def [symmetric] e dir_def [symmetric] first_block_def end_block_def)
qed

end
